(* ===== verification/Go_Prelude.thy ===== *)
theory Go_Prelude
  imports Main "HOL-Library.Word" "HOL-Library.AList" "HOL-Library.Char_ord"
    "HOL-Library.List_Lexorder" "HOL-Library.Signed_Division" "HOL-Library.Multiset"
begin

text \<open>
  What the component theories share: the Go values and control effects the program relies on
  (results, panics, fixed-width integers, byte buffers, maps), and the generic lemmas about them.

  A Go \<^verbatim>\<open>byte\<close> and the elements of a Go \<^verbatim>\<open>string\<close> are 8-bit values, which is HOL's \<open>char\<close>.
  A Go \<^verbatim>\<open>map\<close> is an association list with distinct keys: its list order is one order in which
  \<^verbatim>\<open>range\<close> may visit it, and since theorems quantify over all such lists they hold for every order.
\<close>

named_theorems go_simps \<open>evaluation rules of the model's operations\<close>
named_theorems go_splits \<open>case splits of the model's result types\<close>

declare Let_def [simp]

section \<open>Results and panics\<close>

text \<open>
  A Go call either returns a value, returns an error, or panics. An error may be ignored by the
  caller (\<^verbatim>\<open>v, _ := f()\<close>), a panic may not, so the two are different outcomes.
  \<^verbatim>\<open>log.Fatal\<close> ends the process and is the panic \<open>FatalExit\<close>.
\<close>

datatype go_panic = IndexOutOfRange | NilDereference | TypeAssertion | DivideByZero
  | NegativeCount | SliceBounds | FatalExit | ExplicitPanic

datatype ('e, 'a) go_result = Ok 'a | Err 'e | Panic go_panic

lemmas [go_splits] = go_result.splits

fun bind_go :: "('e, 'a) go_result \<Rightarrow> ('a \<Rightarrow> ('e, 'b) go_result) \<Rightarrow> ('e, 'b) go_result" where
  "bind_go (Ok x) f = f x"
| "bind_go (Err e) f = Err e"
| "bind_go (Panic p) f = Panic p"

lemma bind_go_eq_Ok [simp]: "bind_go r f = Ok y \<longleftrightarrow> (\<exists>x. r = Ok x \<and> f x = Ok y)"
  by (cases r) auto

lemma bind_go_eq_Err: "bind_go r f = Err e \<longleftrightarrow> r = Err e \<or> (\<exists>x. r = Ok x \<and> f x = Err e)"
  by (cases r) auto

lemma bind_go_assoc: "bind_go (bind_go r f) g = bind_go r (\<lambda>x. bind_go (f x) g)"
  by (cases r) auto

text \<open>A loop that calls a fallible body for each element and appends what it returns.\<close>

fun map_go :: "('a \<Rightarrow> ('e, 'b) go_result) \<Rightarrow> 'a list \<Rightarrow> ('e, 'b list) go_result" where
  "map_go f [] = Ok []"
| "map_go f (x # xs) = bind_go (f x) (\<lambda>y. bind_go (map_go f xs) (\<lambda>ys. Ok (y # ys)))"

lemma map_go_Ok_iff: "map_go f xs = Ok ys \<longleftrightarrow> list_all2 (\<lambda>x y. f x = Ok y) xs ys"
  by (induction xs arbitrary: ys) (auto simp: list_all2_Cons1)

lemma map_go_append: "map_go f xs = Ok us \<Longrightarrow> map_go f ys = Ok vs \<Longrightarrow> map_go f (xs @ ys) = Ok (us @ vs)"
  by (auto simp: map_go_Ok_iff intro: list_all2_appendI)

lemma map_go_cong [fundef_cong]:
  "xs = ys \<Longrightarrow> (\<And>x. x \<in> set ys \<Longrightarrow> f x = g x) \<Longrightarrow> map_go f xs = map_go g ys"
  by (induction xs arbitrary: ys) auto

lemma map_go_all_Ok: "(\<And>x. x \<in> set xs \<Longrightarrow> f x = Ok (g x)) \<Longrightarrow> map_go f xs = Ok (map g xs)"
  by (induction xs) auto

lemma map_go_length: "map_go f xs = Ok ys \<Longrightarrow> length ys = length xs"
  by (auto simp: map_go_Ok_iff dest: list_all2_lengthD)

text \<open>A loop that threads a state through a fallible body.\<close>

fun fold_go :: "('a \<Rightarrow> 's \<Rightarrow> ('e, 's) go_result) \<Rightarrow> 'a list \<Rightarrow> 's \<Rightarrow> ('e, 's) go_result" where
  "fold_go f [] s = Ok s"
| "fold_go f (x # xs) s = bind_go (f x s) (fold_go f xs)"

lemma fold_go_invariant:
  assumes "fold_go f xs s = Ok s'" and "P s" and "\<And>x s s'. x \<in> set xs \<Longrightarrow> P s \<Longrightarrow> f x s = Ok s' \<Longrightarrow> P s'"
  shows "P s'"
  using assms by (induction xs arbitrary: s) auto

section \<open>Fixed-width integers and their little-endian bytes\<close>

type_synonym byte = char
type_synonym int64 = "64 word"
type_synonym int32 = "32 word"

text \<open>\<^verbatim>\<open>binary.Write\<close> and \<^verbatim>\<open>binary.Read\<close> with \<^verbatim>\<open>binary.LittleEndian\<close>, least significant byte first.\<close>

fun le_bytes :: "nat \<Rightarrow> nat \<Rightarrow> byte list" where
  "le_bytes 0 k = []"
| "le_bytes (Suc n) k = char_of (k mod 256) # le_bytes n (k div 256)"

fun le_nat :: "byte list \<Rightarrow> nat" where
  "le_nat [] = 0"
| "le_nat (b # bs) = of_char b + 256 * le_nat bs"

lemma length_le_bytes [simp]: "length (le_bytes n k) = n"
  by (induction n arbitrary: k) auto

lemma of_char_lt_256 [simp]: "(of_char c :: nat) < 256"
  by (metis char_of_eq_iff mod_less_divisor of_char_mod_256 zero_less_numeral)

lemma le_nat_bound: "le_nat bs < 256 ^ length bs"
proof (induction bs)
  case Nil
  then show ?case by simp
next
  case (Cons b bs)
  have "of_char b + 256 * le_nat bs < 256 * (le_nat bs + 1)"
    using of_char_lt_256 [of b] by simp
  also have "\<dots> \<le> 256 * 256 ^ length bs"
    using Cons.IH by simp
  finally show ?case by simp
qed

lemma le_nat_le_bytes [simp]: "le_nat (le_bytes n k) = k mod 256 ^ n"
proof (induction n arbitrary: k)
  case 0
  then show ?case by simp
next
  case (Suc n)
  have "k mod (256 * 256 ^ n) = 256 * (k div 256 mod 256 ^ n) + k mod 256"
    by (rule mod_mult2_eq)
  with Suc show ?case by simp
qed

lemma le_bytes_le_nat: "length bs = n \<Longrightarrow> le_bytes n (le_nat bs) = bs"
proof (induction bs arbitrary: n)
  case Nil
  then show ?case by simp
next
  case (Cons b bs)
  then obtain m where n: "n = Suc m" and m: "length bs = m" by auto
  have "(of_char b + 256 * le_nat bs) mod 256 = of_char b"
    using of_char_lt_256 [of b] by (simp del: of_char_lt_256)
  then have "char_of ((of_char b + 256 * le_nat bs) mod 256) = b"
    by (simp only: char_of_char)
  moreover have "(of_char b + 256 * le_nat bs) div 256 = le_nat bs"
    using of_char_lt_256 [of b] by simp
  ultimately show ?case using Cons.IH [OF m] by (simp add: n)
qed

definition enc64 :: "int64 \<Rightarrow> byte list" where
  "enc64 w = le_bytes 8 (unat w)"

definition dec64 :: "byte list \<Rightarrow> int64" where
  "dec64 bs = word_of_nat (le_nat bs)"

definition enc32 :: "int32 \<Rightarrow> byte list" where
  "enc32 w = le_bytes 4 (unat w)"

definition dec32 :: "byte list \<Rightarrow> int32" where
  "dec32 bs = word_of_nat (le_nat bs)"

lemma length_enc64 [simp]: "length (enc64 w) = 8"
  by (simp add: enc64_def)

lemma length_enc32 [simp]: "length (enc32 w) = 4"
  by (simp add: enc32_def)

lemma dec64_enc64 [simp]: "dec64 (enc64 w) = w"
proof -
  have "unat w mod 256 ^ 8 = unat w"
    using unsigned_less [of w, where ?'a = nat] by simp
  then show ?thesis by (simp add: dec64_def enc64_def)
qed

lemma dec32_enc32 [simp]: "dec32 (enc32 w) = w"
proof -
  have "unat w mod 256 ^ 4 = unat w"
    using unsigned_less [of w, where ?'a = nat] by simp
  then show ?thesis by (simp add: dec32_def enc32_def)
qed

lemma enc64_dec64: "length bs = 8 \<Longrightarrow> enc64 (dec64 bs) = bs"
proof -
  assume len: "length bs = 8"
  then have "le_nat bs < 256 ^ 8" using le_nat_bound [of bs] by simp
  then have "unat (word_of_nat (le_nat bs) :: int64) = le_nat bs"
    by (simp add: unat_of_nat)
  with len show ?thesis by (simp add: enc64_def dec64_def le_bytes_le_nat)
qed

section \<open>Byte buffers and files\<close>

text \<open>Reading \<open>n\<close> bytes from a \<^verbatim>\<open>bytes.Buffer\<close> fails when fewer are left (\<open>None\<close>).\<close>

definition read_bytes :: "nat \<Rightarrow> byte list \<Rightarrow> (byte list \<times> byte list) option" where
  "read_bytes n buf = (if length buf < n then None else Some (take n buf, drop n buf))"

lemma read_bytes_append [simp]: "length xs = n \<Longrightarrow> read_bytes n (xs @ ys) = Some (xs, ys)"
  by (simp add: read_bytes_def)

lemma read_bytes_append3 [simp]:
  "length xs + length ys = n \<Longrightarrow> read_bytes n (xs @ ys @ zs) = Some (xs @ ys, zs)"
  using read_bytes_append [of "xs @ ys" n zs] by simp

abbreviation nul :: byte where "nul \<equiv> CHR 0x00"

text \<open>\<^verbatim>\<open>File.WriteAt(data, off)\<close>: a gap before \<open>off\<close> is filled with zero bytes.\<close>

definition write_at :: "byte list \<Rightarrow> nat \<Rightarrow> byte list \<Rightarrow> byte list" where
  "write_at f off data =
     take off (f @ replicate (off - length f) nul) @ data @ drop (off + length data) f"

text \<open>\<^verbatim>\<open>File.ReadAt\<close> of \<open>n\<close> bytes: an error when the file ends first.\<close>

definition read_at :: "byte list \<Rightarrow> nat \<Rightarrow> nat \<Rightarrow> byte list option" where
  "read_at f off n = (if off + n \<le> length f then Some (take n (drop off f)) else None)"

lemma write_at_prefix_length [simp]: "length (take off (f @ replicate (off - length f) nul)) = off"
  by simp

lemma length_write_at: "length (write_at f off data) = max (length f) (off + length data)"
  by (simp add: write_at_def del: length_take take_append)

lemma nth_write_at:
  assumes "i < length f" and "i < off \<or> off + length data \<le> i"
  shows "write_at f off data ! i = f ! i"
proof (cases "i < off")
  case True
  with assms(1) show ?thesis
    by (simp add: write_at_def nth_append del: take_append)
next
  case False
  with assms have "\<not> i < off" and "\<not> i - off < length data" and "off + length data \<le> length f"
    by auto
  with assms(1) show ?thesis
    by (simp add: write_at_def nth_append del: take_append)
qed

lemma read_at_write_at_same:
  "length data = n \<Longrightarrow> read_at (write_at f off data) off n = Some data"
  by (simp add: read_at_def length_write_at) (simp add: write_at_def)

lemma read_at_write_at_other:
  assumes "off' + n \<le> off \<or> off + length data \<le> off'" and "off' + n \<le> length f"
  shows "read_at (write_at f off data) off' n = read_at f off' n"
proof -
  let ?g = "write_at f off data"
  have len: "off' + n \<le> length ?g" using assms(2) by (simp add: length_write_at)
  have "take n (drop off' ?g) = take n (drop off' f)"
  proof (rule nth_equalityI)
    show "length (take n (drop off' ?g)) = length (take n (drop off' f))"
      using len assms(2) by simp
  next
    fix i assume i: "i < length (take n (drop off' ?g))"
    then have "off' + i < length f" and "off' + i < off \<or> off + length data \<le> off' + i"
      using assms by auto
    with i len assms(2) show "take n (drop off' ?g) ! i = take n (drop off' f) ! i"
      by (simp add: nth_write_at)
  qed
  with len assms(2) show ?thesis by (simp add: read_at_def)
qed

section \<open>Strings\<close>

text \<open>\<^verbatim>\<open>strings.TrimRight(s, cutset)\<close> for a cutset of one byte.\<close>

definition trim_right :: "byte \<Rightarrow> byte list \<Rightarrow> byte list" where
  "trim_right c s = rev (dropWhile (\<lambda>x. x = c) (rev s))"

lemma trim_right_replicate [simp]: "trim_right c (s @ replicate n c) = trim_right c s"
proof -
  have "dropWhile (\<lambda>x. x = c) (replicate n c @ xs) = dropWhile (\<lambda>x. x = c) xs" for xs
    by (induction n) auto
  then show ?thesis by (simp add: trim_right_def)
qed

lemma trim_right_only [simp]: "trim_right c (replicate n c) = []"
  using trim_right_replicate [of c "[]" n] by (simp add: trim_right_def)

lemma length_trim_right: "length (trim_right c s) \<le> length s"
  using length_dropWhile_le [of "\<lambda>x. x = c" "rev s"] by (simp add: trim_right_def)

lemma trim_right_id: "s = [] \<or> last s \<noteq> c \<Longrightarrow> trim_right c s = s"
  by (cases s rule: rev_cases) (auto simp: trim_right_def)

lemma trim_right_last: "trim_right c s = [] \<or> last (trim_right c s) \<noteq> c"
  by (induction s rule: rev_induct) (auto simp: trim_right_def)

text \<open>Decimal digits of \<^verbatim>\<open>%d\<close>.\<close>

fun show_nat :: "nat \<Rightarrow> string" where
  "show_nat n = (if n < 10 then [char_of (48 + n)] else show_nat (n div 10) @ [char_of (48 + n mod 10)])"

declare show_nat.simps [simp del]

definition show_int :: "int \<Rightarrow> string" where
  "show_int i = (if i < 0 then CHR ''-'' # show_nat (nat (- i)) else show_nat (nat i))"

section \<open>Maps\<close>

lemma map_of_AList_update [simp]: "map_of (AList.update k v al) = (map_of al)(k \<mapsto> v)"
  by (simp add: update_conv')

lemma map_of_AList_delete [simp]: "map_of (AList.delete k al) = (map_of al)(k := None)"
  by (simp add: delete_conv')

lemma map_of_Some_in_set: "map_of al k = Some v \<Longrightarrow> (k, v) \<in> set al"
  by (rule map_of_SomeD)

lemma in_set_AList_delete: "(k', v) \<in> set (AList.delete k al) \<longleftrightarrow> k' \<noteq> k \<and> (k', v) \<in> set al"
  by (induction al) auto

lemma in_set_AList_update:
  "distinct (map fst al) \<Longrightarrow>
   (k', v') \<in> set (AList.update k v al) \<longleftrightarrow> (k' = k \<and> v' = v) \<or> (k' \<noteq> k \<and> (k', v') \<in> set al)"
proof (induction al)
  case Nil
  then show ?case by auto
next
  case (Cons p al)
  have "(k, w) \<notin> set al" if "fst p = k" for w
    using Cons.prems that by (force simp: image_iff)
  then show ?case using Cons by (cases p) auto
qed

lemma length_AList_update:
  "length (AList.update k v al) = (if k \<in> fst ` set al then length al else Suc (length al))"
  by (induction al) auto

lemma length_AList_delete_less: "k \<in> fst ` set al \<Longrightarrow> length (AList.delete k al) < length al"
proof (induction al)
  case Nil
  then show ?case by simp
next
  case (Cons p al)
  then show ?case using length_delete_le [of k al] by auto
qed

section \<open>Lists\<close>

text \<open>The first index from \<open>i\<close> on whose element satisfies \<open>P\<close>, the shape of the search loops.\<close>

fun find_index_from :: "('a \<Rightarrow> bool) \<Rightarrow> nat \<Rightarrow> 'a list \<Rightarrow> nat option" where
  "find_index_from P i [] = None"
| "find_index_from P i (x # xs) = (if P x then Some i else find_index_from P (Suc i) xs)"

lemma find_index_from_None_iff: "find_index_from P i xs = None \<longleftrightarrow> (\<forall>x \<in> set xs. \<not> P x)"
  by (induction xs arbitrary: i) auto

lemma find_index_from_SomeD:
  "find_index_from P i xs = Some j \<Longrightarrow>
   i \<le> j \<and> j < i + length xs \<and> P (xs ! (j - i)) \<and> (\<forall>k < j - i. \<not> P (xs ! k))"
proof (induction xs arbitrary: i)
  case Nil
  then show ?case by simp
next
  case (Cons x xs)
  show ?case
  proof (cases "P x")
    case True
    with Cons.prems show ?thesis by simp
  next
    case False
    with Cons.prems have rec: "find_index_from P (Suc i) xs = Some j" by simp
    note ih = Cons.IH [OF rec]
    then have j: "j - i = Suc (j - Suc i)" by linarith
    have "\<not> P ((x # xs) ! k)" if "k < j - i" for k
      using that False ih by (cases k) (auto simp: j)
    with ih j show ?thesis by auto
  qed
qed

lemma find_index_from_0_Some:
  assumes "find_index_from P 0 xs = Some j"
  shows "j < length xs" and "P (xs ! j)" and "\<And>k. k < j \<Longrightarrow> \<not> P (xs ! k)"
  using find_index_from_SomeD [OF assms] by auto

text \<open>The non-nil elements of a slice of pointers, in order.\<close>

fun somes :: "'a option list \<Rightarrow> 'a list" where
  "somes [] = []"
| "somes (None # xs) = somes xs"
| "somes (Some x # xs) = x # somes xs"

lemma somes_append [simp]: "somes (xs @ ys) = somes xs @ somes ys"
  by (induction xs rule: somes.induct) auto

lemma somes_replicate_None [simp]: "somes (replicate n None) = []"
  by (induction n) auto

lemma somes_map_Some [simp]: "somes (map Some xs) = xs"
  by (induction xs) auto

lemma length_somes: "length (somes xs) + count_list xs None = length xs"
  by (induction xs rule: somes.induct) auto

lemma length_somes_le: "length (somes xs) \<le> length xs"
  using length_somes [of xs] by simp

lemma in_set_somes: "x \<in> set (somes xs) \<longleftrightarrow> Some x \<in> set xs"
  by (induction xs rule: somes.induct) auto

lemma somes_full_iff: "length (somes xs) = length xs \<longleftrightarrow> None \<notin> set xs"
  using length_somes [of xs] count_list_0_iff [of xs None] by auto

lemma somes_update:
  assumes "i < length xs"
  shows "somes (xs[i := y]) = somes (take i xs) @ (case y of None \<Rightarrow> [] | Some v \<Rightarrow> [v]) @ somes (drop (Suc i) xs)"
proof -
  have "xs[i := y] = take i xs @ [y] @ drop (Suc i) xs"
    using assms by (simp add: upd_conv_take_nth_drop)
  then show ?thesis by (cases y) auto
qed

lemma somes_split:
  assumes "i < length xs"
  shows "somes xs = somes (take i xs) @ (case xs ! i of None \<Rightarrow> [] | Some v \<Rightarrow> [v]) @ somes (drop (Suc i) xs)"
  using somes_update [OF assms, of "xs ! i"] assms by simp

lemma mset_somes_insert:
  "i < length xs \<Longrightarrow> xs ! i = None \<Longrightarrow> mset (somes (xs[i := Some v])) = add_mset v (mset (somes xs))"
  using somes_split [of i xs] by (simp add: somes_update)

lemma mset_somes_delete:
  "i < length xs \<Longrightarrow> xs ! i = Some v \<Longrightarrow> mset (somes xs) = add_mset v (mset (somes (xs[i := None])))"
  using somes_split [of i xs] by (simp add: somes_update)

lemma length_somes_insert:
  "i < length xs \<Longrightarrow> xs ! i = None \<Longrightarrow> length (somes (xs[i := Some v])) = Suc (length (somes xs))"
  using arg_cong [OF mset_somes_insert, of i xs size v] by simp

lemma length_somes_delete:
  "i < length xs \<Longrightarrow> xs ! i = Some v \<Longrightarrow> Suc (length (somes (xs[i := None]))) = length (somes xs)"
  using arg_cong [OF mset_somes_delete, of i xs v size] by simp

end
