(* ===== verification/GoDB_Types.thy ===== *)
theory GoDB_Types
  imports Go_Prelude
begin

text \<open>
  \<^verbatim>\<open>godb/types.go\<close> and \<^verbatim>\<open>godb/transaction.go\<close>: the error codes, the comparison operators and their
  evaluation (\<^verbatim>\<open>evalPred\<close>), the page and string sizes, and the transaction identifiers.

  An error is its code; the formatted message of a \<^verbatim>\<open>GoDBError\<close> is not kept. The \<^verbatim>\<open>LIKE\<close> operator
  hands a pattern to the \<^verbatim>\<open>regexp\<close> package. The part of that language the operator produces from a
  pattern without metacharacters (anchors, literals and \<open>.*?\<close>) is modelled here; a pattern outside
  it is decided by the parameter \<open>rx\<close>.
\<close>

section \<open>Errors\<close>

datatype GoDBErrorCode = TupleNotFoundError | PageFullError | IncompatibleTypesError
  | TypeMismatchError | MalformedDataError | BufferPoolFullError | ParseError
  | DuplicateTableError | NoSuchTableError | AmbiguousNameError | IllegalOperationError
  | DeadlockError | IllegalTransactionError

datatype GoError = GoDBError GoDBErrorCode | PlainError string

type_synonym 'a result = "(GoError, 'a) go_result"

section \<open>Sizes\<close>

definition PageSize :: nat where "PageSize = 4096"
definition StringLength :: nat where "StringLength = 32"

lemmas sizes [simp] = PageSize_def StringLength_def

section \<open>Transaction identifiers\<close>

text \<open>
  \<^verbatim>\<open>NewTID\<close> returns a pointer to a fresh integer and pointers are compared by identity; the
  counter is never reused, so its value stands for the identity.
\<close>

type_synonym TransactionID = nat

definition NewTID :: "nat \<Rightarrow> TransactionID \<times> nat" where
  "NewTID nextTid = (nextTid, nextTid + 1)"

fun newTIDs :: "nat \<Rightarrow> nat \<Rightarrow> TransactionID list" where
  "newTIDs 0 nextTid = []"
| "newTIDs (Suc n) nextTid = (let (tid, next') = NewTID nextTid in tid # newTIDs n next')"

lemma newTIDs_upt: "newTIDs n k = [k..<k + n]"
  by (induction n arbitrary: k) (auto simp: NewTID_def upt_rec)

section \<open>Comparison operators\<close>

datatype BoolOp = OpGt | OpLt | OpGe | OpLe | OpEq | OpNeq | OpLike

definition BoolOpMap :: "(string \<times> BoolOp) list" where
  "BoolOpMap = [(''>'', OpGt), (''<'', OpLt), (''<='', OpLe), (''>='', OpGe),
     (''='', OpEq), (''<>'', OpNeq), (''!='', OpNeq), (''like'', OpLike)]"

text \<open>Indexing a Go map with a missing key gives the zero value, here \<open>OpGt\<close>.\<close>

definition BoolOpMap_get :: "string \<Rightarrow> BoolOp" where
  "BoolOpMap_get s = (case map_of BoolOpMap s of Some op \<Rightarrow> op | None \<Rightarrow> OpGt)"

subsection \<open>The regular expressions of LIKE\<close>

datatype rx_token = Lit char | LazyAny

definition is_plain :: "char \<Rightarrow> bool" where
  "is_plain c \<longleftrightarrow> (of_char c :: nat) < 128 \<and> c \<notin> set (CHR 0x5C # ''.+*?()|[]{}^$'')"

fun rx_parse :: "string \<Rightarrow> rx_token list option" where
  "rx_parse [] = None"
| "rx_parse (c # cs) =
     (if c = CHR ''$'' \<and> cs = [] then Some []
      else if take 3 (c # cs) = ''.*?'' then map_option ((#) LazyAny) (rx_parse (drop 2 cs))
      else if is_plain c then map_option ((#) (Lit c)) (rx_parse cs)
      else None)"

function rx_match :: "rx_token list \<Rightarrow> string \<Rightarrow> bool" where
  "rx_match [] s = (s = [])"
| "rx_match (Lit c # r) s = (case s of [] \<Rightarrow> False | x # xs \<Rightarrow> x = c \<and> rx_match r xs)"
| "rx_match (LazyAny # r) s =
     (rx_match r s \<or> (case s of [] \<Rightarrow> False | x # xs \<Rightarrow> x \<noteq> CHR 0x0A \<and> rx_match (LazyAny # r) xs))"
  by pat_completeness auto
termination
  by (relation "measure (\<lambda>(r, s). length r + length s)") auto

declare rx_match.simps(3) [simp del]

text \<open>\<^verbatim>\<open>regexp.MatchString(pattern, s)\<close>; the match flag is \<^verbatim>\<open>false\<close> for a pattern that does not compile.\<close>

definition MatchString :: "(string \<Rightarrow> string \<Rightarrow> bool) \<Rightarrow> string \<Rightarrow> string \<Rightarrow> bool" where
  "MatchString rx pat s =
     (case pat of
        [] \<Rightarrow> rx pat s
      | c # cs \<Rightarrow>
          if c = CHR ''^'' then (case rx_parse cs of Some toks \<Rightarrow> rx_match toks s | None \<Rightarrow> rx pat s)
          else rx pat s)"

text \<open>\<^verbatim>\<open>strings.Replace(s, "%", ".*?", -1)\<close>\<close>

definition replace_percent :: "string \<Rightarrow> string" where
  "replace_percent s = concat (map (\<lambda>c. if c = CHR ''%'' then ''.*?'' else [c]) s)"

definition likeString :: "(string \<Rightarrow> string \<Rightarrow> bool) \<Rightarrow> string \<Rightarrow> string \<Rightarrow> bool" where
  "likeString rx s1 regex = MatchString rx (replace_percent (''^'' @ regex @ ''$'')) s1"

text \<open>
  \<^verbatim>\<open>evalPred[T]\<close>: the order \<open>lt\<close> is that of the type \<^verbatim>\<open>T\<close>, and \<open>like\<close> is the \<^verbatim>\<open>OpLike\<close> branch at \<^verbatim>\<open>T\<close>
  (for \<^verbatim>\<open>int64\<close> the type assertion to \<^verbatim>\<open>string\<close> fails and the branch returns \<^verbatim>\<open>false\<close>).
\<close>

fun evalPred :: "('a \<Rightarrow> 'a \<Rightarrow> bool) \<Rightarrow> ('a \<Rightarrow> 'a \<Rightarrow> bool) \<Rightarrow> 'a \<Rightarrow> 'a \<Rightarrow> BoolOp \<Rightarrow> bool" where
  "evalPred lt like i1 i2 OpEq = (i1 = i2)"
| "evalPred lt like i1 i2 OpNeq = (i1 \<noteq> i2)"
| "evalPred lt like i1 i2 OpGt = lt i2 i1"
| "evalPred lt like i1 i2 OpGe = (lt i2 i1 \<or> i1 = i2)"
| "evalPred lt like i1 i2 OpLt = lt i1 i2"
| "evalPred lt like i1 i2 OpLe = (lt i1 i2 \<or> i1 = i2)"
| "evalPred lt like i1 i2 OpLike = like i1 i2"

definition evalPred_int64 :: "int64 \<Rightarrow> int64 \<Rightarrow> BoolOp \<Rightarrow> bool" where
  "evalPred_int64 = evalPred (\<lambda>a b. sint a < sint b) (\<lambda>_ _. False)"

definition evalPred_string :: "(string \<Rightarrow> string \<Rightarrow> bool) \<Rightarrow> string \<Rightarrow> string \<Rightarrow> BoolOp \<Rightarrow> bool" where
  "evalPred_string rx = evalPred (<) (likeString rx)"

section \<open>Properties\<close>

subsection \<open>The comparison operators\<close>

definition negateOp :: "BoolOp \<Rightarrow> BoolOp" where
  "negateOp op = (case op of OpGt \<Rightarrow> OpLe | OpLt \<Rightarrow> OpGe | OpGe \<Rightarrow> OpLt | OpLe \<Rightarrow> OpGt
     | OpEq \<Rightarrow> OpNeq | OpNeq \<Rightarrow> OpEq | OpLike \<Rightarrow> OpLike)"

text \<open>The operators mean what their names say for a strict linear order.\<close>

locale strict_linear =
  fixes lt :: "'a \<Rightarrow> 'a \<Rightarrow> bool"
  assumes irrefl: "\<not> lt x x"
    and trans: "lt x y \<Longrightarrow> lt y z \<Longrightarrow> lt x z"
    and total: "x \<noteq> y \<Longrightarrow> lt x y \<or> lt y x"
begin

lemma asym: "lt x y \<Longrightarrow> \<not> lt y x"
  using irrefl trans by blast

lemma eval_negate: "op \<noteq> OpLike \<Longrightarrow> evalPred lt like a b (negateOp op) = (\<not> evalPred lt like a b op)"
  using irrefl total asym by (cases op) (auto simp: negateOp_def)

lemma eval_trichotomy:
  "evalPred lt like a b OpLt \<or> evalPred lt like a b OpEq \<or> evalPred lt like a b OpGt"
  using total by auto

lemma not_lt_trans: "\<not> lt y x \<Longrightarrow> \<not> lt z y \<Longrightarrow> \<not> lt z x"
  using trans total by metis

end

interpretation int64_order: strict_linear "\<lambda>a b :: int64. sint a < sint b"
  by unfold_locales (auto simp: linorder_neq_iff [symmetric] dest: signed_word_eqI)

interpretation string_order: strict_linear "(<) :: string \<Rightarrow> string \<Rightarrow> bool"
  by unfold_locales auto

subsection \<open>LIKE\<close>

text \<open>What \<^verbatim>\<open>LIKE\<close> promises: \<^verbatim>\<open>%\<close> stands for any run of characters (of one line), the rest for itself.\<close>

inductive like :: "string \<Rightarrow> string \<Rightarrow> bool" where
  like_Nil: "like [] []"
| like_Any: "CHR 0x0A \<notin> set u \<Longrightarrow> like p s \<Longrightarrow> like (CHR ''%'' # p) (u @ s)"
| like_Char: "c \<noteq> CHR ''%'' \<Longrightarrow> like p s \<Longrightarrow> like (c # p) (c # s)"

inductive_cases like_NilE: "like [] s"
inductive_cases like_ConsE: "like (c # p) s"

definition tok_of :: "char \<Rightarrow> rx_token" where
  "tok_of c = (if c = CHR ''%'' then LazyAny else Lit c)"

lemma replace_percent_simps [simp]:
  "replace_percent [] = []"
  "replace_percent (c # cs) = (if c = CHR ''%'' then ''.*?'' else [c]) @ replace_percent cs"
  by (simp_all add: replace_percent_def)

lemma replace_percent_append [simp]: "replace_percent (a @ b) = replace_percent a @ replace_percent b"
  by (simp add: replace_percent_def)

lemma is_plain_not_meta:
  "is_plain c \<Longrightarrow> c \<noteq> CHR ''$'' \<and> c \<noteq> CHR ''.''"
  by (auto simp: is_plain_def)

lemma rx_parse_plain:
  "list_all is_plain p \<Longrightarrow> rx_parse (replace_percent p @ ''$'') = Some (map tok_of p)"
proof (induction p)
  case Nil
  then show ?case by simp
next
  case (Cons c p)
  then have "is_plain c" and "rx_parse (replace_percent p @ ''$'') = Some (map tok_of p)" by auto
  then show ?case
    using is_plain_not_meta [of c] by (auto simp: tok_of_def)
qed

lemma rx_match_LazyAny_iff:
  "rx_match (LazyAny # r) s \<longleftrightarrow> (\<exists>u v. s = u @ v \<and> CHR 0x0A \<notin> set u \<and> rx_match r v)"
proof (induction s)
  case Nil
  then show ?case by (simp add: rx_match.simps(3) [of r "[]"])
next
  case (Cons x xs)
  have "rx_match (LazyAny # r) (x # xs) \<longleftrightarrow>
      rx_match r (x # xs) \<or> (x \<noteq> CHR 0x0A \<and> (\<exists>u v. xs = u @ v \<and> CHR 0x0A \<notin> set u \<and> rx_match r v))"
    using Cons.IH by (simp add: rx_match.simps(3) [of r "x # xs"])
  also have "\<dots> \<longleftrightarrow> (\<exists>u v. x # xs = u @ v \<and> CHR 0x0A \<notin> set u \<and> rx_match r v)"
    (is "?L \<longleftrightarrow> (\<exists>u v. ?R u v)")
  proof
    assume ?L
    then consider "rx_match r (x # xs)"
      | u v where "x \<noteq> CHR 0x0A" "xs = u @ v" "CHR 0x0A \<notin> set u" "rx_match r v" by blast
    then show "\<exists>u v. ?R u v"
    proof cases
      case 1
      then have "?R [] (x # xs)" by simp
      then show ?thesis by blast
    next
      case 2
      then have "?R (x # u) v" by auto
      then show ?thesis by blast
    qed
  next
    assume "\<exists>u v. ?R u v"
    then obtain u v where "?R u v" by blast
    then show ?L by (cases u) auto
  qed
  finally show ?case .
qed

lemma rx_match_like: "rx_match (map tok_of p) s \<longleftrightarrow> like p s"
proof (induction p arbitrary: s)
  case Nil
  then show ?case by (auto intro: like.intros elim: like_NilE)
next
  case (Cons c p)
  show ?case
  proof (cases "c = CHR ''%''")
    case True
    with Cons.IH show ?thesis
      by (auto simp: tok_of_def rx_match_LazyAny_iff intro: like_Any elim!: like_ConsE)
  next
    case False
    with Cons.IH show ?thesis
      by (auto simp: tok_of_def split: list.splits intro: like_Char elim!: like_ConsE)
  qed
qed

lemma likeString_plain: "list_all is_plain p \<Longrightarrow> likeString rx s p \<longleftrightarrow> like p s"
  by (simp add: likeString_def MatchString_def rx_parse_plain rx_match_like)

text \<open>
  A pattern without regular-expression metacharacters, with \<^verbatim>\<open>%\<close> standing for any run of
  characters of one line, is matched by \<^verbatim>\<open>like\<close> exactly when the whole string is an instance of the
  pattern: the translation to an anchored regular expression is exact.
\<close>

theorem likeString_instances: "list_all is_plain p \<Longrightarrow> likeString rx s p \<longleftrightarrow> like p s"
  by (rule likeString_plain)

theorem likeString_instances_witness:
  "like ''da%se'' ''database'' \<and> \<not> like ''da%se'' ''datum''"
proof -
  have p: "list_all is_plain ''da%se''" by code_simp
  have "likeString (\<lambda>_ _. False) ''database'' ''da%se''" "\<not> likeString (\<lambda>_ _. False) ''datum'' ''da%se''"
    by code_simp+
  then show ?thesis using likeString_instances [OF p] by blast
qed

end
