(* ===== verification/Tuples.thy ===== *)
theory Tuples
  imports GoDB_Types
begin

text \<open>
  \<^verbatim>\<open>godb/tuple.go\<close>: field types, tuple descriptors and tuples; the lookup of a field by name
  (\<^verbatim>\<open>findFieldInTd\<close>), projection, joining, the fixed-width encoding of a tuple (\<^verbatim>\<open>writeTo\<close>,
  \<^verbatim>\<open>readTupleFrom\<close>) and its printing. \<^verbatim>\<open>Tuple.compareField\<close> needs expressions and is in \<open>Exprs\<close>.

  Slices are lists: a nil slice and an empty one are the same value. A function that returns a value
  together with an error returns a pair with an optional error where callers look at the value
  although there is an error.
\<close>

section \<open>Descriptors\<close>

datatype DBType = IntType | StringType | UnknownType

definition typeNames :: "DBType \<Rightarrow> string" where
  "typeNames t = (case t of IntType \<Rightarrow> ''int'' | StringType \<Rightarrow> ''string'' | UnknownType \<Rightarrow> '''')"

record FieldType =
  Fname :: string
  TableQualifier :: string
  Ftype :: DBType

record TupleDesc =
  Fields :: "FieldType list"

definition TupleDesc_equals :: "TupleDesc \<Rightarrow> TupleDesc \<Rightarrow> bool" where
  "TupleDesc_equals d1 d2 \<longleftrightarrow> d1 = d2"

text \<open>The loop of \<^verbatim>\<open>findFieldInTd\<close> at index \<open>i\<close> with the best match so far (\<open>-1\<close> for none).\<close>

fun findFieldLoop :: "FieldType \<Rightarrow> nat \<Rightarrow> int \<Rightarrow> FieldType list \<Rightarrow> int \<times> GoError option" where
  "findFieldLoop field i best [] =
     (if best \<noteq> -1 then (best, None) else (-1, Some (GoDBError IncompatibleTypesError)))"
| "findFieldLoop field i best (f # fs) =
     (if Fname f = Fname field \<and> (Ftype f = Ftype field \<or> Ftype field = UnknownType) then
        (if TableQualifier field = '''' \<and> best \<noteq> -1 then (0, Some (GoDBError AmbiguousNameError))
         else if TableQualifier f = TableQualifier field \<or> best = -1
         then findFieldLoop field (Suc i) (int i) fs
         else findFieldLoop field (Suc i) best fs)
      else findFieldLoop field (Suc i) best fs)"

definition findFieldInTd :: "FieldType \<Rightarrow> TupleDesc \<Rightarrow> int \<times> GoError option" where
  "findFieldInTd field desc = findFieldLoop field 0 (-1) (Fields desc)"

definition TupleDesc_copy :: "TupleDesc \<Rightarrow> TupleDesc" where
  "TupleDesc_copy td = \<lparr>Fields = Fields td\<rparr>"

definition setTableAlias :: "TupleDesc \<Rightarrow> string \<Rightarrow> TupleDesc" where
  "setTableAlias td alias = td\<lparr>Fields := map (\<lambda>f. f\<lparr>TableQualifier := alias\<rparr>) (Fields td)\<rparr>"

definition merge :: "TupleDesc \<Rightarrow> TupleDesc \<Rightarrow> TupleDesc" where
  "merge desc desc2 = \<lparr>Fields = Fields desc @ Fields desc2\<rparr>"

section \<open>Tuples\<close>

text \<open>A \<^verbatim>\<open>DBValue\<close> is an interface value: nil, or an \<^verbatim>\<open>IntField\<close> or \<^verbatim>\<open>StringField\<close>.\<close>

datatype DBValue = NilValue | IntField int64 | StringField string

record RecordID =
  PageNo :: nat
  SlotNo :: nat

text \<open>\<^verbatim>\<open>Tuple.Fields\<close> is \<open>TFields\<close>. The interface \<^verbatim>\<open>recordID\<close> is nil or a \<^verbatim>\<open>RecordID\<close>.\<close>

record Tuple =
  Desc :: TupleDesc
  TFields :: "DBValue list"
  Rid :: "RecordID option"

fun writeField :: "DBValue \<Rightarrow> byte list result" where
  "writeField (IntField v) = Ok (enc64 v)"
| "writeField (StringField v) =
     (if length v > StringLength then Panic NegativeCount
      else Ok (v @ replicate (StringLength - length v) nul))"
| "writeField NilValue = Err (PlainError ''unsupported field type'')"

definition writeTo :: "Tuple \<Rightarrow> byte list result" where
  "writeTo t = bind_go (map_go writeField (TFields t)) (\<lambda>bss. Ok (concat bss))"

fun readField :: "DBType \<Rightarrow> byte list \<Rightarrow> (DBValue \<times> byte list) result" where
  "readField IntType b =
     (case read_bytes 8 b of None \<Rightarrow> Panic FatalExit | Some (bs, rest) \<Rightarrow> Ok (IntField (dec64 bs), rest))"
| "readField StringType b =
     (case read_bytes StringLength b of None \<Rightarrow> Panic FatalExit
      | Some (bs, rest) \<Rightarrow> Ok (StringField (trim_right nul bs), rest))"
| "readField UnknownType b = Panic FatalExit"

fun readFields :: "FieldType list \<Rightarrow> byte list \<Rightarrow> (DBValue list \<times> byte list) result" where
  "readFields [] b = Ok ([], b)"
| "readFields (f # fs) b =
     bind_go (readField (Ftype f) b) (\<lambda>(v, b').
     bind_go (readFields fs b') (\<lambda>(vs, b''). Ok (v # vs, b'')))"

text \<open>\<^verbatim>\<open>readTupleFrom\<close> returns the tuple and what is left of the buffer.\<close>

definition readTupleFrom :: "byte list \<Rightarrow> TupleDesc \<Rightarrow> (Tuple \<times> byte list) result" where
  "readTupleFrom b desc =
     bind_go (readFields (Fields desc) b) (\<lambda>(vs, b').
       Ok (\<lparr>Desc = desc, TFields = vs, Rid = None\<rparr>, b'))"

definition Tuple_equals :: "Tuple \<Rightarrow> Tuple \<Rightarrow> bool" where
  "Tuple_equals t1 t2 \<longleftrightarrow> TupleDesc_equals (Desc t1) (Desc t2) \<and> TFields t1 = TFields t2"

definition joinTuples :: "Tuple option \<Rightarrow> Tuple option \<Rightarrow> Tuple result" where
  "joinTuples t1 t2 =
     (case t1 of
        None \<Rightarrow> (case t2 of
           None \<Rightarrow> Panic NilDereference
         | Some b \<Rightarrow> Ok \<lparr>Desc = Desc b, TFields = TFields b, Rid = None\<rparr>)
      | Some a \<Rightarrow> (case t2 of
           None \<Rightarrow> Ok \<lparr>Desc = Desc a, TFields = TFields a, Rid = None\<rparr>
         | Some b \<Rightarrow> Ok \<lparr>Desc = merge (Desc a) (Desc b), TFields = TFields a @ TFields b, Rid = None\<rparr>))"

datatype orderByState = OrderedLessThan | OrderedEqual | OrderedGreaterThan

text \<open>
  One round of the loop of \<^verbatim>\<open>Tuple.project\<close>: the error of \<^verbatim>\<open>findFieldInTd\<close> is dropped, an index of
  \<open>-1\<close> skips the field, any other index is read from both slices.
\<close>

fun projectLoop :: "Tuple \<Rightarrow> FieldType list \<Rightarrow> DBValue list \<Rightarrow> FieldType list \<Rightarrow> Tuple result" where
  "projectLoop t [] vs fts = Ok \<lparr>Desc = \<lparr>Fields = fts\<rparr>, TFields = vs, Rid = None\<rparr>"
| "projectLoop t (field # flds) vs fts =
     (let matchIdx = fst (findFieldInTd field (Desc t)) in
      if matchIdx = -1 then projectLoop t flds vs fts
      else if nat matchIdx < length (TFields t) \<and> nat matchIdx < length (Fields (Desc t)) then
        projectLoop t flds (vs @ [TFields t ! nat matchIdx]) (fts @ [Fields (Desc t) ! nat matchIdx])
      else Panic IndexOutOfRange)"

definition project :: "Tuple \<Rightarrow> FieldType list \<Rightarrow> Tuple result" where
  "project t flds = projectLoop t flds [] []"

section \<open>Printing\<close>

definition winWidth :: nat where "winWidth = 120"

definition fmtCol :: "string \<Rightarrow> nat \<Rightarrow> string result" where
  "fmtCol v ncols =
     (if ncols = 0 then Panic DivideByZero
      else
        let colWid = int (winWidth div ncols);
            nextLen = int (length v) + 3;
            remLen = colWid - nextLen
        in if remLen > 0 then
             let spacesRight = nat (remLen div 2);
                 spacesLeft = nat remLen - spacesRight
             in Ok (replicate spacesLeft CHR '' '' @ v @ replicate spacesRight CHR '' '' @ '' |'')
           else if 0 \<le> colWid - 4 \<and> colWid - 4 \<le> int (length v)
           then Ok ('' '' @ take (nat (colWid - 4)) v @ '' |'')
           else Panic SliceBounds)"

fun printLoop :: "bool \<Rightarrow> nat \<Rightarrow> nat \<Rightarrow> string list \<Rightarrow> string \<Rightarrow> string result" where
  "printLoop aligned n i [] outstr = Ok outstr"
| "printLoop aligned n i (s # ss) outstr =
     (if aligned
      then bind_go (fmtCol s n) (\<lambda>c. printLoop aligned n (Suc i) ss (outstr @ '' '' @ c))
      else printLoop aligned n (Suc i) ss (outstr @ (if i = 0 then '''' else '','') @ s))"

definition HeaderString :: "TupleDesc \<Rightarrow> bool \<Rightarrow> string result" where
  "HeaderString d aligned =
     printLoop aligned (length (Fields d)) 0
       (map (\<lambda>f. (if TableQualifier f \<noteq> '''' then TableQualifier f @ ''.'' else '''') @ Fname f) (Fields d))
       ''''"

fun valueString :: "DBValue \<Rightarrow> string" where
  "valueString NilValue = ''''"
| "valueString (IntField v) = show_int (sint v)"
| "valueString (StringField s) = s"

definition PrettyPrintString :: "Tuple \<Rightarrow> bool \<Rightarrow> string result" where
  "PrettyPrintString t aligned =
     printLoop aligned (length (TFields t)) 0 (map valueString (TFields t)) ''''"

section \<open>Lookup of a field by name\<close>

text \<open>
  The specification of \<^verbatim>\<open>findFieldInTd\<close>: the candidates are the fields of the same name and a
  compatible type; an unqualified name needs exactly one; a qualified name takes the last candidate of
  that table, or the first candidate when there is none of that table.
\<close>

definition fieldMatches :: "FieldType \<Rightarrow> FieldType \<Rightarrow> bool" where
  "fieldMatches field f \<longleftrightarrow>
     Fname f = Fname field \<and> (Ftype f = Ftype field \<or> Ftype field = UnknownType)"

definition candidates :: "FieldType \<Rightarrow> FieldType list \<Rightarrow> nat list" where
  "candidates field fs = filter (\<lambda>i. fieldMatches field (fs ! i)) [0..<length fs]"

definition sameTable :: "FieldType \<Rightarrow> FieldType list \<Rightarrow> nat list" where
  "sameTable field fs =
     filter (\<lambda>i. TableQualifier (fs ! i) = TableQualifier field) (candidates field fs)"

definition bestCandidate :: "FieldType \<Rightarrow> FieldType list \<Rightarrow> int" where
  "bestCandidate field fs =
     (if sameTable field fs \<noteq> [] then int (last (sameTable field fs))
      else if candidates field fs \<noteq> [] then int (hd (candidates field fs))
      else -1)"

definition isAmbiguous :: "FieldType \<Rightarrow> FieldType list \<Rightarrow> bool" where
  "isAmbiguous field fs \<longleftrightarrow> TableQualifier field = '''' \<and> 2 \<le> length (candidates field fs)"

lemma candidates_snoc:
  "candidates field (fs @ [f]) =
     candidates field fs @ (if fieldMatches field f then [length fs] else [])"
  by (auto simp: candidates_def nth_append intro!: filter_cong)

lemma sameTable_snoc:
  "sameTable field (fs @ [f]) =
     sameTable field fs @
     (if fieldMatches field f \<and> TableQualifier f = TableQualifier field then [length fs] else [])"
  by (auto simp: sameTable_def candidates_snoc nth_append candidates_def intro!: filter_cong)

lemma candidates_Nil [simp]: "candidates field [] = []"
  by (simp add: candidates_def)

lemma sameTable_Nil [simp]: "sameTable field [] = []"
  by (simp add: sameTable_def)

lemma sameTable_none: "candidates field fs = [] \<Longrightarrow> sameTable field fs = []"
  by (simp add: sameTable_def)

lemma bestCandidate_none_iff: "bestCandidate field fs = -1 \<longleftrightarrow> candidates field fs = []"
  by (auto simp: bestCandidate_def sameTable_def)

lemma candidates_append_length: "length (candidates field fs) \<le> length (candidates field (fs @ gs))"
  by (induction gs rule: rev_induct) (auto simp: candidates_snoc simp flip: append_assoc)

lemma findFieldLoop_best:
  "\<not> isAmbiguous field pre \<Longrightarrow>
   findFieldLoop field (length pre) (bestCandidate field pre) fs =
     (if isAmbiguous field (pre @ fs) then (0, Some (GoDBError AmbiguousNameError))
      else if candidates field (pre @ fs) = [] then (-1, Some (GoDBError IncompatibleTypesError))
      else (bestCandidate field (pre @ fs), None))"
proof (induction fs arbitrary: pre)
  case Nil
  then show ?case by (simp add: bestCandidate_none_iff)
next
  case (Cons f fs)
  let ?pre = "pre @ [f]"
  have step: "findFieldLoop field (length ?pre) (bestCandidate field ?pre) fs =
     (if isAmbiguous field (pre @ f # fs) then (0, Some (GoDBError AmbiguousNameError))
      else if candidates field (pre @ f # fs) = [] then (-1, Some (GoDBError IncompatibleTypesError))
      else (bestCandidate field (pre @ f # fs), None))" if "\<not> isAmbiguous field ?pre"
    using Cons.IH [OF that] by simp
  show ?case
  proof (cases "isAmbiguous field ?pre")
    case True
    then have "isAmbiguous field (pre @ f # fs)"
      using candidates_append_length [of field ?pre fs] by (auto simp: isAmbiguous_def)
    moreover from True Cons.prems have "fieldMatches field f" "candidates field pre \<noteq> []"
      by (auto simp: isAmbiguous_def candidates_snoc split: if_splits)
    ultimately show ?thesis
      using True by (auto simp: isAmbiguous_def fieldMatches_def bestCandidate_none_iff)
  next
    case False
    then have "\<not> (fieldMatches field f \<and> TableQualifier field = '''' \<and> bestCandidate field pre \<noteq> -1)"
      by (auto simp: isAmbiguous_def candidates_snoc bestCandidate_none_iff
          simp flip: length_greater_0_conv)
    moreover have "bestCandidate field ?pre =
        (if fieldMatches field f \<and>
            (TableQualifier f = TableQualifier field \<or> bestCandidate field pre = -1)
         then int (length pre) else bestCandidate field pre)"
      by (auto simp: bestCandidate_def candidates_snoc sameTable_snoc sameTable_none)
    ultimately show ?thesis
      using step [OF False] by (auto simp: fieldMatches_def)
  qed
qed

lemma findFieldInTd_spec:
  "findFieldInTd field desc =
     (if isAmbiguous field (Fields desc) then (0, Some (GoDBError AmbiguousNameError))
      else if candidates field (Fields desc) = [] then (-1, Some (GoDBError IncompatibleTypesError))
      else (bestCandidate field (Fields desc), None))"
  using findFieldLoop_best [of field "[]" "Fields desc"]
  by (simp add: findFieldInTd_def isAmbiguous_def bestCandidate_def)

lemma bestCandidate_in:
  "candidates field fs \<noteq> [] \<Longrightarrow> bestCandidate field fs \<in> int ` set (candidates field fs)"
proof -
  assume "candidates field fs \<noteq> []"
  moreover have "set (sameTable field fs) \<subseteq> set (candidates field fs)"
    by (auto simp: sameTable_def)
  ultimately show ?thesis
    by (auto simp: bestCandidate_def dest: last_in_set intro: hd_in_set)
qed

lemma findFieldInTd_index:
  assumes "findFieldInTd field desc = (i, None)"
  shows "0 \<le> i" and "nat i < length (Fields desc)" and "fieldMatches field (Fields desc ! nat i)"
proof -
  from assms have "candidates field (Fields desc) \<noteq> []" and i: "i = bestCandidate field (Fields desc)"
    by (auto simp: findFieldInTd_spec split: if_splits)
  from bestCandidate_in [OF this(1)] i obtain k
    where "i = int k" and "k \<in> set (candidates field (Fields desc))" by auto
  then show "0 \<le> i" and "nat i < length (Fields desc)" and "fieldMatches field (Fields desc ! nat i)"
    by (auto simp: candidates_def)
qed

section \<open>Encoding\<close>

text \<open>
  A value fits a column when it has the column's type and, for a string, at most \<^verbatim>\<open>StringLength\<close>
  bytes of which the last is not zero; the encoding pads with zeros and decoding strips them.
\<close>

fun valueFits :: "DBType \<Rightarrow> DBValue \<Rightarrow> bool" where
  "valueFits IntType (IntField v) = True"
| "valueFits StringType (StringField s) = (length s \<le> StringLength \<and> (s = [] \<or> last s \<noteq> nul))"
| "valueFits _ _ = False"

definition tupleFits :: "TupleDesc \<Rightarrow> Tuple \<Rightarrow> bool" where
  "tupleFits desc t \<longleftrightarrow> list_all2 (\<lambda>f v. valueFits (Ftype f) v) (Fields desc) (TFields t)"

fun fieldSize :: "DBType \<Rightarrow> nat" where
  "fieldSize IntType = 8"
| "fieldSize StringType = StringLength"
| "fieldSize UnknownType = 0"

lemma writeField_fits:
  "valueFits ty v \<Longrightarrow> \<exists>bs. writeField v = Ok bs \<and> length bs = fieldSize ty \<and>
     (\<forall>rest. readField ty (bs @ rest) = Ok (v, rest))"
  by (cases "(ty, v)" rule: valueFits.cases) (auto simp: trim_right_id)

text \<open>Without the condition on the last byte a string still comes back up to its trailing zeros.\<close>

lemma readField_writeField_string:
  "length s \<le> StringLength \<Longrightarrow> \<exists>bs. writeField (StringField s) = Ok bs \<and>
     readField StringType (bs @ rest) = Ok (StringField (trim_right nul s), rest)"
  by auto

lemma map_writeField_fits:
  "list_all2 (\<lambda>f v. valueFits (Ftype f) v) fs vs \<Longrightarrow>
   \<exists>bss. map_go writeField vs = Ok bss \<and>
     length (concat bss) = sum_list (map (\<lambda>f. fieldSize (Ftype f)) fs) \<and>
     (\<forall>rest. readFields fs (concat bss @ rest) = Ok (vs, rest))"
proof (induction rule: list_all2_induct)
  case Nil
  then show ?case by simp
next
  case (Cons f fs v vs)
  from writeField_fits [OF Cons.hyps(1)] obtain bs
    where "writeField v = Ok bs" "length bs = fieldSize (Ftype f)"
      "\<And>rest. readField (Ftype f) (bs @ rest) = Ok (v, rest)" by blast
  moreover from Cons.IH obtain bss where "map_go writeField vs = Ok bss"
      "length (concat bss) = sum_list (map (\<lambda>f. fieldSize (Ftype f)) fs)"
      "\<And>rest. readFields fs (concat bss @ rest) = Ok (vs, rest)" by blast
  ultimately show ?case by simp
qed

definition tupleSize :: "TupleDesc \<Rightarrow> nat" where
  "tupleSize desc = sum_list (map (\<lambda>f. fieldSize (Ftype f)) (Fields desc))"

lemma writeTo_fits:
  assumes "tupleFits desc t"
  obtains bs where "writeTo t = Ok bs" and "length bs = tupleSize desc"
    and "\<And>rest. readTupleFrom (bs @ rest) desc = Ok (\<lparr>Desc = desc, TFields = TFields t, Rid = None\<rparr>, rest)"
proof -
  from map_writeField_fits [OF assms [unfolded tupleFits_def]] obtain bss
    where "map_go writeField (TFields t) = Ok bss" "length (concat bss) = tupleSize desc"
      "\<And>rest. readFields (Fields desc) (concat bss @ rest) = Ok (TFields t, rest)"
    by (auto simp: tupleSize_def)
  then show thesis
    by (intro that [of "concat bss"]) (auto simp: writeTo_def readTupleFrom_def)
qed

lemma tupleFits_Rid [simp]: "tupleFits desc (t\<lparr>Rid := r\<rparr>) = tupleFits desc t"
  by (simp add: tupleFits_def)

lemma writeTo_Rid [simp]: "writeTo (t\<lparr>Rid := r\<rparr>) = writeTo t"
  by (simp add: writeTo_def)

text \<open>What decoding accepts: it needs the whole width, and what it returns fits the descriptor.\<close>

lemma readFields_Ok:
  "readFields fs b = Ok (vs, rest) \<Longrightarrow>
   list_all2 (\<lambda>f v. valueFits (Ftype f) v) fs vs \<and>
   length b = sum_list (map (\<lambda>f. fieldSize (Ftype f)) fs) + length rest"
proof (induction fs arbitrary: b vs)
  case Nil
  then show ?case by simp
next
  case (Cons f fs)
  then obtain v b' vs' where v: "readField (Ftype f) b = Ok (v, b')"
      and vs': "readFields fs b' = Ok (vs', rest)" and vs: "vs = v # vs'" by auto
  have "length (trim_right nul (take 32 b)) \<le> 32"
    using length_trim_right [of nul "take 32 b"] by simp
  with v have "valueFits (Ftype f) v \<and> length b = fieldSize (Ftype f) + length b'"
    using trim_right_last by (cases "Ftype f") (auto simp: read_bytes_def split: if_splits)
  with Cons.IH [OF vs'] vs show ?case by simp
qed

section \<open>Projection\<close>

lemma projectLoop_acc:
  "projectLoop t flds vs fts =
     bind_go (projectLoop t flds [] []) (\<lambda>r. Ok \<lparr>Desc = \<lparr>Fields = fts @ Fields (Desc r)\<rparr>,
        TFields = vs @ TFields r, Rid = None\<rparr>)"
proof (induction flds arbitrary: vs fts)
  case Nil
  then show ?case by simp
next
  case (Cons fld flds)
  let ?i = "fst (findFieldInTd fld (Desc t))"
  show ?case
  proof (cases "?i = -1 \<or> \<not> (nat ?i < length (TFields t) \<and> nat ?i < length (Fields (Desc t)))")
    case True
    then show ?thesis using Cons.IH [of vs fts] by (auto simp: Let_def)
  next
    case False
    then show ?thesis
      using Cons.IH [of "vs @ [TFields t ! nat ?i]" "fts @ [Fields (Desc t) ! nat ?i]"]
        Cons.IH [of "[TFields t ! nat ?i]" "[Fields (Desc t) ! nat ?i]"]
      by (auto simp: Let_def bind_go_assoc)
  qed
qed

text \<open>
  C40: \<^verbatim>\<open>findFieldInTd\<close> agrees with its reference: the candidates are the fields of the wanted name and type,
  a candidate of the wanted table is preferred; two of them with the same claim make the name ambiguous, no candidate is
  an incompatible type.
\<close>

theorem findFieldInTd_reference:
  "findFieldInTd field desc =
     (if isAmbiguous field (Fields desc) then (0, Some (GoDBError AmbiguousNameError))
      else if candidates field (Fields desc) = [] then (-1, Some (GoDBError IncompatibleTypesError))
      else (bestCandidate field (Fields desc), None))"
  by (rule findFieldInTd_spec)

text \<open>
  Serialising a tuple that fits its descriptor succeeds with exactly the bytes of the descriptor's
  size, and deserialising them, whatever follows in the buffer, gives the tuple back without its record
  id and leaves what follows unread.
\<close>

theorem tuple_roundtrip:
  assumes "tupleFits desc t"
  shows "\<exists>bs. writeTo t = Ok bs \<and> length bs = tupleSize desc \<and>
    (\<forall>rest. readTupleFrom (bs @ rest) desc = Ok (\<lparr>Desc = desc, TFields = TFields t, Rid = None\<rparr>, rest))"
  using writeTo_fits [OF assms] by metis

theorem tuple_roundtrip_witness:
  "\<exists>bs. writeTo \<lparr>Desc = \<lparr>Fields = []\<rparr>, TFields = [IntField (-2), StringField ''ab''], Rid = None\<rparr> = Ok bs \<and> length bs = 40"
  using tuple_roundtrip [of "\<lparr>Fields = [\<lparr>Fname = ''n'', TableQualifier = '''', Ftype = IntType\<rparr>,
      \<lparr>Fname = ''s'', TableQualifier = '''', Ftype = StringType\<rparr>]\<rparr>"
      "\<lparr>Desc = \<lparr>Fields = []\<rparr>, TFields = [IntField (-2), StringField ''ab''], Rid = None\<rparr>"]
  by (auto simp: tupleFits_def tupleSize_def)

end
