(* ===== verification/Iterators.thy ===== *)
theory Iterators
  imports Tuples
begin

text \<open>
  The \<^verbatim>\<open>Operator\<close> interface of \<^verbatim>\<open>godb/types.go\<close>: \<^verbatim>\<open>Iterator(tid)\<close> returns a closure that is called until
  it returns nil. A closure is a function of the state it captures: it returns a value or nil, an
  error or a panic, together with the state it leaves. \<open>None\<close> is a call that never returns.
\<close>

type_synonym ('s, 'a) iter = "'s \<Rightarrow> ('a option result \<times> 's) option"

text \<open>
  \<open>yields nxt s xs s'\<close>: called repeatedly from \<open>s\<close>, the closure returns the elements \<open>xs\<close> and
  then nil, every call returning, and leaves \<open>s'\<close>.
\<close>

inductive yields :: "('s, 'a) iter \<Rightarrow> 's \<Rightarrow> 'a list \<Rightarrow> 's \<Rightarrow> bool" for nxt where
  yields_Nil: "nxt s = Some (Ok None, s') \<Longrightarrow> yields nxt s [] s'"
| yields_Cons: "nxt s = Some (Ok (Some x), s') \<Longrightarrow> yields nxt s' xs s'' \<Longrightarrow> yields nxt s (x # xs) s''"

inductive_simps yields_Nil_iff [simp]: "yields nxt s [] s'"
inductive_simps yields_Cons_iff: "yields nxt s (x # xs) s'"

lemma yields_fun:
  "yields nxt s xs s' \<Longrightarrow> yields nxt s ys s'' \<Longrightarrow> xs = ys \<and> s' = s''"
proof (induction arbitrary: ys s'' rule: yields.induct)
  case (yields_Nil s s')
  from yields_Nil.prems yields_Nil.hyps show ?case
    by (cases rule: yields.cases) auto
next
  case (yields_Cons s x s' xs t)
  from yields_Cons.prems yields_Cons.hyps(1)
  obtain ys' where "ys = x # ys'" and "yields nxt s' ys' s''"
    by (cases rule: yields.cases) auto
  with yields_Cons.IH show ?case by blast
qed

lemma yields_same_next: "nxt s = nxt s' \<Longrightarrow> yields nxt s' xs t \<Longrightarrow> yields nxt s xs t"
  by (cases xs) (simp_all add: yields_Cons_iff)

text \<open>A child that stays at its end.\<close>

definition ended :: "('s, 'a) iter \<Rightarrow> 's \<Rightarrow> bool" where
  "ended ite s \<longleftrightarrow> ite s = Some (Ok None, s)"

text \<open>A property of the captured state that every call keeps.\<close>

definition preserves :: "('s, 'a) iter \<Rightarrow> ('s \<Rightarrow> bool) \<Rightarrow> bool" where
  "preserves nxt P \<longleftrightarrow> (\<forall>s r s'. P s \<longrightarrow> nxt s = Some (r, s') \<longrightarrow> P s')"

lemma yields_preserves: "yields nxt s xs s' \<Longrightarrow> preserves nxt P \<Longrightarrow> P s \<Longrightarrow> P s'"
  by (induction rule: yields.induct) (auto simp: preserves_def)

text \<open>
  The contract of an operator with one child: whatever list the child yields, the operator yields a
  function of that list, and it touches the state of the child only by calling it.
\<close>

locale unary_operator =
  fixes op_next :: "('s, 'a) iter \<Rightarrow> ('t, 'b) iter"
    and result_of :: "'a list \<Rightarrow> 'b list"
    and start :: "'s \<Rightarrow> 't"
    and child_of :: "'t \<Rightarrow> 's"
    and child_ok :: "'a list \<Rightarrow> bool"
  assumes op_yields: "yields child s xs s' \<Longrightarrow> child_ok xs \<Longrightarrow> \<exists>t. yields (op_next child) (start s) (result_of xs) t"
    and op_preserves: "preserves child P \<Longrightarrow> preserves (op_next child) (\<lambda>t. P (child_of t))"
    and child_start: "child_of (start s) = s"
begin

lemma op_result:
  assumes "yields child s xs s'" and "child_ok xs" and "yields (op_next child) (start s) ys t"
  shows "ys = result_of xs"
  using op_yields [OF assms(1,2)] assms(3) yields_fun by metis

lemma op_total:
  assumes "yields child s xs s'" and "child_ok xs" and "preserves child P" and "P s"
  shows "\<exists>t. yields (op_next child) (start s) (result_of xs) t \<and> P (child_of t)"
proof -
  obtain t where "yields (op_next child) (start s) (result_of xs) t" using op_yields [OF assms(1,2)] by blast
  with yields_preserves [OF this op_preserves [OF assms(3)]] assms(4) child_start show ?thesis by auto
qed

end

end
