(* ===== verification/HeapPages.thy ===== *)
theory HeapPages
  imports Iterators
begin

text \<open>
  \<^verbatim>\<open>godb/heap_page.go\<close>: a page of fixed-width slots with a header of two 32-bit counters; inserting
  into the first free slot, deleting by record id, the 4096-byte encoding of a page and its reading
  back, and the page iterator.

  A page holds tuple values: the pointer that \<^verbatim>\<open>insertTuple\<close> stores is the caller's, so the caller's
  tuple with its new record id is part of the result. The field \<^verbatim>\<open>offset\<close> is never used and left out.
  \<^verbatim>\<open>HeapFile\<close> is here with the two fields its pages read; its operations are in later theories.
\<close>

section \<open>The page\<close>

record HeapFile =
  hfDesc :: TupleDesc
  fromFile :: string

record heapPage =
  pgDesc :: TupleDesc
  pgFile :: HeapFile
  pageNo :: nat
  totalSlots :: int32
  usedSlots :: int32
  tuples :: "Tuple option list"
  dirty :: bool

definition calculateTupleSize :: "TupleDesc \<Rightarrow> nat" where
  "calculateTupleSize desc =
     foldl (\<lambda>sz f. case Ftype f of IntType \<Rightarrow> sz + 8 | StringType \<Rightarrow> sz + StringLength | UnknownType \<Rightarrow> sz)
       0 (Fields desc)"

definition newHeapPage :: "TupleDesc \<Rightarrow> nat \<Rightarrow> HeapFile \<Rightarrow> heapPage result" where
  "newHeapPage desc pgNo f =
     (let tupleSize = calculateTupleSize desc in
      if tupleSize = 0 then Panic DivideByZero
      else
        let numSlots = (PageSize - 8) div tupleSize in
        Ok \<lparr>pgDesc = desc, pgFile = f, pageNo = pgNo, totalSlots = word_of_nat numSlots, usedSlots = 0,
            tuples = replicate numSlots None, dirty = False\<rparr>)"

definition getNumSlots :: "heapPage \<Rightarrow> int" where
  "getNumSlots h = sint (totalSlots h - usedSlots h)"

definition isDirty :: "heapPage \<Rightarrow> bool" where
  "isDirty h = dirty h"

definition setDirty :: "heapPage \<Rightarrow> bool \<Rightarrow> heapPage" where
  "setDirty h d = h\<lparr>dirty := d\<rparr>"

definition getFile :: "heapPage \<Rightarrow> HeapFile" where
  "getFile h = pgFile h"

text \<open>\<^verbatim>\<open>heapPage.insertTuple\<close>: the record id, the page and the caller's tuple afterwards.\<close>

definition page_insertTuple :: "heapPage \<Rightarrow> Tuple \<Rightarrow> (RecordID \<times> heapPage \<times> Tuple) result" where
  "page_insertTuple h t =
     (if sint (usedSlots h) \<ge> sint (totalSlots h) then Err (PlainError ''no free slots available'')
      else case find_index_from (\<lambda>s. s = None) 0 (tuples h) of
        None \<Rightarrow> Err (PlainError ''no free slots available'')
      | Some i \<Rightarrow>
          let rid = \<lparr>PageNo = pageNo h, SlotNo = i\<rparr>; t' = t\<lparr>Rid := Some rid\<rparr> in
          Ok (rid, setDirty (h\<lparr>tuples := (tuples h)[i := Some t'], usedSlots := usedSlots h + 1\<rparr>) True, t'))"

text \<open>\<^verbatim>\<open>heapPage.deleteTuple\<close>\<close>

definition page_deleteTuple :: "heapPage \<Rightarrow> RecordID option \<Rightarrow> heapPage result" where
  "page_deleteTuple h rid =
     (case find_index_from (\<lambda>s. case s of None \<Rightarrow> False | Some t \<Rightarrow> Rid t = rid) 0 (tuples h) of
        None \<Rightarrow> Err (PlainError ''slot number is invalid'')
      | Some i \<Rightarrow> Ok (setDirty (h\<lparr>tuples := (tuples h)[i := None], usedSlots := usedSlots h - 1\<rparr>) True))"

definition toBuffer :: "heapPage \<Rightarrow> byte list result" where
  "toBuffer h =
     bind_go (map_go writeTo (somes (tuples h))) (\<lambda>bss.
       let buf = enc32 (totalSlots h) @ enc32 (usedSlots h) @ concat bss in
       if length buf > 4096 then Panic NegativeCount
       else Ok (buf @ replicate (4096 - length buf) nul))"

text \<open>The loop of \<^verbatim>\<open>initFromBuffer\<close>: \<open>n\<close> tuples are left to read, the next goes to slot \<open>i\<close>.\<close>

fun initLoop :: "nat \<Rightarrow> nat \<Rightarrow> heapPage \<Rightarrow> byte list \<Rightarrow> heapPage result" where
  "initLoop 0 i h buf = Ok h"
| "initLoop (Suc n) i h buf =
     bind_go (readTupleFrom buf (pgDesc h)) (\<lambda>(t, buf').
       if i < length (tuples h) then
         initLoop n (Suc i)
           (h\<lparr>tuples := (tuples h)[i := Some (t\<lparr>Rid := Some \<lparr>PageNo = pageNo h, SlotNo = i\<rparr>\<rparr>)]\<rparr>) buf'
       else Panic IndexOutOfRange)"

definition initFromBuffer :: "heapPage \<Rightarrow> byte list \<Rightarrow> heapPage result" where
  "initFromBuffer h buf =
     (case read_bytes 4 buf of
        None \<Rightarrow> Err (PlainError ''could not read numSlots'')
      | Some (tot, buf1) \<Rightarrow> (case read_bytes 4 buf1 of
          None \<Rightarrow> Err (PlainError ''could not read usedSlots'')
        | Some (used, buf2) \<Rightarrow>
            initLoop (nat (sint (dec32 used))) 0
              (h\<lparr>totalSlots := dec32 tot, usedSlots := dec32 used\<rparr>) buf2))"

text \<open>The closure of \<^verbatim>\<open>tupleIter\<close>, with the captured counter \<open>i\<close> as its state.\<close>

function skipNil :: "heapPage \<Rightarrow> nat \<Rightarrow> nat result" where
  "skipNil p i =
     (if int i < sint (totalSlots p) then
        (if i < length (tuples p) then
           (if tuples p ! i = None then skipNil p (Suc i) else Ok i)
         else Panic IndexOutOfRange)
      else Ok i)"
  by pat_completeness auto
termination
  by (relation "measure (\<lambda>(p, i). nat (sint (totalSlots p)) - i)") auto

declare skipNil.simps [simp del]

definition tupleIter :: "heapPage \<Rightarrow> (nat, Tuple) iter" where
  "tupleIter p i =
     (case skipNil p i of
        Ok i' \<Rightarrow>
          (if int i' \<le> sint (totalSlots p) \<and> i' < length (tuples p) then
             (case tuples p ! i' of
                Some t \<Rightarrow> Some (Ok (Some t), Suc i')
              | None \<Rightarrow> Some (Ok None, i'))
           else Some (Ok None, i'))
      | Err e \<Rightarrow> Some (Err e, i)
      | Panic x \<Rightarrow> Some (Panic x, i))"

section \<open>The page invariant\<close>

text \<open>
  \<open>page_ok\<close>: the slots are as many as fit, the counters say how many there are and how many are
  used, and each stored tuple's record id is its own position.
\<close>

definition numSlotsFor :: "TupleDesc \<Rightarrow> nat" where
  "numSlotsFor desc = (PageSize - 8) div tupleSize desc"

definition page_ok :: "heapPage \<Rightarrow> bool" where
  "page_ok p \<longleftrightarrow> tupleSize (pgDesc p) > 0 \<and>
     length (tuples p) = numSlotsFor (pgDesc p) \<and>
     totalSlots p = word_of_nat (length (tuples p)) \<and>
     usedSlots p = word_of_nat (length (somes (tuples p))) \<and>
     (\<forall>i < length (tuples p). \<forall>t. tuples p ! i = Some t \<longrightarrow> Rid t = Some \<lparr>PageNo = pageNo p, SlotNo = i\<rparr>)"

definition page_fits :: "heapPage \<Rightarrow> bool" where
  "page_fits p \<longleftrightarrow> (\<forall>t \<in> set (somes (tuples p)). tupleFits (pgDesc p) t)"

lemma calculateTupleSize_eq: "calculateTupleSize desc = tupleSize desc"
proof -
  have "foldl (\<lambda>sz f. case Ftype f of IntType \<Rightarrow> sz + 8 | StringType \<Rightarrow> sz + StringLength | UnknownType \<Rightarrow> sz) n fs =
      n + sum_list (map (\<lambda>f. fieldSize (Ftype f)) fs)" for n fs
    by (induction fs arbitrary: n) (auto split: DBType.splits)
  from this [of 0 "Fields desc"] show ?thesis
    unfolding calculateTupleSize_def tupleSize_def by simp
qed

lemma numSlotsFor_bound: "numSlotsFor desc \<le> 4088"
  by (simp add: numSlotsFor_def div_le_dividend)

lemma sint_word_of_nat_32: "n < 2 ^ 31 \<Longrightarrow> sint (word_of_nat n :: int32) = int n"
  by (simp add: sint_uint unsigned_of_nat signed_take_bit_int_eq_self take_bit_nat_eq_self
      take_bit_int_eq_self uint_nat)

lemma page_ok_length: "page_ok p \<Longrightarrow> length (tuples p) \<le> 4088"
  using numSlotsFor_bound by (simp add: page_ok_def)

lemma page_ok_total: "page_ok p \<Longrightarrow> sint (totalSlots p) = int (length (tuples p))"
  using page_ok_length [of p] by (simp add: page_ok_def sint_word_of_nat_32)

lemma page_ok_used: "page_ok p \<Longrightarrow> sint (usedSlots p) = int (length (somes (tuples p)))"
  using page_ok_length [of p] length_somes_le [of "tuples p"]
  by (simp add: page_ok_def sint_word_of_nat_32)

lemma page_ok_Rid:
  "page_ok p \<Longrightarrow> i < length (tuples p) \<Longrightarrow> tuples p ! i = Some t \<Longrightarrow>
   Rid t = Some \<lparr>PageNo = pageNo p, SlotNo = i\<rparr>"
  by (simp add: page_ok_def)

lemmas page_ok_counters = page_ok_length page_ok_total page_ok_used

lemma setDirty_simps [simp]:
  "tuples (setDirty p d) = tuples p" "pgDesc (setDirty p d) = pgDesc p"
  "pgFile (setDirty p d) = pgFile p" "pageNo (setDirty p d) = pageNo p"
  "totalSlots (setDirty p d) = totalSlots p" "usedSlots (setDirty p d) = usedSlots p"
  "dirty (setDirty p d) = d"
  by (simp_all add: setDirty_def)

lemma page_ok_setDirty [simp]: "page_ok (setDirty p d) = page_ok p"
  by (simp add: page_ok_def)

lemma page_fits_setDirty [simp]: "page_fits (setDirty p d) = page_fits p"
  by (simp add: page_fits_def)

section \<open>Creation, insertion and deletion\<close>

lemma newHeapPage_ok:
  assumes "tupleSize desc > 0"
  obtains p where "newHeapPage desc n f = Ok p" and "page_ok p" and "page_fits p"
    and "somes (tuples p) = []" and "pgDesc p = desc" and "pgFile p = f" and "pageNo p = n"
    and "\<not> dirty p" and "length (tuples p) = numSlotsFor desc"
proof -
  let ?p = "\<lparr>pgDesc = desc, pgFile = f, pageNo = n, totalSlots = word_of_nat (numSlotsFor desc),
     usedSlots = 0, tuples = replicate (numSlotsFor desc) None, dirty = False\<rparr>"
  have "newHeapPage desc n f = Ok ?p"
    using assms by (simp add: newHeapPage_def calculateTupleSize_eq numSlotsFor_def)
  then show thesis
    using assms by (intro that [of ?p]) (auto simp: page_ok_def page_fits_def)
qed

lemma newHeapPage_panics_iff: "newHeapPage desc n f = Panic x \<longleftrightarrow> x = DivideByZero \<and> tupleSize desc = 0"
  by (auto simp: newHeapPage_def calculateTupleSize_eq)

text \<open>Filling a free slot, and clearing a used one, keep the invariant and adjust the count by one.\<close>

lemma word_of_nat_Suc_32: "(word_of_nat (Suc n) :: int32) = word_of_nat n + 1"
  by simp

lemma page_ok_fill:
  assumes "page_ok p" and "i < length (tuples p)" and "tuples p ! i = None"
  shows "page_ok (p\<lparr>tuples := (tuples p)[i := Some (t\<lparr>Rid := Some \<lparr>PageNo = pageNo p, SlotNo = i\<rparr>\<rparr>)],
           usedSlots := usedSlots p + 1\<rparr>)"
  using assms length_somes_insert [OF assms(2,3)]
  by (auto simp: page_ok_def nth_list_update)

lemma page_ok_clear:
  assumes "page_ok p" and "i < length (tuples p)" and "tuples p ! i = Some t"
  shows "page_ok (p\<lparr>tuples := (tuples p)[i := None], usedSlots := usedSlots p - 1\<rparr>)"
  using assms length_somes_delete [OF assms(2,3), symmetric]
  by (auto simp: page_ok_def nth_list_update)

lemma page_insertTuple_full:
  "page_ok p \<Longrightarrow> None \<notin> set (tuples p) \<Longrightarrow> page_insertTuple p t = Err (PlainError ''no free slots available'')"
  using somes_full_iff [of "tuples p"] by (simp add: page_insertTuple_def page_ok_counters)

lemma page_insertTuple_free:
  assumes ok: "page_ok p" and free: "None \<in> set (tuples p)"
  obtains i t' where "i < length (tuples p)" and "tuples p ! i = None"
    and "\<And>j. j < i \<Longrightarrow> tuples p ! j \<noteq> None"
    and "t' = t\<lparr>Rid := Some \<lparr>PageNo = pageNo p, SlotNo = i\<rparr>\<rparr>"
    and "page_insertTuple p t = Ok (\<lparr>PageNo = pageNo p, SlotNo = i\<rparr>,
       setDirty (p\<lparr>tuples := (tuples p)[i := Some t'], usedSlots := usedSlots p + 1\<rparr>) True, t')"
proof -
  have "length (somes (tuples p)) < length (tuples p)"
    using free somes_full_iff [of "tuples p"] length_somes_le [of "tuples p"] by auto
  then have notfull: "\<not> sint (usedSlots p) \<ge> sint (totalSlots p)"
    using ok by (simp add: page_ok_counters)
  obtain i where i: "find_index_from (\<lambda>s. s = None) 0 (tuples p) = Some i"
    using free find_index_from_None_iff [of "\<lambda>s. s = None" 0 "tuples p"] by fastforce
  show thesis
    using notfull i find_index_from_0_Some [OF i]
    by (intro that [of i]) (simp_all add: page_insertTuple_def)
qed

lemma page_insertTuple_Ok:
  assumes ok: "page_ok p" and ins: "page_insertTuple p t = Ok (rid, p', t')"
  shows "page_ok p'" and "mset (somes (tuples p')) = add_mset t' (mset (somes (tuples p)))"
    and "t' = t\<lparr>Rid := Some rid\<rparr>" and "SlotNo rid < length (tuples p)" and "PageNo rid = pageNo p"
    and "tuples p ! SlotNo rid = None" and "tuples p' = (tuples p)[SlotNo rid := Some t']"
    and "dirty p'" and "pageNo p' = pageNo p" and "pgDesc p' = pgDesc p" and "pgFile p' = pgFile p"
proof -
  have free: "None \<in> set (tuples p)"
    using ins page_insertTuple_full [OF ok, of t] by fastforce
  obtain i t0 where i: "i < length (tuples p)" "tuples p ! i = None"
      and "t0 = t\<lparr>Rid := Some \<lparr>PageNo = pageNo p, SlotNo = i\<rparr>\<rparr>"
      and "page_insertTuple p t = Ok (\<lparr>PageNo = pageNo p, SlotNo = i\<rparr>,
        setDirty (p\<lparr>tuples := (tuples p)[i := Some t0], usedSlots := usedSlots p + 1\<rparr>) True, t0)"
    by (rule page_insertTuple_free [OF ok free, of t])
  with ins have rid: "rid = \<lparr>PageNo = pageNo p, SlotNo = i\<rparr>" and t': "t' = t\<lparr>Rid := Some rid\<rparr>"
      and p': "p' = setDirty (p\<lparr>tuples := (tuples p)[i := Some t'], usedSlots := usedSlots p + 1\<rparr>) True"
    by auto
  then show "page_ok p'"
    using page_ok_fill [OF ok i, of t] by simp
  show "mset (somes (tuples p')) = add_mset t' (mset (somes (tuples p)))"
    using i p' by (simp add: mset_somes_insert)
  show "t' = t\<lparr>Rid := Some rid\<rparr>" and "SlotNo rid < length (tuples p)" and "PageNo rid = pageNo p"
    and "tuples p ! SlotNo rid = None" and "tuples p' = (tuples p)[SlotNo rid := Some t']"
    and "dirty p'" and "pageNo p' = pageNo p" and "pgDesc p' = pgDesc p" and "pgFile p' = pgFile p"
    using i rid t' p' by simp_all
qed

lemma page_fits_insert:
  assumes "page_ok p" and "page_fits p" and "tupleFits (pgDesc p) t"
    and "page_insertTuple p t = Ok (rid, p', t')"
  shows "page_fits p'"
proof -
  note ins = page_insertTuple_Ok [OF assms(1,4)]
  have "set (somes (tuples p')) = insert t' (set (somes (tuples p)))"
    using arg_cong [OF ins(2), of set_mset] by simp
  then show ?thesis using assms(2,3) ins by (auto simp: page_fits_def)
qed

text \<open>In a page that is in order, a record id of this page finds exactly its own slot.\<close>

lemma page_deleteTuple_slot:
  assumes ok: "page_ok p" and i: "i < length (tuples p)" and t: "tuples p ! i = Some t"
  shows "page_deleteTuple p (Some \<lparr>PageNo = pageNo p, SlotNo = i\<rparr>) =
     Ok (setDirty (p\<lparr>tuples := (tuples p)[i := None], usedSlots := usedSlots p - 1\<rparr>) True)"
proof -
  let ?P = "\<lambda>s. case s of None \<Rightarrow> False | Some t \<Rightarrow> Rid t = Some \<lparr>PageNo = pageNo p, SlotNo = i\<rparr>"
  have "?P (tuples p ! i)" using page_ok_Rid [OF ok i t] t by simp
  then obtain j where j: "find_index_from ?P 0 (tuples p) = Some j"
    using find_index_from_None_iff [of ?P 0 "tuples p"] i by (metis nth_mem option.exhaust)
  from find_index_from_0_Some [OF j] have "j < length (tuples p)" and "?P (tuples p ! j)" by auto
  then have "j = i" using page_ok_Rid [OF ok] by (auto split: option.splits)
  with j show ?thesis by (simp add: page_deleteTuple_def)
qed

lemma page_deleteTuple_Ok:
  assumes ok: "page_ok p" and del: "page_deleteTuple p rid = Ok p'"
  obtains i t where "rid = Some \<lparr>PageNo = pageNo p, SlotNo = i\<rparr>" and "i < length (tuples p)"
    and "tuples p ! i = Some t"
    and "p' = setDirty (p\<lparr>tuples := (tuples p)[i := None], usedSlots := usedSlots p - 1\<rparr>) True"
proof -
  let ?P = "\<lambda>s. case s of None \<Rightarrow> False | Some t \<Rightarrow> Rid t = rid"
  from del obtain i where i: "find_index_from ?P 0 (tuples p) = Some i"
      and p': "p' = setDirty (p\<lparr>tuples := (tuples p)[i := None], usedSlots := usedSlots p - 1\<rparr>) True"
    by (auto simp: page_deleteTuple_def split: option.splits)
  from find_index_from_0_Some [OF i] obtain t where "i < length (tuples p)" "tuples p ! i = Some t" "Rid t = rid"
    by (auto split: option.splits)
  with page_ok_Rid [OF ok] p' show thesis by (intro that) auto
qed

lemma page_ok_delete:
  assumes "page_ok p" and "page_deleteTuple p rid = Ok p'"
  shows "page_ok p'"
  using page_deleteTuple_Ok [OF assms] page_ok_clear [OF assms(1)] by (metis page_ok_setDirty)

lemma page_fits_delete:
  assumes "page_ok p" and "page_fits p" and "page_deleteTuple p rid = Ok p'"
  shows "page_fits p'"
proof -
  from page_deleteTuple_Ok [OF assms(1,3)] obtain i t where "i < length (tuples p)"
      "tuples p ! i = Some t"
      "p' = setDirty (p\<lparr>tuples := (tuples p)[i := None], usedSlots := usedSlots p - 1\<rparr>) True"
    by metis
  then show ?thesis
    using assms(2) set_update_subset_insert [of "tuples p" i None]
    by (auto simp: page_fits_def in_set_somes)
qed

section \<open>The page on disk\<close>

text \<open>
  Written out, a page keeps its used tuples in slot order and drops the gaps. Read back, the tuples are
  in the first slots, with the page's descriptor and with record ids for their new positions.
\<close>

definition reread :: "TupleDesc \<Rightarrow> nat \<Rightarrow> nat \<Rightarrow> Tuple \<Rightarrow> Tuple" where
  "reread desc n i t = \<lparr>Desc = desc, TFields = TFields t, Rid = Some \<lparr>PageNo = n, SlotNo = i\<rparr>\<rparr>"

definition rereadAll :: "TupleDesc \<Rightarrow> nat \<Rightarrow> Tuple list \<Rightarrow> Tuple list" where
  "rereadAll desc n ts = map (\<lambda>(i, t). reread desc n i t) (enumerate 0 ts)"

definition compact :: "heapPage \<Rightarrow> heapPage" where
  "compact p = p\<lparr>tuples := map Some (rereadAll (pgDesc p) (pageNo p) (somes (tuples p))) @
       replicate (length (tuples p) - length (somes (tuples p))) None, dirty := False\<rparr>"

lemma length_rereadAll [simp]: "length (rereadAll desc n ts) = length ts"
  by (simp add: rereadAll_def)

lemma TFields_reread [simp]: "TFields (reread desc n i t) = TFields t"
  by (simp add: reread_def)

lemma nth_rereadAll: "i < length ts \<Longrightarrow> rereadAll desc n ts ! i = reread desc n i (ts ! i)"
  by (simp add: rereadAll_def nth_enumerate_eq)

lemma map_TFields_rereadAll [simp]: "map TFields (rereadAll desc n ts) = map TFields ts"
  by (rule nth_equalityI) (auto simp: nth_rereadAll)

lemma rereadAll_snoc: "rereadAll desc n (ts @ [t]) = rereadAll desc n ts @ [reread desc n (length ts) t]"
  by (rule nth_equalityI) (auto simp: nth_rereadAll nth_append less_Suc_eq)

lemma somes_compact: "somes (tuples (compact p)) = rereadAll (pgDesc p) (pageNo p) (somes (tuples p))"
  by (simp add: compact_def)

lemma page_ok_compact:
  assumes "page_ok p"
  shows "page_ok (compact p)"
proof -
  have "length (somes (tuples p)) \<le> length (tuples p)" by (rule length_somes_le)
  then show ?thesis
    using assms by (auto simp: page_ok_def compact_def nth_append nth_rereadAll reread_def)
qed

lemma tupleFits_reread [simp]: "tupleFits desc (reread desc' n i t) = tupleFits desc t"
  by (simp add: tupleFits_def)

lemma page_fits_compact: "page_fits p \<Longrightarrow> page_fits (compact p)"
  by (auto simp: page_fits_def somes_compact in_set_conv_nth nth_rereadAll) (auto simp: compact_def)

lemma map_writeTo_fits:
  assumes "\<And>t. t \<in> set ts \<Longrightarrow> tupleFits desc t"
  obtains bss where "map_go writeTo ts = Ok bss"
    and "length (concat bss) = length ts * tupleSize desc"
    and "length bss = length ts"
    and "\<And>i rest. i < length ts \<Longrightarrow> readTupleFrom (bss ! i @ rest) desc =
        Ok (\<lparr>Desc = desc, TFields = TFields (ts ! i), Rid = None\<rparr>, rest)"
proof -
  have "\<exists>bs. writeTo t = Ok bs \<and> length bs = tupleSize desc \<and>
     (\<forall>rest. readTupleFrom (bs @ rest) desc = Ok (\<lparr>Desc = desc, TFields = TFields t, Rid = None\<rparr>, rest))"
    if "t \<in> set ts" for t
    by (rule writeTo_fits [OF assms [OF that]]) blast
  then obtain enc where w: "\<And>t. t \<in> set ts \<Longrightarrow> writeTo t = Ok (enc t)"
      and len: "\<And>t. t \<in> set ts \<Longrightarrow> length (enc t) = tupleSize desc"
      and rd: "\<And>t rest. t \<in> set ts \<Longrightarrow>
        readTupleFrom (enc t @ rest) desc = Ok (\<lparr>Desc = desc, TFields = TFields t, Rid = None\<rparr>, rest)"
    by metis
  from len have "length (concat (map enc ts)) = length ts * tupleSize desc"
    by (induction ts) auto
  moreover have "map_go writeTo ts = Ok (map enc ts)"
    using w by (rule map_go_all_Ok)
  ultimately show thesis
    using rd by (intro that [of "map enc ts"]) auto
qed

lemma initLoop_reads:
  assumes "\<And>i rest. i < length ts \<Longrightarrow> readTupleFrom (bss ! i @ rest) (pgDesc h) =
        Ok (\<lparr>Desc = pgDesc h, TFields = TFields (ts ! i), Rid = None\<rparr>, rest)"
    and "length bss = length ts" and "k + length ts \<le> length (tuples h)"
  shows "initLoop (length ts) k h (concat bss @ rest) =
     Ok (h\<lparr>tuples := take k (tuples h) @
        map (\<lambda>i. Some (reread (pgDesc h) (pageNo h) (k + i) (ts ! i))) [0..<length ts] @
        drop (k + length ts) (tuples h)\<rparr>)"
  using assms
proof (induction ts arbitrary: k h bss)
  case Nil
  then show ?case by simp
next
  case (Cons t ts)
  then obtain bs bss' where bss: "bss = bs # bss'" and len: "length bss' = length ts"
    by (cases bss) auto
  let ?h = "h\<lparr>tuples := (tuples h)[k := Some (reread (pgDesc h) (pageNo h) k t)]\<rparr>"
  have rd: "readTupleFrom (bs @ concat bss' @ rest) (pgDesc h) =
      Ok (\<lparr>Desc = pgDesc h, TFields = TFields t, Rid = None\<rparr>, concat bss' @ rest)"
    using Cons.prems(1) [of 0] by (simp add: bss)
  have reads: "readTupleFrom (bss' ! i @ rest') (pgDesc ?h) =
      Ok (\<lparr>Desc = pgDesc ?h, TFields = TFields (ts ! i), Rid = None\<rparr>, rest')" if "i < length ts" for i rest'
    using Cons.prems(1) [of "Suc i" rest'] that by (simp add: bss)
  have k: "k < length (tuples h)" and "Suc k + length ts \<le> length (tuples ?h)"
    using Cons.prems(3) by auto
  have "initLoop (length (t # ts)) k h (concat bss @ rest) = initLoop (length ts) (Suc k) ?h (concat bss' @ rest)"
    using k by (simp add: bss rd reread_def)
  also have "\<dots> = Ok (?h\<lparr>tuples := take (Suc k) (tuples ?h) @
        map (\<lambda>i. Some (reread (pgDesc ?h) (pageNo ?h) (Suc k + i) (ts ! i))) [0..<length ts] @
        drop (Suc k + length ts) (tuples ?h)\<rparr>)"
    by (rule Cons.IH [OF reads len]) (use Cons.prems(3) in auto)
  also have "\<dots> = Ok (h\<lparr>tuples := take k (tuples h) @
        map (\<lambda>i. Some (reread (pgDesc h) (pageNo h) (k + i) ((t # ts) ! i))) [0..<length (t # ts)] @
        drop (k + length (t # ts)) (tuples h)\<rparr>)"
    using k by (simp add: take_Suc_conv_app_nth upt_conv_Cons map_Suc_upt [symmetric] comp_def del: upt_Suc)
  finally show ?case .
qed

lemma initLoop_all:
  assumes "\<And>i rest. i < length ts \<Longrightarrow> readTupleFrom (bss ! i @ rest) (pgDesc h) =
        Ok (\<lparr>Desc = pgDesc h, TFields = TFields (ts ! i), Rid = None\<rparr>, rest)"
    and "length bss = length ts" and "tuples h = replicate n None" and "length ts \<le> n"
  shows "initLoop (length ts) 0 h (concat bss @ rest) =
     Ok (h\<lparr>tuples := map Some (rereadAll (pgDesc h) (pageNo h) ts) @ replicate (n - length ts) None\<rparr>)"
proof -
  have "map (\<lambda>i. Some (reread (pgDesc h) (pageNo h) (0 + i) (ts ! i))) [0..<length ts] =
      map Some (rereadAll (pgDesc h) (pageNo h) ts)"
    by (rule nth_equalityI) (auto simp: nth_rereadAll)
  with initLoop_reads [OF assms(1,2), of 0 rest] assms(3,4) show ?thesis by simp
qed

lemma page_bytes_bound:
  "page_ok p \<Longrightarrow> 8 + length (somes (tuples p)) * tupleSize (pgDesc p) \<le> 4096"
proof -
  assume "page_ok p"
  then have "length (somes (tuples p)) \<le> 4088 div tupleSize (pgDesc p)"
    using length_somes_le [of "tuples p"] by (simp add: page_ok_def numSlotsFor_def)
  then have "length (somes (tuples p)) * tupleSize (pgDesc p) \<le> 4088 div tupleSize (pgDesc p) * tupleSize (pgDesc p)"
    by (rule mult_le_mono1)
  also have "\<dots> \<le> 4088" by (rule div_times_less_eq_dividend)
  finally show ?thesis by simp
qed

lemma toBuffer_initFromBuffer:
  assumes ok: "page_ok p" and fits: "page_fits p"
  obtains bs where "toBuffer p = Ok bs" and "length bs = PageSize"
    and "\<And>q. newHeapPage (pgDesc p) (pageNo p) (pgFile p) = Ok q \<Longrightarrow> initFromBuffer q bs = Ok (compact p)"
proof -
  let ?ts = "somes (tuples p)" and ?d = "pgDesc p"
  obtain bss where w: "map_go writeTo ?ts = Ok bss" and len: "length (concat bss) = length ?ts * tupleSize ?d"
      and n: "length bss = length ?ts"
      and rd: "\<And>i rest. i < length ?ts \<Longrightarrow> readTupleFrom (bss ! i @ rest) ?d =
        Ok (\<lparr>Desc = ?d, TFields = TFields (?ts ! i), Rid = None\<rparr>, rest)"
    using fits by (auto simp: page_fits_def intro: map_writeTo_fits [of ?ts ?d])
  let ?buf = "enc32 (totalSlots p) @ enc32 (usedSlots p) @ concat bss"
  let ?pad = "replicate (4096 - length ?buf) nul"
  have small: "length ?buf \<le> 4096" using page_bytes_bound [OF ok] len by simp
  then have buf: "toBuffer p = Ok (?buf @ ?pad)" using w by (simp add: toBuffer_def)
  have "initFromBuffer q (?buf @ ?pad) = Ok (compact p)" if q: "newHeapPage ?d (pageNo p) (pgFile p) = Ok q" for q
  proof -
    let ?q = "q\<lparr>totalSlots := totalSlots p, usedSlots := usedSlots p\<rparr>"
    from q have qt: "tuples ?q = replicate (length (tuples p)) None" and qd: "pgDesc ?q = ?d"
        and qn: "pageNo ?q = pageNo p"
      using ok by (auto simp: newHeapPage_def calculateTupleSize_eq page_ok_def numSlotsFor_def split: if_splits)
    have "initFromBuffer q (?buf @ ?pad) = initLoop (length ?ts) 0 ?q (concat bss @ ?pad)"
      using ok by (simp add: initFromBuffer_def page_ok_used)
    also have "\<dots> = Ok (?q\<lparr>tuples := map Some (rereadAll ?d (pageNo p) ?ts) @
        replicate (length (tuples p) - length ?ts) None\<rparr>)"
      using initLoop_all [of ?ts bss ?q "length (tuples p)" ?pad] rd n qt qd qn length_somes_le [of "tuples p"] by simp
    also have "\<dots> = Ok (compact p)"
      using q ok by (auto simp: compact_def newHeapPage_def split: if_splits)
    finally show ?thesis .
  qed
  with buf small show thesis by (intro that [of "?buf @ ?pad"]) auto
qed

section \<open>The page iterator\<close>

lemma skipNil_ok:
  assumes "page_ok p" and "i \<le> length (tuples p)"
  shows "\<exists>j. skipNil p i = Ok j \<and> i \<le> j \<and> j \<le> length (tuples p) \<and>
     (\<forall>k. i \<le> k \<longrightarrow> k < j \<longrightarrow> tuples p ! k = None) \<and> (j < length (tuples p) \<longrightarrow> tuples p ! j \<noteq> None)"
  using assms(2)
proof (induction "length (tuples p) - i" arbitrary: i)
  case 0
  then show ?case using assms(1) by (subst skipNil.simps) (auto simp: page_ok_total)
next
  case (Suc n)
  then have i: "i < length (tuples p)" by simp
  show ?case
  proof (cases "tuples p ! i = None")
    case False
    with i show ?thesis using assms(1) by (subst skipNil.simps) (auto simp: page_ok_total)
  next
    case True
    have "n = length (tuples p) - Suc i" "Suc i \<le> length (tuples p)" using Suc.hyps(2) i by auto
    from Suc.hyps(1) [OF this] obtain j where "skipNil p (Suc i) = Ok j" "Suc i \<le> j" "j \<le> length (tuples p)"
      "\<forall>k. Suc i \<le> k \<longrightarrow> k < j \<longrightarrow> tuples p ! k = None" "j < length (tuples p) \<longrightarrow> tuples p ! j \<noteq> None"
      by blast
    moreover have "skipNil p i = skipNil p (Suc i)"
      using i True assms(1) by (subst skipNil.simps) (simp add: page_ok_total)
    ultimately show ?thesis using True by (metis Suc_leD le_antisym not_less_eq_eq)
  qed
qed

lemma somes_drop_None:
  assumes "i \<le> j" and "j \<le> length xs" and "\<And>k. i \<le> k \<Longrightarrow> k < j \<Longrightarrow> xs ! k = None"
  shows "somes (drop i xs) = somes (drop j xs)"
  using assms
proof (induction "j - i" arbitrary: i)
  case 0
  then show ?case by simp
next
  case (Suc n)
  then have "i < length xs" and "xs ! i = None" by auto
  then have "somes (drop i xs) = somes (drop (Suc i) xs)"
    by (simp add: Cons_nth_drop_Suc [symmetric])
  also have "\<dots> = somes (drop j xs)"
    using Suc by (intro Suc.hyps(1)) auto
  finally show ?case .
qed

lemma tupleIter_yields_from:
  assumes ok: "page_ok p" and "i \<le> length (tuples p)"
  shows "\<exists>i'. yields (tupleIter p) i (somes (drop i (tuples p))) i'"
  using assms(2)
proof (induction "length (tuples p) - i" arbitrary: i rule: less_induct)
  case less
  from skipNil_ok [OF ok less.prems] obtain j where j: "skipNil p i = Ok j" "i \<le> j" "j \<le> length (tuples p)"
      and gap: "\<And>k. i \<le> k \<Longrightarrow> k < j \<Longrightarrow> tuples p ! k = None"
      and hit: "j < length (tuples p) \<Longrightarrow> tuples p ! j \<noteq> None" by blast
  have same: "somes (drop i (tuples p)) = somes (drop j (tuples p))"
    using j gap by (intro somes_drop_None) auto
  show ?case
  proof (cases "j < length (tuples p)")
    case True
    with hit obtain t where t: "tuples p ! j = Some t" by auto
    have "tupleIter p i = Some (Ok (Some t), Suc j)"
      using j True t ok by (simp add: tupleIter_def page_ok_total)
    moreover have "length (tuples p) - Suc j < length (tuples p) - i" using True j(2) by linarith
    with less.hyps [of "Suc j"] True
    obtain i' where "yields (tupleIter p) (Suc j) (somes (drop (Suc j) (tuples p))) i'" by auto
    moreover have "somes (drop j (tuples p)) = t # somes (drop (Suc j) (tuples p))"
      using True t by (simp add: Cons_nth_drop_Suc [symmetric])
    ultimately show ?thesis using same by (auto intro: yields_Cons)
  next
    case False
    with j have "tupleIter p i = Some (Ok None, j)" by (simp add: tupleIter_def)
    with False same show ?thesis by (auto intro: yields_Nil)
  qed
qed

lemma tupleIter_yields: "page_ok p \<Longrightarrow> \<exists>i'. yields (tupleIter p) 0 (somes (tuples p)) i'"
  using tupleIter_yields_from [of p 0] by simp

text \<open>
  C33: a heap page whose tuples fit its descriptor is serialised to exactly one page of bytes, and reading
  these bytes into a new page gives the same tuples back, moved to the front slots in their order.
\<close>

theorem page_roundtrip:
  assumes "page_ok p" and "page_fits p"
  shows "\<exists>bs q. toBuffer p = Ok bs \<and> length bs = PageSize \<and>
    newHeapPage (pgDesc p) (pageNo p) (pgFile p) = Ok q \<and> initFromBuffer q bs = Ok (compact p) \<and>
    map TFields (somes (tuples (compact p))) = map TFields (somes (tuples p))"
proof -
  have "0 < tupleSize (pgDesc p)" using assms(1) by (simp add: page_ok_def)
  then obtain q where "newHeapPage (pgDesc p) (pageNo p) (pgFile p) = Ok q" using newHeapPage_ok by metis
  with toBuffer_initFromBuffer [OF assms] assms show ?thesis by (metis map_TFields_rereadAll somes_compact)
qed

end
