(* ===== verification/HeapFileIO.thy ===== *)
theory HeapFileIO
  imports HeapPages
begin

text \<open>
  The part of \<^verbatim>\<open>godb/heap_file.go\<close> that touches the backing file: \<^verbatim>\<open>NewHeapFile\<close>, \<^verbatim>\<open>NumPages\<close>, \<^verbatim>\<open>readPage\<close>,
  \<^verbatim>\<open>flushPage\<close> and \<^verbatim>\<open>pageKey\<close>. The disk maps a file name to its bytes, a missing file having none; opening
  with \<^verbatim>\<open>O_CREATE\<close> therefore changes nothing. Operating system failures other than reading past the end of
  a file are not modelled.
\<close>

type_synonym Disk = "string \<Rightarrow> byte list"

record heapHash =
  FileName :: string
  HPageNo :: nat

definition NewHeapFile :: "string \<Rightarrow> TupleDesc \<Rightarrow> HeapFile" where
  "NewHeapFile name td = \<lparr>hfDesc = td, fromFile = name\<rparr>"

definition NumPages :: "HeapFile \<Rightarrow> Disk \<Rightarrow> nat" where
  "NumPages f d = length (d (fromFile f)) div PageSize"

definition pageKey :: "HeapFile \<Rightarrow> nat \<Rightarrow> heapHash" where
  "pageKey f pgNo = \<lparr>FileName = fromFile f, HPageNo = pgNo\<rparr>"

definition readPage :: "HeapFile \<Rightarrow> nat \<Rightarrow> Disk \<Rightarrow> heapPage result" where
  "readPage f n d =
     (case read_at (d (fromFile f)) (n * PageSize) PageSize of
        None \<Rightarrow> Err (PlainError ''could not read page data'')
      | Some data \<Rightarrow> bind_go (newHeapPage (hfDesc f) n f) (\<lambda>page. initFromBuffer page data))"

definition flushPage :: "HeapFile \<Rightarrow> heapPage \<Rightarrow> Disk \<Rightarrow> (heapPage \<times> Disk) result" where
  "flushPage f p d =
     bind_go (toBuffer p) (\<lambda>buf.
       Ok (setDirty p False, d(fromFile f := write_at (d (fromFile f)) (pageNo p * PageSize) buf)))"

section \<open>What the disk promises\<close>

text \<open>
  A page is at home in a file when it is in order, its tuples fit, and it carries the file's
  descriptor and the file itself.
\<close>

definition page_of :: "HeapFile \<Rightarrow> heapPage \<Rightarrow> bool" where
  "page_of f p \<longleftrightarrow> page_ok p \<and> page_fits p \<and> pgDesc p = hfDesc f \<and> pgFile p = f"

lemma page_of_compact: "page_of f p \<Longrightarrow> page_of f (compact p)"
  using page_ok_compact [of p] page_fits_compact [of p] by (auto simp: page_of_def) (simp_all add: compact_def)

lemma page_of_setDirty [simp]: "page_of f (setDirty p b) = page_of f p"
  by (simp add: page_of_def)

lemma flushPage_Ok:
  assumes "page_of f p"
  obtains buf where "toBuffer p = Ok buf" and "length buf = PageSize"
    and "flushPage f p d =
      Ok (setDirty p False, d(fromFile f := write_at (d (fromFile f)) (pageNo p * PageSize) buf))"
    and "\<And>q. newHeapPage (hfDesc f) (pageNo p) f = Ok q \<Longrightarrow> initFromBuffer q buf = Ok (compact p)"
proof -
  from assms have "page_ok p" "page_fits p" "pgDesc p = hfDesc f" "pgFile p = f"
    by (auto simp: page_of_def)
  from toBuffer_initFromBuffer [OF this(1,2)] this(3,4) obtain buf
    where "toBuffer p = Ok buf" "length buf = PageSize"
      "\<And>q. newHeapPage (hfDesc f) (pageNo p) f = Ok q \<Longrightarrow> initFromBuffer q buf = Ok (compact p)"
    by metis
  then show thesis by (intro that [of buf]) (auto simp: flushPage_def)
qed

text \<open>
  The contract between the buffer pool and a heap file's storage, stated for any store of values under
  keys: saving under a key makes a later load of that key return the saved value in normal form and
  leaves every key that could be loaded before alone.
\<close>

locale page_store =
  fixes load :: "'d \<Rightarrow> 'k \<Rightarrow> 'v option"
    and save :: "'d \<Rightarrow> 'k \<Rightarrow> 'v \<Rightarrow> 'd"
    and norm :: "'v \<Rightarrow> 'v"
    and valid :: "'k \<Rightarrow> 'v \<Rightarrow> bool"
  assumes load_save_same: "valid k v \<Longrightarrow> load (save d k v) k = Some (norm v)"
    and load_save_other: "valid k v \<Longrightarrow> k' \<noteq> k \<Longrightarrow> load d k' = Some v' \<Longrightarrow> load (save d k v) k' = Some v'"
    and valid_norm: "valid k v \<Longrightarrow> valid k (norm v)"
    and norm_idem: "norm (norm v) = norm v"
begin

fun save_all :: "'d \<Rightarrow> ('k \<times> 'v) list \<Rightarrow> 'd" where
  "save_all d [] = d"
| "save_all d ((k, v) # kvs) = save_all (save d k v) kvs"

lemma load_save_all_other:
  "\<forall>(k, v) \<in> set kvs. valid k v \<Longrightarrow> k' \<notin> fst ` set kvs \<Longrightarrow> load d k' = Some v' \<Longrightarrow>
   load (save_all d kvs) k' = Some v'"
proof (induction kvs arbitrary: d)
  case Nil
  then show ?case by simp
next
  case (Cons kv kvs)
  obtain k v where kv: "kv = (k, v)" by (cases kv)
  with Cons.prems have "load (save d k v) k' = Some v'" by (auto intro: load_save_other)
  with Cons kv show ?case by auto
qed

lemma load_save_all:
  "\<forall>(k, v) \<in> set kvs. valid k v \<Longrightarrow> distinct (map fst kvs) \<Longrightarrow> (k, v) \<in> set kvs \<Longrightarrow>
   load (save_all d kvs) k = Some (norm v)"
proof (induction kvs arbitrary: d)
  case Nil
  then show ?case by simp
next
  case (Cons kv kvs)
  obtain k0 v0 where kv: "kv = (k0, v0)" by (cases kv)
  show ?case
  proof (cases "(k, v) = kv")
    case True
    then have "load (save d k v) k = Some (norm v)" using Cons.prems by (auto intro: load_save_same)
    with True Cons.prems kv show ?thesis by (auto intro!: load_save_all_other)
  next
    case False
    with Cons.prems have "(k, v) \<in> set kvs" by auto
    with Cons show ?thesis by (simp add: kv)
  qed
qed

lemma save_loaded: "valid k v \<Longrightarrow> load (save d k (norm v)) k = load (save d k v) k"
  by (simp add: load_save_same norm_idem valid_norm)

end

text \<open>The store of a database: the key names the file and the page, the files are known by name.\<close>

definition load_page :: "(string \<Rightarrow> HeapFile) \<Rightarrow> Disk \<Rightarrow> heapHash \<Rightarrow> heapPage option" where
  "load_page files d k =
     (case readPage (files (FileName k)) (HPageNo k) d of Ok p \<Rightarrow> Some p | _ \<Rightarrow> None)"

definition save_page :: "(string \<Rightarrow> HeapFile) \<Rightarrow> Disk \<Rightarrow> heapHash \<Rightarrow> heapPage \<Rightarrow> Disk" where
  "save_page files d k p =
     (case flushPage (files (FileName k)) p d of Ok (p', d') \<Rightarrow> d' | _ \<Rightarrow> d)"

definition page_at :: "(string \<Rightarrow> HeapFile) \<Rightarrow> heapHash \<Rightarrow> heapPage \<Rightarrow> bool" where
  "page_at files k p \<longleftrightarrow> (\<forall>s. fromFile (files s) = s) \<and> page_of (files (FileName k)) p \<and> pageNo p = HPageNo k"

lemma readPage_flushPage_same:
  assumes "page_of f p" and "flushPage f p d = Ok (p', d')"
  shows "readPage f (pageNo p) d' = Ok (compact p)"
proof -
  obtain buf where "toBuffer p = Ok buf" and buf: "length buf = PageSize"
      and d': "flushPage f p d = Ok (setDirty p False, d(fromFile f := write_at (d (fromFile f)) (pageNo p * PageSize) buf))"
      and rd: "\<And>q. newHeapPage (hfDesc f) (pageNo p) f = Ok q \<Longrightarrow> initFromBuffer q buf = Ok (compact p)"
    using flushPage_Ok [OF assms(1), of d] by metis
  have "tupleSize (hfDesc f) > 0" using assms(1) by (auto simp: page_of_def page_ok_def)
  from newHeapPage_ok [OF this] obtain q where "newHeapPage (hfDesc f) (pageNo p) f = Ok q" by metis
  with rd d' assms(2) buf show ?thesis
    by (auto simp: readPage_def read_at_write_at_same)
qed

lemma readPage_flushPage_other:
  assumes "page_of f p" and "flushPage f p d = Ok (p', d')"
    and "fromFile f' \<noteq> fromFile f \<or> n \<noteq> pageNo p" and "readPage f' n d = Ok q"
  shows "readPage f' n d' = Ok q"
proof -
  obtain buf where "toBuffer p = Ok buf" and buf: "length buf = PageSize"
      and d': "flushPage f p d = Ok (setDirty p False, d(fromFile f := write_at (d (fromFile f)) (pageNo p * PageSize) buf))"
    using flushPage_Ok [OF assms(1), of d] by metis
  show ?thesis
  proof (cases "fromFile f' = fromFile f")
    case False
    with d' assms(2,4) show ?thesis by (auto simp: readPage_def)
  next
    case True
    from assms(4) have "n * PageSize + PageSize \<le> length (d (fromFile f'))"
      by (auto simp: readPage_def read_at_def split: if_splits)
    moreover from True assms(3)
    have "n * PageSize + PageSize \<le> pageNo p * PageSize \<or> pageNo p * PageSize + PageSize \<le> n * PageSize"
      by (cases "n < pageNo p") auto
    ultimately have "read_at (d' (fromFile f')) (n * PageSize) PageSize = read_at (d (fromFile f')) (n * PageSize) PageSize"
      using d' assms(2) buf True by (auto intro!: read_at_write_at_other)
    with assms(4) show ?thesis by (simp add: readPage_def)
  qed
qed

lemma compact_idem: "compact (compact p) = compact p"
proof -
  let ?ts = "somes (tuples p)"
  have "rereadAll d n (rereadAll d n ts) = rereadAll d n ts" for d n ts
    by (rule nth_equalityI) (auto simp: nth_rereadAll reread_def)
  then show ?thesis using length_somes_le [of "tuples p"] by (simp add: compact_def)
qed

interpretation disk: page_store "load_page files" "save_page files" compact "page_at files"
proof unfold_locales
  fix k v d
  assume v: "page_at files k v"
  then obtain d' where "flushPage (files (FileName k)) v d = Ok (setDirty v False, d')"
    by (auto simp: page_at_def intro: flushPage_Ok [of "files (FileName k)" v d])
  with v show "load_page files (save_page files d k v) k = Some (compact v)"
    using readPage_flushPage_same [of "files (FileName k)" v d]
    by (auto simp: load_page_def save_page_def page_at_def)
next
  fix k v k' d v'
  assume v: "page_at files k v" and k': "k' \<noteq> k" and l: "load_page files d k' = Some v'"
  then obtain d' where fl: "flushPage (files (FileName k)) v d = Ok (setDirty v False, d')"
    by (auto simp: page_at_def intro: flushPage_Ok [of "files (FileName k)" v d])
  from l have "readPage (files (FileName k')) (HPageNo k') d = Ok v'"
    by (auto simp: load_page_def split: go_result.splits)
  moreover have "fromFile (files (FileName k')) \<noteq> fromFile (files (FileName k)) \<or> HPageNo k' \<noteq> pageNo v"
    using v k' by (auto simp: page_at_def heapHash.equality)
  ultimately have "readPage (files (FileName k')) (HPageNo k') d' = Ok v'"
    using readPage_flushPage_other [OF _ fl] v by (auto simp: page_at_def)
  with fl show "load_page files (save_page files d k v) k' = Some v'"
    by (simp add: load_page_def save_page_def)
next
  show "page_at files k v \<Longrightarrow> page_at files k (compact v)" for k v
    using page_of_compact by (auto simp: page_at_def) (simp add: compact_def)
  show "compact (compact v) = compact v" for v
    by (rule compact_idem)
qed

text \<open>
  A flushed page is read back: after \<^verbatim>\<open>flushPage\<close> succeeds \<^verbatim>\<open>readPage\<close> of the page number gives the rows of
  the page, and every other page of every file reads as before.
\<close>

theorem flush_roundtrip:
  assumes "page_of f p" and "flushPage f p d = Ok (p', d')"
  shows "readPage f (pageNo p) d' = Ok (compact p) \<and>
    (\<forall>g n q. (fromFile g \<noteq> fromFile f \<or> n \<noteq> pageNo p) \<and> readPage g n d = Ok q \<longrightarrow> readPage g n d' = Ok q)"
  using readPage_flushPage_same [OF assms] readPage_flushPage_other [OF assms] by blast

end
