(* ===== verification/GoStrings.thy ===== *)
theory GoStrings
  imports GoDB_Types
begin

text \<open>
  The parts of the packages \<^verbatim>\<open>strings\<close> and \<^verbatim>\<open>bufio\<close> that the catalog and the CSV loader use, on strings of
  bytes: splitting at a separator, trimming, lower case, and the lines that a \<^verbatim>\<open>bufio.Scanner\<close> returns.
  Letters and white space are those of ASCII.
\<close>

section \<open>Splitting\<close>

text \<open>\<^verbatim>\<open>strings.Split\<close>; the accumulator holds the piece that is being read, backwards.\<close>

function splitOn :: "string \<Rightarrow> string \<Rightarrow> string \<Rightarrow> string list" where
  "splitOn sep acc s =
     (if s = [] then [rev acc]
      else if sep \<noteq> [] \<and> take (length sep) s = sep then rev acc # splitOn sep [] (drop (length sep) s)
      else splitOn sep (hd s # acc) (tl s))"
  by pat_completeness auto
termination by (relation "measure (\<lambda>(_, _, s). length s)") auto

declare splitOn.simps [simp del]

definition Split :: "string \<Rightarrow> string \<Rightarrow> string list" where
  "Split s sep = (if sep = [] then map (\<lambda>c. [c]) s else splitOn sep [] s)"

text \<open>The inverse: pieces with a separator between them.\<close>

fun joinWith :: "string \<Rightarrow> string list \<Rightarrow> string" where
  "joinWith sep [] = []"
| "joinWith sep [x] = x"
| "joinWith sep (x # y # xs) = x @ sep @ joinWith sep (y # xs)"

lemma splitOn_Nil: "splitOn sep acc [] = [rev acc]"
  by (simp add: splitOn.simps)

lemma splitOn_sep: "splitOn [c] acc (c # s) = rev acc # splitOn [c] [] s"
  by (simp add: splitOn.simps [of _ _ "c # s"])

lemma splitOn_char: "c \<noteq> d \<Longrightarrow> splitOn [c] acc (d # s) = splitOn [c] (d # acc) s"
  by (simp add: splitOn.simps [of _ _ "d # s"])

lemma splitOn_piece: "c \<notin> set x \<Longrightarrow> splitOn [c] acc (x @ s) = splitOn [c] (rev x @ acc) s"
  by (induction x arbitrary: acc) (auto simp: splitOn_char)

lemma Split_piece: "c \<notin> set x \<Longrightarrow> Split (x @ c # s) [c] = x # Split s [c]"
  by (simp add: Split_def splitOn_piece splitOn_sep)

lemma Split_last: "c \<notin> set x \<Longrightarrow> Split x [c] = [x]"
  using splitOn_piece [of c x "[]" "[]"] by (simp add: Split_def splitOn_Nil)

lemma Split_joinWith:
  "xs \<noteq> [] \<Longrightarrow> \<forall>x \<in> set xs. c \<notin> set x \<Longrightarrow> Split (joinWith [c] xs) [c] = xs"
  by (induction "[c]" xs rule: joinWith.induct) (auto simp: Split_last Split_piece)

section \<open>Trimming and lower case\<close>

definition trimBy :: "(char \<Rightarrow> bool) \<Rightarrow> string \<Rightarrow> string" where
  "trimBy P s = rev (dropWhile P (rev (dropWhile P s)))"

definition isSpace :: "char \<Rightarrow> bool" where
  "isSpace c \<longleftrightarrow> c \<in> {CHR 0x09, CHR 0x0A, CHR 0x0B, CHR 0x0C, CHR 0x0D, CHR '' ''}"

definition TrimSpace :: "string \<Rightarrow> string" where
  "TrimSpace s = trimBy isSpace s"

definition Trim :: "string \<Rightarrow> string \<Rightarrow> string" where
  "Trim s cutset = trimBy (\<lambda>c. c \<in> set cutset) s"

definition lowerChar :: "char \<Rightarrow> char" where
  "lowerChar c = (if 65 \<le> (of_char c :: nat) \<and> (of_char c :: nat) \<le> 90 then char_of ((of_char c :: nat) + 32) else c)"

definition ToLower :: "string \<Rightarrow> string" where
  "ToLower s = map lowerChar s"

text \<open>A string that trimming leaves alone, whatever \<open>P\<close>-characters are put around it.\<close>

definition tight :: "(char \<Rightarrow> bool) \<Rightarrow> string \<Rightarrow> bool" where
  "tight P s \<longleftrightarrow> s \<noteq> [] \<and> \<not> P (hd s) \<and> \<not> P (last s)"

lemma trimBy_tight:
  assumes "tight P s" and "\<forall>c \<in> set xs \<union> set ys. P c"
  shows "trimBy P (xs @ s @ ys) = s"
proof -
  have "dropWhile P (xs @ s @ ys) = s @ ys"
    using assms by (subst dropWhile_append2) (auto simp: tight_def neq_Nil_conv)
  moreover have "dropWhile P (rev ys @ rev s) = rev s"
    using assms by (subst dropWhile_append2) (auto simp: tight_def neq_Nil_conv dropWhile_eq_self_iff hd_rev)
  ultimately show ?thesis by (simp add: trimBy_def)
qed

lemmas trimBy_id = trimBy_tight [of _ _ "[]" "[]", simplified]

section \<open>Lines\<close>

text \<open>
  \<^verbatim>\<open>Scan\<close> of a \<^verbatim>\<open>bufio.Scanner\<close>: lines end at a newline, and a carriage return before it is dropped; the
  text after the last newline is a line when it is not empty. A line that does not fit into the buffer
  of 65536 bytes ends the scan.
\<close>

definition newline :: char where "newline = CHR 0x0A"

definition dropCR :: "string \<Rightarrow> string" where
  "dropCR s = (if s \<noteq> [] \<and> last s = CHR 0x0D then butlast s else s)"

definition scanLines :: "string \<Rightarrow> string list" where
  "scanLines s =
     (let raw = Split s [newline];
          ls = (if last raw = [] then butlast raw else raw)
      in map dropCR (takeWhile (\<lambda>l. length l < 65536) ls))"

lemma Split_lines:
  "\<forall>l \<in> set ls. newline \<notin> set l \<Longrightarrow> Split (concat (map (\<lambda>l. l @ [newline]) ls)) [newline] = ls @ [[]]"
  by (induction ls) (simp_all add: Split_piece Split_last)

text \<open>All the lines of a text; the scanner finds them when none is too long for its buffer.\<close>

definition textLines :: "string \<Rightarrow> string list" where
  "textLines s = map dropCR (if last (Split s [newline]) = [] then butlast (Split s [newline]) else Split s [newline])"

lemma scanLines_all:
  assumes "\<forall>l \<in> set (Split s [newline]). length l < 65536"
  shows "scanLines s = textLines s"
proof -
  have tw: "takeWhile (\<lambda>l. length l < 65536) ls = ls" if "set ls \<subseteq> set (Split s [newline])" for ls :: "string list"
    using that assms by (intro takeWhile_eq_all_conv [THEN iffD2]) auto
  have "set (butlast (Split s [newline])) \<subseteq> set (Split s [newline])" by (auto dest: in_set_butlastD)
  from tw [OF this] tw [OF subset_refl] show ?thesis by (simp add: scanLines_def textLines_def Let_def del: takeWhile_eq_all_conv)
qed

lemma scanLines_concat:
  assumes "\<forall>l \<in> set ls. newline \<notin> set l \<and> length l < 65536 \<and> (l = [] \<or> last l \<noteq> CHR 0x0D)"
  shows "scanLines (concat (map (\<lambda>l. l @ [newline]) ls)) = ls"
proof -
  have tw: "takeWhile (\<lambda>l. length l < 65536) ls = ls" using assms by (simp add: takeWhile_eq_all_conv)
  have cr: "map dropCR ls = ls" using assms by (intro map_idI) (auto simp: dropCR_def)
  show ?thesis using Split_lines [of ls] assms by (simp add: scanLines_def tw cr)
qed

section \<open>Searching\<close>

text \<open>\<^verbatim>\<open>strings.Index\<close> and \<^verbatim>\<open>strings.LastIndex\<close>; \<open>None\<close> is -1.\<close>

fun Index :: "string \<Rightarrow> string \<Rightarrow> nat option" where
  "Index [] sub = (if sub = [] then Some 0 else None)"
| "Index (c # s) sub = (if take (length sub) (c # s) = sub then Some 0 else map_option Suc (Index s sub))"

fun LastIndex :: "string \<Rightarrow> string \<Rightarrow> nat option" where
  "LastIndex [] sub = (if sub = [] then Some 0 else None)"
| "LastIndex (c # s) sub = (case LastIndex s sub of Some n \<Rightarrow> Some (Suc n) | None \<Rightarrow> if take (length sub) (c # s) = sub then Some 0 else None)"

lemma Index_char: "c \<notin> set s \<Longrightarrow> Index s [c] = None" "c \<notin> set s \<Longrightarrow> Index (s @ c # t) [c] = Some (length s)"
  by (induction s) auto

lemma LastIndex_append: "LastIndex t sub = Some n \<Longrightarrow> LastIndex (s @ t) sub = Some (length s + n)"
  by (induction s) auto

lemma LastIndex_skip: "sub \<noteq> [] \<Longrightarrow> hd sub \<notin> set s \<Longrightarrow> LastIndex t sub = None \<Longrightarrow> LastIndex (s @ t) sub = None"
  by (induction s) (auto simp: neq_Nil_conv)

end
