(* ===== verification/Catalogs.thy ===== *)
theory Catalogs
  imports HeapFileIO GoStrings
begin

text \<open>
  \<^verbatim>\<open>godb/catalog.go\<close>: the tables of a database by name and by column, read from and written to a text file.
  A table is a value, not a pointer: the code never changes one. \<^verbatim>\<open>tableMap[x] = nil\<close> and a missing entry
  are the same to every reader. \<open>textFiles\<close> are the text files of the host, \<open>None\<close> one that cannot be opened.
\<close>

section \<open>Catalogs\<close>

type_synonym textFiles = "string \<Rightarrow> string option"

record Table =
  tname :: string
  tdesc :: TupleDesc

record Catalog =
  catTables :: "Table list"
  tableMap :: "string \<Rightarrow> Table option"
  columnMap :: "string \<Rightarrow> Table list"
  rootPath :: string

definition newCatalog :: "string \<Rightarrow> Catalog" where
  "newCatalog root = \<lparr>catTables = [], tableMap = (\<lambda>_. None), columnMap = (\<lambda>_. []), rootPath = root\<rparr>"

definition tableNameToFile :: "string \<Rightarrow> string" where
  "tableNameToFile tableName = tableName @ ''.dat''"

definition GetTable :: "string \<Rightarrow> Catalog \<Rightarrow> HeapFile result" where
  "GetTable named c =
     (case tableMap c named of
        None \<Rightarrow> Err (GoDBError NoSuchTableError)
      | Some t \<Rightarrow> Ok (NewHeapFile (tableNameToFile named) (TupleDesc_copy (tdesc t))))"

text \<open>The loop over the fields appends the table to the list of each column.\<close>

definition addColumns :: "Table \<Rightarrow> (string \<Rightarrow> Table list) \<Rightarrow> string \<Rightarrow> Table list" where
  "addColumns t m = fold (\<lambda>f m. m(Fname f := m (Fname f) @ [t])) (Fields (tdesc t)) m"

definition addTable :: "string \<Rightarrow> TupleDesc \<Rightarrow> Catalog \<Rightarrow> Catalog result" where
  "addTable named desc c =
     (case GetTable named c of
        Err _ \<Rightarrow>
          (let t = \<lparr>tname = named, tdesc = desc\<rparr> in
           Ok (c\<lparr>catTables := catTables c @ [t], tableMap := (tableMap c)(named \<mapsto> t),
                 columnMap := addColumns t (columnMap c)\<rparr>))
      | Ok _ \<Rightarrow> Err (GoDBError DuplicateTableError)
      | Panic x \<Rightarrow> Panic x)"

text \<open>\<^verbatim>\<open>dropTable\<close> also removes the file of the table from the disk.\<close>

fun dropLoop :: "string \<Rightarrow> Table list \<Rightarrow> Table list option" where
  "dropLoop table [] = None"
| "dropLoop table (t # ts) = (if tname t = table then Some ts else map_option (Cons t) (dropLoop table ts))"

definition dropTable :: "string \<Rightarrow> Catalog \<times> Disk \<Rightarrow> (Catalog \<times> Disk) result" where
  "dropTable table cd =
     (case cd of (c, d) \<Rightarrow> (case dropLoop table (catTables c) of
        None \<Rightarrow> Err (GoDBError NoSuchTableError)
      | Some ts \<Rightarrow> Ok (c\<lparr>catTables := ts, tableMap := (tableMap c)(table := None), columnMap := (columnMap c)(table := [])\<rparr>,
                       d(tableNameToFile table := []))))"

definition findTablesWithColumn :: "string \<Rightarrow> Catalog \<Rightarrow> Table list" where
  "findTablesWithColumn named c = columnMap c named"

definition NumTables :: "Catalog \<Rightarrow> nat" where
  "NumTables c = length (catTables c)"

definition GetTableIdx :: "int \<Rightarrow> Catalog \<Rightarrow> HeapFile result" where
  "GetTableIdx t c =
     (if 0 \<le> t \<and> t < int (length (catTables c)) then GetTable (tname (catTables c ! nat t)) c else Panic IndexOutOfRange)"

section \<open>The catalog file\<close>

definition fieldString :: "FieldType \<Rightarrow> string" where
  "fieldString f = Fname f @ '' '' @ typeNames (Ftype f)"

definition tableString :: "Table \<Rightarrow> string" where
  "tableString t = tname t @ '' '' @ ''('' @ joinWith '', '' (map fieldString (Fields (tdesc t))) @ '')''"

definition CatalogString :: "Catalog \<Rightarrow> string" where
  "CatalogString c = concat (map (\<lambda>t. tableString t @ [newline]) (catTables c))"

definition SaveToFile :: "(string \<Rightarrow> bool) \<Rightarrow> string \<Rightarrow> string \<Rightarrow> Catalog \<Rightarrow> textFiles \<Rightarrow> textFiles result" where
  "SaveToFile creatable catalogFile root c tf =
     (let path = root @ ''/'' @ catalogFile in
      if creatable path then Ok (tf(path \<mapsto> CatalogString c)) else Err (PlainError ''open''))"

definition parseType :: "string \<Rightarrow> DBType option" where
  "parseType ty =
     (if ty \<in> {''int'', ''integer''} then Some IntType
      else if ty \<in> {''string'', ''varchar'', ''text''} then Some StringType else None)"

definition parseField :: "string \<Rightarrow> FieldType result" where
  "parseField f =
     (let nameType = Split (TrimSpace f) '' '' in
      if length nameType \<noteq> 2 then Err (GoDBError ParseError)
      else (case parseType (nameType ! 1) of
         None \<Rightarrow> Err (GoDBError ParseError)
       | Some ty \<Rightarrow> Ok \<lparr>Fname = nameType ! 0, TableQualifier = [], Ftype = ty\<rparr>))"

definition parseEntry :: "string \<Rightarrow> (string \<times> TupleDesc) result" where
  "parseEntry text =
     (let sep = Split (ToLower text) ''('' in
      if length sep \<noteq> 2 then Err (GoDBError ParseError)
      else bind_go (map_go parseField (Split (Trim (sep ! 1) ''()'') '','')) (\<lambda>fs.
        Ok (TrimSpace (sep ! 0), \<lparr>Fields = fs\<rparr>)))"

definition parseCatalogFile :: "string \<Rightarrow> string \<Rightarrow> textFiles \<Rightarrow> (TupleDesc list \<times> string list) result" where
  "parseCatalogFile catalogFile root tf =
     (case tf (root @ ''/'' @ catalogFile) of
        None \<Rightarrow> Err (PlainError ''open'')
      | Some s \<Rightarrow> bind_go (map_go parseEntry (scanLines s)) (\<lambda>es. Ok (map snd es, map fst es)))"

text \<open>The loop of \<^verbatim>\<open>NewCatalogFromFile\<close> ignores the error of \<^verbatim>\<open>addTable\<close>.\<close>

definition addIgnoring :: "string \<times> TupleDesc \<Rightarrow> Catalog \<Rightarrow> Catalog" where
  "addIgnoring e c = (case addTable (fst e) (snd e) c of Ok c' \<Rightarrow> c' | _ \<Rightarrow> c)"

definition NewCatalogFromFile :: "string \<Rightarrow> string \<Rightarrow> textFiles \<Rightarrow> Catalog result" where
  "NewCatalogFromFile catalogFile root tf =
     bind_go (parseCatalogFile catalogFile root tf) (\<lambda>(tabs, names).
       Ok (fold addIgnoring (zip names tabs) (newCatalog root)))"

section \<open>A directory of tables\<close>

text \<open>
  What the catalog promises to its callers: entries under names, of which the first one added stays
  until it is removed.
\<close>

locale directory =
  fixes ok :: "'c \<Rightarrow> bool" and entries :: "'c \<Rightarrow> ('n \<times> 'd) list" and lookup :: "'n \<Rightarrow> 'c \<Rightarrow> 'd option"
    and add :: "'n \<times> 'd \<Rightarrow> 'c \<Rightarrow> 'c"
  assumes lookup_entries: "ok c \<Longrightarrow> lookup n c = map_of (entries c) n"
    and add_ok: "ok c \<Longrightarrow> ok (add e c)"
    and add_entries: "ok c \<Longrightarrow> entries (add e c) = (if lookup (fst e) c = None then entries c @ [e] else entries c)"
begin

lemma fold_add_ok: "ok c \<Longrightarrow> ok (fold add es c)"
  by (induction es arbitrary: c) (auto simp: add_ok)

lemma fold_add_lookup:
  "ok c \<Longrightarrow> lookup n (fold add es c) = (case lookup n c of Some d \<Rightarrow> Some d | None \<Rightarrow> map_of es n)"
proof (induction es arbitrary: c)
  case (Cons e es)
  have "lookup n (add e c) = (if lookup n c = None \<and> n = fst e then Some (snd e) else lookup n c)"
    using lookup_entries [OF add_ok [OF Cons.prems], of n e] lookup_entries [OF Cons.prems] add_entries [OF Cons.prems, of e]
    by (auto simp: map_add_def split: option.splits if_splits)
  with Cons.IH [OF add_ok [OF Cons.prems]] show ?case by (cases e) (auto split: option.splits)
qed (simp split: option.splits)

lemma fold_add_entries:
  "ok c \<Longrightarrow> distinct (map fst (entries c @ es)) \<Longrightarrow> entries (fold add es c) = entries c @ es"
proof (induction es arbitrary: c)
  case (Cons e es)
  have "lookup (fst e) c = None" using lookup_entries [OF Cons.prems(1)] Cons.prems(2) by (auto simp: map_of_eq_None_iff)
  then have "entries (add e c) = entries c @ [e]" using add_entries [OF Cons.prems(1)] by simp
  with Cons.IH [OF add_ok [OF Cons.prems(1)], of e] Cons.prems(2) show ?case by simp
qed simp

end

text \<open>The invariant: the names are distinct, and the map of tables agrees with the list.\<close>

definition catEntries :: "Catalog \<Rightarrow> (string \<times> TupleDesc) list" where
  "catEntries c = map (\<lambda>t. (tname t, tdesc t)) (catTables c)"

definition lookupTable :: "string \<Rightarrow> Catalog \<Rightarrow> TupleDesc option" where
  "lookupTable n c = map_option tdesc (tableMap c n)"

definition catalog_ok :: "Catalog \<Rightarrow> bool" where
  "catalog_ok c \<longleftrightarrow> distinct (map tname (catTables c)) \<and> (\<forall>n. tableMap c n = List.find (\<lambda>t. tname t = n) (catTables c))"

text \<open>The tables that have a column, once for every field of that name.\<close>

definition tablesWith :: "string \<Rightarrow> Table list \<Rightarrow> Table list" where
  "tablesWith col ts = concat (map (\<lambda>t. map (\<lambda>_. t) (filter (\<lambda>f. Fname f = col) (Fields (tdesc t)))) ts)"

definition columns_ok :: "Catalog \<Rightarrow> bool" where
  "columns_ok c \<longleftrightarrow> (\<forall>col. columnMap c col = tablesWith col (catTables c))"

lemma GetTable_lookup:
  "GetTable n c = (case lookupTable n c of
     None \<Rightarrow> Err (GoDBError NoSuchTableError) | Some d \<Rightarrow> Ok (NewHeapFile (tableNameToFile n) (TupleDesc_copy d)))"
  by (simp add: GetTable_def lookupTable_def split: option.split)

lemma find_map_of: "map_option tdesc (List.find (\<lambda>t. tname t = n) ts) = map_of (map (\<lambda>t. (tname t, tdesc t)) ts) n"
  by (induction ts) auto

lemma find_name_None: "List.find (\<lambda>t. tname t = n) ts = None \<longleftrightarrow> n \<notin> tname ` set ts"
  by (auto simp: find_None_iff)

lemma find_append: "List.find P (xs @ ys) = (case List.find P xs of None \<Rightarrow> List.find P ys | Some x \<Rightarrow> Some x)"
  by (induction xs) auto

lemma addTable_eq:
  "addTable n d c = (case tableMap c n of
     None \<Rightarrow> Ok (c\<lparr>catTables := catTables c @ [\<lparr>tname = n, tdesc = d\<rparr>], tableMap := (tableMap c)(n \<mapsto> \<lparr>tname = n, tdesc = d\<rparr>),
       columnMap := addColumns \<lparr>tname = n, tdesc = d\<rparr> (columnMap c)\<rparr>)
   | Some t \<Rightarrow> Err (GoDBError DuplicateTableError))"
  by (simp add: addTable_def GetTable_def Let_def split: option.split)

lemma catalog_ok_add: "catalog_ok c \<Longrightarrow> addTable n d c = Ok c' \<Longrightarrow> catalog_ok c'"
proof -
  assume ok: "catalog_ok c" and add: "addTable n d c = Ok c'"
  have new: "List.find (\<lambda>t. tname t = n) (catTables c) = None" and c': "catTables c' = catTables c @ [\<lparr>tname = n, tdesc = d\<rparr>]"
    "tableMap c' = (tableMap c)(n \<mapsto> \<lparr>tname = n, tdesc = d\<rparr>)"
    using ok add by (auto simp: addTable_eq catalog_ok_def split: option.splits)
  then have "n \<notin> tname ` set (catTables c)" by (simp add: find_name_None)
  with ok new c' show ?thesis by (auto simp: catalog_ok_def find_append split: option.split)
qed

lemma addColumns_col: "addColumns t m col = m col @ map (\<lambda>_. t) (filter (\<lambda>f. Fname f = col) (Fields (tdesc t)))"
proof -
  have "fold (\<lambda>f m. m(Fname f := m (Fname f) @ [t])) fs m col = m col @ map (\<lambda>_. t) (filter (\<lambda>f. Fname f = col) fs)" for fs m
    by (induction fs arbitrary: m) auto
  then show ?thesis by (simp add: addColumns_def)
qed

lemma columns_ok_add: "columns_ok c \<Longrightarrow> addTable n d c = Ok c' \<Longrightarrow> columns_ok c'"
  by (auto simp: addTable_eq columns_ok_def addColumns_col tablesWith_def split: option.splits)

interpretation catalogs: directory catalog_ok catEntries lookupTable addIgnoring
proof unfold_locales
  fix c n
  assume "catalog_ok c"
  then show "lookupTable n c = map_of (catEntries c) n" by (simp add: lookupTable_def catEntries_def catalog_ok_def find_map_of)
next
  fix c e
  assume "catalog_ok c"
  then show "catalog_ok (addIgnoring e c)" using catalog_ok_add [of c "fst e" "snd e"] by (auto simp: addIgnoring_def split: go_result.split)
next
  fix c :: Catalog and e
  assume "catalog_ok c"
  show "catEntries (addIgnoring e c) = (if lookupTable (fst e) c = None then catEntries c @ [e] else catEntries c)"
    by (auto simp: addIgnoring_def addTable_eq catEntries_def lookupTable_def split: option.splits)
qed

lemma dropLoop_Some:
  "distinct (map tname ts) \<Longrightarrow> dropLoop n ts = (if n \<in> tname ` set ts then Some (filter (\<lambda>t. tname t \<noteq> n) ts) else None)"
proof (induction ts)
  case (Cons t ts)
  have "tname t = n \<Longrightarrow> filter (\<lambda>t. tname t \<noteq> n) ts = ts" using Cons.prems by (intro filter_True) (auto simp: image_iff)
  with Cons show ?case by auto
qed simp

lemma find_filter: "List.find P (filter Q xs) = List.find (\<lambda>x. Q x \<and> P x) xs"
  by (induction xs) auto

lemma find_other: "m \<noteq> n \<Longrightarrow> List.find (\<lambda>t. tname t \<noteq> n \<and> tname t = m) ts = List.find (\<lambda>t. tname t = m) ts"
  by (induction ts) auto

lemma catalog_ok_drop:
  assumes "catalog_ok c" and "dropTable n (c, d) = Ok (c', d')"
  shows "catalog_ok c'" and "catTables c' = filter (\<lambda>t. tname t \<noteq> n) (catTables c)" and "d' = d(tableNameToFile n := [])"
    and "columnMap c' = (columnMap c)(n := [])"
proof -
  have dl: "dropLoop n (catTables c) = Some (catTables c')" and m: "tableMap c' = (tableMap c)(n := None)"
    and "d' = d(tableNameToFile n := [])" and "columnMap c' = (columnMap c)(n := [])"
    using assms(2) by (auto simp: dropTable_def split: option.splits)
  then show "d' = d(tableNameToFile n := [])" and "columnMap c' = (columnMap c)(n := [])" by auto
  show ts: "catTables c' = filter (\<lambda>t. tname t \<noteq> n) (catTables c)"
    using dl dropLoop_Some [of "catTables c" n] assms(1) by (auto simp: catalog_ok_def split: if_splits)
  have none: "List.find (\<lambda>t. False) xs = None" for xs :: "Table list" by (induction xs) auto
  have "tableMap c' m = List.find (\<lambda>t. tname t = m) (catTables c')" for m
    using assms(1) m by (cases "m = n") (simp_all add: ts find_filter find_other catalog_ok_def none)
  then show "catalog_ok c'"
    using assms(1) by (auto simp: catalog_ok_def ts distinct_map_filter)
qed

text \<open>
  C37: the catalog is a directory of tables. On a catalog whose map agrees with its list, \<^verbatim>\<open>addTable\<close> adds a
  table of a new name, which \<^verbatim>\<open>GetTable\<close> then returns, and refuses a name that is taken; \<^verbatim>\<open>dropTable\<close> removes
  the table and empties its file, and refuses a name that is not there. Both keep the agreement, and every
  other table is found as before.
\<close>

theorem catalog_operations:
  assumes "catalog_ok c"
  shows "case lookupTable n c of
      None \<Rightarrow> (\<exists>c'. addTable n desc c = Ok c' \<and> catalog_ok c' \<and> NumTables c' = NumTables c + 1 \<and>
          GetTable n c' = Ok (NewHeapFile (tableNameToFile n) desc) \<and> (\<forall>m. m \<noteq> n \<longrightarrow> GetTable m c' = GetTable m c)) \<and>
        dropTable n (c, d) = Err (GoDBError NoSuchTableError)
    | Some _ \<Rightarrow> addTable n desc c = Err (GoDBError DuplicateTableError) \<and>
        (\<exists>c'. dropTable n (c, d) = Ok (c', d(tableNameToFile n := [])) \<and> catalog_ok c' \<and> NumTables c = NumTables c' + 1 \<and>
          GetTable n c' = Err (GoDBError NoSuchTableError) \<and> (\<forall>m. m \<noteq> n \<longrightarrow> GetTable m c' = GetTable m c))"
proof (cases "lookupTable n c")
  case None
  then have new: "tableMap c n = None" by (simp add: lookupTable_def)
  then obtain c' where add: "addTable n desc c = Ok c'" "tableMap c' = (tableMap c)(n \<mapsto> \<lparr>tname = n, tdesc = desc\<rparr>)"
    "catTables c' = catTables c @ [\<lparr>tname = n, tdesc = desc\<rparr>]" by (simp add: addTable_eq)
  have "n \<notin> tname ` set (catTables c)" using assms new by (simp add: catalog_ok_def find_name_None)
  then have "dropTable n (c, d) = Err (GoDBError NoSuchTableError)"
    using dropLoop_Some [of "catTables c" n] assms by (simp add: dropTable_def catalog_ok_def)
  moreover have "TupleDesc_copy desc = desc" by (simp add: TupleDesc_copy_def)
  ultimately show ?thesis
    using None add catalog_ok_add [OF assms add(1)] by (auto simp: NumTables_def GetTable_def)
next
  case (Some desc')
  then obtain t where t: "tableMap c n = Some t" by (auto simp: lookupTable_def)
  then have mem: "n \<in> tname ` set (catTables c)" using assms find_name_None [of n "catTables c"] by (auto simp: catalog_ok_def)
  then obtain c' where drop: "dropTable n (c, d) = Ok (c', d(tableNameToFile n := []))" "tableMap c' = (tableMap c)(n := None)"
    using dropLoop_Some [of "catTables c" n] assms by (simp add: dropTable_def catalog_ok_def)
  note d = catalog_ok_drop [OF assms drop(1)]
  have dist: "distinct (map tname (catTables c))" using assms by (simp add: catalog_ok_def)
  have "length (filter (\<lambda>t. tname t = n) (catTables c)) = 1"
    using mem distinct_card [of "map tname (filter (\<lambda>t. tname t = n) (catTables c))"] dist
    by (simp add: distinct_map_filter) (subgoal_tac "tname ` {t \<in> set (catTables c). tname t = n} = {n}"; auto)
  then have "NumTables c = NumTables c' + 1"
    using sum_length_filter_compl [of "\<lambda>t. tname t = n" "catTables c"] d(2) by (simp add: NumTables_def)
  with Some t drop d(1) show ?thesis by (auto simp: addTable_eq GetTable_def)
qed

section \<open>Writing and reading the catalog\<close>

text \<open>Names of lower-case letters, digits and underscores; what a catalog file can hold.\<close>

definition nameChar :: "char \<Rightarrow> bool" where
  "nameChar c \<longleftrightarrow> (let n = of_char c :: nat in 48 \<le> n \<and> n \<le> 57 \<or> 97 \<le> n \<and> n \<le> 122 \<or> n = 95)"

definition plainName :: "string \<Rightarrow> bool" where
  "plainName s \<longleftrightarrow> s \<noteq> [] \<and> list_all nameChar s"

definition storable :: "Table \<Rightarrow> bool" where
  "storable t \<longleftrightarrow> plainName (tname t) \<and> Fields (tdesc t) \<noteq> [] \<and> length (tableString t) < 65536 \<and>
     (\<forall>f \<in> set (Fields (tdesc t)). plainName (Fname f) \<and> TableQualifier f = [] \<and> Ftype f \<noteq> UnknownType)"

lemma nameChar_facts:
  assumes "nameChar c"
  shows "lowerChar c = c" and "\<not> isSpace c" and "c \<noteq> CHR ''(''" and "c \<noteq> CHR '')''" and "c \<noteq> CHR '',''" and "c \<noteq> CHR '' ''" and "c \<noteq> newline"
  using assms by (auto simp: nameChar_def lowerChar_def isSpace_def newline_def Let_def)

lemma plainName_chars: "plainName s \<Longrightarrow> c \<in> set s \<Longrightarrow> nameChar c"
  by (simp add: plainName_def list_all_iff)

lemma plainName_tight: "plainName s \<Longrightarrow> tight isSpace s" "plainName s \<Longrightarrow> \<not> isSpace (hd s)"
  using nameChar_facts(2) by (auto simp: plainName_def tight_def list_all_iff)

lemma plainName_type: "ty \<noteq> UnknownType \<Longrightarrow> plainName (typeNames ty)"
  by (cases ty) (simp_all add: typeNames_def plainName_def nameChar_def)

lemma parseType_typeNames: "ty \<noteq> UnknownType \<Longrightarrow> parseType (typeNames ty) = Some ty"
  by (cases ty) (simp_all add: typeNames_def parseType_def)

lemma fieldString_chars:
  assumes "plainName (Fname f)" and "Ftype f \<noteq> UnknownType" and "c \<in> set (fieldString f)"
  shows "nameChar c \<or> c = CHR '' ''"
  using assms plainName_chars plainName_type by (fastforce simp: fieldString_def)

lemma parseField_fieldString:
  assumes "plainName (Fname f)" and "Ftype f \<noteq> UnknownType" and "TableQualifier f = []" and "set pre \<subseteq> {CHR '' ''}"
  shows "parseField (pre @ fieldString f) = Ok f"
proof -
  note ty = plainName_type [OF assms(2)]
  have "tight isSpace (fieldString f)"
    using plainName_tight [OF assms(1)] plainName_tight(1) [OF ty] by (simp add: tight_def fieldString_def)
  then have tr: "TrimSpace (pre @ fieldString f) = fieldString f"
    using trimBy_tight [of isSpace "fieldString f" pre "[]"] assms(4) by (auto simp: TrimSpace_def isSpace_def)
  have "CHR '' '' \<notin> set (Fname f)" "CHR '' '' \<notin> set (typeNames (Ftype f))"
    using plainName_chars [OF assms(1)] plainName_chars [OF ty] nameChar_facts(6) by blast+
  then have "Split (fieldString f) '' '' = [Fname f, typeNames (Ftype f)]"
    by (simp add: fieldString_def Split_piece Split_last)
  then show ?thesis using assms(3) by (simp add: parseField_def tr parseType_typeNames [OF assms(2)])
qed

lemma joinWith_comma: "xs \<noteq> [] \<Longrightarrow> joinWith '', '' xs = joinWith '','' (hd xs # map (\<lambda>x. '' '' @ x) (tl xs))"
proof (induction "'', ''" xs rule: joinWith.induct)
  case (3 x y xs)
  then show ?case by (cases xs) auto
qed auto

lemma set_joinWith: "set (joinWith sep xs) \<subseteq> set sep \<union> (\<Union>x \<in> set xs. set x)"
  by (induction sep xs rule: joinWith.induct) auto

lemma tight_joinWith: "xs \<noteq> [] \<Longrightarrow> \<forall>x \<in> set xs. tight P x \<Longrightarrow> tight P (joinWith sep xs)"
  by (induction sep xs rule: joinWith.induct) (auto simp: tight_def)

definition fieldList :: "Table \<Rightarrow> string" where
  "fieldList t = joinWith '', '' (map fieldString (Fields (tdesc t)))"

lemma storable_field:
  assumes "storable t" and "f \<in> set (Fields (tdesc t))"
  shows "plainName (Fname f)" and "TableQualifier f = []" and "Ftype f \<noteq> UnknownType"
  using assms by (auto simp: storable_def)

lemma fieldList_chars:
  assumes "storable t" and "c \<in> set (fieldList t)"
  shows "nameChar c \<or> c = CHR '' '' \<or> c = CHR '',''"
proof -
  from assms(2) set_joinWith [of "'', ''" "map fieldString (Fields (tdesc t))"]
  have "c \<in> set '', '' \<or> (\<exists>f \<in> set (Fields (tdesc t)). c \<in> set (fieldString f))" by (auto simp: fieldList_def)
  then show ?thesis
  proof (elim disjE bexE)
    fix f
    assume "f \<in> set (Fields (tdesc t))" and "c \<in> set (fieldString f)"
    then show ?thesis using fieldString_chars [of f c] storable_field [OF assms(1), of f] by blast
  qed auto
qed

lemma fieldList_no_paren: "storable t \<Longrightarrow> CHR ''('' \<notin> set (fieldList t)" "storable t \<Longrightarrow> CHR '')'' \<notin> set (fieldList t)"
  using fieldList_chars [of t "CHR ''(''"] fieldList_chars [of t "CHR '')''"] nameChar_facts(3) [of "CHR ''(''"] nameChar_facts(4) [of "CHR '')''"]
  by auto

lemma tableString_lower: "storable t \<Longrightarrow> ToLower (tableString t) = tableString t"
proof -
  assume st: "storable t"
  then have n: "plainName (tname t)" by (simp add: storable_def)
  have "lowerChar c = c" if "nameChar c \<or> c \<in> set '' (),''" for c
    using that
  proof
    assume "c \<in> set '' (),''"
    then show ?thesis by (auto simp: lowerChar_def)
  qed (rule nameChar_facts(1))
  moreover have "nameChar c \<or> c \<in> set '' (),''" if "c \<in> set (tableString t)" for c
    using that plainName_chars [OF n, of c] fieldList_chars [OF st, of c] by (auto simp: tableString_def fieldList_def)
  ultimately show ?thesis unfolding ToLower_def by (intro map_idI) blast
qed

lemma tableString_split: "storable t \<Longrightarrow> Split (tableString t) ''('' = [tname t @ '' '', fieldList t @ '')'']"
proof -
  assume st: "storable t"
  then have "plainName (tname t)" by (simp add: storable_def)
  then have "CHR ''('' \<notin> set (tname t @ '' '')"
    using plainName_chars [of "tname t" "CHR ''(''"] nameChar_facts(3) [of "CHR ''(''"] by auto
  from Split_piece [OF this, of "fieldList t @ '')''"] show ?thesis
    using fieldList_no_paren(1) [OF st] by (simp add: tableString_def fieldList_def Split_last)
qed

lemma fieldList_trim: "storable t \<Longrightarrow> Trim (fieldList t @ '')'') ''()'' = fieldList t"
proof -
  assume st: "storable t"
  have "fieldList t \<noteq> []" using st by (cases "Fields (tdesc t)" rule: remdups_adj.cases) (auto simp: storable_def fieldList_def fieldString_def)
  then have "\<And>x. x \<notin> set (fieldList t) \<Longrightarrow> hd (fieldList t) \<noteq> x \<and> last (fieldList t) \<noteq> x" by auto
  then have "tight (\<lambda>c. c \<in> set ''()'') (fieldList t)"
    using fieldList_no_paren [OF st] \<open>fieldList t \<noteq> []\<close> unfolding tight_def by auto
  from trimBy_tight [OF this, of "[]" "'')''"] show ?thesis by (simp add: Trim_def)
qed

lemma fieldList_fields:
  assumes "storable t"
  shows "map_go parseField (Split (fieldList t) '','') = Ok (Fields (tdesc t))"
proof -
  obtain f fs where fs: "Fields (tdesc t) = f # fs" using assms by (cases "Fields (tdesc t)") (auto simp: storable_def)
  let ?pieces = "fieldString f # map (\<lambda>g. '' '' @ fieldString g) fs"
  have join: "fieldList t = joinWith '','' ?pieces"
    using joinWith_comma [of "map fieldString (f # fs)"] by (simp add: fieldList_def fs o_def)
  have "CHR '','' \<notin> set (fieldString g)" if "g \<in> set (f # fs)" for g
    using fieldString_chars [of g "CHR '',''"] storable_field [OF assms, of g] that fs nameChar_facts(5) [of "CHR '',''"] by auto
  then have split: "Split (fieldList t) '','' = ?pieces" unfolding join by (intro Split_joinWith) auto
  have f: "parseField (pre @ fieldString g) = Ok g" if "g \<in> set (f # fs)" "set pre \<subseteq> {CHR '' ''}" for g pre
    using parseField_fieldString [of g pre] storable_field [OF assms, of g] that fs by auto
  have "list_all2 (\<lambda>x y. parseField x = Ok y) (map (\<lambda>g. '' '' @ fieldString g) fs) fs"
    unfolding list_all2_map1 by (rule list.rel_refl_strong, rule f) auto
  moreover have "parseField (fieldString f) = Ok f" using f [of f "[]"] by simp
  ultimately show ?thesis unfolding split fs map_go_Ok_iff by simp
qed

lemma parseEntry_tableString:
  assumes "storable t"
  shows "parseEntry (tableString t) = Ok (tname t, tdesc t)"
proof -
  have "tight isSpace (tname t)" using plainName_tight(1) assms by (simp add: storable_def)
  then have name: "TrimSpace (tname t @ '' '') = tname t"
    using trimBy_tight [of isSpace "tname t" "[]" "'' ''"] by (simp add: TrimSpace_def isSpace_def)
  show ?thesis
    using tableString_lower [OF assms] tableString_split [OF assms] fieldList_trim [OF assms] fieldList_fields [OF assms]
    by (simp add: parseEntry_def name)
qed

lemma catTables_entries: "map (\<lambda>(x, y). \<lparr>tname = x, tdesc = y\<rparr>) (catEntries c) = catTables c"
  by (simp add: catEntries_def o_def map_idI)

lemma saved_catalog_read:
  assumes "catalog_ok c" and "\<forall>t \<in> set (catTables c). storable t" and "SaveToFile creatable file root c tf = Ok tf'"
  shows "\<exists>c'. NewCatalogFromFile file root tf' = Ok c' \<and> catalog_ok c' \<and> columns_ok c' \<and> catTables c' = catTables c \<and>
    (\<forall>n. GetTable n c' = GetTable n c)"
proof -
  have tf': "tf' (root @ ''/'' @ file) = Some (CatalogString c)" using assms(3) by (auto simp: SaveToFile_def Let_def split: if_splits)
  have line: "newline \<notin> set (tableString t) \<and> length (tableString t) < 65536 \<and> (tableString t = [] \<or> last (tableString t) \<noteq> CHR 0x0D)"
    if "t \<in> set (catTables c)" for t
  proof -
    have st: "storable t" using assms(2) that by blast
    then have "newline \<notin> set (tname t)" using plainName_chars [of "tname t" newline] nameChar_facts(7) [of newline] by (auto simp: storable_def)
    moreover have "newline \<notin> set (fieldList t)" using fieldList_chars [OF st, of newline] nameChar_facts(7) [of newline] by (auto simp: newline_def)
    ultimately show ?thesis using st by (auto simp: tableString_def fieldList_def newline_def storable_def)
  qed
  have "scanLines (CatalogString c) = map tableString (catTables c)"
    using scanLines_concat [of "map tableString (catTables c)"] line by (simp add: CatalogString_def o_def)
  moreover have "map_go parseEntry (map tableString (catTables c)) = Ok (catEntries c)"
    using parseEntry_tableString assms(2) by (simp add: map_go_Ok_iff list_all2_map1 catEntries_def list_all2_map2 list.rel_refl_strong)
  ultimately have new: "NewCatalogFromFile file root tf' = Ok (fold addIgnoring (catEntries c) (newCatalog root))"
    unfolding NewCatalogFromFile_def parseCatalogFile_def tf' by (simp add: zip_map_fst_snd)
  let ?c = "fold addIgnoring (catEntries c) (newCatalog root)"
  have n: "catalog_ok (newCatalog root)" "catEntries (newCatalog root) = []" "columns_ok (newCatalog root)"
    by (simp_all add: newCatalog_def catalog_ok_def catEntries_def columns_ok_def tablesWith_def)
  have ok: "catalog_ok ?c" using catalogs.fold_add_ok [OF n(1)] .
  have e: "catEntries ?c = catEntries c"
    using catalogs.fold_add_entries [OF n(1), of "catEntries c"] assms(1) n(2) by (simp add: catalog_ok_def catEntries_def o_def)
  then have ts: "catTables ?c = catTables c" using catTables_entries by metis
  have "columns_ok (fold addIgnoring es d)" if "columns_ok d" for es d
    using that by (induction es arbitrary: d) (auto simp: addIgnoring_def columns_ok_add split: go_result.split)
  then have "columns_ok ?c" using n(3) by blast
  moreover have "GetTable n ?c = GetTable n c" for n
    using ok assms(1) ts by (simp add: GetTable_def catalog_ok_def)
  ultimately show ?thesis using new ok ts by blast
qed

text \<open>
  C38: a saved catalog is read back. When its tables have plain names and columns of known types,
  writing the catalog to a file and making a catalog from that file gives one with the same tables in the
  same order, in which every table is found by its name, and by each of its columns.
\<close>

theorem catalog_roundtrip:
  assumes "catalog_ok c" and "\<forall>t \<in> set (catTables c). storable t" and "SaveToFile creatable file root c tf = Ok tf'"
  shows "\<exists>c'. NewCatalogFromFile file root tf' = Ok c' \<and> catalog_ok c' \<and> columns_ok c' \<and> catTables c' = catTables c \<and>
    (\<forall>n. GetTable n c' = GetTable n c)"
  by (rule saved_catalog_read [OF assms])

text \<open>
  Dropping a table leaves it in the column index. \<^verbatim>\<open>dropTable\<close> clears the entry of \<^verbatim>\<open>columnMap\<close> under the
  name of the table instead of the entries of its columns: the table can no longer be found by its name,
  but a search for the tables with one of its columns still returns it.
\<close>

theorem dropTable_stale_column:
  assumes "catalog_ok c" and "columns_ok c" and "t \<in> set (catTables c)" and "f \<in> set (Fields (tdesc t))" and "Fname f \<noteq> tname t"
  shows "\<exists>c'. dropTable (tname t) (c, d) = Ok (c', d(tableNameToFile (tname t) := [])) \<and>
    GetTable (tname t) c' = Err (GoDBError NoSuchTableError) \<and> t \<in> set (findTablesWithColumn (Fname f) c')"
proof -
  have "tname t \<in> tname ` set (catTables c)" using assms(3) by simp
  then obtain c' where drop: "dropTable (tname t) (c, d) = Ok (c', d(tableNameToFile (tname t) := []))" "tableMap c' (tname t) = None"
    using dropLoop_Some [of "catTables c" "tname t"] assms(1) by (simp add: dropTable_def catalog_ok_def)
  have "t \<in> set (columnMap c (Fname f))" using assms(2-4) by (auto simp: columns_ok_def tablesWith_def)
  then have "t \<in> set (columnMap c' (Fname f))" using catalog_ok_drop(4) [OF assms(1) drop(1)] assms(5) by simp
  with drop show ?thesis by (auto simp: GetTable_def findTablesWithColumn_def)
qed

section \<open>The theorems on an example\<close>

definition exTable :: Table where
  "exTable = \<lparr>tname = ''t'', tdesc = \<lparr>Fields = [\<lparr>Fname = ''a'', TableQualifier = [], Ftype = IntType\<rparr>,
     \<lparr>Fname = ''b_1'', TableQualifier = [], Ftype = StringType\<rparr>]\<rparr>\<rparr>"

definition exCatalog :: Catalog where
  "exCatalog = addIgnoring (tname exTable, tdesc exTable) (newCatalog ''db'')"

lemma exCatalog_ok: "catalog_ok exCatalog" "columns_ok exCatalog" "catTables exCatalog = [exTable]" "storable exTable"
proof -
  have new: "catalog_ok (newCatalog ''db'')" "columns_ok (newCatalog ''db'')"
    by (simp_all add: newCatalog_def catalog_ok_def columns_ok_def tablesWith_def)
  obtain c where add: "addTable (tname exTable) (tdesc exTable) (newCatalog ''db'') = Ok c" "catTables c = [exTable]"
    by (simp add: addTable_eq newCatalog_def exTable_def)
  then have c: "exCatalog = c" by (simp add: exCatalog_def addIgnoring_def)
  show "catalog_ok exCatalog" "columns_ok exCatalog" "catTables exCatalog = [exTable]"
    using catalog_ok_add [OF new(1) add(1)] columns_ok_add [OF new(2) add(1)] add(2) by (simp_all add: c)
  show "storable exTable"
    by (simp add: storable_def exTable_def plainName_def nameChar_def tableString_def fieldString_def typeNames_def)
qed

theorem catalog_operations_witness:
  "(\<exists>c'. addTable ''u'' (tdesc exTable) exCatalog = Ok c' \<and> NumTables c' = 2) \<and>
   addTable ''t'' (tdesc exTable) exCatalog = Err (GoDBError DuplicateTableError)"
proof -
  have n: "NumTables exCatalog = 1" "lookupTable ''t'' exCatalog = Some (tdesc exTable)" "lookupTable ''u'' exCatalog = None"
    using exCatalog_ok(1,3) by (simp_all add: NumTables_def lookupTable_def catalog_ok_def) (simp_all add: exTable_def)
  show ?thesis
    using catalog_operations [OF exCatalog_ok(1), of "''u''" "tdesc exTable" "\<lambda>_. []"] catalog_operations [OF exCatalog_ok(1), of "''t''" "tdesc exTable" "\<lambda>_. []"] n
    by (auto simp: numeral_2_eq_2)
qed

theorem catalog_roundtrip_witness:
  "\<exists>tf c'. SaveToFile (\<lambda>_. True) ''cat.txt'' ''db'' exCatalog (\<lambda>_. None) = Ok tf \<and>
     NewCatalogFromFile ''cat.txt'' ''db'' tf = Ok c' \<and> catTables c' = [exTable]"
proof -
  obtain tf where save: "SaveToFile (\<lambda>_. True) ''cat.txt'' ''db'' exCatalog (\<lambda>_. None) = Ok tf" by (simp add: SaveToFile_def)
  have "\<forall>t \<in> set (catTables exCatalog). storable t" using exCatalog_ok(3,4) by simp
  from catalog_roundtrip [OF exCatalog_ok(1) this save] save exCatalog_ok(3) show ?thesis by auto
qed

theorem dropTable_stale_column_witness:
  "\<exists>c'. dropTable ''t'' (exCatalog, \<lambda>_. []) = Ok (c', (\<lambda>_. [])(''t.dat'' := [])) \<and> exTable \<in> set (findTablesWithColumn ''a'' c')"
  using dropTable_stale_column [OF exCatalog_ok(1,2), of exTable "hd (Fields (tdesc exTable))" "\<lambda>_. []"] exCatalog_ok(3)
  by (auto simp: exTable_def tableNameToFile_def)

end
