(* ===== verification/Exprs.thy ===== *)
theory Exprs
  imports Tuples "HOL-Library.Signed_Division"
begin

text \<open>
  \<^verbatim>\<open>godb/exprs.go\<close> and \<^verbatim>\<open>Tuple.compareField\<close>: expressions over a tuple, the table of built-in functions
  and their evaluation. An argument or result of a built-in function is a Go \<^verbatim>\<open>any\<close> holding an \<^verbatim>\<open>int64\<close> or
  a \<^verbatim>\<open>string\<close>; its type assertions and index expressions are the helpers \<open>arg_int\<close> and \<open>arg_string\<close>.

  What the functions read of the outside world is the argument \<open>world\<close>: the clock, the draw of the random
  number generator, and the two conversions of \<^verbatim>\<open>time.UnixDate\<close>, which need the time zones of the host. It
  is the same for all the calls of one evaluation; \<open>EvalExpr_world\<close> below shows that it is irrelevant to
  expressions that use none of these functions.
\<close>

section \<open>The world\<close>

record world =
  Now :: int64
  randInt :: int64
  parseUnixDate :: "string \<Rightarrow> int64 option"
  formatUnixDate :: "int64 \<Rightarrow> string"

section \<open>Built-in functions\<close>

datatype goAny = AnyInt int64 | AnyString string

definition arg_int :: "goAny list \<Rightarrow> nat \<Rightarrow> int64 result" where
  "arg_int args i =
     (if i < length args then (case args ! i of AnyInt v \<Rightarrow> Ok v | AnyString _ \<Rightarrow> Panic TypeAssertion)
      else Panic IndexOutOfRange)"

definition arg_string :: "goAny list \<Rightarrow> nat \<Rightarrow> string result" where
  "arg_string args i =
     (if i < length args then (case args ! i of AnyString s \<Rightarrow> Ok s | AnyInt _ \<Rightarrow> Panic TypeAssertion)
      else Panic IndexOutOfRange)"

definition int_op :: "(int64 \<Rightarrow> int64 \<Rightarrow> int64 result) \<Rightarrow> goAny list \<Rightarrow> goAny result" where
  "int_op f args =
     bind_go (arg_int args 0) (\<lambda>a. bind_go (arg_int args 1) (\<lambda>b. bind_go (f a b) (\<lambda>c. Ok (AnyInt c))))"

definition minFunc :: "goAny list \<Rightarrow> goAny result" where
  "minFunc = int_op (\<lambda>a b. Ok (if sint a < sint b then a else b))"

definition maxFunc :: "goAny list \<Rightarrow> goAny result" where
  "maxFunc = int_op (\<lambda>a b. Ok (if sint a \<ge> sint b then a else b))"

definition addFunc :: "goAny list \<Rightarrow> goAny result" where
  "addFunc = int_op (\<lambda>a b. Ok (a + b))"

definition minusFunc :: "goAny list \<Rightarrow> goAny result" where
  "minusFunc = int_op (\<lambda>a b. Ok (a - b))"

definition timesFunc :: "goAny list \<Rightarrow> goAny result" where
  "timesFunc = int_op (\<lambda>a b. Ok (a * b))"

text \<open>Go's integer division truncates and wraps at the least integer divided by \<open>-1\<close>.\<close>

definition divFunc :: "goAny list \<Rightarrow> goAny result" where
  "divFunc = int_op (\<lambda>a b. if b = 0 then Panic DivideByZero else Ok (word_of_int (sint a sdiv sint b)))"

definition modFunc :: "goAny list \<Rightarrow> goAny result" where
  "modFunc = int_op (\<lambda>a b. if b = 0 then Panic DivideByZero else Ok (word_of_int (sint a smod sint b)))"

definition sqFunc :: "goAny list \<Rightarrow> goAny result" where
  "sqFunc args = bind_go (arg_int args 0) (\<lambda>a. Ok (AnyInt (a * a)))"

definition subStr :: "string \<Rightarrow> int64 \<Rightarrow> int64 \<Rightarrow> string result" where
  "subStr s start numChars =
     (if sint start < 0 \<or> sint start > int (length s) then Ok ''''
      else if sint (start + numChars) > int (length s) then Ok (drop (nat (sint start)) s)
      else if sint start \<le> sint (start + numChars) then
        Ok (take (nat (sint (start + numChars) - sint start)) (drop (nat (sint start)) s))
      else Panic SliceBounds)"

definition subStrFunc :: "goAny list \<Rightarrow> goAny result" where
  "subStrFunc args =
     bind_go (arg_string args 0) (\<lambda>s. bind_go (arg_int args 1) (\<lambda>start. bind_go (arg_int args 2) (\<lambda>n.
       bind_go (subStr s start n) (\<lambda>r. Ok (AnyString r)))))"

definition randIntFunc :: "world \<Rightarrow> goAny list \<Rightarrow> goAny result" where
  "randIntFunc w args = Ok (AnyInt (randInt w))"

definition epoch :: "world \<Rightarrow> goAny list \<Rightarrow> goAny result" where
  "epoch w args = Ok (AnyInt (Now w))"

definition dateTimeToEpoch :: "world \<Rightarrow> goAny list \<Rightarrow> goAny result" where
  "dateTimeToEpoch w args =
     bind_go (arg_string args 0) (\<lambda>s. Ok (AnyInt (case parseUnixDate w s of None \<Rightarrow> 0 | Some v \<Rightarrow> v)))"

definition dateString :: "world \<Rightarrow> goAny list \<Rightarrow> goAny result" where
  "dateString w args = bind_go (arg_int args 0) (\<lambda>v. Ok (AnyString (formatUnixDate w v)))"

text \<open>\<^verbatim>\<open>time.Parse("2006-01-02", s)\<close>: a date of ten characters, at midnight UTC.\<close>

definition digits :: "string \<Rightarrow> nat option" where
  "digits s = (if list_all (\<lambda>c. 48 \<le> (of_char c :: nat) \<and> (of_char c :: nat) \<le> 57) s
     then Some (foldl (\<lambda>n c. 10 * n + (of_char c - 48)) 0 s) else None)"

definition leap_year :: "nat \<Rightarrow> bool" where
  "leap_year y \<longleftrightarrow> y mod 4 = 0 \<and> (y mod 100 \<noteq> 0 \<or> y mod 400 = 0)"

definition month_days :: "nat \<Rightarrow> nat \<Rightarrow> nat" where
  "month_days y m = (if m = 2 then (if leap_year y then 29 else 28) else if m \<in> {4, 6, 9, 11} then 30 else 31)"

text \<open>Days from the first of January of year 0 of the Gregorian calendar.\<close>

definition year_days :: "nat \<Rightarrow> nat" where
  "year_days y = 365 * y + (y + 3) div 4 - (y + 99) div 100 + (y + 399) div 400"

definition day_number :: "nat \<Rightarrow> nat \<Rightarrow> nat \<Rightarrow> nat" where
  "day_number y m d = year_days y + sum_list (map (month_days y) [1..<m]) + (d - 1)"

definition parseDate :: "string \<Rightarrow> int64 option" where
  "parseDate s =
     (if length s = 10 \<and> s ! 4 = CHR ''-'' \<and> s ! 7 = CHR ''-'' then
        (case digits (take 4 s) of None \<Rightarrow> None
         | Some y \<Rightarrow> (case digits (take 2 (drop 5 s)) of None \<Rightarrow> None
           | Some m \<Rightarrow> (case digits (drop 8 s) of None \<Rightarrow> None
             | Some d \<Rightarrow>
                 if 1 \<le> m \<and> m \<le> 12 \<and> 1 \<le> d \<and> d \<le> month_days y m
                 then Some (word_of_int (86400 * (int (day_number y m d) - int (day_number 1970 1 1))))
                 else None)))
      else None)"

definition dateToEpoch :: "goAny list \<Rightarrow> goAny result" where
  "dateToEpoch args =
     bind_go (arg_string args 0) (\<lambda>s. Ok (AnyInt (case parseDate s of None \<Rightarrow> 0 | Some v \<Rightarrow> v)))"

section \<open>The table of functions\<close>

record FuncType =
  argTypes :: "DBType list"
  outType :: DBType
  funcF :: "goAny list \<Rightarrow> goAny result"

definition funcs :: "world \<Rightarrow> (string \<times> FuncType) list" where
  "funcs w =
     [(''+'', \<lparr>argTypes = [IntType, IntType], outType = IntType, funcF = addFunc\<rparr>),
      (''-'', \<lparr>argTypes = [IntType, IntType], outType = IntType, funcF = minusFunc\<rparr>),
      (''*'', \<lparr>argTypes = [IntType, IntType], outType = IntType, funcF = timesFunc\<rparr>),
      (''/'', \<lparr>argTypes = [IntType, IntType], outType = IntType, funcF = divFunc\<rparr>),
      (''mod'', \<lparr>argTypes = [IntType, IntType], outType = IntType, funcF = modFunc\<rparr>),
      (''rand'', \<lparr>argTypes = [], outType = IntType, funcF = randIntFunc w\<rparr>),
      (''sq'', \<lparr>argTypes = [IntType], outType = IntType, funcF = sqFunc\<rparr>),
      (''getsubstr'', \<lparr>argTypes = [StringType, IntType, IntType], outType = StringType, funcF = subStrFunc\<rparr>),
      (''epoch'', \<lparr>argTypes = [], outType = IntType, funcF = epoch w\<rparr>),
      (''datetimestringtoepoch'', \<lparr>argTypes = [StringType], outType = IntType, funcF = dateTimeToEpoch w\<rparr>),
      (''datestringtoepoch'', \<lparr>argTypes = [StringType], outType = IntType, funcF = dateToEpoch\<rparr>),
      (''epochtodatetimestring'', \<lparr>argTypes = [IntType], outType = StringType, funcF = dateString w\<rparr>),
      (''imin'', \<lparr>argTypes = [IntType, IntType], outType = IntType, funcF = minFunc\<rparr>),
      (''imax'', \<lparr>argTypes = [IntType, IntType], outType = IntType, funcF = maxFunc\<rparr>)]"

section \<open>Expressions\<close>

datatype Expr = FieldExpr FieldType | ConstExpr DBValue DBType | FuncExpr string "Expr list"

text \<open>\<^verbatim>\<open>fmt.Sprintf("%v", val)\<close> of a constant: a struct prints in braces.\<close>

fun constString :: "DBValue \<Rightarrow> string" where
  "constString NilValue = ''<nil>''"
| "constString (IntField v) = ''{'' @ show_int (sint v) @ ''}''"
| "constString (StringField s) = ''{'' @ s @ ''}''"

definition GetExprType :: "world \<Rightarrow> Expr \<Rightarrow> FieldType" where
  "GetExprType w e =
     (case e of
        FieldExpr f \<Rightarrow> f
      | ConstExpr v ty \<Rightarrow> \<lparr>Fname = ''const'', TableQualifier = constString v, Ftype = ty\<rparr>
      | FuncExpr op args \<Rightarrow>
          (case map_of (funcs w) op of
             None \<Rightarrow> \<lparr>Fname = op, TableQualifier = '''', Ftype = IntType\<rparr>
           | Some fType \<Rightarrow>
               let ft = foldl (\<lambda>ft fe. case fe of FieldExpr g \<Rightarrow> g | _ \<Rightarrow> ft)
                          \<lparr>Fname = op, TableQualifier = '''', Ftype = IntType\<rparr> args
               in \<lparr>Fname = Fname ft, TableQualifier = TableQualifier ft, Ftype = outType fType\<rparr>))"

text \<open>\<^verbatim>\<open>val.(IntField).Value\<close> and \<^verbatim>\<open>val.(StringField).Value\<close>.\<close>

fun argValue :: "DBType \<Rightarrow> DBValue \<Rightarrow> goAny result" where
  "argValue IntType (IntField v) = Ok (AnyInt v)"
| "argValue StringType (StringField s) = Ok (AnyString s)"
| "argValue _ _ = Panic TypeAssertion"

fun wrapResult :: "DBType \<Rightarrow> goAny \<Rightarrow> DBValue result" where
  "wrapResult IntType (AnyInt v) = Ok (IntField v)"
| "wrapResult StringType (AnyString s) = Ok (StringField s)"
| "wrapResult UnknownType _ = Err (GoDBError ParseError)"
| "wrapResult _ _ = Panic TypeAssertion"

text \<open>
  The tuple is a pointer; \<^verbatim>\<open>LIMIT\<close> and \<^verbatim>\<open>VALUES\<close> evaluate their expressions on nil. \<open>evalArgs\<close> is the loop over
  the argument types; the arguments were counted before it.
\<close>

fun EvalExpr :: "world \<Rightarrow> Expr \<Rightarrow> Tuple option \<Rightarrow> DBValue result"
and evalArgs :: "world \<Rightarrow> DBType list \<Rightarrow> Expr list \<Rightarrow> Tuple option \<Rightarrow> goAny list result" where
  "EvalExpr w (FieldExpr f) t =
     (case t of
        None \<Rightarrow> Panic NilDereference
      | Some tup \<Rightarrow> bind_go (project tup [f]) (\<lambda>outTup.
          case TFields outTup of [] \<Rightarrow> Panic IndexOutOfRange | v # _ \<Rightarrow> Ok v))"
| "EvalExpr w (ConstExpr v ty) t = Ok v"
| "EvalExpr w (FuncExpr op args) t =
     (case map_of (funcs w) op of
        None \<Rightarrow> Err (GoDBError ParseError)
      | Some fType \<Rightarrow>
          if length args \<noteq> length (argTypes fType) then Err (GoDBError ParseError)
          else bind_go (evalArgs w (argTypes fType) args t) (\<lambda>argvals.
               bind_go (funcF fType argvals) (\<lambda>r. wrapResult (outType fType) r)))"
| "evalArgs w (ty # tys) (e # es) t =
     (if Ftype (GetExprType w e) \<noteq> ty then Err (GoDBError ParseError)
      else bind_go (EvalExpr w e t) (\<lambda>v. bind_go (argValue ty v) (\<lambda>a.
           bind_go (evalArgs w tys es t) (\<lambda>as. Ok (a # as)))))"
| "evalArgs w _ _ t = Ok []"

definition ListOfFunctions :: "world \<Rightarrow> string" where
  "ListOfFunctions w =
     foldl (\<lambda>fList (name, f).
       fList @ [CHR 0x09] @ name @
       snd (foldl (\<lambda>(hasArg, args) a.
              (True, args @ (if hasArg then '','' else '''') @
                 (case a of IntType \<Rightarrow> ''int'' | StringType \<Rightarrow> ''string'' | UnknownType \<Rightarrow> '''')))
            (False, ''('') (argTypes f)) @ '')'' @ [CHR 0x0A]) '''' (funcs w)"

section \<open>Comparing tuples by an expression\<close>

text \<open>
  The function returns a state and an error together, and \<^verbatim>\<open>ORDER BY\<close> uses the state whatever the error
  is: the zero state \<^verbatim>\<open>OrderedLessThan\<close> when an evaluation failed.
\<close>

fun compareValues :: "DBValue \<Rightarrow> DBValue \<Rightarrow> (orderByState \<times> GoError option) result" where
  "compareValues (IntField a) (IntField b) =
     Ok (if sint a < sint b then OrderedLessThan else if sint a > sint b then OrderedGreaterThan else OrderedEqual, None)"
| "compareValues (StringField a) (StringField b) =
     Ok (if a < b then OrderedLessThan else if a > b then OrderedGreaterThan else OrderedEqual, None)"
| "compareValues NilValue b = Ok (OrderedEqual, Some (PlainError ''unsupported field type for comparison''))"
| "compareValues _ _ = Panic TypeAssertion"

definition compareField :: "world \<Rightarrow> Tuple \<Rightarrow> Tuple \<Rightarrow> Expr \<Rightarrow> (orderByState \<times> GoError option) result" where
  "compareField w t t2 field =
     (case EvalExpr w field (Some t) of
        Panic x \<Rightarrow> Panic x
      | Err e \<Rightarrow> Ok (OrderedLessThan, Some e)
      | Ok left \<Rightarrow> (case EvalExpr w field (Some t2) of
          Panic x \<Rightarrow> Panic x
        | Err e \<Rightarrow> Ok (OrderedLessThan, Some e)
        | Ok right \<Rightarrow> compareValues left right))"

section \<open>Types of expressions\<close>

fun hasType :: "DBType \<Rightarrow> DBValue \<Rightarrow> bool" where
  "hasType IntType v = (case v of IntField _ \<Rightarrow> True | _ \<Rightarrow> False)"
| "hasType StringType v = (case v of StringField _ \<Rightarrow> True | _ \<Rightarrow> False)"
| "hasType UnknownType v = (v \<noteq> NilValue)"

text \<open>A tuple of the shape its descriptor says.\<close>

definition tupleTyped :: "TupleDesc \<Rightarrow> Tuple \<Rightarrow> bool" where
  "tupleTyped d t \<longleftrightarrow> Desc t = d \<and> list_all2 (\<lambda>f v. hasType (Ftype f) v) (Fields d) (TFields t)"

text \<open>Expressions whose field names resolve without ambiguity and whose functions get what they expect.\<close>

fun exprOk :: "world \<Rightarrow> TupleDesc \<Rightarrow> Expr \<Rightarrow> bool" where
  "exprOk w d (FieldExpr f) = (snd (findFieldInTd f d) = None)"
| "exprOk w d (ConstExpr v ty) = hasType ty v"
| "exprOk w d (FuncExpr op args) =
     (case map_of (funcs w) op of
        None \<Rightarrow> False
      | Some ft \<Rightarrow> map (\<lambda>e. Ftype (GetExprType w e)) args = argTypes ft \<and> list_all (exprOk w d) args)"

fun anyHasType :: "DBType \<Rightarrow> goAny \<Rightarrow> bool" where
  "anyHasType IntType (AnyInt _) = True"
| "anyHasType StringType (AnyString _) = True"
| "anyHasType _ _ = False"

lemma anyHasType_iff [simp]:
  "anyHasType IntType a \<longleftrightarrow> (\<exists>v. a = AnyInt v)" "anyHasType StringType a \<longleftrightarrow> (\<exists>s. a = AnyString s)"
  by (cases a; simp)+

lemmas builtin_defs = int_op_def arg_int_def arg_string_def minFunc_def maxFunc_def addFunc_def minusFunc_def
  timesFunc_def divFunc_def modFunc_def sqFunc_def subStrFunc_def randIntFunc_def epoch_def dateTimeToEpoch_def
  dateString_def dateToEpoch_def

text \<open>
  What makes a function of the right argument types panic: a divisor that is zero, and a substring that starts inside the string and
  ends before it starts, because its length is negative or its end overflows. An expression is faulty when this happens in one of its
  calls.
\<close>

fun outOfRange :: "string \<Rightarrow> DBValue list \<Rightarrow> go_panic \<Rightarrow> bool" where
  "outOfRange op [IntField a, IntField b] x \<longleftrightarrow> op \<in> {''/'', ''mod''} \<and> b = 0 \<and> x = DivideByZero"
| "outOfRange op [StringField s, IntField start, IntField n] x \<longleftrightarrow>
     op = ''getsubstr'' \<and> 0 \<le> sint start \<and> sint start \<le> int (length s) \<and> sint (start + n) < sint start \<and> x = SliceBounds"
| "outOfRange op vs x \<longleftrightarrow> False"

fun faulty :: "world \<Rightarrow> Tuple option \<Rightarrow> go_panic \<Rightarrow> Expr \<Rightarrow> bool" where
  "faulty w t x (FuncExpr op args) \<longleftrightarrow> list_ex (faulty w t x) args \<or>
     (case map_go (\<lambda>e. EvalExpr w e t) args of Ok vs \<Rightarrow> outOfRange op vs x | _ \<Rightarrow> False)"
| "faulty w t x e \<longleftrightarrow> False"

text \<open>An outcome that is neither an error nor a panic outside \<open>X\<close>.\<close>

definition safe :: "go_panic set \<Rightarrow> ('a \<Rightarrow> bool) \<Rightarrow> 'a result \<Rightarrow> bool" where
  "safe X P r \<longleftrightarrow> (case r of Ok x \<Rightarrow> P x | Err e \<Rightarrow> False | Panic x \<Rightarrow> x \<in> X)"

lemma safe_simps [simp]:
  "safe X P (Ok x) = P x" "\<not> safe X P (Err e)" "safe X P (Panic y) = (y \<in> X)"
  by (simp_all add: safe_def)

lemma safe_bind: "safe Y Q r \<Longrightarrow> Y \<subseteq> X \<Longrightarrow> (\<And>x. r = Ok x \<Longrightarrow> Q x \<Longrightarrow> safe X P (f x)) \<Longrightarrow> safe X P (bind_go r f)"
  by (cases r) auto

fun valueOf :: "goAny \<Rightarrow> DBValue" where
  "valueOf (AnyInt n) = IntField n"
| "valueOf (AnyString s) = StringField s"

lemma funcs_typed:
  assumes "map_of (funcs w) op = Some ft" and "list_all2 anyHasType (argTypes ft) args"
  shows "safe {x. outOfRange op (map valueOf args) x} (anyHasType (outType ft)) (funcF ft args)"
  using assms
  by (auto simp: funcs_def builtin_defs list_all2_Cons1 subStr_def split: if_splits)

lemma argValue_typed: "hasType ty v \<Longrightarrow> ty \<noteq> UnknownType \<Longrightarrow> \<exists>a. argValue ty v = Ok a \<and> anyHasType ty a \<and> valueOf a = v"
  by (cases ty; cases v) auto

lemma wrapResult_typed: "anyHasType ty a \<Longrightarrow> \<exists>v. wrapResult ty a = Ok v \<and> hasType ty v"
  by (cases "(ty, a)" rule: wrapResult.cases) auto

lemma funcs_known: "map_of (funcs w) op = Some ft \<Longrightarrow> UnknownType \<notin> set (argTypes ft)"
  by (auto simp: funcs_def split: if_splits)

lemma project_one:
  assumes "tupleTyped d t" and "findFieldInTd f d = (i, None)"
  shows "project t [f] = Ok \<lparr>Desc = \<lparr>Fields = [Fields d ! nat i]\<rparr>, TFields = [TFields t ! nat i], Rid = None\<rparr>"
    and "hasType (Ftype f) (TFields t ! nat i)"
proof -
  note i = findFieldInTd_index [OF assms(2)]
  have len: "length (Fields d) = length (TFields t)" "Desc t = d"
    using assms(1) by (auto simp: tupleTyped_def dest: list_all2_lengthD)
  with i assms(2) show "project t [f] = Ok \<lparr>Desc = \<lparr>Fields = [Fields d ! nat i]\<rparr>, TFields = [TFields t ! nat i], Rid = None\<rparr>"
    by (auto simp: project_def)
  have "hasType (Ftype (Fields d ! nat i)) (TFields t ! nat i)"
    using assms(1) i(2) by (auto simp: tupleTyped_def list_all2_conv_all_nth)
  moreover have "hasType UnknownType v" if "hasType ty v" for ty v
    using that by (cases ty; cases v) auto
  ultimately show "hasType (Ftype f) (TFields t ! nat i)" using i(3) by (auto simp: fieldMatches_def)
qed

lemma EvalExpr_typed:
  assumes "t = Some tup" and "tupleTyped d tup"
  shows "exprOk w d e \<Longrightarrow> safe {x. faulty w t x e} (hasType (Ftype (GetExprType w e))) (EvalExpr w e t)"
    and "list_all (exprOk w d) es \<Longrightarrow> map (\<lambda>e. Ftype (GetExprType w e)) es = tys \<Longrightarrow> UnknownType \<notin> set tys \<Longrightarrow>
      safe {x. list_ex (faulty w t x) es}
        (\<lambda>as. list_all2 anyHasType tys as \<and> map_go (\<lambda>e. EvalExpr w e t) es = Ok (map valueOf as)) (evalArgs w tys es t)"
  using assms
proof (induction w e t and w tys es t rule: EvalExpr_evalArgs.induct)
  case (1 w f t)
  then obtain i where "findFieldInTd f d = (i, None)" by (cases "findFieldInTd f d") auto
  with project_one [of d tup] "1.prems" show ?case by (simp add: GetExprType_def)
next
  case (2 w v ty t)
  then show ?case by (simp add: GetExprType_def)
next
  case (3 w op args t)
  then obtain ft where ft: "map_of (funcs w) op = Some ft" and tys: "map (\<lambda>e. Ftype (GetExprType w e)) args = argTypes ft"
    and args: "list_all (exprOk w d) args" by (auto split: option.splits)
  let ?X = "{x. faulty w t x (FuncExpr op args)}"
  have len: "length args = length (argTypes ft)" using tys by (metis length_map)
  have "safe {x. list_ex (faulty w t x) args}
      (\<lambda>as. list_all2 anyHasType (argTypes ft) as \<and> map_go (\<lambda>e. EvalExpr w e t) args = Ok (map valueOf as)) (evalArgs w (argTypes ft) args t)"
    using "3.IH" [OF ft _ args tys funcs_known [OF ft]] len "3.prems" by simp
  then have "safe ?X (hasType (outType ft)) (bind_go (evalArgs w (argTypes ft) args t) (\<lambda>argvals.
      bind_go (funcF ft argvals) (wrapResult (outType ft))))"
  proof (rule safe_bind)
    fix argvals
    assume a: "list_all2 anyHasType (argTypes ft) argvals \<and> map_go (\<lambda>e. EvalExpr w e t) args = Ok (map valueOf argvals)"
    from funcs_typed [OF ft conjunct1 [OF a]] show "safe ?X (hasType (outType ft)) (bind_go (funcF ft argvals) (wrapResult (outType ft)))"
      by (rule safe_bind) (use wrapResult_typed a in force)+
  qed auto
  then show ?case using ft len by (simp add: GetExprType_def del: faulty.simps)
next
  case (4 w ty tys e es t)
  then have ty: "Ftype (GetExprType w e) = ty" "ty \<noteq> UnknownType" by auto
  let ?X = "{x. list_ex (faulty w t x) (e # es)}"
  let ?Q = "\<lambda>tys es as. list_all2 anyHasType tys as \<and> map_go (\<lambda>e. EvalExpr w e t) es = Ok (map valueOf as)"
  have head: "safe {x. faulty w t x e} (hasType ty) (EvalExpr w e t)"
    and tail: "safe {x. list_ex (faulty w t x) es} (?Q tys es) (evalArgs w tys es t)"
    using 4 ty by auto
  have "safe ?X (?Q (ty # tys) (e # es)) (bind_go (EvalExpr w e t) (\<lambda>v. bind_go (argValue ty v) (\<lambda>a.
      bind_go (evalArgs w tys es t) (\<lambda>as. Ok (a # as)))))"
  proof (rule safe_bind [OF head])
    fix v
    assume v: "EvalExpr w e t = Ok v" "hasType ty v"
    then obtain a where a: "argValue ty v = Ok a" "anyHasType ty a" "valueOf a = v" using argValue_typed ty(2) by blast
    have "safe ?X (?Q (ty # tys) (e # es)) (bind_go (evalArgs w tys es t) (\<lambda>as. Ok (a # as)))"
      by (rule safe_bind [OF tail]) (use v a in auto)
    with a(1) show "safe ?X (?Q (ty # tys) (e # es)) (bind_go (argValue ty v) (\<lambda>a. bind_go (evalArgs w tys es t) (\<lambda>as. Ok (a # as))))" by simp
  qed auto
  then show ?case using ty(1) by simp
qed auto

text \<open>
  C39: evaluating a well-formed expression on a tuple of the descriptor it was checked against gives a
  value of the expression's type, or panics, and then one of its calls divides by zero or takes a substring that starts inside the
  string and ends before it starts, because its length is negative or its end overflows. It never returns an error, never fails a type
  assertion and never indexes out of range.
\<close>

theorem EvalExpr_type_safe:
  assumes "tupleTyped d t" and "exprOk w d e"
  shows "(\<exists>v. EvalExpr w e (Some t) = Ok v \<and> hasType (Ftype (GetExprType w e)) v) \<or>
    (\<exists>x. EvalExpr w e (Some t) = Panic x \<and> faulty w (Some t) x e)"
  using EvalExpr_typed(1) [OF refl assms] by (cases "EvalExpr w e (Some t)") auto

theorem EvalExpr_type_safe_witness:
  "\<exists>v. EvalExpr \<lparr>Now = 0, randInt = 0, parseUnixDate = (\<lambda>_. None), formatUnixDate = (\<lambda>_. [])\<rparr>
      (FuncExpr ''+'' [FieldExpr \<lparr>Fname = ''age'', TableQualifier = '''', Ftype = IntType\<rparr>, ConstExpr (IntField 5) IntType])
      (Some \<lparr>Desc = \<lparr>Fields = [\<lparr>Fname = ''age'', TableQualifier = ''t'', Ftype = IntType\<rparr>]\<rparr>, TFields = [IntField 37], Rid = None\<rparr>)
    = Ok v \<and> hasType IntType v"
proof -
  let ?w = "\<lparr>Now = 0, randInt = 0, parseUnixDate = (\<lambda>_. None), formatUnixDate = (\<lambda>_. [])\<rparr>"
  let ?d = "\<lparr>Fields = [\<lparr>Fname = ''age'', TableQualifier = ''t'', Ftype = IntType\<rparr>]\<rparr>"
  let ?t = "\<lparr>Desc = ?d, TFields = [IntField 37], Rid = None\<rparr>"
  let ?e = "FuncExpr ''+'' [FieldExpr \<lparr>Fname = ''age'', TableQualifier = '''', Ftype = IntType\<rparr>, ConstExpr (IntField 5) IntType]"
  have t: "tupleTyped ?d ?t" by (simp add: tupleTyped_def)
  have e: "exprOk ?w ?d ?e" by (simp add: funcs_def findFieldInTd_def GetExprType_def)
  have "EvalExpr ?w ?e (Some ?t) = Ok (IntField 42)"
    by (simp add: funcs_def findFieldInTd_def GetExprType_def project_def builtin_defs)
  moreover have "Ftype (GetExprType ?w ?e) = IntType" by (simp add: funcs_def GetExprType_def)
  ultimately show ?thesis using EvalExpr_type_safe [OF t e] by simp
qed

section \<open>Expressions that read nothing of the world\<close>

fun worldly :: "Expr \<Rightarrow> bool" where
  "worldly (FieldExpr f) = False"
| "worldly (ConstExpr v ty) = False"
| "worldly (FuncExpr op args) =
     (op \<in> {''rand'', ''epoch'', ''datetimestringtoepoch'', ''epochtodatetimestring''} \<or> list_ex worldly args)"

lemma funcs_types_world:
  "map_option (\<lambda>f. (argTypes f, outType f)) (map_of (funcs w) op) = map_option (\<lambda>f. (argTypes f, outType f)) (map_of (funcs w') op)"
  by (simp add: funcs_def)

lemma funcs_world:
  "op \<notin> {''rand'', ''epoch'', ''datetimestringtoepoch'', ''epochtodatetimestring''} \<Longrightarrow> map_of (funcs w) op = map_of (funcs w') op"
  by (simp add: funcs_def)

lemma GetExprType_world: "GetExprType w e = GetExprType w' e"
proof (cases e)
  case (FuncExpr op args)
  then show ?thesis using funcs_types_world [of w op w'] by (auto simp: GetExprType_def split: option.splits)
qed (simp_all add: GetExprType_def)

lemma EvalExpr_world_aux:
  "\<not> worldly e \<Longrightarrow> EvalExpr w e t = EvalExpr w' e t"
  "\<not> list_ex worldly es \<Longrightarrow> evalArgs w tys es t = evalArgs w' tys es t"
proof (induction w e t and w tys es t rule: EvalExpr_evalArgs.induct)
  case (3 w op args t)
  then have same: "map_of (funcs w') op = map_of (funcs w) op" using funcs_world [of op w' w] by auto
  show ?case
  proof (cases "map_of (funcs w) op")
    case (Some ft)
    then show ?thesis using 3 same by simp
  qed (simp add: same)
next
  case (4 w ty tys e es t)
  then show ?case using GetExprType_world [of w e w'] by auto
qed simp_all

text \<open>
  An expression that calls none of \<^verbatim>\<open>rand\<close>, \<^verbatim>\<open>epoch\<close>, \<^verbatim>\<open>datetimestringtoepoch\<close> and
  \<^verbatim>\<open>epochtodatetimestring\<close> has the same outcome on a tuple whatever the clock, the random numbers and the
  time zones are.
\<close>

theorem EvalExpr_world:
  "\<not> worldly e \<Longrightarrow> EvalExpr w e t = EvalExpr w' e t"
  by (rule EvalExpr_world_aux(1))

theorem EvalExpr_world_witness:
  "EvalExpr \<lparr>Now = 1, randInt = 2, parseUnixDate = (\<lambda>_. None), formatUnixDate = (\<lambda>_. [])\<rparr>
      (FuncExpr ''sq'' [ConstExpr (IntField 5) IntType]) None =
   EvalExpr \<lparr>Now = 3, randInt = 4, parseUnixDate = (\<lambda>_. Some 7), formatUnixDate = (\<lambda>_. ''x'')\<rparr>
      (FuncExpr ''sq'' [ConstExpr (IntField 5) IntType]) None"
  by (rule EvalExpr_world) simp

section \<open>Integer functions\<close>

lemma sint_word_of_int: "- (2 ^ 63) \<le> i \<Longrightarrow> i < 2 ^ 63 \<Longrightarrow> sint (word_of_int i :: int64) = i"
  by (simp add: signed_take_bit_int_eq_self sint_sbintrunc')

lemma smod_small: "b \<noteq> 0 \<Longrightarrow> \<bar>a smod b\<bar> < \<bar>b\<bar>" for a b :: int
  by (simp add: signed_modulo_int_def abs_mult sgn_if)

lemma smod_sign: "a smod b = 0 \<or> sgn (a smod b) = sgn a" for a b :: int
proof -
  have "0 \<le> \<bar>a\<bar> mod \<bar>b\<bar>" by (cases "b = 0") simp_all
  then have "\<bar>a\<bar> mod \<bar>b\<bar> = 0 \<or> sgn (\<bar>a\<bar> mod \<bar>b\<bar>) = 1" by (auto simp: sgn_if)
  then show ?thesis by (auto simp: signed_modulo_int_def sgn_mult)
qed

text \<open>
  Division and remainder belong together: whenever the divisor is not zero both functions return
  and \<open>a = q * b + r\<close> holds in 64-bit arithmetic, with a remainder smaller than the divisor and of the sign of
  the dividend; on a zero divisor both panic.
\<close>

theorem div_mod_spec:
  "if b = 0 then divFunc [AnyInt a, AnyInt b] = Panic DivideByZero \<and> modFunc [AnyInt a, AnyInt b] = Panic DivideByZero
   else \<exists>q r. divFunc [AnyInt a, AnyInt b] = Ok (AnyInt q) \<and> modFunc [AnyInt a, AnyInt b] = Ok (AnyInt r) \<and>
     a = q * b + r \<and> \<bar>sint r\<bar> < \<bar>sint b\<bar> \<and> (sint r = 0 \<or> sgn (sint r) = sgn (sint a))"
proof (cases "b = 0")
  case True
  then show ?thesis by (simp add: builtin_defs)
next
  case False
  let ?q = "word_of_int (sint a sdiv sint b) :: int64" and ?r = "word_of_int (sint a smod sint b) :: int64"
  have b: "sint b \<noteq> 0" using False signed_word_eqI [of b 0] by auto
  have "\<bar>sint b\<bar> \<le> 2 ^ 63" using sint_greater_eq [of b] sint_lt [of b] by (simp add: abs_le_iff)
  then have "\<bar>sint a smod sint b\<bar> < 2 ^ 63" using smod_small [OF b, of "sint a"] by linarith
  then have r: "sint ?r = sint a smod sint b" by (intro sint_word_of_int) (auto simp: abs_less_iff)
  have "?q * b + ?r = word_of_int (sint a sdiv sint b * sint b + sint a smod sint b)"
    by (simp add: wi_hom_syms(1) wi_hom_syms(3))
  also have "\<dots> = a" by (simp add: sdiv_mult_smod_eq)
  finally have "a = ?q * b + ?r" by simp
  with False r smod_small [OF b, of "sint a"] smod_sign [of "sint a" "sint b"] show ?thesis
    by (simp add: builtin_defs)
qed

section \<open>Substrings\<close>

text \<open>
  \<^verbatim>\<open>getsubstr\<close> with a length that is not negative, whose end does not overflow 63 bits, returns the
  characters from the start position on, at most that many; a start outside the string gives the empty
  string. With a negative length and a start inside the string it panics.
\<close>

theorem subStr_spec:
  assumes "sint start + sint n < 2 ^ 63"
  shows "subStr s start n =
    (if sint start < 0 \<or> sint start > int (length s) then Ok ''''
     else if sint n < 0 then Panic SliceBounds
     else Ok (take (nat (sint n)) (drop (nat (sint start)) s)))"
proof (cases "sint start < 0 \<or> sint start > int (length s)")
  case True
  then show ?thesis by (auto simp: subStr_def)
next
  case False
  then have pos: "0 \<le> sint start" "sint start \<le> int (length s)" by auto
  have "sint (start + n) = sint start + sint n"
    using assms pos sint_greater_eq [of n] sint_word_of_int [of "sint start + sint n"]
    by (simp add: wi_hom_syms)
  then show ?thesis
    using pos by (auto simp: subStr_def nat_le_iff)
qed

theorem subStr_spec_witness: "subStr ''database'' 4 2 = Ok ''ba''"
  using subStr_spec [of 4 2 "''database''"] by simp

section \<open>The order of values\<close>

text \<open>
  \<open>compareValues\<close> on two values of the same type is a three-way comparison of a linear order.
\<close>

definition orderOf :: "DBValue \<Rightarrow> DBValue \<Rightarrow> orderByState" where
  "orderOf a b = (case compareValues a b of Ok (o', _) \<Rightarrow> o' | _ \<Rightarrow> OrderedEqual)"

definition valueLess :: "DBValue \<Rightarrow> DBValue \<Rightarrow> bool" where
  "valueLess a b \<longleftrightarrow> orderOf a b = OrderedLessThan"

lemma compareValues_typed:
  assumes "hasType ty a" and "hasType ty b" and "ty \<noteq> UnknownType"
  shows "compareValues a b = Ok (orderOf a b, None)"
    and "orderOf a b = OrderedEqual \<longleftrightarrow> a = b"
    and "orderOf a b = OrderedGreaterThan \<longleftrightarrow> orderOf b a = OrderedLessThan"
    and "\<not> valueLess a a"
  using assms by (cases ty; cases a; cases b; auto simp: orderOf_def valueLess_def dest: signed_word_eqI)+

lemma valueLess_trans:
  assumes "hasType ty a" and "hasType ty b" and "hasType ty c" and "ty \<noteq> UnknownType"
  shows "valueLess a b \<Longrightarrow> valueLess b c \<Longrightarrow> valueLess a c"
    and "\<not> valueLess b a \<Longrightarrow> \<not> valueLess c b \<Longrightarrow> \<not> valueLess c a"
  using assms by (cases ty; cases a; cases b; cases c; auto simp: orderOf_def valueLess_def split: if_splits)+

end
