(* ===== verification/LogicalPlans.thy ===== *)
theory LogicalPlans
  imports Catalogs Exprs
begin

text \<open>
  The first half of \<^verbatim>\<open>godb/parser.go\<close>: from the syntax tree of a statement to a logical plan.

  The SQL grammar is that of the package \<^verbatim>\<open>sqlparser\<close>, whose parser is a parameter of \<open>Parse\<close>. The datatypes of the first
  section are the view that the source has of its trees: a constructor for every node type that the source
  distinguishes, one for all the others, and in place of a child that the source only prints the string that
  \<^verbatim>\<open>sqlparser.String\<close> returns for it.
\<close>

section \<open>Syntax trees\<close>

datatype sqlExpr =
    SqlFunc string "sqlSelectExpr list"
  | SqlBinary string sqlExpr sqlExpr
  | SqlParen sqlExpr
  | SqlCol string string
  | SqlVal string
  | SqlAnd sqlExpr sqlExpr
  | SqlComparison string sqlExpr sqlExpr
  | SqlOtherExpr
and sqlSelectExpr = SqlStar string | SqlAliased sqlExpr string | SqlOtherSelectExpr

datatype sqlTableExpr =
    SqlSubquery "sqlSelect option" string
  | SqlTable string string
  | SqlParenTable "sqlTableExpr list"
  | SqlJoin sqlTableExpr sqlTableExpr string sqlExpr
  | SqlOtherTable
and sqlSelect =
  SqlSelect (sqlFrom: "sqlTableExpr list") (sqlWhere: "sqlExpr option") (sqlSelectExprs: "sqlSelectExpr list")
    (sqlGroupBy: "sqlExpr list") (sqlOrderBy: "(sqlExpr \<times> string) list") (sqlLimit: "sqlExpr option") (sqlDistinct: string)

section \<open>Logical plans\<close>

datatype SelectExprType = ExprField | ExprConst | ExprFunc | ExprStar | ExprAggr

datatype LogicalSelectNode =
  LogicalSelectNode (exprType: SelectExprType) (lsTable: string) (lsField: string) (funcOp: "string option")
    (lsAlias: string) (lsValue: string) (lsArgs: "LogicalSelectNode list") (cachedField: "FieldType option")

definition NewFieldSelectNode :: "string \<Rightarrow> string \<Rightarrow> string \<Rightarrow> LogicalSelectNode" where
  "NewFieldSelectNode table field alias = LogicalSelectNode ExprField table field None alias [] [] None"

definition NewConstSelectNode :: "string \<Rightarrow> string \<Rightarrow> LogicalSelectNode" where
  "NewConstSelectNode value alias = LogicalSelectNode ExprConst [] [] None alias value [] None"

definition NewStarSelectNode :: "string \<Rightarrow> LogicalSelectNode" where
  "NewStarSelectNode table = LogicalSelectNode ExprStar table ''*'' None [] [] [] None"

definition NewAggrSelectNode :: "string \<Rightarrow> LogicalSelectNode \<Rightarrow> string \<Rightarrow> LogicalSelectNode" where
  "NewAggrSelectNode op arg alias = LogicalSelectNode ExprAggr [] [] (Some op) alias [] [arg] None"

definition NewFuncSelectNode :: "string \<Rightarrow> LogicalSelectNode list \<Rightarrow> string \<Rightarrow> LogicalSelectNode" where
  "NewFuncSelectNode op args alias = LogicalSelectNode ExprFunc [] [] (Some op) alias [] args None"

record LogicalFilterNode =
  fieldExpr :: LogicalSelectNode
  constExpr :: LogicalSelectNode
  filterPredOp :: BoolOp

record LogicalJoinNode =
  joinLeft :: LogicalSelectNode
  joinRight :: LogicalSelectNode
  joinPredOp :: BoolOp

record LogicalTableNode =
  tableName :: string
  tableAlias :: string
  tableFile :: HeapFile

record OrderByNode =
  orderExpr :: LogicalSelectNode
  ascending :: bool

text \<open>A \<^verbatim>\<open>GroupBy\<close> is a struct of one expression.\<close>

datatype LogicalPlan =
  LogicalPlan (planFilters: "LogicalFilterNode list") (planJoins: "LogicalJoinNode list") (planSelects: "LogicalSelectNode list")
    (planAggs: "LogicalSelectNode list") (planTables: "LogicalTableNode list") (planSubqueries: "LogicalPlan list")
    (planGroupBy: "LogicalSelectNode list") (planOrderBy: "OrderByNode list") (planLimit: "LogicalSelectNode option")
    (planDistinct: bool) (planAlias: string)

fun withAlias :: "LogicalPlan \<Rightarrow> string \<Rightarrow> LogicalPlan" where
  "withAlias (LogicalPlan fs js ss as ts qs gs os l d _) alias = LogicalPlan fs js ss as ts qs gs os l d alias"

section \<open>Which table a name belongs to\<close>

text \<open>
  \<^verbatim>\<open>checkNameInTablesOrSubqueries\<close>: the fields of the subqueries are passed as one list, in the order of the two nested
  loops. A nil catalog is \<open>None\<close>.
\<close>

fun subqueryLoop :: "string \<Rightarrow> FieldType list \<Rightarrow> string \<Rightarrow> string result" where
  "subqueryLoop field [] table = Ok table"
| "subqueryLoop field (f # fs) table =
     (if Fname f = field then
        (if table \<noteq> [] then Err (GoDBError AmbiguousNameError) else subqueryLoop field fs (TableQualifier f))
      else subqueryLoop field fs table)"

fun catalogLoop :: "(Table \<times> LogicalTableNode) list \<Rightarrow> string \<Rightarrow> string result" where
  "catalogLoop [] table = Ok table"
| "catalogLoop ((t, t2) # ps) table =
     (if tname t = tableName t2 then
        (if table \<noteq> [] then Err (GoDBError AmbiguousNameError) else catalogLoop ps (tname t))
      else catalogLoop ps table)"

definition checkNameInTablesOrSubqueries ::
  "string \<Rightarrow> string \<Rightarrow> Catalog option \<Rightarrow> FieldType list \<Rightarrow> LogicalTableNode list \<Rightarrow> string result" where
  "checkNameInTablesOrSubqueries table field c subFields ts =
     bind_go (if table = [] then subqueryLoop field subFields table else Ok table) (\<lambda>table.
       case c of
         None \<Rightarrow> Ok table
       | Some cat \<Rightarrow>
           if table = [] then catalogLoop (List.product (findTablesWithColumn field cat) ts) table else Ok table)"

text \<open>\<open>argsTableField\<close> is the loop over the arguments of a function, with the names found so far.\<close>

fun getTableField ::
  "Catalog option \<Rightarrow> FieldType list \<Rightarrow> LogicalTableNode list \<Rightarrow> LogicalSelectNode \<Rightarrow> (string \<times> string) result"
and argsTableField ::
  "Catalog option \<Rightarrow> FieldType list \<Rightarrow> LogicalTableNode list \<Rightarrow> LogicalSelectNode list \<Rightarrow> string \<times> string \<Rightarrow> (string \<times> string) result" where
  "getTableField c qs ts (LogicalSelectNode ty table field fop alias val args cached) =
     (if ty = ExprConst then Ok ([], [])
      else if ty = ExprFunc \<or> ty = ExprAggr then
        bind_go (argsTableField c qs ts args ([], [])) (\<lambda>(tabName, fieldName).
        bind_go (checkNameInTablesOrSubqueries tabName fieldName c qs ts) (\<lambda>tabName. Ok (tabName, fieldName)))
      else
        bind_go (checkNameInTablesOrSubqueries table field c qs ts) (\<lambda>tabName.
          Ok (tabName, if alias \<noteq> [] then alias else field)))"
| "argsTableField c qs ts [] names = Ok names"
| "argsTableField c qs ts (s # ss) names =
     bind_go (getTableField c qs ts s) (\<lambda>(newTab, newField).
       case names of (tabName, fieldName) \<Rightarrow>
         if tabName = [] \<and> (newTab \<noteq> [] \<or> newField \<noteq> []) then Ok (newTab, newField)
         else if fieldName = [] \<and> tabName = [] then argsTableField c qs ts ss (tabName, newField)
         else if newTab \<noteq> [] then Err (GoDBError AmbiguousNameError)
         else argsTableField c qs ts ss names)"

text \<open>\<^verbatim>\<open>_, field, _ := s.getTableField(...)\<close>: the field is empty when there is an error.\<close>

fun getSubplanFields :: "Catalog option \<Rightarrow> LogicalPlan \<Rightarrow> FieldType list" where
  "getSubplanFields c (LogicalPlan fs js ss as ts qs gs os l d alias) =
     map (\<lambda>s. \<lparr>Fname = (case getTableField c (concat (map (getSubplanFields c) qs)) ts s of Ok (_, field) \<Rightarrow> field | _ \<Rightarrow> []),
               TableQualifier = alias, Ftype = UnknownType\<rparr>) ss"

definition subFieldsOf :: "Catalog \<Rightarrow> LogicalPlan list \<Rightarrow> FieldType list" where
  "subFieldsOf c qs = concat (map (getSubplanFields (Some c)) qs)"

section \<open>Expressions\<close>

definition isAgg :: "string \<Rightarrow> bool" where
  "isAgg funcName \<longleftrightarrow> funcName \<in> set [''count'', ''sum'', ''avg'', ''min'', ''max'']"

text \<open>\<^verbatim>\<open>s[1 : len(s)-1]\<close>\<close>

definition inner :: "string \<Rightarrow> string result" where
  "inner s = (if length s < 2 then Panic SliceBounds else Ok (butlast (tl s)))"

definition quoteChar :: "char \<Rightarrow> bool" where
  "quoteChar c \<longleftrightarrow> c = CHR 0x27 \<or> c = CHR 0x60"

definition unquoteFunc :: "string \<Rightarrow> string result" where
  "unquoteFunc s = (if s = [] then Panic IndexOutOfRange else if quoteChar (hd s) then inner s else Ok s)"

definition unquoteCol :: "string \<Rightarrow> string" where
  "unquoteCol s = (if length s > 1 \<and> quoteChar (hd s) then butlast (tl s) else s)"

definition unquoteVal :: "string \<Rightarrow> string result" where
  "unquoteVal s = (if s = [] then Panic IndexOutOfRange else if hd s = CHR 0x27 then inner s else Ok s)"

fun parseExpr :: "sqlExpr \<Rightarrow> string \<Rightarrow> LogicalSelectNode result"
and parseSelect :: "sqlSelectExpr \<Rightarrow> LogicalSelectNode result"
and parseSelects :: "sqlSelectExpr list \<Rightarrow> LogicalSelectNode list result" where
  "parseExpr (SqlFunc name exprs) alias =
     (let funName = ToLower name in
      if isAgg funName then
        (case exprs of
           [e] \<Rightarrow>
             (case e of
                SqlStar table \<Rightarrow>
                  if funName \<noteq> ''count'' then Err (GoDBError ParseError)
                  else Ok (NewAggrSelectNode funName (NewFieldSelectNode (ToLower table) ''*'' []) alias)
              | _ \<Rightarrow> bind_go (parseSelect e) (\<lambda>field. Ok (NewAggrSelectNode funName field alias)))
         | _ \<Rightarrow> Err (GoDBError ParseError))
      else
        bind_go (parseSelects exprs) (\<lambda>exprList.
        bind_go (unquoteFunc funName) (\<lambda>fn. Ok (NewFuncSelectNode fn exprList alias))))"
| "parseExpr (SqlBinary op l r) alias =
     bind_go (parseExpr l []) (\<lambda>left. bind_go (parseExpr r []) (\<lambda>right. Ok (NewFuncSelectNode op [left, right] alias)))"
| "parseExpr (SqlParen e) alias = parseExpr e alias"
| "parseExpr (SqlCol qualifier name) alias =
     Ok (NewFieldSelectNode (unquoteCol (ToLower qualifier)) (unquoteCol (ToLower name)) alias)"
| "parseExpr (SqlVal s) alias = bind_go (unquoteVal s) (\<lambda>str. Ok (NewConstSelectNode str alias))"
| "parseExpr _ alias = Err (GoDBError ParseError)"
| "parseSelect (SqlStar table) = Ok (NewStarSelectNode (ToLower table))"
| "parseSelect (SqlAliased e as) = parseExpr e (ToLower as)"
| "parseSelect SqlOtherSelectExpr = Err (GoDBError ParseError)"
| "parseSelects [] = Ok []"
| "parseSelects (e # es) = bind_go (parseSelect e) (\<lambda>x. bind_go (parseSelects es) (\<lambda>xs. Ok (x # xs)))"

fun extractAggs :: "LogicalSelectNode \<Rightarrow> LogicalSelectNode list" where
  "extractAggs (LogicalSelectNode ty table field fop alias val args cached) =
     (case ty of
        ExprAggr \<Rightarrow> [LogicalSelectNode ty table field fop alias val args cached]
      | ExprFunc \<Rightarrow> concat (map extractAggs args)
      | _ \<Rightarrow> [])"

section \<open>Statements\<close>

text \<open>The errors of the two sides of a conjunction are dropped, and with them the filters of that side.\<close>

definition comparison ::
  "Catalog \<Rightarrow> FieldType list \<Rightarrow> LogicalTableNode list \<Rightarrow> string \<Rightarrow> sqlExpr \<Rightarrow> sqlExpr \<Rightarrow> (LogicalFilterNode list \<times> LogicalJoinNode list) result" where
  "comparison c qs ts operator l r =
     bind_go (parseExpr l []) (\<lambda>left.
     bind_go (parseExpr r []) (\<lambda>right.
     bind_go (getTableField (Some c) qs ts left) (\<lambda>(lTable, _).
     bind_go (getTableField (Some c) qs ts right) (\<lambda>(rTable, _).
       let op = BoolOpMap_get operator in
       if lTable \<noteq> [] \<and> rTable \<noteq> [] \<and> lTable \<noteq> rTable then
         (if op \<noteq> OpEq then Err (GoDBError IllegalOperationError)
          else Ok ([], [\<lparr>joinLeft = left, joinRight = right, joinPredOp = op\<rparr>]))
       else Ok ([\<lparr>fieldExpr = left, constExpr = right, filterPredOp = op\<rparr>], [])))))"

fun parseWhere ::
  "Catalog \<Rightarrow> FieldType list \<Rightarrow> LogicalTableNode list \<Rightarrow> sqlExpr \<Rightarrow> (LogicalFilterNode list \<times> LogicalJoinNode list) result" where
  "parseWhere c qs ts (SqlAnd l r) =
     (case parseWhere c qs ts l of
        Panic x \<Rightarrow> Panic x
      | lres \<Rightarrow> (case parseWhere c qs ts r of
          Panic x \<Rightarrow> Panic x
        | rres \<Rightarrow>
            let orNil = (\<lambda>res. case res of Ok fj \<Rightarrow> fj | _ \<Rightarrow> ([], [])) in
            Ok (fst (orNil lres) @ fst (orNil rres), snd (orNil lres) @ snd (orNil rres))))"
| "parseWhere c qs ts (SqlComparison op l r) = comparison c qs ts op l r"
| "parseWhere c qs ts _ = Err (GoDBError ParseError)"

type_synonym fromResult = "LogicalTableNode list \<times> LogicalPlan list \<times> LogicalJoinNode list"

definition appendFrom :: "fromResult list \<Rightarrow> fromResult" where
  "appendFrom rs = (concat (map fst rs), concat (map (fst \<circ> snd) rs), concat (map (snd \<circ> snd) rs))"

fun parseFrom :: "Catalog \<Rightarrow> sqlTableExpr \<Rightarrow> fromResult result"
and parseStatement :: "Catalog \<Rightarrow> sqlSelect \<Rightarrow> LogicalPlan result" where
  "parseFrom c (SqlSubquery stmt as) =
     (case stmt of
        None \<Rightarrow> Err (GoDBError ParseError)
      | Some s \<Rightarrow> bind_go (parseStatement c s) (\<lambda>subplan. Ok ([], [withAlias subplan (ToLower as)], [])))"
| "parseFrom c (SqlTable name as) =
     bind_go (GetTable (ToLower name) c) (\<lambda>dbFile.
       Ok ([\<lparr>tableName = ToLower name, tableAlias = ToLower as, tableFile = dbFile\<rparr>], [], []))"
| "parseFrom c (SqlParenTable es) = bind_go (map_go (parseFrom c) es) (\<lambda>rs. Ok (appendFrom rs))"
| "parseFrom c (SqlJoin l r joinType on) =
     bind_go (parseFrom c l) (\<lambda>(lts, lqs, ljs).
     bind_go (parseFrom c r) (\<lambda>(rts, rqs, rjs).
       if joinType \<noteq> ''join'' then Err (GoDBError ParseError)
       else bind_go (parseWhere c (subFieldsOf c (lqs @ rqs)) (lts @ rts) on) (\<lambda>(_, js).
         Ok (lts @ rts, lqs @ rqs, ljs @ rjs @ js))))"
| "parseFrom c SqlOtherTable = Err (GoDBError ParseError)"
| "parseStatement c (SqlSelect from whr sels gbys obys lim dist) =
     bind_go (map_go (parseFrom c) from) (\<lambda>rs. case appendFrom rs of (tables, subplans, js) \<Rightarrow>
     bind_go (case whr of None \<Rightarrow> Ok ([], []) | Some e \<Rightarrow> parseWhere c (subFieldsOf c subplans) tables e) (\<lambda>(newFilters, newJoins).
     bind_go (parseSelects sels) (\<lambda>ss.
     bind_go (map_go (\<lambda>g. parseExpr g []) gbys) (\<lambda>gs.
     bind_go (map_go (\<lambda>(e, dir). bind_go (parseExpr e []) (\<lambda>x. Ok \<lparr>orderExpr = x, ascending = (dir = ''asc'')\<rparr>)) obys) (\<lambda>os.
     bind_go (case lim of None \<Rightarrow> Ok None | Some e \<Rightarrow> bind_go (parseExpr e []) (\<lambda>x. Ok (Some x))) (\<lambda>limExpr.
       Ok (LogicalPlan newFilters (js @ newJoins) ss (concat (map extractAggs ss)) tables subplans gs os limExpr (dist \<noteq> []) [])))))))"

section \<open>Conditions\<close>

fun conjuncts :: "sqlExpr \<Rightarrow> sqlExpr list" where
  "conjuncts (SqlAnd l r) = conjuncts l @ conjuncts r"
| "conjuncts e = [e]"

definition supported :: "Catalog \<Rightarrow> FieldType list \<Rightarrow> LogicalTableNode list \<Rightarrow> sqlExpr \<Rightarrow> bool" where
  "supported c qs ts e \<longleftrightarrow> (\<exists>fj. parseWhere c qs ts e = Ok fj)"

definition conditionOf :: "Catalog \<Rightarrow> FieldType list \<Rightarrow> LogicalTableNode list \<Rightarrow> sqlExpr \<Rightarrow> LogicalFilterNode list \<times> LogicalJoinNode list" where
  "conditionOf c qs ts e = (case parseWhere c qs ts e of Ok fj \<Rightarrow> fj | _ \<Rightarrow> ([], []))"

lemma conditionOf_conjuncts:
  assumes "\<And>e'. e' \<in> set (conjuncts e) \<Longrightarrow> \<nexists>x. parseWhere c qs ts e' = Panic x"
  shows "(\<nexists>x. parseWhere c qs ts e = Panic x) \<and>
    conditionOf c qs ts e = (concat (map (fst \<circ> conditionOf c qs ts) (conjuncts e)), concat (map (snd \<circ> conditionOf c qs ts) (conjuncts e)))"
  using assms
proof (induction e rule: conjuncts.induct)
  case (1 l r)
  then have "(\<nexists>x. parseWhere c qs ts l = Panic x)" "(\<nexists>x. parseWhere c qs ts r = Panic x)" by auto
  with 1 show ?case by (auto simp: conditionOf_def Let_def split: go_result.splits)
qed (simp_all add: conditionOf_def)

lemma concat_supported:
  "concat (map (fst \<circ> conditionOf c qs ts) es) = concat (map (fst \<circ> conditionOf c qs ts) (filter (supported c qs ts) es))"
  "concat (map (snd \<circ> conditionOf c qs ts) es) = concat (map (snd \<circ> conditionOf c qs ts) (filter (supported c qs ts) es))"
  by (induction es) (auto simp: supported_def conditionOf_def split: go_result.splits)

text \<open>
  C24: A condition that is a conjunction is always accepted: its filters and joins are those of the conjuncts that are
  supported, and the others are dropped without an error.
\<close>

theorem where_keeps_supported:
  assumes "\<And>e. e \<in> set (conjuncts (SqlAnd l r)) \<Longrightarrow> \<nexists>x. parseWhere c qs ts e = Panic x"
  shows "parseWhere c qs ts (SqlAnd l r) =
    Ok (concat (map (fst \<circ> conditionOf c qs ts) (filter (supported c qs ts) (conjuncts (SqlAnd l r)))),
        concat (map (snd \<circ> conditionOf c qs ts) (filter (supported c qs ts) (conjuncts (SqlAnd l r)))))"
proof -
  note a = conditionOf_conjuncts [of "SqlAnd l r" c qs ts, OF assms]
  then obtain fj where "parseWhere c qs ts (SqlAnd l r) = Ok fj" by (auto simp: Let_def split: go_result.splits)
  with a show ?thesis using concat_supported [of c qs ts "conjuncts (SqlAnd l r)"] by (simp add: conditionOf_def)
qed

end
