(* ===== verification/Operators.thy ===== *)
theory Operators
  imports Exprs Iterators
begin

text \<open>
  The relational operators that do not touch the storage themselves: \<^verbatim>\<open>filter_op.go\<close>, \<^verbatim>\<open>project_op.go\<close>,
  \<^verbatim>\<open>limit_op.go\<close> and \<^verbatim>\<open>value_op.go\<close>. An operator is its configuration, as the constructor leaves it, and
  the closure that \<^verbatim>\<open>Iterator(tid)\<close> returns, as a function of the child's closure. The error of the child is
  dropped where the source writes \<^verbatim>\<open>tuple, _ := ite()\<close>; then the tuple is nil.
\<close>

section \<open>Filter\<close>

datatype getter = intFilterGetter | stringFilterGetter

record Filter =
  filterOp :: BoolOp
  leftExpr :: Expr
  rightExpr :: Expr
  filterGetter :: getter

definition newFilter :: "Expr \<Rightarrow> BoolOp \<Rightarrow> Expr \<Rightarrow> getter \<Rightarrow> Filter" where
  "newFilter constExpr op field g = \<lparr>filterOp = op, leftExpr = field, rightExpr = constExpr, filterGetter = g\<rparr>"

definition NewIntFilter :: "world \<Rightarrow> Expr \<Rightarrow> BoolOp \<Rightarrow> Expr \<Rightarrow> Filter result" where
  "NewIntFilter w constExpr op field =
     (if Ftype (GetExprType w constExpr) \<noteq> IntType \<or> Ftype (GetExprType w field) \<noteq> IntType
      then Err (GoDBError IncompatibleTypesError)
      else Ok (newFilter constExpr op field intFilterGetter))"

definition NewStringFilter :: "world \<Rightarrow> Expr \<Rightarrow> BoolOp \<Rightarrow> Expr \<Rightarrow> Filter result" where
  "NewStringFilter w constExpr op field =
     (if Ftype (GetExprType w constExpr) \<noteq> StringType \<or> Ftype (GetExprType w field) \<noteq> StringType
      then Err (GoDBError IncompatibleTypesError)
      else Ok (newFilter constExpr op field stringFilterGetter))"

text \<open>\<^verbatim>\<open>v, _ := e.EvalExpr(t)\<close>\<close>

definition evalOrNil :: "world \<Rightarrow> Expr \<Rightarrow> Tuple option \<Rightarrow> DBValue result" where
  "evalOrNil w e t = (case EvalExpr w e t of Ok v \<Rightarrow> Ok v | Err _ \<Rightarrow> Ok NilValue | Panic x \<Rightarrow> Panic x)"

text \<open>\<^verbatim>\<open>evalPred(f.getter(leftValue), f.getter(rightValue), f.op)\<close>\<close>

fun comparePred :: "(string \<Rightarrow> string \<Rightarrow> bool) \<Rightarrow> getter \<Rightarrow> DBValue \<Rightarrow> DBValue \<Rightarrow> BoolOp \<Rightarrow> bool result" where
  "comparePred rx intFilterGetter (IntField a) (IntField b) op = Ok (evalPred_int64 a b op)"
| "comparePred rx stringFilterGetter (StringField a) (StringField b) op = Ok (evalPred_string rx a b op)"
| "comparePred rx _ _ _ op = Panic TypeAssertion"

definition filterPred :: "world \<Rightarrow> (string \<Rightarrow> string \<Rightarrow> bool) \<Rightarrow> Filter \<Rightarrow> Tuple \<Rightarrow> bool result" where
  "filterPred w rx f t =
     bind_go (evalOrNil w (leftExpr f) (Some t)) (\<lambda>leftValue.
     bind_go (evalOrNil w (rightExpr f) (Some t)) (\<lambda>rightValue.
       comparePred rx (filterGetter f) leftValue rightValue (filterOp f)))"

text \<open>The loop of the closure, on the tuple that the last call of the child returned.\<close>

partial_function (option) filterLoop ::
  "(Tuple \<Rightarrow> bool result) \<Rightarrow> ('s, Tuple) iter \<Rightarrow> Tuple option \<Rightarrow> 's \<Rightarrow> (Tuple option result \<times> 's) option" where
  "filterLoop pr ite tuple s =
     (case tuple of
        None \<Rightarrow> Some (Ok None, s)
      | Some t \<Rightarrow>
          (case pr t of
             Err e \<Rightarrow> Some (Err e, s)
           | Panic x \<Rightarrow> Some (Panic x, s)
           | Ok b \<Rightarrow>
               if b then Some (Ok (Some t), s)
               else (case ite s of
                  None \<Rightarrow> None
                | Some (Ok tuple', s') \<Rightarrow> filterLoop pr ite tuple' s'
                | Some (Err e, s') \<Rightarrow> filterLoop pr ite None s'
                | Some (Panic x, s') \<Rightarrow> Some (Panic x, s'))))"

definition filterNext :: "world \<Rightarrow> (string \<Rightarrow> string \<Rightarrow> bool) \<Rightarrow> Filter \<Rightarrow> ('s, Tuple) iter \<Rightarrow> ('s, Tuple) iter" where
  "filterNext w rx f ite s =
     (case ite s of
        None \<Rightarrow> None
      | Some (Err e, s') \<Rightarrow> Some (Err e, s')
      | Some (Panic x, s') \<Rightarrow> Some (Panic x, s')
      | Some (Ok tuple, s') \<Rightarrow> filterLoop (filterPred w rx f) ite tuple s')"

definition filterDescriptor :: "TupleDesc \<Rightarrow> TupleDesc" where
  "filterDescriptor childDesc = childDesc"

section \<open>Project\<close>

record Project =
  selectFields :: "Expr list"
  outputNames :: "string list"
  isDistinct :: bool

definition NewProjectOp :: "Expr list \<Rightarrow> string list \<Rightarrow> bool \<Rightarrow> Project result" where
  "NewProjectOp sel names dist =
     (if length names \<noteq> length sel then Err (PlainError ''outputNames should be same length as selected field'')
      else Ok \<lparr>selectFields = sel, outputNames = names, isDistinct = dist\<rparr>)"

definition projectDescriptor :: "world \<Rightarrow> Project \<Rightarrow> TupleDesc result" where
  "projectDescriptor w p =
     (if length (selectFields p) \<le> length (outputNames p)
      then Ok \<lparr>Fields = map (\<lambda>(e, name). (GetExprType w e)\<lparr>Fname := name\<rparr>) (zip (selectFields p) (outputNames p))\<rparr>
      else Panic IndexOutOfRange)"

text \<open>The tuple that the loop body builds.\<close>

definition projectTuple :: "world \<Rightarrow> Project \<Rightarrow> Tuple \<Rightarrow> Tuple result" where
  "projectTuple w p t =
     bind_go (projectDescriptor w p) (\<lambda>d.
     bind_go (map_go (\<lambda>e. evalOrNil w e (Some t)) (selectFields p)) (\<lambda>vals.
       Ok \<lparr>Desc = d, TFields = vals, Rid = None\<rparr>))"

text \<open>
  \<open>key\<close> is \<^verbatim>\<open>tupleKey\<close>, the hash that the library \<^verbatim>\<open>hashstructure\<close> computes of a tuple. The captured map
  is the list of the keys it maps to 1.
\<close>

partial_function (option) projectLoopOp ::
  "(Tuple \<Rightarrow> Tuple result) \<Rightarrow> bool \<Rightarrow> (Tuple \<Rightarrow> 'h) \<Rightarrow> ('s, Tuple) iter \<Rightarrow> Tuple option \<Rightarrow> 's \<Rightarrow> 'h list \<Rightarrow>
   (Tuple option result \<times> 's \<times> 'h list) option" where
  "projectLoopOp build dist key ite tuple s seen =
     (case tuple of
        None \<Rightarrow> Some (Ok None, s, seen)
      | Some t \<Rightarrow>
          (case build t of
             Err e \<Rightarrow> Some (Err e, s, seen)
           | Panic x \<Rightarrow> Some (Panic x, s, seen)
           | Ok res \<Rightarrow>
               if dist \<and> key res \<in> set seen then
                 (case ite s of
                    None \<Rightarrow> None
                  | Some (Ok tuple', s') \<Rightarrow> projectLoopOp build dist key ite tuple' s' seen
                  | Some (Err e, s') \<Rightarrow> projectLoopOp build dist key ite None s' seen
                  | Some (Panic x, s') \<Rightarrow> Some (Panic x, s', seen))
               else Some (Ok (Some res), s, if dist then key res # seen else seen)))"

definition projectNext ::
  "world \<Rightarrow> (Tuple \<Rightarrow> 'h) \<Rightarrow> Project \<Rightarrow> ('s, Tuple) iter \<Rightarrow> ('s \<times> 'h list, Tuple) iter" where
  "projectNext w key p ite = (\<lambda>(s, seen).
     (case ite s of
        None \<Rightarrow> None
      | Some (Ok tuple, s') \<Rightarrow> projectLoopOp (projectTuple w p) (isDistinct p) key ite tuple s' seen
      | Some (Err e, s') \<Rightarrow> projectLoopOp (projectTuple w p) (isDistinct p) key ite None s' seen
      | Some (Panic x, s') \<Rightarrow> Some (Panic x, s', seen)))"

definition IteratorWithoutDistinct :: "world \<Rightarrow> Project \<Rightarrow> ('s, Tuple) iter \<Rightarrow> ('s, Tuple) iter" where
  "IteratorWithoutDistinct w p ite s =
     (case ite s of
        None \<Rightarrow> None
      | Some (Ok None, s') \<Rightarrow> Some (Ok None, s')
      | Some (Err e, s') \<Rightarrow> Some (Ok None, s')
      | Some (Panic x, s') \<Rightarrow> Some (Panic x, s')
      | Some (Ok (Some t), s') \<Rightarrow>
          (case project t (map (GetExprType w) (selectFields p)) of
             Ok t' \<Rightarrow> (case projectDescriptor w p of
                 Ok d \<Rightarrow> Some (Ok (Some \<lparr>Desc = d, TFields = TFields t', Rid = None\<rparr>), s')
               | Err e \<Rightarrow> Some (Err e, s')
               | Panic x \<Rightarrow> Some (Panic x, s'))
           | Err e \<Rightarrow> Some (Panic NilDereference, s')
           | Panic x \<Rightarrow> Some (Panic x, s')))"

section \<open>Limit\<close>

text \<open>\<^verbatim>\<open>int(constExprVal.(IntField).Value)\<close>, with the expression evaluated on no tuple.\<close>

definition limitValue :: "world \<Rightarrow> Expr \<Rightarrow> int result" where
  "limitValue w lim =
     bind_go (evalOrNil w lim None) (\<lambda>v. case v of IntField n \<Rightarrow> Ok (sint n) | _ \<Rightarrow> Panic TypeAssertion)"

definition limitNext :: "world \<Rightarrow> Expr \<Rightarrow> ('s, Tuple) iter \<Rightarrow> ('s \<times> int, Tuple) iter" where
  "limitNext w lim ite = (\<lambda>(s, counter).
     (case limitValue w lim of
        Err e \<Rightarrow> Some (Err e, s, counter)
      | Panic x \<Rightarrow> Some (Panic x, s, counter)
      | Ok n \<Rightarrow>
          if counter \<ge> n then Some (Ok None, s, counter)
          else (case ite s of
             None \<Rightarrow> None
           | Some (Ok (Some t), s') \<Rightarrow> Some (Ok (Some t), s', counter + 1)
           | Some (Ok None, s') \<Rightarrow> Some (Ok None, s', counter)
           | Some (Err e, s') \<Rightarrow> Some (Ok None, s', counter)
           | Some (Panic x, s') \<Rightarrow> Some (Panic x, s', counter))))"

definition limitDescriptor :: "TupleDesc \<Rightarrow> TupleDesc" where
  "limitDescriptor childDesc = TupleDesc_copy childDesc"

section \<open>Values\<close>

record ValueOp =
  valueDesc :: TupleDesc
  valueExprs :: "Expr list list"

definition NewValueOp :: "world \<Rightarrow> Expr list list \<Rightarrow> ValueOp" where
  "NewValueOp w es =
     \<lparr>valueDesc = \<lparr>Fields = (case es of [] \<Rightarrow> [] | first # _ \<Rightarrow> map (GetExprType w) first)\<rparr>, valueExprs = es\<rparr>"

definition valueNext :: "world \<Rightarrow> ValueOp \<Rightarrow> (nat, Tuple) iter" where
  "valueNext w v curTup =
     (if curTup \<ge> length (valueExprs v) then Some (Ok None, curTup)
      else case map_go (\<lambda>e. EvalExpr w e None) (valueExprs v ! curTup) of
        Ok vals \<Rightarrow> Some (Ok (Some \<lparr>Desc = valueDesc v, TFields = vals, Rid = None\<rparr>), Suc curTup)
      | Err e \<Rightarrow> Some (Err e, curTup)
      | Panic x \<Rightarrow> Some (Panic x, curTup))"

section \<open>What the operators yield\<close>

subsection \<open>Filter\<close>

lemma filterLoop_preserves:
  assumes "filterLoop pr ite tuple s = Some (r, s')" and "preserves ite P" and "P s"
  shows "P s'"
proof -
  have "preserves ite P \<longrightarrow> P s \<longrightarrow> P (snd (r, s'))"
  proof (rule filterLoop.raw_induct [where P = "\<lambda>pr ite tuple s y. preserves ite P \<longrightarrow> P s \<longrightarrow> P (snd y)", OF _ assms(1)])
    fix f :: "(Tuple \<Rightarrow> bool result) \<Rightarrow> ('a, Tuple) iter \<Rightarrow> Tuple option \<Rightarrow> 'a \<Rightarrow> (Tuple option result \<times> 'a) option"
    fix pr ite tuple s y
    assume IH: "\<And>pr ite tuple s y. f pr ite tuple s = Some y \<Longrightarrow> preserves ite P \<longrightarrow> P s \<longrightarrow> P (snd y)"
      and eq: "(case tuple of None \<Rightarrow> Some (Ok None, s)
        | Some t \<Rightarrow> (case pr t of Ok b \<Rightarrow> if b then Some (Ok (Some t), s)
               else (case ite s of None \<Rightarrow> None
                | Some (Ok tuple', s') \<Rightarrow> f pr ite tuple' s' | Some (Err e, s') \<Rightarrow> f pr ite None s'
                | Some (Panic x, s') \<Rightarrow> Some (Panic x, s'))
            | Err e \<Rightarrow> Some (Err e, s) | Panic x \<Rightarrow> Some (Panic x, s))) = Some y"
    show "preserves ite P \<longrightarrow> P s \<longrightarrow> P (snd y)"
    proof (intro impI)
      assume p: "preserves ite P" and "P s"
      then have call: "ite s = Some (r, s') \<Longrightarrow> P s'" for r s' by (auto simp: preserves_def)
      show "P (snd y)"
      proof (cases "\<exists>t. tuple = Some t \<and> pr t = Ok False")
        case False
        then show ?thesis using eq \<open>P s\<close> by (auto split: option.splits go_result.splits if_splits)
      next
        case True
        with eq obtain c s' where c: "ite s = Some (c, s')" by (cases "ite s") auto
        have "f pr ite None s' = Some y \<or> (\<exists>t. f pr ite t s' = Some y) \<or> snd y = s'"
          using eq True c by (cases c) auto
        then show ?thesis using IH p call [OF c] by metis
      qed
    qed
  qed
  with assms(2,3) show ?thesis by simp
qed

lemma filterLoop_skip:
  assumes "pr t = Ok False" and "ite s = Some (Ok tuple, s')"
  shows "filterLoop pr ite (Some t) s = filterLoop pr ite tuple s'"
  using assms by (subst filterLoop.simps) simp

lemma filterLoop_hit: "pr t = Ok True \<Longrightarrow> filterLoop pr ite (Some t) s = Some (Ok (Some t), s)"
  by (subst filterLoop.simps) simp

lemma filterLoop_None [simp]: "filterLoop pr ite None s = Some (Ok None, s)"
  by (subst filterLoop.simps) simp

definition keeps :: "world \<Rightarrow> (string \<Rightarrow> string \<Rightarrow> bool) \<Rightarrow> Filter \<Rightarrow> Tuple \<Rightarrow> bool" where
  "keeps w rx f t \<longleftrightarrow> filterPred w rx f t = Ok True"

lemma filterNext_yields:
  assumes "yields ite s xs s'" and "\<forall>t \<in> set xs. \<exists>b. filterPred w rx f t = Ok b"
  shows "yields (filterNext w rx f ite) s (filter (keeps w rx f) xs) s'"
  using assms
proof (induction rule: yields.induct)
  case (yields_Nil s s')
  then show ?case by (auto simp: filterNext_def)
next
  case (yields_Cons s t s1 xs s')
  let ?n = "filterNext w rx f ite"
  have rest: "yields ?n s1 (filter (keeps w rx f) xs) s'" using yields_Cons by auto
  obtain b where b: "filterPred w rx f t = Ok b" using yields_Cons.prems by auto
  show ?case
  proof (cases b)
    case True
    then have "?n s = Some (Ok (Some t), s1)" using b yields_Cons.hyps(1) by (simp add: filterNext_def filterLoop_hit)
    with rest b True show ?thesis by (simp add: keeps_def [abs_def] yields_Cons_iff)
  next
    case False
    from yields_Cons.hyps(2) obtain tuple s2 where "ite s1 = Some (Ok tuple, s2)" by (cases rule: yields.cases) auto
    then have "?n s = ?n s1" using b False yields_Cons.hyps(1) by (simp add: filterNext_def filterLoop_skip)
    with rest b False show ?thesis using yields_same_next by (simp add: keeps_def [abs_def])
  qed
qed

interpretation filter_op: unary_operator "filterNext w rx f" "filter (keeps w rx f)" id id
  "\<lambda>xs. \<forall>t \<in> set xs. \<exists>b. filterPred w rx f t = Ok b"
proof unfold_locales
  show "preserves (filterNext w rx f child) (\<lambda>t. P (id t))" if "preserves child P" for child P
    unfolding preserves_def
  proof (intro allI impI)
    fix s r s'
    assume "P (id s)" and n: "filterNext w rx f child s = Some (r, s')"
    from n obtain c s1 where c: "child s = Some (c, s1)" by (auto simp: filterNext_def split: option.splits)
    then have "P s1" using that \<open>P (id s)\<close> by (auto simp: preserves_def)
    then show "P (id s')" using n c filterLoop_preserves [OF _ that] by (cases c) (auto simp: filterNext_def)
  qed
  show "\<exists>t. yields (filterNext w rx f child) (id s) (filter (keeps w rx f) xs) t"
    if "yields child s xs s'" "\<forall>t \<in> set xs. \<exists>b. filterPred w rx f t = Ok b" for child s xs s'
    using filterNext_yields [OF that] by auto
qed simp

subsection \<open>Limit\<close>

lemma limitNext_yields:
  assumes "limitValue w lim = Ok n"
  shows "yields ite s xs s' \<Longrightarrow> \<exists>t. yields (limitNext w lim ite) (s, c) (take (nat (n - c)) xs) t"
proof (induction arbitrary: c rule: yields.induct)
  case (yields_Nil s s')
  then have "yields (limitNext w lim ite) (s, c) [] (if c \<ge> n then (s, c) else (s', c))"
    using assms by (auto simp: limitNext_def)
  then show ?case by auto
next
  case (yields_Cons s x s1 xs s')
  show ?case
  proof (cases "c \<ge> n")
    case True
    then have "yields (limitNext w lim ite) (s, c) [] (s, c)" using assms by (simp add: limitNext_def)
    with True show ?thesis by auto
  next
    case False
    then have "limitNext w lim ite (s, c) = Some (Ok (Some x), s1, c + 1)"
      using assms yields_Cons.hyps(1) by (simp add: limitNext_def)
    moreover obtain t where "yields (limitNext w lim ite) (s1, c + 1) (take (nat (n - (c + 1))) xs) t"
      using yields_Cons.IH by blast
    moreover have "nat (n - c) = Suc (nat (n - (c + 1)))" using False by simp
    ultimately show ?thesis using yields.yields_Cons by (metis take_Suc_Cons)
  qed
qed

definition limitCount :: "world \<Rightarrow> Expr \<Rightarrow> nat" where
  "limitCount w lim = (case limitValue w lim of Ok n \<Rightarrow> nat n | _ \<Rightarrow> 0)"

interpretation limit_op: unary_operator "limitNext w lim" "take (limitCount w lim)" "\<lambda>s. (s, 0)" fst
  "\<lambda>xs. \<exists>n. limitValue w lim = Ok n"
proof unfold_locales
  show "\<exists>t. yields (limitNext w lim child) (s, 0) (take (limitCount w lim) xs) t"
    if "yields child s xs s'" "\<exists>n. limitValue w lim = Ok n" for child s xs s'
    using that limitNext_yields [of w lim _ child s xs s' 0] by (auto simp: limitCount_def)
  show "preserves (limitNext w lim child) (\<lambda>t. P (fst t))" if "preserves child P" for child P
    using that unfolding preserves_def limitNext_def
    by (simp split: prod.split go_result.split option.split)
qed simp

subsection \<open>Project\<close>

text \<open>The elements whose key was not seen before.\<close>

fun firstBy :: "('a \<Rightarrow> 'h) \<Rightarrow> 'h list \<Rightarrow> 'a list \<Rightarrow> 'a list" where
  "firstBy key seen [] = []"
| "firstBy key seen (x # xs) =
     (if key x \<in> set seen then firstBy key seen xs else x # firstBy key (key x # seen) xs)"

lemma set_firstBy: "key ` set (firstBy key seen xs) = key ` set xs - set seen"
  by (induction xs arbitrary: seen) auto

lemma distinct_firstBy: "distinct (map key (firstBy key seen xs))"
  by (induction xs arbitrary: seen) (auto simp: set_firstBy)

lemma firstBy_subset: "set (firstBy key seen xs) \<subseteq> set xs"
  by (induction key seen xs rule: firstBy.induct) auto

definition projected :: "world \<Rightarrow> Project \<Rightarrow> Tuple \<Rightarrow> Tuple" where
  "projected w p t = (case projectTuple w p t of Ok t' \<Rightarrow> t' | _ \<Rightarrow> t)"

definition projectResult :: "world \<Rightarrow> (Tuple \<Rightarrow> 'h) \<Rightarrow> Project \<Rightarrow> 'h list \<Rightarrow> Tuple list \<Rightarrow> Tuple list" where
  "projectResult w key p seen xs =
     (let ys = map (projected w p) xs in if isDistinct p then firstBy key seen ys else ys)"

lemma projectLoopOp_None [simp]: "projectLoopOp b d key ite None s seen = Some (Ok None, s, seen)"
  by (subst projectLoopOp.simps) simp

lemma projectNext_yields:
  "yields ite s xs s' \<Longrightarrow> \<forall>t \<in> set xs. \<exists>t'. projectTuple w p t = Ok t' \<Longrightarrow>
   \<exists>seen'. yields (projectNext w key p ite) (s, seen) (projectResult w key p seen xs) (s', seen')"
proof (induction arbitrary: seen rule: yields.induct)
  case (yields_Nil s s')
  then show ?case by (auto simp: projectNext_def projectResult_def)
next
  case (yields_Cons s t s1 xs s')
  let ?n = "projectNext w key p ite"
  obtain t' where t': "projectTuple w p t = Ok t'" using yields_Cons.prems by auto
  then have pj: "projected w p t = t'" by (simp add: projected_def)
  show ?case
  proof (cases "isDistinct p \<and> key t' \<in> set seen")
    case True
    from yields_Cons.hyps(2) obtain tuple s2 where "ite s1 = Some (Ok tuple, s2)" by (cases rule: yields.cases) auto
    then have "?n (s, seen) = ?n (s1, seen)"
      using True t' yields_Cons.hyps(1) by (simp add: projectNext_def, subst projectLoopOp.simps) simp
    moreover obtain seen' where "yields ?n (s1, seen) (projectResult w key p seen xs) (s', seen')"
      using yields_Cons by auto
    moreover have "projectResult w key p seen (t # xs) = projectResult w key p seen xs"
      using True pj by (simp add: projectResult_def)
    ultimately show ?thesis using yields_same_next by metis
  next
    case False
    let ?seen = "if isDistinct p then key t' # seen else seen"
    have "?n (s, seen) = Some (Ok (Some t'), s1, ?seen)"
      using False t' yields_Cons.hyps(1) by (cases "isDistinct p"; simp add: projectNext_def, subst projectLoopOp.simps) simp_all
    moreover obtain seen' where "yields ?n (s1, ?seen) (projectResult w key p ?seen xs) (s', seen')"
      using yields_Cons.IH [of ?seen] yields_Cons.prems by auto
    moreover have "projectResult w key p seen (t # xs) = t' # projectResult w key p ?seen xs"
      using False pj by (simp add: projectResult_def)
    ultimately show ?thesis by (metis yields.yields_Cons)
  qed
qed

lemma projectLoopOp_preserves:
  assumes "projectLoopOp b d key ite tuple s seen = Some (r, s', seen')" and "preserves ite P" and "P s"
  shows "P s'"
proof -
  have "preserves ite P \<longrightarrow> P s \<longrightarrow> P (fst (snd (r, s', seen')))"
  proof (rule projectLoopOp.raw_induct [where
        P = "\<lambda>b d key ite tuple s seen y. preserves ite P \<longrightarrow> P s \<longrightarrow> P (fst (snd y))", OF _ assms(1)])
    fix f :: "(Tuple \<Rightarrow> Tuple result) \<Rightarrow> bool \<Rightarrow> (Tuple \<Rightarrow> 'b) \<Rightarrow> ('a, Tuple) iter \<Rightarrow> Tuple option \<Rightarrow> 'a \<Rightarrow> 'b list \<Rightarrow>
      (Tuple option result \<times> 'a \<times> 'b list) option"
    fix b d key ite tuple s seen y
    assume IH: "\<And>b d key ite tuple s seen y. f b d key ite tuple s seen = Some y \<Longrightarrow> preserves ite P \<longrightarrow> P s \<longrightarrow> P (fst (snd y))"
      and eq: "(case tuple of None \<Rightarrow> Some (Ok None, s, seen)
        | Some t \<Rightarrow> (case b t of
              Ok res \<Rightarrow> if d \<and> key res \<in> set seen then
                 (case ite s of None \<Rightarrow> None
                  | Some (Ok tuple', s') \<Rightarrow> f b d key ite tuple' s' seen
                  | Some (Err e, s') \<Rightarrow> f b d key ite None s' seen
                  | Some (Panic x, s') \<Rightarrow> Some (Panic x, s', seen))
               else Some (Ok (Some res), s, if d then key res # seen else seen)
            | Err e \<Rightarrow> Some (Err e, s, seen) | Panic x \<Rightarrow> Some (Panic x, s, seen))) = Some y"
    show "preserves ite P \<longrightarrow> P s \<longrightarrow> P (fst (snd y))"
    proof (intro impI)
      assume p: "preserves ite P" and "P s"
      then have call: "ite s = Some (r, s') \<Longrightarrow> P s'" for r s' by (auto simp: preserves_def)
      show "P (fst (snd y))"
      proof (cases "\<exists>t res. tuple = Some t \<and> b t = Ok res \<and> d \<and> key res \<in> set seen")
        case False
        then show ?thesis using eq \<open>P s\<close> by (auto split: option.splits go_result.splits if_splits)
      next
        case True
        with eq obtain c s' where c: "ite s = Some (c, s')" by (cases "ite s") auto
        have "f b d key ite None s' seen = Some y \<or> (\<exists>t. f b d key ite t s' seen = Some y) \<or> fst (snd y) = s'"
          using eq True c by (cases c) auto
        then show ?thesis using IH p call [OF c] by metis
      qed
    qed
  qed
  with assms(2,3) show ?thesis by simp
qed

interpretation project_op: unary_operator "projectNext w key p" "projectResult w key p []" "\<lambda>s. (s, [])" fst
  "\<lambda>xs. \<forall>t \<in> set xs. \<exists>t'. projectTuple w p t = Ok t'"
proof unfold_locales
  show "preserves (projectNext w key p child) (\<lambda>t. P (fst t))" if "preserves child P" for child P
    unfolding preserves_def
  proof (intro allI impI)
    fix s r s'
    assume "P (fst s)" and n: "projectNext w key p child s = Some (r, s')"
    from n obtain c s1 where c: "child (fst s) = Some (c, s1)" by (auto simp: projectNext_def split: option.splits prod.splits)
    then have "P s1" using that \<open>P (fst s)\<close> by (auto simp: preserves_def)
    then show "P (fst s')"
      using n c projectLoopOp_preserves [OF _ that] by (cases c; cases s; cases s') (auto simp: projectNext_def)
  qed
  show "\<exists>t. yields (projectNext w key p child) (s, []) (projectResult w key p [] xs) t"
    if "yields child s xs s'" "\<forall>t \<in> set xs. \<exists>t'. projectTuple w p t = Ok t'" for child s xs s'
    using projectNext_yields [OF that] by blast
qed simp

section \<open>Typed inputs\<close>

text \<open>An expression that can be evaluated on every tuple of a list: checked, and free of the two panics.\<close>

definition evaluates :: "world \<Rightarrow> Expr \<Rightarrow> Tuple \<Rightarrow> bool" where
  "evaluates w e t \<longleftrightarrow> (\<exists>v. EvalExpr w e (Some t) = Ok v)"

lemma evalOrNil_evaluates: "evaluates w e t \<Longrightarrow> evalOrNil w e (Some t) = EvalExpr w e (Some t)"
  by (auto simp: evaluates_def evalOrNil_def)

lemma EvalExpr_value:
  assumes "tupleTyped d t" and "exprOk w d e" and "evaluates w e t"
  shows "\<exists>v. EvalExpr w e (Some t) = Ok v \<and> hasType (Ftype (GetExprType w e)) v"
  using EvalExpr_typed(1) [OF refl assms(1,2)] assms(3) by (auto simp: evaluates_def)

text \<open>
  An integer filter built by \<^verbatim>\<open>NewIntFilter\<close> for a constant, an operator and a field keeps, of the
  tuples its child yields, exactly those whose field compares to the constant by that operator, in their
  order, and ends when the child ends.
\<close>

theorem int_filter_yields:
  assumes "NewIntFilter w constExpr op field = Ok f"
    and "exprOk w d constExpr" and "exprOk w d field"
    and "\<forall>t \<in> set xs. tupleTyped d t \<and> evaluates w constExpr t \<and> evaluates w field t"
    and "yields ite s xs s'"
  shows "yields (filterNext w rx f ite) s
    (filter (\<lambda>t. \<exists>a b. EvalExpr w field (Some t) = Ok (IntField a) \<and> EvalExpr w constExpr (Some t) = Ok (IntField b) \<and>
       evalPred_int64 a b op) xs) s'"
proof -
  have f: "f = newFilter constExpr op field intFilterGetter" and ty: "Ftype (GetExprType w constExpr) = IntType" "Ftype (GetExprType w field) = IntType"
    using assms(1) by (auto simp: NewIntFilter_def split: if_splits)
  have pr: "\<exists>a b. EvalExpr w field (Some t) = Ok (IntField a) \<and> EvalExpr w constExpr (Some t) = Ok (IntField b) \<and>
      filterPred w rx f t = Ok (evalPred_int64 a b op)" if "t \<in> set xs" for t
  proof -
    have t: "tupleTyped d t" "evaluates w constExpr t" "evaluates w field t" using assms(4) that by auto
    obtain u v where u: "EvalExpr w field (Some t) = Ok u" "hasType IntType u"
        and v: "EvalExpr w constExpr (Some t) = Ok v" "hasType IntType v"
      using EvalExpr_value [OF t(1) assms(2) t(2)] EvalExpr_value [OF t(1) assms(3) t(3)] ty by auto
    then show ?thesis
      using t by (cases u; cases v) (auto simp: filterPred_def f newFilter_def evalOrNil_evaluates)
  qed
  have "filter (keeps w rx f) xs = filter (\<lambda>t. \<exists>a b. EvalExpr w field (Some t) = Ok (IntField a) \<and>
      EvalExpr w constExpr (Some t) = Ok (IntField b) \<and> evalPred_int64 a b op) xs"
    by (rule filter_cong) (use pr in \<open>force simp: keeps_def\<close>)+
  moreover have "\<forall>t \<in> set xs. \<exists>b. filterPred w rx f t = Ok b" using pr by blast
  ultimately show ?thesis using filterNext_yields [OF assms(5), of w rx f] by simp
qed

section \<open>Results of the operators\<close>

definition valueTuple :: "world \<Rightarrow> ValueOp \<Rightarrow> Expr list \<Rightarrow> Tuple" where
  "valueTuple w v es = \<lparr>Desc = valueDesc v,
     TFields = (case map_go (\<lambda>e. EvalExpr w e None) es of Ok vs \<Rightarrow> vs | _ \<Rightarrow> []), Rid = None\<rparr>"

lemma valueNext_from:
  assumes "\<forall>es \<in> set (valueExprs v). \<exists>vs. map_go (\<lambda>e. EvalExpr w e None) es = Ok vs" and "i \<le> length (valueExprs v)"
  shows "yields (valueNext w v) i (map (valueTuple w v) (drop i (valueExprs v))) (length (valueExprs v))"
  using assms(2)
proof (induction "length (valueExprs v) - i" arbitrary: i)
  case 0
  then show ?case by (simp add: valueNext_def)
next
  case (Suc n)
  then have i: "i < length (valueExprs v)" by simp
  then obtain vs where "map_go (\<lambda>e. EvalExpr w e None) (valueExprs v ! i) = Ok vs" using assms(1) nth_mem by blast
  then have "valueNext w v i = Some (Ok (Some (valueTuple w v (valueExprs v ! i))), Suc i)"
    using i by (simp add: valueNext_def valueTuple_def)
  moreover have "yields (valueNext w v) (Suc i) (map (valueTuple w v) (drop (Suc i) (valueExprs v))) (length (valueExprs v))"
    using Suc i by (intro Suc.hyps(1)) auto
  ultimately show ?case using i by (simp add: Cons_nth_drop_Suc [symmetric] yields_Cons_iff)
qed

text \<open>
  A \<^verbatim>\<open>VALUES\<close> list whose expressions evaluate yields one tuple for each row of expressions, in order,
  and then ends.
\<close>

theorem value_yields:
  assumes "\<forall>es \<in> set rws. \<exists>vs. map_go (\<lambda>e. EvalExpr w e None) es = Ok vs"
  shows "yields (valueNext w (NewValueOp w rws)) 0 (map (valueTuple w (NewValueOp w rws)) rws) (length rws)"
  using valueNext_from [of "NewValueOp w rws" w 0] assms by (simp add: NewValueOp_def)

text \<open>A world, and a list of three one-column rows, for the examples.\<close>

definition exWorld :: world where
  "exWorld = \<lparr>Now = 0, randInt = 0, parseUnixDate = (\<lambda>_. None), formatUnixDate = (\<lambda>_. '''')\<rparr>"

definition exRows :: "Expr list list" where
  "exRows = [[ConstExpr (IntField 7) IntType], [ConstExpr (IntField 3) IntType], [ConstExpr (IntField 7) IntType]]"

definition exTuple :: "int64 \<Rightarrow> Tuple" where
  "exTuple n = \<lparr>Desc = \<lparr>Fields = [\<lparr>Fname = ''const'', TableQualifier = constString (IntField 7), Ftype = IntType\<rparr>]\<rparr>,
     TFields = [IntField n], Rid = None\<rparr>"

lemma exValues: "map (valueTuple exWorld (NewValueOp exWorld exRows)) exRows = [exTuple 7, exTuple 3, exTuple 7]"
  by (simp add: exRows_def exTuple_def valueTuple_def NewValueOp_def GetExprType_def)

theorem value_yields_witness:
  "yields (valueNext exWorld (NewValueOp exWorld exRows)) 0 [exTuple 7, exTuple 3, exTuple 7] 3"
proof -
  have "\<forall>es \<in> set exRows. \<exists>vs. map_go (\<lambda>e. EvalExpr exWorld e None) es = Ok vs" "length exRows = 3"
    by (simp_all add: exRows_def)
  from value_yields [OF this(1)] this(2) exValues show ?thesis by simp
qed

lemma exChild: "yields (valueNext exWorld (NewValueOp exWorld exRows)) 0 [exTuple 7, exTuple 3, exTuple 7] 3"
proof -
  have "\<forall>es \<in> set exRows. \<exists>vs. map_go (\<lambda>e. EvalExpr exWorld e None) es = Ok vs" "length exRows = 3"
    "valueExprs (NewValueOp exWorld exRows) = exRows"
    by (simp_all add: exRows_def NewValueOp_def)
  with valueNext_from [of "NewValueOp exWorld exRows" exWorld 0] exValues show ?thesis by simp
qed

text \<open>
  \<^verbatim>\<open>LIMIT n\<close> yields the first \<open>n\<close> tuples of its child, all of them when there are fewer and none when
  \<open>n\<close> is negative.
\<close>

theorem limit_takes:
  assumes "limitValue w lim = Ok n" and "yields ite s xs s'"
  shows "\<exists>t. yields (limitNext w lim ite) (s, 0) (take (nat n) xs) t"
  using limit_op.op_yields [OF assms(2), of w lim] assms(1) by (simp add: limitCount_def)

theorem limit_takes_witness:
  "\<exists>t. yields (limitNext exWorld (ConstExpr (IntField 2) IntType) (valueNext exWorld (NewValueOp exWorld exRows))) (0, 0)
     [exTuple 7, exTuple 3] t"
  using limit_takes [of exWorld "ConstExpr (IntField 2) IntType" 2, OF _ exChild]
  by (simp add: limitValue_def evalOrNil_def)

text \<open>
  A projection yields, for every tuple of its child, the tuple of the values of its expressions under
  the output names. With \<^verbatim>\<open>DISTINCT\<close>, and a tuple hash that has no collision among these tuples, it yields
  each of them once.
\<close>

theorem project_yields:
  assumes "yields ite s xs s'" and "\<forall>t \<in> set xs. \<exists>t'. projectTuple w p t = Ok t'"
    and "isDistinct p \<longrightarrow> inj_on key (projected w p ` set xs)"
  shows "\<exists>ys t. yields (projectNext w key p ite) (s, []) ys t \<and> set ys = projected w p ` set xs \<and>
    (if isDistinct p then distinct ys else ys = map (projected w p) xs)"
proof -
  obtain t where y: "yields (projectNext w key p ite) (s, []) (projectResult w key p [] xs) t"
    using project_op.op_yields [OF assms(1,2), of key] by blast
  show ?thesis
  proof (cases "isDistinct p")
    case True
    let ?ys = "firstBy key [] (map (projected w p) xs)"
    have "key ` set ?ys = key ` projected w p ` set xs" "set ?ys \<subseteq> projected w p ` set xs"
      using set_firstBy [of key "[]" "map (projected w p) xs"] firstBy_subset [of key "[]" "map (projected w p) xs"]
      by (simp_all add: image_image)
    then have "set ?ys = projected w p ` set xs" using assms(3) True by (metis inj_on_image_eq_iff subset_refl)
    moreover have "distinct ?ys" using distinct_firstBy [of key "[]"] distinct_map by blast
    moreover have "projectResult w key p [] xs = ?ys" using True by (simp add: projectResult_def)
    ultimately show ?thesis using y True by metis
  next
    case False
    then have "projectResult w key p [] xs = map (projected w p) xs" by (simp add: projectResult_def)
    with y False show ?thesis by (metis list.set_map)
  qed
qed

definition exProject :: Project where
  "exProject = \<lparr>selectFields = [ConstExpr (IntField 1) IntType], outputNames = [''x''], isDistinct = True\<rparr>"

definition exOut :: Tuple where
  "exOut = \<lparr>Desc = \<lparr>Fields = [\<lparr>Fname = ''x'', TableQualifier = constString (IntField 1), Ftype = IntType\<rparr>]\<rparr>,
     TFields = [IntField 1], Rid = None\<rparr>"

lemma exProjected: "projectTuple exWorld exProject t = Ok exOut" "projected exWorld exProject t = exOut"
  by (simp_all add: projected_def projectTuple_def projectDescriptor_def evalOrNil_def GetExprType_def exProject_def exOut_def
      del: constString.simps)

theorem project_yields_witness:
  "\<exists>t. yields (projectNext exWorld TFields exProject (valueNext exWorld (NewValueOp exWorld exRows))) (0, []) [exOut] t"
proof -
  let ?xs = "[exTuple 7, exTuple 3, exTuple 7]"
  have h1: "\<forall>t \<in> set ?xs. \<exists>t'. projectTuple exWorld exProject t = Ok t'" by (simp add: exProjected)
  have h2: "isDistinct exProject \<longrightarrow> inj_on TFields (projected exWorld exProject ` set ?xs)" by (simp add: exProjected)
  obtain ys t where "yields (projectNext exWorld TFields exProject (valueNext exWorld (NewValueOp exWorld exRows))) (0, []) ys t"
      and s: "set ys = projected exWorld exProject ` set ?xs"
      and d: "if isDistinct exProject then distinct ys else ys = map (projected exWorld exProject) ?xs"
    using project_yields [OF exChild h1 h2] by blast
  moreover have "set ys = {exOut}" using s by (simp add: exProjected)
  moreover have "distinct ys" using d by (simp add: exProject_def)
  ultimately show ?thesis by (metis card_1_singleton_iff distinct_card length_Suc_conv length_0_conv list.set(1,2)
        singleton_insert_inj_eq One_nat_def)
qed

definition exField :: Expr where
  "exField = FieldExpr \<lparr>Fname = ''const'', TableQualifier = '''', Ftype = IntType\<rparr>"

lemma exField_value: "EvalExpr exWorld exField (Some (exTuple n)) = Ok (IntField n)"
  by (simp add: exField_def exTuple_def project_def findFieldInTd_def del: constString.simps)

theorem int_filter_yields_witness:
  "\<exists>f. NewIntFilter exWorld (ConstExpr (IntField 5) IntType) OpGt exField = Ok f \<and>
    yields (filterNext exWorld (\<lambda>_ _. False) f (valueNext exWorld (NewValueOp exWorld exRows))) 0 [exTuple 7, exTuple 7] 3"
proof -
  let ?c = "ConstExpr (IntField 5) IntType" and ?d = "Desc (exTuple 7)" and ?xs = "[exTuple 7, exTuple 3, exTuple 7]"
  obtain f where f: "NewIntFilter exWorld ?c OpGt exField = Ok f"
    by (simp add: NewIntFilter_def GetExprType_def exField_def)
  have ok: "exprOk exWorld ?d ?c" "exprOk exWorld ?d exField"
    by (simp_all add: exField_def exTuple_def findFieldInTd_def)
  have "\<forall>t \<in> set ?xs. tupleTyped ?d t \<and> evaluates exWorld ?c t \<and> evaluates exWorld exField t"
    by (simp add: tupleTyped_def evaluates_def exField_value) (simp add: exTuple_def)
  from int_filter_yields [OF f ok this exChild, of "\<lambda>_ _. False"] f show ?thesis
    by (simp add: exField_value evalPred_int64_def)
qed

end
