(* ===== verification/Joins.thy ===== *)
theory Joins
  imports Operators
begin

text \<open>
  \<^verbatim>\<open>join_op.go\<close>. The nested-loop join calls its two children on shared storage \<open>'d\<close> and
  opens the right child again for every left tuple, so the children are closures on the storage and a
  state of their own, and opening is an operation on the storage.
\<close>

section \<open>Join\<close>

record EqualityJoin =
  leftField :: Expr
  rightField :: Expr
  joinGetter :: getter
  maxBufferSize :: int

definition NewIntJoin :: "world \<Rightarrow> Expr \<Rightarrow> Expr \<Rightarrow> int \<Rightarrow> EqualityJoin result" where
  "NewIntJoin w l r bufSize =
     (if Ftype (GetExprType w l) \<noteq> Ftype (GetExprType w r) then Err (GoDBError TypeMismatchError)
      else case Ftype (GetExprType w l) of
        StringType \<Rightarrow> Err (GoDBError TypeMismatchError)
      | IntType \<Rightarrow> Ok \<lparr>leftField = l, rightField = r, joinGetter = intFilterGetter, maxBufferSize = bufSize\<rparr>
      | UnknownType \<Rightarrow> Err (GoDBError TypeMismatchError))"

definition NewStringJoin :: "world \<Rightarrow> Expr \<Rightarrow> Expr \<Rightarrow> int \<Rightarrow> EqualityJoin result" where
  "NewStringJoin w l r bufSize =
     (if Ftype (GetExprType w l) \<noteq> Ftype (GetExprType w r) then Err (GoDBError TypeMismatchError)
      else case Ftype (GetExprType w l) of
        StringType \<Rightarrow> Ok \<lparr>leftField = l, rightField = r, joinGetter = stringFilterGetter, maxBufferSize = bufSize\<rparr>
      | IntType \<Rightarrow> Err (GoDBError TypeMismatchError)
      | UnknownType \<Rightarrow> Err (GoDBError TypeMismatchError))"

definition joinDescriptor :: "TupleDesc \<Rightarrow> TupleDesc \<Rightarrow> TupleDesc" where
  "joinDescriptor l r = merge l r"

text \<open>
  \<open>op_open d\<close> is \<^verbatim>\<open>Iterator(tid)\<close> of a child on storage \<open>d\<close>: it may read from its own children. \<open>Ok None\<close> is
  a nil closure, and so is the closure of a call that returns an error, which the callers here drop;
  \<open>call\<close> is calling a closure that may be nil.
\<close>

type_synonym ('d, 's) opener = "'d \<Rightarrow> ('s option result \<times> 'd) option"

definition call :: "('d \<times> 's, 'a) iter \<Rightarrow> ('d \<times> 's option, 'a) iter" where
  "call nxt = (\<lambda>(d, so).
     (case so of
        None \<Rightarrow> Some (Panic NilDereference, d, None)
      | Some s \<Rightarrow> (case nxt (d, s) of
          None \<Rightarrow> None
        | Some (r, d', s') \<Rightarrow> Some (r, d', Some s'))))"

text \<open>The tuple of \<^verbatim>\<open>tuple, _ := ite()\<close>.\<close>

definition tupleOrNil :: "'a option result \<Rightarrow> 'a option result" where
  "tupleOrNil r = (case r of Ok t \<Rightarrow> Ok t | Err _ \<Rightarrow> Ok None | Panic x \<Rightarrow> Panic x)"

record ('l, 'r) joinState =
  leftTuple :: "Tuple option"
  leftIte :: "'l option"
  rightIte :: "'r option"

text \<open>\<^verbatim>\<open>ite, _ := op.Iterator(tid)\<close>\<close>

definition openOrNil :: "('d, 's) opener \<Rightarrow> 'd \<Rightarrow> ('s option result \<times> 'd) option" where
  "openOrNil op_open d =
     (case op_open d of
        None \<Rightarrow> None
      | Some (Ok s, d') \<Rightarrow> Some (Ok s, d')
      | Some (Err e, d') \<Rightarrow> Some (Ok None, d')
      | Some (Panic x, d') \<Rightarrow> Some (Panic x, d'))"

definition joinOpen ::
  "('d, 'l) opener \<Rightarrow> ('d \<times> 'l, Tuple) iter \<Rightarrow> ('d, 'r) opener \<Rightarrow> ('d, ('l, 'r) joinState) opener" where
  "joinOpen lopen lnext ropen d =
     (case openOrNil lopen d of
        None \<Rightarrow> None
      | Some (Err e, d1) \<Rightarrow> Some (Err e, d1)
      | Some (Panic x, d1) \<Rightarrow> Some (Panic x, d1)
      | Some (Ok ls, d1) \<Rightarrow> (case openOrNil ropen d1 of
          None \<Rightarrow> None
        | Some (Err e, d2) \<Rightarrow> Some (Err e, d2)
        | Some (Panic x, d2) \<Rightarrow> Some (Panic x, d2)
        | Some (Ok rs, d2) \<Rightarrow> (case call lnext (d2, ls) of
            None \<Rightarrow> None
          | Some (res, d3, ls') \<Rightarrow> (case tupleOrNil res of
              Ok None \<Rightarrow> Some (Ok None, d3)
            | Ok (Some lt) \<Rightarrow> Some (Ok (Some \<lparr>leftTuple = Some lt, leftIte = ls', rightIte = rs\<rparr>), d3)
            | Err e \<Rightarrow> Some (Err e, d3)
            | Panic x \<Rightarrow> Some (Panic x, d3)))))"

text \<open>
  The endless loop of the closure. A nil right tuple advances the left child and opens the right one
  again; only a right tuple while the left one is nil ends the loop.
\<close>

partial_function (option) joinNext ::
  "world \<Rightarrow> EqualityJoin \<Rightarrow> ('d \<times> 'l, Tuple) iter \<Rightarrow> ('d, 'r) opener \<Rightarrow> ('d \<times> 'r, Tuple) iter \<Rightarrow>
   'd \<times> ('l, 'r) joinState \<Rightarrow> (Tuple option result \<times> 'd \<times> ('l, 'r) joinState) option" where
  "joinNext w j lnext ropen rnext st =
     (case st of (d, js) \<Rightarrow>
      (case call rnext (d, rightIte js) of
         None \<Rightarrow> None
       | Some (res, d1, rs) \<Rightarrow>
         (case tupleOrNil res of
            Err e \<Rightarrow> Some (Err e, d1, js\<lparr>rightIte := rs\<rparr>)
          | Panic x \<Rightarrow> Some (Panic x, d1, js\<lparr>rightIte := rs\<rparr>)
          | Ok None \<Rightarrow>
              (case call lnext (d1, leftIte js) of
                 None \<Rightarrow> None
               | Some (lres, d2, ls) \<Rightarrow>
                 (case tupleOrNil lres of
                    Err e \<Rightarrow> Some (Err e, d2, js)
                  | Panic x \<Rightarrow> Some (Panic x, d2, js)
                  | Ok lt \<Rightarrow>
                      (case openOrNil ropen d2 of
                         None \<Rightarrow> None
                       | Some (Err e, d3) \<Rightarrow> Some (Err e, d3, js)
                       | Some (Panic x, d3) \<Rightarrow> Some (Panic x, d3, js)
                       | Some (Ok rs', d3) \<Rightarrow>
                           joinNext w j lnext ropen rnext (d3, \<lparr>leftTuple = lt, leftIte = ls, rightIte = rs'\<rparr>))))
          | Ok (Some rt) \<Rightarrow>
              (case evalOrNil w (rightField j) (Some rt) of
                 Err e \<Rightarrow> Some (Err e, d1, js\<lparr>rightIte := rs\<rparr>)
               | Panic x \<Rightarrow> Some (Panic x, d1, js\<lparr>rightIte := rs\<rparr>)
               | Ok rv \<Rightarrow>
                 (case leftTuple js of
                    None \<Rightarrow> Some (Ok None, d1, js\<lparr>rightIte := rs\<rparr>)
                  | Some lt \<Rightarrow>
                    (case evalOrNil w (leftField j) (Some lt) of
                       Err e \<Rightarrow> Some (Err e, d1, js\<lparr>rightIte := rs\<rparr>)
                     | Panic x \<Rightarrow> Some (Panic x, d1, js\<lparr>rightIte := rs\<rparr>)
                     | Ok lv \<Rightarrow>
                         if lv \<noteq> rv then joinNext w j lnext ropen rnext (d1, js\<lparr>rightIte := rs\<rparr>)
                         else (case joinTuples (Some lt) (Some rt) of
                             Ok t \<Rightarrow> Some (Ok (Some t), d1, js\<lparr>rightIte := rs\<rparr>)
                           | Err e \<Rightarrow> Some (Err e, d1, js\<lparr>rightIte := rs\<rparr>)
                           | Panic x \<Rightarrow> Some (Panic x, d1, js\<lparr>rightIte := rs\<rparr>))))))))"

section \<open>Children on shared storage\<close>

text \<open>
  The contract of an operator that shares its storage with others: \<open>I\<close> is an invariant of the storage and
  \<open>view\<close> what its results depend on. \<open>left v s ts\<close> says that in state \<open>s\<close> the tuples \<open>ts\<close> are left to return; a call
  returns the first of them and keeps the view, so that calls of other operators in between do not matter.
\<close>

locale stable_child =
  fixes I :: "'d \<Rightarrow> bool"
    and view :: "'d \<Rightarrow> 'v"
    and nxt :: "('d \<times> 's, Tuple) iter"
    and left :: "'v \<Rightarrow> 's \<Rightarrow> Tuple list \<Rightarrow> bool"
  assumes step: "I d \<Longrightarrow> left (view d) s ts \<Longrightarrow>
      \<exists>d' s'. nxt (d, s) = Some (Ok (case ts of [] \<Rightarrow> None | t # _ \<Rightarrow> Some t), d', s') \<and> I d' \<and> view d' = view d \<and> left (view d) s' (tl ts)"
begin

lemma child_yields:
  "I d \<Longrightarrow> left (view d) s ts \<Longrightarrow> \<exists>d' s'. yields nxt (d, s) ts (d', s') \<and> I d' \<and> view d' = view d \<and> left (view d) s' []"
proof (induction ts arbitrary: d s)
  case Nil
  then show ?case using step [of d s "[]"] by auto
next
  case (Cons t ts)
  then obtain d1 s1 where 1: "nxt (d, s) = Some (Ok (Some t), d1, s1)" "I d1" "view d1 = view d" "left (view d1) s1 ts"
    using step [of d s "t # ts"] by auto
  from Cons.IH [OF 1(2,4)] 1 show ?case by (auto simp: yields_Cons_iff)
qed

lemma call_step: "I d \<Longrightarrow> left (view d) s ts \<Longrightarrow>
    \<exists>d' s'. call nxt (d, Some s) = Some (Ok (case ts of [] \<Rightarrow> None | t # _ \<Rightarrow> Some t), d', Some s') \<and> I d' \<and> view d' = view d \<and> left (view d) s' (tl ts)"
  using step [of d s ts] by (auto simp: call_def)

end

text \<open>A child that can also be opened, with all its tuples to return.\<close>

locale stable_operator = stable_child +
  fixes op_open :: "('a, 'c) opener" and result :: "'b \<Rightarrow> Tuple list"
  assumes open_all: "I d \<Longrightarrow> \<exists>d' s. op_open d = Some (Ok (Some s), d') \<and> I d' \<and> view d' = view d \<and> left (view d) s (result (view d))"
begin

lemma openOrNil_all:
  "I d \<Longrightarrow> \<exists>d' s. openOrNil op_open d = Some (Ok (Some s), d') \<and> I d' \<and> view d' = view d \<and> left (view d) s (result (view d))"
  using open_all [of d] by (auto simp: openOrNil_def)

lemma at_view: "stable_operator (\<lambda>d. I d \<and> view d = v) view nxt left op_open result"
  using step open_all by unfold_locales fastforce+

lemma opens_and_yields:
  "I d \<Longrightarrow> \<exists>d1 s d2 s'. op_open d = Some (Ok (Some s), d1) \<and> yields nxt (d1, s) (result (view d)) (d2, s') \<and> I d2 \<and> view d2 = view d"
  using open_all [of d] child_yields by metis

end

section \<open>What the join yields\<close>

definition joins :: "world \<Rightarrow> EqualityJoin \<Rightarrow> Tuple \<Rightarrow> Tuple \<Rightarrow> bool" where
  "joins w j lt rt \<longleftrightarrow> EvalExpr w (leftField j) (Some lt) = EvalExpr w (rightField j) (Some rt)"

definition joined :: "Tuple \<Rightarrow> Tuple \<Rightarrow> Tuple" where
  "joined lt rt = \<lparr>Desc = merge (Desc lt) (Desc rt), TFields = TFields lt @ TFields rt, Rid = None\<rparr>"

definition joinResult :: "world \<Rightarrow> EqualityJoin \<Rightarrow> Tuple list \<Rightarrow> Tuple list \<Rightarrow> Tuple list" where
  "joinResult w j lts rts = concat (map (\<lambda>lt. map (joined lt) (filter (joins w j lt) rts)) lts)"

text \<open>
  The tuples that a join has left, in terms of those that its children have left: the matches of the current left tuple among
  the rest of the right child, and all the matches of the remaining left tuples. When the left child is over the state still changes
  from call to call.
\<close>

inductive pairsLeft :: "(Tuple \<Rightarrow> Tuple \<Rightarrow> bool) \<Rightarrow> ('l \<Rightarrow> Tuple list \<Rightarrow> bool) \<Rightarrow> ('r \<Rightarrow> Tuple list \<Rightarrow> bool) \<Rightarrow> Tuple list \<Rightarrow> Tuple list \<Rightarrow>
    ('l, 'r) joinState \<Rightarrow> Tuple list \<Rightarrow> bool" for match lleft rleft L R where
  pairing: "lleft l ls \<Longrightarrow> rleft r rs \<Longrightarrow> lt \<in> set L \<Longrightarrow> set ls \<subseteq> set L \<Longrightarrow> set rs \<subseteq> set R \<Longrightarrow>
    pairsLeft match lleft rleft L R \<lparr>leftTuple = Some lt, leftIte = Some l, rightIte = Some r\<rparr>
      (map (joined lt) (filter (match lt) rs) @ concat (map (\<lambda>lt. map (joined lt) (filter (match lt) R)) ls))"
| over: "lleft l [] \<Longrightarrow> rleft r rs \<Longrightarrow> set rs \<subseteq> set R \<Longrightarrow>
    pairsLeft match lleft rleft L R \<lparr>leftTuple = None, leftIte = Some l, rightIte = Some r\<rparr> []"

text \<open>Two operators on the same storage, as the join uses them.\<close>

locale join_inputs = l: stable_operator I view lnext lleft lopen lresult + r: stable_operator I view rnext rleft ropen rresult
  for I :: "'d \<Rightarrow> bool" and view :: "'d \<Rightarrow> 'v" and lnext :: "('d \<times> 'l, Tuple) iter" and lleft lopen lresult
    and rnext :: "('d \<times> 'r, Tuple) iter" and rleft ropen rresult
begin

text \<open>A call of the left child and the opening of the right child that follows it.\<close>

lemma left_then_open:
  assumes "I d" and "lleft (view d) l ls"
  shows "\<exists>d1 l' d2 r. call lnext (d, Some l) = Some (Ok (case ls of [] \<Rightarrow> None | t # _ \<Rightarrow> Some t), d1, Some l') \<and>
    openOrNil ropen d1 = Some (Ok (Some r), d2) \<and> I d2 \<and> view d2 = view d \<and> lleft (view d) l' (tl ls) \<and> rleft (view d) r (rresult (view d))"
proof -
  obtain d1 l' where 1: "call lnext (d, Some l) = Some (Ok (case ls of [] \<Rightarrow> None | t # _ \<Rightarrow> Some t), d1, Some l')"
    "I d1" "view d1 = view d" "lleft (view d) l' (tl ls)"
    using l.call_step [OF assms] by blast
  with r.openOrNil_all [OF 1(2)] show ?thesis by auto
qed

lemma joinNext_right_over:
  assumes "I d" and "rleft (view d) r []" and "lleft (view d) l ls"
  shows "\<exists>d' l' r'. joinNext w j lnext ropen rnext (d, \<lparr>leftTuple = lt, leftIte = Some l, rightIte = Some r\<rparr>) =
      joinNext w j lnext ropen rnext (d', \<lparr>leftTuple = (case ls of [] \<Rightarrow> None | t # _ \<Rightarrow> Some t), leftIte = Some l', rightIte = Some r'\<rparr>) \<and>
      I d' \<and> view d' = view d \<and> lleft (view d) l' (tl ls) \<and> rleft (view d) r' (rresult (view d))"
proof -
  obtain d1 r1 where 1: "call rnext (d, Some r) = Some (Ok None, d1, Some r1)" "I d1" "view d1 = view d"
    using r.call_step [OF assms(1,2)] by auto
  from left_then_open [OF 1(2), of l ls] 1(3) assms(3) obtain d2 l' d3 r' where
    "call lnext (d1, Some l) = Some (Ok (case ls of [] \<Rightarrow> None | t # _ \<Rightarrow> Some t), d2, Some l')"
    "openOrNil ropen d2 = Some (Ok (Some r'), d3)" "I d3" "view d3 = view d" "lleft (view d) l' (tl ls)" "rleft (view d) r' (rresult (view d))" by auto
  with 1(1) show ?thesis by (subst joinNext.simps) (auto simp: tupleOrNil_def)
qed

lemma joinNext_pair:
  assumes "I d" and "rleft (view d) r (rt # rts)" and "EvalExpr w (leftField j) (Some lt) = Ok lv" and "EvalExpr w (rightField j) (Some rt) = Ok rv"
  shows "\<exists>d' r'. I d' \<and> view d' = view d \<and> rleft (view d) r' rts \<and>
      joinNext w j lnext ropen rnext (d, \<lparr>leftTuple = Some lt, leftIte = Some l, rightIte = Some r\<rparr>) =
      (if lv = rv then Some (Ok (Some (joined lt rt)), d', \<lparr>leftTuple = Some lt, leftIte = Some l, rightIte = Some r'\<rparr>)
       else joinNext w j lnext ropen rnext (d', \<lparr>leftTuple = Some lt, leftIte = Some l, rightIte = Some r'\<rparr>))"
proof -
  obtain d1 r1 where "call rnext (d, Some r) = Some (Ok (Some rt), d1, Some r1)" "I d1" "view d1 = view d" "rleft (view d) r1 rts"
    using r.call_step [OF assms(1,2)] by auto
  then show ?thesis
    using assms(3,4) by (intro exI [of _ d1] exI [of _ r1], subst joinNext.simps) (auto simp: tupleOrNil_def evalOrNil_def joinTuples_def joined_def)
qed

lemma joinNext_left_over:
  assumes "I d" and "rleft (view d) r (rt # rts)" and "EvalExpr w (rightField j) (Some rt) = Ok rv"
  shows "\<exists>d' r'. joinNext w j lnext ropen rnext (d, \<lparr>leftTuple = None, leftIte = Some l, rightIte = Some r\<rparr>) =
      Some (Ok None, d', \<lparr>leftTuple = None, leftIte = Some l, rightIte = Some r'\<rparr>) \<and> I d' \<and> view d' = view d \<and> rleft (view d) r' rts"
proof -
  obtain d1 r1 where "call rnext (d, Some r) = Some (Ok (Some rt), d1, Some r1)" "I d1" "view d1 = view d" "rleft (view d) r1 rts"
    using r.call_step [OF assms(1,2)] by auto
  then show ?thesis using assms(3) by (subst joinNext.simps) (auto simp: tupleOrNil_def evalOrNil_def)
qed

text \<open>When the left child is over, so is the join.\<close>

lemma joinNext_over:
  assumes "I d" and "view d = v" and "lleft v l []" and "rleft v r rs" and "set rs \<subseteq> set (rresult v)" and "rresult v \<noteq> []"
    and "\<And>rt. rt \<in> set (rresult v) \<Longrightarrow> \<exists>rv. EvalExpr w (rightField j) (Some rt) = Ok rv"
  shows "\<exists>d' l' r' rs'. joinNext w j lnext ropen rnext (d, \<lparr>leftTuple = None, leftIte = Some l, rightIte = Some r\<rparr>) =
      Some (Ok None, d', \<lparr>leftTuple = None, leftIte = Some l', rightIte = Some r'\<rparr>) \<and> I d' \<and> view d' = v \<and>
      lleft v l' [] \<and> rleft v r' rs' \<and> set rs' \<subseteq> set (rresult v)"
proof (cases rs)
  case (Cons rt rts)
  then obtain rv where "EvalExpr w (rightField j) (Some rt) = Ok rv" using assms(5,7) by auto
  with joinNext_left_over [OF assms(1), where r = r and rt = rt and rts = rts and w = w and j = j and l = l] Cons assms(2-5) show ?thesis by fastforce
next
  case Nil
  from joinNext_right_over [OF assms(1), of r l "[]" w j None] Nil assms(2-4) obtain d1 l1 r1 where
    1: "joinNext w j lnext ropen rnext (d, \<lparr>leftTuple = None, leftIte = Some l, rightIte = Some r\<rparr>) =
      joinNext w j lnext ropen rnext (d1, \<lparr>leftTuple = None, leftIte = Some l1, rightIte = Some r1\<rparr>)"
    "I d1" "view d1 = v" "lleft v l1 []" "rleft v r1 (rresult v)" by auto
  obtain rt rts where rt: "rresult v = rt # rts" using assms(6) by (cases "rresult v") auto
  then obtain rv where "EvalExpr w (rightField j) (Some rt) = Ok rv" using assms(7) by auto
  with joinNext_left_over [OF 1(2), where r = r1 and rt = rt and rts = rts and w = w and j = j and l = l1] 1 rt show ?thesis by fastforce
qed

lemma joinNext_step:
  assumes rne: "rresult v \<noteq> []"
    and leval: "\<And>lt. lt \<in> set (lresult v) \<Longrightarrow> \<exists>lv. EvalExpr w (leftField j) (Some lt) = Ok lv"
    and reval: "\<And>rt. rt \<in> set (rresult v) \<Longrightarrow> \<exists>rv. EvalExpr w (rightField j) (Some rt) = Ok rv"
    and "I d" and "view d = v" and "pairsLeft (joins w j) (lleft v) (rleft v) (lresult v) (rresult v) js ys"
  shows "\<exists>d' js'. joinNext w j lnext ropen rnext (d, js) = Some (Ok (case ys of [] \<Rightarrow> None | y # _ \<Rightarrow> Some y), d', js') \<and> I d' \<and> view d' = v \<and>
    pairsLeft (joins w j) (lleft v) (rleft v) (lresult v) (rresult v) js' (tl ys)"
  using assms(6)
proof cases
  case (over l r rs)
  from joinNext_over [OF assms(4,5) over(3-5) rne, where w = w and j = j] reval over(1,2) show ?thesis
    by (fastforce intro: pairsLeft.over)
next
  case (pairing l ls r rs lt)
  let ?n = "joinNext w j lnext ropen rnext" and ?P = "pairsLeft (joins w j) (lleft v) (rleft v) (lresult v) (rresult v)"
  let ?rows = "\<lambda>lt rs ls. map (joined lt) (filter (joins w j lt) rs) @ concat (map (\<lambda>lt. map (joined lt) (filter (joins w j lt) (rresult v))) ls)"
  have "\<exists>d' js'. ?n (d, \<lparr>leftTuple = Some lt, leftIte = Some l, rightIte = Some r\<rparr>) =
      Some (Ok (case ?rows lt rs ls of [] \<Rightarrow> None | y # _ \<Rightarrow> Some y), d', js') \<and> I d' \<and> view d' = v \<and> ?P js' (tl (?rows lt rs ls))"
    using assms(4,5) pairing(3-7)
  proof (induction "(length ls, length rs)" arbitrary: d l r lt ls rs rule: wf_induct_rule [OF wf_lex_prod [OF wf_less_than wf_less_than]])
    case 1
    show ?case
    proof (cases rs)
      case (Cons rt rts)
      obtain lv rv where v: "EvalExpr w (leftField j) (Some lt) = Ok lv" "EvalExpr w (rightField j) (Some rt) = Ok rv"
        using leval reval 1(6,8) Cons by fastforce
      obtain d' r' where d': "I d'" "view d' = v" "rleft v r' rts"
        and n: "?n (d, \<lparr>leftTuple = Some lt, leftIte = Some l, rightIte = Some r\<rparr>) =
          (if lv = rv then Some (Ok (Some (joined lt rt)), d', \<lparr>leftTuple = Some lt, leftIte = Some l, rightIte = Some r'\<rparr>)
           else ?n (d', \<lparr>leftTuple = Some lt, leftIte = Some l, rightIte = Some r'\<rparr>))"
        using joinNext_pair [OF 1(2) _ v] Cons 1(3,5) by metis
      have "joins w j lt rt \<longleftrightarrow> lv = rv" using v by (simp add: joins_def)
      then show ?thesis
        using n d' Cons 1(1) [of ls rts d' l r' lt] 1(4,6-8) by (auto intro!: pairsLeft.pairing)
    next
      case Nil
      obtain d' l' r' where d': "I d'" "view d' = v" "lleft v l' (tl ls)" "rleft v r' (rresult v)"
        and n: "?n (d, \<lparr>leftTuple = Some lt, leftIte = Some l, rightIte = Some r\<rparr>) =
          ?n (d', \<lparr>leftTuple = (case ls of [] \<Rightarrow> None | t # _ \<Rightarrow> Some t), leftIte = Some l', rightIte = Some r'\<rparr>)"
        using joinNext_right_over [OF 1(2), of r l ls w j "Some lt"] Nil 1(3-5) by metis
      show ?thesis
      proof (cases ls)
        case Nil': Nil
        from joinNext_over [OF d'(1,2) _ d'(4) subset_refl rne reval, where l = l'] d'(3) Nil' n Nil show ?thesis
          by (fastforce intro: pairsLeft.over)
      next
        case Cons': (Cons lt' lts)
        then show ?thesis using 1(1) [of lts "rresult v" d' l' r' lt'] d' n Nil 1(7) by auto
      qed
    qed
  qed
  with pairing(1,2) show ?thesis by simp
qed

text \<open>Opening the join reads the first left tuple.\<close>

lemma joinOpen_spec:
  assumes "I d"
  shows "case lresult (view d) of
      [] \<Rightarrow> \<exists>d'. joinOpen lopen lnext ropen d = Some (Ok None, d') \<and> I d' \<and> view d' = view d
    | lt # lts \<Rightarrow> \<exists>d' l r. joinOpen lopen lnext ropen d = Some (Ok (Some \<lparr>leftTuple = Some lt, leftIte = Some l, rightIte = Some r\<rparr>), d') \<and>
        I d' \<and> view d' = view d \<and> lleft (view d) l lts \<and> rleft (view d) r (rresult (view d))"
proof -
  obtain d1 l where 1: "openOrNil lopen d = Some (Ok (Some l), d1)" "I d1" "view d1 = view d" "lleft (view d) l (lresult (view d))"
    using l.openOrNil_all [OF assms] by blast
  obtain d2 r where 2: "openOrNil ropen d1 = Some (Ok (Some r), d2)" "I d2" "view d2 = view d" "rleft (view d) r (rresult (view d))"
    using r.openOrNil_all [OF 1(2)] 1(3) by auto
  from l.call_step [OF 2(2), of l "lresult (view d)"] 1(1,4) 2(1,3,4) show ?thesis
    by (cases "lresult (view d)") (auto simp: joinOpen_def tupleOrNil_def)
qed

text \<open>A join of two operators that have tuples is such an operator again.\<close>

lemma join_stable:
  assumes "\<And>d. I d \<Longrightarrow> lresult (view d) \<noteq> []" and "\<And>d. I d \<Longrightarrow> rresult (view d) \<noteq> []"
    and "\<And>d lt. I d \<Longrightarrow> lt \<in> set (lresult (view d)) \<Longrightarrow> \<exists>v. EvalExpr w (leftField j) (Some lt) = Ok v"
    and "\<And>d rt. I d \<Longrightarrow> rt \<in> set (rresult (view d)) \<Longrightarrow> \<exists>v. EvalExpr w (rightField j) (Some rt) = Ok v"
  shows "stable_operator I view (joinNext w j lnext ropen rnext)
    (\<lambda>v. pairsLeft (joins w j) (lleft v) (rleft v) (lresult v) (rresult v)) (joinOpen lopen lnext ropen) (\<lambda>v. joinResult w j (lresult v) (rresult v))"
proof
  fix d js ys
  assume "I d" and "pairsLeft (joins w j) (lleft (view d)) (rleft (view d)) (lresult (view d)) (rresult (view d)) js ys"
  then show "\<exists>d' js'. joinNext w j lnext ropen rnext (d, js) = Some (Ok (case ys of [] \<Rightarrow> None | y # _ \<Rightarrow> Some y), d', js') \<and> I d' \<and> view d' = view d \<and>
      pairsLeft (joins w j) (lleft (view d)) (rleft (view d)) (lresult (view d)) (rresult (view d)) js' (tl ys)"
    using joinNext_step [of "view d" w j d] assms by blast
next
  fix d
  assume I: "I d"
  obtain lt lts where l: "lresult (view d) = lt # lts" using assms(1) [OF I] by (cases "lresult (view d)") auto
  with joinOpen_spec [OF I] obtain d' ls r where
    "joinOpen lopen lnext ropen d = Some (Ok (Some \<lparr>leftTuple = Some lt, leftIte = Some ls, rightIte = Some r\<rparr>), d')"
    "I d'" "view d' = view d" "lleft (view d) ls lts" "rleft (view d) r (rresult (view d))" by auto
  moreover from this have "pairsLeft (joins w j) (lleft (view d)) (rleft (view d)) (lresult (view d)) (rresult (view d))
      \<lparr>leftTuple = Some lt, leftIte = Some ls, rightIte = Some r\<rparr> (joinResult w j (lresult (view d)) (rresult (view d)))"
    using pairsLeft.pairing [of "lleft (view d)" ls lts "rleft (view d)" r "rresult (view d)" lt "lresult (view d)" "rresult (view d)" "joins w j"] l
    by (auto simp: joinResult_def)
  ultimately show "\<exists>d' s. joinOpen lopen lnext ropen d = Some (Ok (Some s), d') \<and> I d' \<and> view d' = view d \<and>
      pairsLeft (joins w j) (lleft (view d)) (rleft (view d)) (lresult (view d)) (rresult (view d)) s (joinResult w j (lresult (view d)) (rresult (view d)))"
    by blast
qed

text \<open>With nothing on the right the loop of the closure never ends.\<close>

lemma joinNext_diverges:
  assumes "I d" and "lleft (view d) l ls" and "rleft (view d) r []" and "rresult (view d) = []"
  shows "joinNext w j lnext ropen rnext (d, \<lparr>leftTuple = lt, leftIte = Some l, rightIte = Some r\<rparr>) = None"
proof (rule ccontr)
  let ?bad = "\<lambda>st. \<exists>d lt l r. st = (d, \<lparr>leftTuple = lt, leftIte = Some l, rightIte = Some r\<rparr>) \<and>
      I d \<and> (\<exists>ls. lleft (view d) l ls) \<and> rleft (view d) r [] \<and> rresult (view d) = []"
  assume "joinNext w j lnext ropen rnext (d, \<lparr>leftTuple = lt, leftIte = Some l, rightIte = Some r\<rparr>) \<noteq> None"
  then obtain y where y: "joinNext w j lnext ropen rnext (d, \<lparr>leftTuple = lt, leftIte = Some l, rightIte = Some r\<rparr>) = Some y" by blast
  have "(lnext, ropen, rnext) = (lnext, ropen, rnext) \<longrightarrow> \<not> ?bad (d, \<lparr>leftTuple = lt, leftIte = Some l, rightIte = Some r\<rparr>)"
  proof (rule joinNext.raw_induct [where P = "\<lambda>w j ln ro rn st y. (ln, ro, rn) = (lnext, ropen, rnext) \<longrightarrow> \<not> ?bad st", OF _ y])
    fix f w j ln ro rn st y
    assume IH: "\<And>w j ln ro rn st y. f w j ln ro rn st = Some y \<Longrightarrow> (ln, ro, rn) = (lnext, ropen, rnext) \<longrightarrow> \<not> ?bad st"
      and eq: "(case st of (d, js) \<Rightarrow>
      (case call rn (d, rightIte js) of
         None \<Rightarrow> None
       | Some (res, d1, rs) \<Rightarrow>
         (case tupleOrNil res of
            Ok None \<Rightarrow>
              (case call ln (d1, leftIte js) of
                 None \<Rightarrow> None
               | Some (lres, d2, ls) \<Rightarrow>
                 (case tupleOrNil lres of
                    Ok lt \<Rightarrow>
                      (case openOrNil ro d2 of
                         None \<Rightarrow> None
                       | Some (Ok rs', d3) \<Rightarrow> f w j ln ro rn (d3, \<lparr>leftTuple = lt, leftIte = ls, rightIte = rs'\<rparr>)
                       | Some (Err e, d3) \<Rightarrow> Some (Err e, d3, js)
                       | Some (Panic x, d3) \<Rightarrow> Some (Panic x, d3, js))
                  | Err e \<Rightarrow> Some (Err e, d2, js)
                  | Panic x \<Rightarrow> Some (Panic x, d2, js)))
          | Ok (Some rt) \<Rightarrow>
              (case evalOrNil w (rightField j) (Some rt) of
                 Ok rv \<Rightarrow>
                 (case leftTuple js of
                    None \<Rightarrow> Some (Ok None, d1, js\<lparr>rightIte := rs\<rparr>)
                  | Some lt \<Rightarrow>
                    (case evalOrNil w (leftField j) (Some lt) of
                       Ok lv \<Rightarrow>
                         if lv \<noteq> rv then f w j ln ro rn (d1, js\<lparr>rightIte := rs\<rparr>)
                         else (case joinTuples (Some lt) (Some rt) of
                             Ok t \<Rightarrow> Some (Ok (Some t), d1, js\<lparr>rightIte := rs\<rparr>)
                           | Err e \<Rightarrow> Some (Err e, d1, js\<lparr>rightIte := rs\<rparr>)
                           | Panic x \<Rightarrow> Some (Panic x, d1, js\<lparr>rightIte := rs\<rparr>))
                     | Err e \<Rightarrow> Some (Err e, d1, js\<lparr>rightIte := rs\<rparr>)
                     | Panic x \<Rightarrow> Some (Panic x, d1, js\<lparr>rightIte := rs\<rparr>)))
               | Err e \<Rightarrow> Some (Err e, d1, js\<lparr>rightIte := rs\<rparr>)
               | Panic x \<Rightarrow> Some (Panic x, d1, js\<lparr>rightIte := rs\<rparr>))
          | Err e \<Rightarrow> Some (Err e, d1, js\<lparr>rightIte := rs\<rparr>)
          | Panic x \<Rightarrow> Some (Panic x, d1, js\<lparr>rightIte := rs\<rparr>)))) = Some y"
    show "(ln, ro, rn) = (lnext, ropen, rnext) \<longrightarrow> \<not> ?bad st"
    proof (intro impI notI)
      assume same: "(ln, ro, rn) = (lnext, ropen, rnext)" and "?bad st"
      then obtain d lt l r ls where st: "st = (d, \<lparr>leftTuple = lt, leftIte = Some l, rightIte = Some r\<rparr>)"
        and d: "I d" "rleft (view d) r []" "rresult (view d) = []" "lleft (view d) l ls" by blast
      obtain d1 r1 where 1: "call rnext (d, Some r) = Some (Ok None, d1, Some r1)" "I d1" "view d1 = view d"
        using r.call_step [OF d(1,2)] by auto
      obtain d2 l' d3 r' lt' where 2: "call lnext (d1, Some l) = Some (Ok lt', d2, Some l')"
        "openOrNil ropen d2 = Some (Ok (Some r'), d3)" "I d3" "view d3 = view d" "lleft (view d) l' (tl ls)" "rleft (view d) r' []"
        using left_then_open [OF 1(2), of l ls] 1(3) d(3,4) by metis
      have "f w j ln ro rn (d3, \<lparr>leftTuple = lt', leftIte = Some l', rightIte = Some r'\<rparr>) = Some y"
        using eq same st 1(1) 2(1,2) by (simp add: tupleOrNil_def)
      with IH same 2(3-6) d(3) show False by metis
    qed
  qed
  with assms show False by blast
qed

end

end
