(* ===== verification/OrderBys.thy ===== *)
theory OrderBys
  imports Joins "HOL-Library.Multiset"
begin

text \<open>
  \<^verbatim>\<open>order_by_op.go\<close>: the operator reads its whole child when it is opened, sorts the tuples with \<^verbatim>\<open>sort.Sort\<close>
  by a list of less functions and returns them one by one. \<^verbatim>\<open>sort.Sort\<close> sorts up to 12 elements by insertion,
  which is modelled; what it does to longer slices is the argument \<open>big\<close>.
\<close>

section \<open>Sorting\<close>

text \<open>
  The insertion sort of package \<^verbatim>\<open>sort\<close>: the element at position \<open>j\<close> moves left while it is less than its left
  neighbour. The sorted part is kept in reverse, its last element first.
\<close>

fun moveLeft :: "('a \<Rightarrow> 'a \<Rightarrow> bool result) \<Rightarrow> 'a \<Rightarrow> 'a list \<Rightarrow> 'a list result" where
  "moveLeft lessf x [] = Ok [x]"
| "moveLeft lessf x (y # ys) =
     bind_go (lessf x y) (\<lambda>b.
       if b then bind_go (moveLeft lessf x ys) (\<lambda>zs. Ok (y # zs)) else Ok (x # y # ys))"

fun insertionLoop :: "('a \<Rightarrow> 'a \<Rightarrow> bool result) \<Rightarrow> 'a list \<Rightarrow> 'a list \<Rightarrow> 'a list result" where
  "insertionLoop lessf part [] = Ok (rev part)"
| "insertionLoop lessf part (x # xs) =
     bind_go (moveLeft lessf x part) (\<lambda>part'. insertionLoop lessf part' xs)"

definition insertionSort :: "('a \<Rightarrow> 'a \<Rightarrow> bool result) \<Rightarrow> 'a list \<Rightarrow> 'a list result" where
  "insertionSort lessf xs = insertionLoop lessf [] xs"

definition sort_Sort ::
  "(('a \<Rightarrow> 'a \<Rightarrow> bool result) \<Rightarrow> 'a list \<Rightarrow> 'a list result) \<Rightarrow> ('a \<Rightarrow> 'a \<Rightarrow> bool result) \<Rightarrow> 'a list \<Rightarrow> 'a list result" where
  "sort_Sort big lessf xs = (if length xs \<le> 12 then insertionSort lessf xs else big lessf xs)"

section \<open>The operator\<close>

record OrderBy =
  orderByExprs :: "Expr list"
  ascendings :: "bool list"

definition NewOrderBy :: "Expr list \<Rightarrow> bool list \<Rightarrow> OrderBy result" where
  "NewOrderBy orderByFields ascending =
     (if length ascending \<noteq> length orderByFields then Err (PlainError ''list ascending should be equal list orderByFields'')
      else Ok \<lparr>orderByExprs = orderByFields, ascendings = ascending\<rparr>)"

definition orderByDescriptor :: "TupleDesc \<Rightarrow> TupleDesc" where
  "orderByDescriptor childDesc = TupleDesc_copy childDesc"

type_synonym lessFunc = "Tuple \<Rightarrow> Tuple \<Rightarrow> bool result"

definition lessFuncAt :: "world \<Rightarrow> OrderBy \<Rightarrow> nat \<Rightarrow> Expr \<Rightarrow> lessFunc" where
  "lessFuncAt w ob idx expr p1 p2 =
     bind_go (compareField w p1 p2 expr) (\<lambda>(order, _).
       if idx < length (ascendings ob) then
         Ok (if ascendings ob ! idx then order = OrderedLessThan else order = OrderedGreaterThan)
       else Panic IndexOutOfRange)"

definition lessFuncs :: "world \<Rightarrow> OrderBy \<Rightarrow> lessFunc list" where
  "lessFuncs w ob = map (\<lambda>(idx, expr). lessFuncAt w ob idx expr) (enumerate 0 (orderByExprs ob))"

text \<open>\<^verbatim>\<open>multiSorter.Less\<close>: the first comparison that discriminates decides; with no less function at all the
  index \<^verbatim>\<open>ms.less[0]\<close> is out of range.\<close>

fun multiLess :: "lessFunc list \<Rightarrow> lessFunc" where
  "multiLess [] p q = Panic IndexOutOfRange"
| "multiLess [lessf] p q = lessf p q"
| "multiLess (lessf # ls) p q =
     bind_go (lessf p q) (\<lambda>b. if b then Ok True
       else bind_go (lessf q p) (\<lambda>c. if c then Ok False else multiLess ls p q))"

partial_function (option) collectLoop ::
  "('s, Tuple) iter \<Rightarrow> Tuple option result \<Rightarrow> Tuple list \<Rightarrow> 's \<Rightarrow> (Tuple list result \<times> 's) option" where
  "collectLoop ite tuple acc s =
     (case tupleOrNil tuple of
        Err e \<Rightarrow> Some (Err e, s)
      | Panic x \<Rightarrow> Some (Panic x, s)
      | Ok None \<Rightarrow> Some (Ok acc, s)
      | Ok (Some t) \<Rightarrow> (case ite s of
          None \<Rightarrow> None
        | Some (tuple', s') \<Rightarrow> collectLoop ite tuple' (acc @ [t]) s'))"

definition collect :: "('s, Tuple) iter \<Rightarrow> 's \<Rightarrow> (Tuple list result \<times> 's) option" where
  "collect ite s = (case ite s of None \<Rightarrow> None | Some (tuple, s') \<Rightarrow> collectLoop ite tuple [] s')"

text \<open>Opening: the sorted tuples are what the closure captures, with the counter 0.\<close>

definition orderByOpen ::
  "((Tuple \<Rightarrow> Tuple \<Rightarrow> bool result) \<Rightarrow> Tuple list \<Rightarrow> Tuple list result) \<Rightarrow> world \<Rightarrow> OrderBy \<Rightarrow> ('s, Tuple) iter \<Rightarrow>
   's \<Rightarrow> ((Tuple list \<times> nat) result \<times> 's) option" where
  "orderByOpen big w ob ite s =
     (case collect ite s of
        None \<Rightarrow> None
      | Some (Err e, s') \<Rightarrow> Some (Err e, s')
      | Some (Panic x, s') \<Rightarrow> Some (Panic x, s')
      | Some (Ok ts, s') \<Rightarrow> (case sort_Sort big (multiLess (lessFuncs w ob)) ts of
          Ok part \<Rightarrow> Some (Ok (part, 0), s')
        | Err e \<Rightarrow> Some (Err e, s')
        | Panic x \<Rightarrow> Some (Panic x, s')))"

definition sliceNext :: "(Tuple list \<times> nat, Tuple) iter" where
  "sliceNext = (\<lambda>(ts, counter).
     if counter < length ts then Some (Ok (Some (ts ! counter)), ts, Suc counter) else Some (Ok None, ts, counter))"

section \<open>Sorting by a strict weak order\<close>

definition strict_weak :: "'a set \<Rightarrow> ('a \<Rightarrow> 'a \<Rightarrow> bool) \<Rightarrow> bool" where
  "strict_weak A lt \<longleftrightarrow> (\<forall>x \<in> A. \<not> lt x x) \<and> (\<forall>x \<in> A. \<forall>y \<in> A. lt x y \<longrightarrow> \<not> lt y x) \<and>
     (\<forall>x \<in> A. \<forall>y \<in> A. \<forall>z \<in> A. \<not> lt x y \<longrightarrow> \<not> lt y z \<longrightarrow> \<not> lt x z)"

text \<open>
  What package \<^verbatim>\<open>sort\<close> documents: by a less function that returns on all elements and is a strict weak
  order on them, the result is an ascending rearrangement. Nothing is said of equal elements.
\<close>

locale sort_contract =
  fixes sort_by :: "('a \<Rightarrow> 'a \<Rightarrow> bool result) \<Rightarrow> 'a list \<Rightarrow> 'a list result"
  assumes sorts: "(\<And>x y. x \<in> set xs \<Longrightarrow> y \<in> set xs \<Longrightarrow> lessf x y = Ok (lt x y)) \<Longrightarrow> strict_weak (set xs) lt \<Longrightarrow>
    \<exists>ys. sort_by lessf xs = Ok ys \<and> mset ys = mset xs \<and> sorted_wrt (\<lambda>x y. \<not> lt y x) ys"
begin

lemma sort_ends: "(\<And>x y. x \<in> set xs \<Longrightarrow> y \<in> set xs \<Longrightarrow> lessf x y = Ok (lt x y)) \<Longrightarrow> strict_weak (set xs) lt \<Longrightarrow>
    sort_by lessf xs = Ok ys \<Longrightarrow> length ys = length xs"
  using sorts [of xs lessf lt] by (metis go_result.inject(1) size_mset)

end

lemma moveLeft_sorts:
  assumes "\<And>x y. x \<in> A \<Longrightarrow> y \<in> A \<Longrightarrow> lessf x y = Ok (lt x y)" and "strict_weak A lt"
    and "x \<in> A" and "set ys \<subseteq> A" and "sorted_wrt (\<lambda>x y. \<not> lt x y) ys"
  shows "\<exists>zs. moveLeft lessf x ys = Ok zs \<and> mset zs = add_mset x (mset ys) \<and> sorted_wrt (\<lambda>x y. \<not> lt x y) zs"
  using assms(4,5)
proof (induction ys)
  case Nil
  then show ?case by simp
next
  case (Cons y ys)
  then have y: "y \<in> A" "set ys \<subseteq> A" by auto
  show ?case
  proof (cases "lt x y")
    case True
    obtain zs where zs: "moveLeft lessf x ys = Ok zs" "mset zs = add_mset x (mset ys)" "sorted_wrt (\<lambda>x y. \<not> lt x y) zs"
      using Cons y by auto
    have "set zs = insert x (set ys)" using arg_cong [OF zs(2), of set_mset] by simp
    moreover have "\<not> lt y x" using True assms(2,3) y(1) unfolding strict_weak_def by blast
    ultimately have "sorted_wrt (\<lambda>x y. \<not> lt x y) (y # zs)" using zs(3) Cons.prems(2) by simp
    moreover have "moveLeft lessf x (y # ys) = Ok (y # zs)" using True zs(1) assms(1) [OF assms(3) y(1)] by simp
    moreover have "mset (y # zs) = add_mset x (mset (y # ys))" using zs(2) by simp
    ultimately show ?thesis by blast
  next
    case False
    have "\<not> lt x z" if "z \<in> set ys" for z
    proof -
      have "\<not> lt y z" "z \<in> A" using that Cons.prems(2) y(2) by auto
      with False assms(2,3) y(1) show ?thesis unfolding strict_weak_def by blast
    qed
    then have "sorted_wrt (\<lambda>x y. \<not> lt x y) (x # y # ys)" using False Cons.prems(2) by simp
    moreover have "moveLeft lessf x (y # ys) = Ok (x # y # ys)" using False assms(1) [OF assms(3) y(1)] by simp
    moreover have "mset (x # y # ys) = add_mset x (mset (y # ys))" by simp
    ultimately show ?thesis by blast
  qed
qed

lemma insertionLoop_sorts:
  assumes "\<And>x y. x \<in> A \<Longrightarrow> y \<in> A \<Longrightarrow> lessf x y = Ok (lt x y)" and "strict_weak A lt"
    and "set xs \<subseteq> A" and "set ss \<subseteq> A" and "sorted_wrt (\<lambda>x y. \<not> lt x y) ss"
  shows "\<exists>ys. insertionLoop lessf ss xs = Ok ys \<and> mset ys = mset ss + mset xs \<and> sorted_wrt (\<lambda>x y. \<not> lt y x) ys"
  using assms(3-5)
proof (induction xs arbitrary: ss)
  case Nil
  then show ?case by (simp add: sorted_wrt_rev)
next
  case (Cons x xs)
  then have x: "x \<in> A" "set xs \<subseteq> A" by auto
  obtain zs where zs: "moveLeft lessf x ss = Ok zs" "mset zs = add_mset x (mset ss)" "sorted_wrt (\<lambda>x y. \<not> lt x y) zs"
    using moveLeft_sorts [of A lessf lt, OF assms(1,2) x(1) Cons.prems(2,3)] by auto
  have "set zs \<subseteq> A" using arg_cong [OF zs(2), of set_mset] x(1) Cons.prems(2) by simp
  with Cons.IH [OF x(2) this zs(3)] zs show ?case by auto
qed

interpretation go_insertion: sort_contract insertionSort
proof
  fix xs :: "'a list" and lessf :: "'a \<Rightarrow> 'a \<Rightarrow> bool result" and lt
  assume "\<And>x y. x \<in> set xs \<Longrightarrow> y \<in> set xs \<Longrightarrow> lessf x y = Ok (lt x y)" and "strict_weak (set xs) lt"
  from insertionLoop_sorts [of "set xs" lessf lt xs "[]", OF this]
  show "\<exists>ys. insertionSort lessf xs = Ok ys \<and> mset ys = mset xs \<and> sorted_wrt (\<lambda>x y. \<not> lt y x) ys"
    by (simp add: insertionSort_def)
qed

section \<open>The order of the rows\<close>

definition keyValue :: "world \<Rightarrow> Expr \<Rightarrow> Tuple \<Rightarrow> DBValue" where
  "keyValue w e t = (case EvalExpr w e (Some t) of Ok v \<Rightarrow> v | _ \<Rightarrow> NilValue)"

definition keyLess :: "bool \<Rightarrow> DBValue \<Rightarrow> DBValue \<Rightarrow> bool" where
  "keyLess asc a b = (if asc then valueLess a b else valueLess b a)"

text \<open>What \<^verbatim>\<open>ORDER BY e ASC, e' DESC, ...\<close> means: the first key on which two rows differ decides.\<close>

fun rowBefore :: "world \<Rightarrow> (Expr \<times> bool) list \<Rightarrow> Tuple \<Rightarrow> Tuple \<Rightarrow> bool" where
  "rowBefore w [] p q = False"
| "rowBefore w ((e, asc) # ks) p q =
     (keyLess asc (keyValue w e p) (keyValue w e q) \<or> keyValue w e p = keyValue w e q \<and> rowBefore w ks p q)"

text \<open>Tuples on which every key evaluates to a value of one type.\<close>

definition sortable :: "world \<Rightarrow> Expr list \<Rightarrow> Tuple set \<Rightarrow> bool" where
  "sortable w es A \<longleftrightarrow> (\<forall>e \<in> set es. \<exists>ty. ty \<noteq> UnknownType \<and>
     (\<forall>t \<in> A. \<exists>v. EvalExpr w e (Some t) = Ok v \<and> hasType ty v))"

lemma keyLess_order:
  assumes "hasType ty a" and "hasType ty b" and "hasType ty c" and "ty \<noteq> UnknownType"
  shows "\<not> keyLess asc a a" and "keyLess asc a b \<Longrightarrow> \<not> keyLess asc b a" and "keyLess asc a b \<or> a = b \<or> keyLess asc b a"
    and "keyLess asc a b \<Longrightarrow> keyLess asc b c \<Longrightarrow> keyLess asc a c"
proof -
  show irr: "\<not> keyLess asc a a" using compareValues_typed(4) [OF assms(1,1,4)] by (simp add: keyLess_def)
  show tr: "keyLess asc a b \<Longrightarrow> keyLess asc b c \<Longrightarrow> keyLess asc a c"
    using valueLess_trans(1) [OF assms] valueLess_trans(1) [OF assms(3,2,1,4)] by (auto simp: keyLess_def split: if_splits)
  show "keyLess asc a b \<Longrightarrow> \<not> keyLess asc b a"
    using valueLess_trans(1) [OF assms(1,2,1,4)] compareValues_typed(4) [OF assms(1,1,4)] valueLess_trans(1) [OF assms(2,1,2,4)]
      compareValues_typed(4) [OF assms(2,2,4)] by (auto simp: keyLess_def split: if_splits)
  show "keyLess asc a b \<or> a = b \<or> keyLess asc b a"
    using compareValues_typed(2,3) [OF assms(1,2,4)] by (cases "orderOf a b") (auto simp: keyLess_def valueLess_def)
qed

lemma sortable_value:
  assumes "sortable w es A" and "e \<in> set es"
  shows "\<exists>ty. ty \<noteq> UnknownType \<and> (\<forall>t \<in> A. EvalExpr w e (Some t) = Ok (keyValue w e t) \<and> hasType ty (keyValue w e t))"
proof -
  obtain ty where "ty \<noteq> UnknownType" and "\<forall>t \<in> A. \<exists>v. EvalExpr w e (Some t) = Ok v \<and> hasType ty v"
    using assms unfolding sortable_def by blast
  then show ?thesis by (intro exI [of _ ty]) (force simp: keyValue_def)
qed

lemma rowBefore_weak: "sortable w (map fst ks) A \<Longrightarrow> strict_weak A (rowBefore w ks)"
proof (induction ks)
  case Nil
  then show ?case by (simp add: strict_weak_def)
next
  case (Cons k ks)
  obtain e asc where k: "k = (e, asc)" by (cases k)
  have "sortable w (map fst ks) A" using Cons.prems by (simp add: sortable_def)
  note IH = Cons.IH [OF this, unfolded strict_weak_def]
  obtain ty where ty: "ty \<noteq> UnknownType" "\<And>t. t \<in> A \<Longrightarrow> hasType ty (keyValue w e t)"
    using sortable_value [OF Cons.prems, of e] by (auto simp: k)
  let ?K = "\<lambda>x y. keyLess asc (keyValue w e x) (keyValue w e y)" and ?E = "\<lambda>x y. keyValue w e x = keyValue w e y"
  have ord: "\<not> ?K x x" "?K x y \<Longrightarrow> \<not> ?K y x" "?K x y \<or> ?E x y \<or> ?K y x" "?K x y \<Longrightarrow> ?K y z \<Longrightarrow> ?K x z"
    if "x \<in> A" "y \<in> A" "z \<in> A" for x y z
    by (fact keyLess_order [OF ty(2) [OF that(1)] ty(2) [OF that(2)] ty(2) [OF that(3)] ty(1)])+
  have row: "rowBefore w (k # ks) x y \<longleftrightarrow> ?K x y \<or> ?E x y \<and> rowBefore w ks x y" for x y by (simp add: k)
  show ?case
    unfolding strict_weak_def row
  proof (intro conjI ballI impI)
    show "\<not> (?K x x \<or> ?E x x \<and> rowBefore w ks x x)" if "x \<in> A" for x using ord(1) [OF that that that] IH that by blast
    show "\<not> (?K y x \<or> ?E y x \<and> rowBefore w ks y x)" if "x \<in> A" "y \<in> A" "?K x y \<or> ?E x y \<and> rowBefore w ks x y" for x y
      using ord(1,2) [OF that(1,2,2)] IH that by metis
    fix x y z
    assume A: "x \<in> A" "y \<in> A" "z \<in> A" and n: "\<not> (?K x y \<or> ?E x y \<and> rowBefore w ks x y)" "\<not> (?K y z \<or> ?E y z \<and> rowBefore w ks y z)"
    have 1: "?K y x \<or> ?E x y \<and> \<not> rowBefore w ks x y" using n(1) ord(3) [OF A] by blast
    have 2: "?K z y \<or> ?E y z \<and> \<not> rowBefore w ks y z" using n(2) ord(3) [OF A(2,3,3)] by blast
    have 3: "?K z x \<or> ?E x z \<and> \<not> rowBefore w ks x z"
      using 1 2 ord(4) [OF A(3,2,1)] IH A by metis
    show "\<not> (?K x z \<or> ?E x z \<and> rowBefore w ks x z)" using 3 ord(2) [OF A(3,1,1)] ord(1) [OF A(3,1,1)] by metis
  qed
qed

lemma multiLess_rowBefore:
  assumes "list_all2 (\<lambda>f (e, asc). \<forall>p \<in> A. \<forall>q \<in> A. f p q = Ok (keyLess asc (keyValue w e p) (keyValue w e q))) fs ks"
    and "fs \<noteq> []" and "sortable w (map fst ks) A" and A: "p \<in> A" "q \<in> A"
  shows "multiLess fs p q = Ok (rowBefore w ks p q)"
  using assms(1-3)
proof (induction fs arbitrary: ks)
  case (Cons f fs)
  then obtain e asc ks' where ks: "ks = (e, asc) # ks'" and f: "\<forall>p \<in> A. \<forall>q \<in> A. f p q = Ok (keyLess asc (keyValue w e p) (keyValue w e q))"
    and rest: "list_all2 (\<lambda>f (e, asc). \<forall>p \<in> A. \<forall>q \<in> A. f p q = Ok (keyLess asc (keyValue w e p) (keyValue w e q))) fs ks'"
    by (cases ks) auto
  obtain ty where ty: "ty \<noteq> UnknownType" "\<And>t. t \<in> A \<Longrightarrow> hasType ty (keyValue w e t)"
    using sortable_value [OF Cons.prems(3), of e] by (auto simp: ks)
  note ord = keyLess_order [OF ty(2) [OF A(1)] ty(2) [OF A(2)] ty(2) [OF A(2)] ty(1), of asc]
    and irr = keyLess_order(1) [OF ty(2) [OF A(1)] ty(2) [OF A(1)] ty(2) [OF A(1)] ty(1), of asc]
  show ?case
  proof (cases fs)
    case Nil
    then show ?thesis using rest f A ks by simp
  next
    case Cons': (Cons g gs)
    have rec: "multiLess fs p q = Ok (rowBefore w ks' p q)"
      using Cons.IH [OF rest] Cons' Cons.prems(3) ks by (simp add: sortable_def)
    have "multiLess (f # fs) p q = bind_go (f p q) (\<lambda>b. if b then Ok True
       else bind_go (f q p) (\<lambda>c. if c then Ok False else multiLess fs p q))" by (simp only: Cons' multiLess.simps)
    then show ?thesis using f A ks rec ord(2,3) irr by auto
  qed
qed simp

lemma compareField_keyLess:
  assumes "sortable w es A" and "e \<in> set es" and A: "p \<in> A" "q \<in> A" and "idx < length (ascendings ob)"
  shows "lessFuncAt w ob idx e p q = Ok (keyLess (ascendings ob ! idx) (keyValue w e p) (keyValue w e q))"
proof -
  obtain ty where ty: "ty \<noteq> UnknownType" and v: "\<forall>t \<in> A. EvalExpr w e (Some t) = Ok (keyValue w e t) \<and> hasType ty (keyValue w e t)"
    using sortable_value [OF assms(1,2)] by blast
  have h: "hasType ty (keyValue w e p)" "hasType ty (keyValue w e q)" and e: "EvalExpr w e (Some p) = Ok (keyValue w e p)"
    "EvalExpr w e (Some q) = Ok (keyValue w e q)" using v A by auto
  note c = compareValues_typed [OF h ty]
  show ?thesis using c(1,3) e assms(5) by (simp add: lessFuncAt_def compareField_def keyLess_def valueLess_def)
qed

lemma multiLess_lessFuncs:
  assumes "length (ascendings ob) = length (orderByExprs ob)" and "orderByExprs ob \<noteq> []" and "sortable w (orderByExprs ob) A"
    and A: "p \<in> A" "q \<in> A"
  shows "multiLess (lessFuncs w ob) p q = Ok (rowBefore w (zip (orderByExprs ob) (ascendings ob)) p q)"
proof (rule multiLess_rowBefore [where A = A])
  show "list_all2 (\<lambda>f (e, asc). \<forall>p \<in> A. \<forall>q \<in> A. f p q = Ok (keyLess asc (keyValue w e p) (keyValue w e q)))
      (lessFuncs w ob) (zip (orderByExprs ob) (ascendings ob))"
    using assms(1) compareField_keyLess [OF assms(3)]
    by (auto simp: list_all2_conv_all_nth lessFuncs_def nth_enumerate_eq)
  show "lessFuncs w ob \<noteq> []" using assms(2) by (simp add: lessFuncs_def enumerate_eq_zip)
qed (use assms in simp_all)

section \<open>What the operator yields\<close>

lemma collectLoop_yields:
  "yields ite s xs s' \<Longrightarrow> collectLoop ite (Ok (Some t)) acc s = Some (Ok (acc @ t # xs), s')"
proof (induction arbitrary: t acc rule: yields.induct)
  case (yields_Nil s s')
  then show ?case by (simp add: collectLoop.simps [of ite "Ok (Some t)"] collectLoop.simps [of ite "Ok None"] tupleOrNil_def)
next
  case (yields_Cons s x s' xs s'')
  then show ?case by (simp add: collectLoop.simps [of ite "Ok (Some t)"] tupleOrNil_def)
qed

lemma collect_yields: "yields ite s xs s' \<Longrightarrow> collect ite s = Some (Ok xs, s')"
  by (cases rule: yields.cases)
    (auto simp: collect_def collectLoop_yields collectLoop.simps [of ite "Ok None"] tupleOrNil_def)

lemma sliceNext_yields: "i \<le> length ts \<Longrightarrow> yields sliceNext (ts, i) (drop i ts) (ts, length ts)"
proof (induction "length ts - i" arbitrary: i)
  case 0
  then show ?case by (simp add: sliceNext_def)
next
  case (Suc n)
  then have i: "i < length ts" by simp
  then have "yields sliceNext (ts, Suc i) (drop (Suc i) ts) (ts, length ts)" using Suc by auto
  then show ?case using i by (auto simp: Cons_nth_drop_Suc [symmetric] yields_Cons_iff sliceNext_def)
qed

lemma sort_Sort_contract:
  fixes big :: "('a \<Rightarrow> 'a \<Rightarrow> bool result) \<Rightarrow> 'a list \<Rightarrow> 'a list result"
  shows "sort_contract big \<Longrightarrow> sort_contract (sort_Sort big)"
proof (rule sort_contract.intro)
  fix xs :: "'a list" and lessf :: "'a \<Rightarrow> 'a \<Rightarrow> bool result" and lt
  assume big: "sort_contract big" and h: "\<And>x y. x \<in> set xs \<Longrightarrow> y \<in> set xs \<Longrightarrow> lessf x y = Ok (lt x y)" "strict_weak (set xs) lt"
  show "\<exists>ys. sort_Sort big lessf xs = Ok ys \<and> mset ys = mset xs \<and> sorted_wrt (\<lambda>x y. \<not> lt y x) ys"
    using sort_contract.sorts [OF big h] go_insertion.sorts [OF h] by (simp add: sort_Sort_def)
qed

text \<open>
  C34: \<^verbatim>\<open>ORDER BY\<close> with at least one key, on tuples on which the keys evaluate, reads its child to the end and
  yields the same tuples, each as often as the child did, in an order in which no tuple comes before another that
  precedes it by the keys, ascending or descending as asked, and ends. (Sorting more than twelve tuples
  relies on what package \<^verbatim>\<open>sort\<close> documents.)
\<close>

theorem order_by_yields:
  assumes "NewOrderBy es ascs = Ok ob" and "es \<noteq> []" and "sortable w es (set xs)" and "yields ite s xs s'"
    and "sort_contract big"
  shows "\<exists>ys. orderByOpen big w ob ite s = Some (Ok (ys, 0), s') \<and> mset ys = mset xs \<and>
    sorted_wrt (\<lambda>p q. \<not> rowBefore w (zip es ascs) q p) ys \<and> yields sliceNext (ys, 0) ys (ys, length ys)"
proof -
  have ob: "orderByExprs ob = es" "ascendings ob = ascs" "length ascs = length es"
    using assms(1) by (auto simp: NewOrderBy_def split: if_splits)
  let ?lt = "rowBefore w (zip es ascs)"
  have weak: "strict_weak (set xs) ?lt" using rowBefore_weak [of w "zip es ascs" "set xs"] assms(3) ob(3) by simp
  have total: "multiLess (lessFuncs w ob) p q = Ok (?lt p q)" if "p \<in> set xs" "q \<in> set xs" for p q
    using multiLess_lessFuncs [of ob w "set xs" p q] ob assms(2,3) that by simp
  obtain ys where "sort_Sort big (multiLess (lessFuncs w ob)) xs = Ok ys" "mset ys = mset xs" "sorted_wrt (\<lambda>p q. \<not> ?lt q p) ys"
    using sort_contract.sorts [OF sort_Sort_contract [OF assms(5)] total weak] by blast
  moreover have "yields sliceNext (ys, 0) ys (ys, length ys)" using sliceNext_yields [of 0 ys] by simp
  ultimately show ?thesis using collect_yields [OF assms(4)] by (simp add: orderByOpen_def)
qed

theorem order_by_yields_witness:
  "\<exists>ob ys. NewOrderBy [exField] [True] = Ok ob \<and>
     orderByOpen insertionSort exWorld ob (valueNext exWorld (NewValueOp exWorld exRows)) 0 = Some (Ok (ys, 0), 3) \<and>
     mset ys = {#exTuple 7, exTuple 3, exTuple 7#}"
proof -
  obtain ob where ob: "NewOrderBy [exField] [True] = Ok ob" by (simp add: NewOrderBy_def)
  have "sortable exWorld [exField] (set [exTuple 7, exTuple 3, exTuple 7])"
    by (auto simp: sortable_def exField_value intro!: exI [of _ IntType])
  from order_by_yields [OF ob _ this exChild go_insertion.sort_contract_axioms] ob show ?thesis by auto
qed

end
