(* ===== verification/AggStates.thy ===== *)
theory AggStates
  imports Operators
begin

text \<open>
  \<^verbatim>\<open>agg_state.go\<close>: the aggregation states behind the interface \<^verbatim>\<open>AggState\<close>. The generic states are modelled at the
  types the planner uses: \<^verbatim>\<open>SumAggState[int64]\<close> and \<^verbatim>\<open>AvgAggState[int64]\<close> on 64-bit words, \<^verbatim>\<open>MaxAggState\<close> and
  \<^verbatim>\<open>MinAggState\<close> at \<^verbatim>\<open>int64\<close> and at \<^verbatim>\<open>string\<close>, where the value they hold tells which. A
  method that mutates its receiver returns the new state. The last sections say what each state computes.
\<close>

section \<open>Getters\<close>

text \<open>The last one is the nil function, which the planner leaves for an expression of an unknown type.\<close>

datatype aggGetter = intAggGetter | stringAggGetter | nilAggGetter

fun aggGet :: "aggGetter \<Rightarrow> DBValue \<Rightarrow> goAny result" where
  "aggGet intAggGetter (IntField v) = Ok (AnyInt v)"
| "aggGet stringAggGetter (StringField v) = Ok (AnyString v)"
| "aggGet nilAggGetter _ = Panic NilDereference"
| "aggGet _ _ = Panic TypeAssertion"

text \<open>The type assertion \<^verbatim>\<open>.(int64)\<close>.\<close>

fun asInt64 :: "goAny \<Rightarrow> int64 result" where
  "asInt64 (AnyInt v) = Ok v"
| "asInt64 (AnyString s) = Panic TypeAssertion"

definition intColumn :: "string \<Rightarrow> TupleDesc" where
  "intColumn alias = \<lparr>Fields = [\<lparr>Fname = alias, TableQualifier = '''', Ftype = IntType\<rparr>]\<rparr>"

definition stringColumn :: "string \<Rightarrow> TupleDesc" where
  "stringColumn alias = \<lparr>Fields = [\<lparr>Fname = alias, TableQualifier = '''', Ftype = StringType\<rparr>]\<rparr>"

section \<open>COUNT\<close>

record CountAggState =
  countAlias :: string
  countExpr :: Expr
  countCount :: int64

definition Count_Copy :: "CountAggState \<Rightarrow> CountAggState" where
  "Count_Copy a = \<lparr>countAlias = countAlias a, countExpr = countExpr a, countCount = countCount a\<rparr>"

definition Count_Init :: "string \<Rightarrow> Expr \<Rightarrow> CountAggState \<Rightarrow> CountAggState" where
  "Count_Init alias expr a = a\<lparr>countCount := 0, countExpr := expr, countAlias := alias\<rparr>"

definition Count_AddTuple :: "Tuple \<Rightarrow> CountAggState \<Rightarrow> CountAggState" where
  "Count_AddTuple t a = a\<lparr>countCount := countCount a + 1\<rparr>"

definition Count_GetTupleDesc :: "CountAggState \<Rightarrow> TupleDesc" where
  "Count_GetTupleDesc a = intColumn (countAlias a)"

definition Count_Finalize :: "CountAggState \<Rightarrow> Tuple" where
  "Count_Finalize a = \<lparr>Desc = Count_GetTupleDesc a, TFields = [IntField (countCount a)], Rid = None\<rparr>"

section \<open>SUM\<close>

record SumAggState =
  sumAlias :: string
  sumExpr :: Expr
  sumSum :: int64
  sumGetter :: aggGetter

definition Sum_Copy :: "SumAggState \<Rightarrow> SumAggState" where
  "Sum_Copy a = \<lparr>sumAlias = sumAlias a, sumExpr = sumExpr a, sumSum = sumSum a, sumGetter = sumGetter a\<rparr>"

definition Sum_Init :: "string \<Rightarrow> Expr \<Rightarrow> aggGetter \<Rightarrow> SumAggState \<Rightarrow> SumAggState" where
  "Sum_Init alias expr g a = a\<lparr>sumAlias := alias, sumExpr := expr, sumSum := 0, sumGetter := g\<rparr>"

definition Sum_AddTuple :: "world \<Rightarrow> Tuple \<Rightarrow> SumAggState \<Rightarrow> SumAggState result" where
  "Sum_AddTuple w t a =
     bind_go (evalOrNil w (sumExpr a) (Some t)) (\<lambda>val.
     bind_go (aggGet (sumGetter a) val) (\<lambda>x.
     bind_go (asInt64 x) (\<lambda>n. Ok (a\<lparr>sumSum := sumSum a + n\<rparr>))))"

definition Sum_GetTupleDesc :: "SumAggState \<Rightarrow> TupleDesc" where
  "Sum_GetTupleDesc a = intColumn (sumAlias a)"

definition Sum_Finalize :: "SumAggState \<Rightarrow> Tuple" where
  "Sum_Finalize a = \<lparr>Desc = Sum_GetTupleDesc a, TFields = [IntField (sumSum a)], Rid = None\<rparr>"

section \<open>AVG\<close>

record AvgAggState =
  avgAlias :: string
  avgExpr :: Expr
  avgSum :: int64
  avgCount :: int64
  avgAvg :: int64
  avgGetter :: aggGetter

definition Avg_Copy :: "AvgAggState \<Rightarrow> AvgAggState" where
  "Avg_Copy a = \<lparr>avgAlias = avgAlias a, avgExpr = avgExpr a, avgSum = avgSum a, avgCount = avgCount a,
     avgAvg = avgAvg a, avgGetter = avgGetter a\<rparr>"

definition Avg_Init :: "string \<Rightarrow> Expr \<Rightarrow> aggGetter \<Rightarrow> AvgAggState \<Rightarrow> AvgAggState" where
  "Avg_Init alias expr g a =
     a\<lparr>avgAlias := alias, avgExpr := expr, avgSum := 0, avgCount := 0, avgAvg := 0, avgGetter := g\<rparr>"

definition Avg_AddTuple :: "world \<Rightarrow> Tuple \<Rightarrow> AvgAggState \<Rightarrow> AvgAggState result" where
  "Avg_AddTuple w t a =
     bind_go (evalOrNil w (avgExpr a) (Some t)) (\<lambda>val.
     bind_go (aggGet (avgGetter a) val) (\<lambda>x.
     bind_go (asInt64 x) (\<lambda>n. Ok (a\<lparr>avgSum := avgSum a + n, avgCount := avgCount a + 1\<rparr>))))"

definition Avg_GetTupleDesc :: "AvgAggState \<Rightarrow> TupleDesc" where
  "Avg_GetTupleDesc a = intColumn (avgAlias a)"

definition Avg_Finalize :: "AvgAggState \<Rightarrow> Tuple result" where
  "Avg_Finalize a =
     (if avgCount a = 0 then Panic DivideByZero
      else Ok \<lparr>Desc = Avg_GetTupleDesc a, TFields = [IntField (word_of_int (sint (avgSum a) sdiv sint (avgCount a)))], Rid = None\<rparr>)"

section \<open>MAX and MIN\<close>

text \<open>\<^verbatim>\<open>val > a.max\<close> at the type of the state; the assertion \<^verbatim>\<open>.(T)\<close> fails on a value of the other type.\<close>

fun anyGreater :: "goAny \<Rightarrow> goAny \<Rightarrow> bool result" where
  "anyGreater (AnyInt a) (AnyInt b) = Ok (sint a > sint b)"
| "anyGreater (AnyString a) (AnyString b) = Ok (a > b)"
| "anyGreater _ _ = Panic TypeAssertion"

fun anyColumn :: "string \<Rightarrow> goAny \<Rightarrow> TupleDesc" where
  "anyColumn alias (AnyString s) = stringColumn alias"
| "anyColumn alias (AnyInt v) = intColumn alias"

fun anyField :: "goAny \<Rightarrow> DBValue" where
  "anyField (AnyString s) = StringField s"
| "anyField (AnyInt v) = IntField v"

record MaxAggState =
  maxAlias :: string
  maxExpr :: Expr
  maxMax :: goAny
  maxNull :: bool
  maxGetter :: aggGetter

definition Max_Copy :: "MaxAggState \<Rightarrow> MaxAggState" where
  "Max_Copy a = \<lparr>maxAlias = maxAlias a, maxExpr = maxExpr a, maxMax = maxMax a, maxNull = True, maxGetter = maxGetter a\<rparr>"

definition Max_Init :: "string \<Rightarrow> Expr \<Rightarrow> aggGetter \<Rightarrow> MaxAggState \<Rightarrow> MaxAggState" where
  "Max_Init alias expr g a = a\<lparr>maxExpr := expr, maxGetter := g, maxAlias := alias\<rparr>"

definition Max_AddTuple :: "world \<Rightarrow> Tuple \<Rightarrow> MaxAggState \<Rightarrow> MaxAggState result" where
  "Max_AddTuple w t a =
     (case EvalExpr w (maxExpr a) (Some t) of
        Panic x \<Rightarrow> Panic x
      | Err e \<Rightarrow> Ok a
      | Ok v \<Rightarrow>
          bind_go (aggGet (maxGetter a) v) (\<lambda>val.
          bind_go (anyGreater val (maxMax a)) (\<lambda>gt.
            Ok (if maxNull a then a\<lparr>maxMax := val, maxNull := False\<rparr>
                else if gt then a\<lparr>maxMax := val\<rparr> else a))))"

definition Max_GetTupleDesc :: "MaxAggState \<Rightarrow> TupleDesc" where
  "Max_GetTupleDesc a = anyColumn (maxAlias a) (maxMax a)"

definition Max_Finalize :: "MaxAggState \<Rightarrow> Tuple" where
  "Max_Finalize a = \<lparr>Desc = Max_GetTupleDesc a, TFields = [anyField (maxMax a)], Rid = None\<rparr>"

record MinAggState =
  minAlias :: string
  minExpr :: Expr
  minMin :: goAny
  minNull :: bool
  minGetter :: aggGetter

definition Min_Copy :: "MinAggState \<Rightarrow> MinAggState" where
  "Min_Copy a = \<lparr>minAlias = minAlias a, minExpr = minExpr a, minMin = minMin a, minNull = True, minGetter = minGetter a\<rparr>"

definition Min_Init :: "string \<Rightarrow> Expr \<Rightarrow> aggGetter \<Rightarrow> MinAggState \<Rightarrow> MinAggState" where
  "Min_Init alias expr g a = a\<lparr>minExpr := expr, minGetter := g, minAlias := alias\<rparr>"

definition Min_AddTuple :: "world \<Rightarrow> Tuple \<Rightarrow> MinAggState \<Rightarrow> MinAggState result" where
  "Min_AddTuple w t a =
     (case EvalExpr w (minExpr a) (Some t) of
        Panic x \<Rightarrow> Panic x
      | Err e \<Rightarrow> Ok a
      | Ok v \<Rightarrow>
          bind_go (aggGet (minGetter a) v) (\<lambda>val.
          bind_go (anyGreater (minMin a) val) (\<lambda>lt.
            Ok (if minNull a then a\<lparr>minMin := val, minNull := False\<rparr>
                else if lt then a\<lparr>minMin := val\<rparr> else a))))"

definition Min_GetTupleDesc :: "MinAggState \<Rightarrow> TupleDesc" where
  "Min_GetTupleDesc a = anyColumn (minAlias a) (minMin a)"

definition Min_Finalize :: "MinAggState \<Rightarrow> Tuple" where
  "Min_Finalize a = \<lparr>Desc = Min_GetTupleDesc a, TFields = [anyField (minMin a)], Rid = None\<rparr>"

section \<open>The interface\<close>

datatype AggState = ACount CountAggState | ASum SumAggState | AAvg AvgAggState | AMax MaxAggState | AMin MinAggState

fun Copy :: "AggState \<Rightarrow> AggState" where
  "Copy (ACount a) = ACount (Count_Copy a)"
| "Copy (ASum a) = ASum (Sum_Copy a)"
| "Copy (AAvg a) = AAvg (Avg_Copy a)"
| "Copy (AMax a) = AMax (Max_Copy a)"
| "Copy (AMin a) = AMin (Min_Copy a)"

fun AddTuple :: "world \<Rightarrow> Tuple \<Rightarrow> AggState \<Rightarrow> AggState result" where
  "AddTuple w t (ACount a) = Ok (ACount (Count_AddTuple t a))"
| "AddTuple w t (ASum a) = bind_go (Sum_AddTuple w t a) (\<lambda>b. Ok (ASum b))"
| "AddTuple w t (AAvg a) = bind_go (Avg_AddTuple w t a) (\<lambda>b. Ok (AAvg b))"
| "AddTuple w t (AMax a) = bind_go (Max_AddTuple w t a) (\<lambda>b. Ok (AMax b))"
| "AddTuple w t (AMin a) = bind_go (Min_AddTuple w t a) (\<lambda>b. Ok (AMin b))"

fun Finalize :: "AggState \<Rightarrow> Tuple result" where
  "Finalize (ACount a) = Ok (Count_Finalize a)"
| "Finalize (ASum a) = Ok (Sum_Finalize a)"
| "Finalize (AAvg a) = Avg_Finalize a"
| "Finalize (AMax a) = Ok (Max_Finalize a)"
| "Finalize (AMin a) = Ok (Min_Finalize a)"

fun GetTupleDesc :: "AggState \<Rightarrow> TupleDesc" where
  "GetTupleDesc (ACount a) = Count_GetTupleDesc a"
| "GetTupleDesc (ASum a) = Sum_GetTupleDesc a"
| "GetTupleDesc (AAvg a) = Avg_GetTupleDesc a"
| "GetTupleDesc (AMax a) = Max_GetTupleDesc a"
| "GetTupleDesc (AMin a) = Min_GetTupleDesc a"

section \<open>Adding a list of tuples\<close>

fun addAll :: "world \<Rightarrow> Tuple list \<Rightarrow> AggState \<Rightarrow> AggState result" where
  "addAll w [] a = Ok a"
| "addAll w (t # ts) a = bind_go (AddTuple w t a) (addAll w ts)"

definition aggregate :: "world \<Rightarrow> Tuple list \<Rightarrow> AggState \<Rightarrow> Tuple result" where
  "aggregate w ts a = bind_go (addAll w ts (Copy a)) Finalize"

text \<open>
  What the aggregation operator relies on: copying a template and adding tuples do not change the
  descriptor of a state, and the tuple of the result is of that descriptor.
\<close>

locale agg_interface =
  fixes copy :: "'a \<Rightarrow> 'a" and add :: "Tuple \<Rightarrow> 'a \<Rightarrow> 'a result" and finish :: "'a \<Rightarrow> Tuple result" and desc :: "'a \<Rightarrow> TupleDesc"
  assumes copy_desc: "desc (copy a) = desc a"
    and add_desc: "add t a = Ok b \<Longrightarrow> desc b = desc a"
    and finish_desc: "finish a = Ok t \<Longrightarrow> tupleTyped (desc a) t"
begin

fun adds :: "Tuple list \<Rightarrow> 'a \<Rightarrow> 'a result" where
  "adds [] a = Ok a"
| "adds (t # ts) a = bind_go (add t a) (adds ts)"

lemma adds_desc: "adds ts a = Ok b \<Longrightarrow> desc b = desc a"
  by (induction ts arbitrary: a) (auto dest: add_desc)

lemma result_desc: "bind_go (adds ts (copy a)) finish = Ok t \<Longrightarrow> tupleTyped (desc a) t"
  using adds_desc [of ts "copy a"] copy_desc [of a] finish_desc [of _ t] by fastforce

end

lemma anyGreater_Ok: "anyGreater a b = Ok c \<Longrightarrow> anyColumn al a = anyColumn al b"
  by (cases "(a, b)" rule: anyGreater.cases) auto

lemma tupleTyped_column: "tupleTyped (anyColumn al v) \<lparr>Desc = anyColumn al v, TFields = [anyField v], Rid = r\<rparr>"
    "tupleTyped (intColumn al) \<lparr>Desc = intColumn al, TFields = [IntField n], Rid = r\<rparr>"
  by (cases v) (simp_all add: tupleTyped_def intColumn_def stringColumn_def)

interpretation agg_states: agg_interface Copy "AddTuple w" Finalize GetTupleDesc
proof
  show "GetTupleDesc (Copy a) = GetTupleDesc a" for a
    by (cases a) (simp_all add: Count_Copy_def Sum_Copy_def Avg_Copy_def Max_Copy_def Min_Copy_def Count_GetTupleDesc_def
        Sum_GetTupleDesc_def Avg_GetTupleDesc_def Max_GetTupleDesc_def Min_GetTupleDesc_def)
  show "AddTuple w t a = Ok b \<Longrightarrow> GetTupleDesc b = GetTupleDesc a" for w t a b
    by (cases a) (auto simp: Count_AddTuple_def Sum_AddTuple_def Avg_AddTuple_def Max_AddTuple_def Min_AddTuple_def
        Count_GetTupleDesc_def Sum_GetTupleDesc_def Avg_GetTupleDesc_def Max_GetTupleDesc_def Min_GetTupleDesc_def
        anyGreater_Ok split: go_result.splits dest: anyGreater_Ok)
  show "Finalize a = Ok t \<Longrightarrow> tupleTyped (GetTupleDesc a) t" for a t
    by (cases a) (auto simp: Count_Finalize_def Sum_Finalize_def Avg_Finalize_def Max_Finalize_def Min_Finalize_def
        Count_GetTupleDesc_def Sum_GetTupleDesc_def Avg_GetTupleDesc_def Max_GetTupleDesc_def Min_GetTupleDesc_def
        tupleTyped_column split: if_splits)
qed

lemma adds_addAll: "agg_states.adds w ts a = addAll w ts a"
  by (induction ts arbitrary: a) (auto intro: arg_cong [of _ _ "bind_go _"])

text \<open>
  The tuple that an aggregation of any list of tuples finishes with is of the shape its template's
  \<^verbatim>\<open>GetTupleDesc\<close> announced: one column under the alias, of the type of the value in it.
\<close>

theorem aggregate_typed:
  assumes "aggregate w ts a = Ok t"
  shows "tupleTyped (GetTupleDesc a) t"
  using agg_states.result_desc [of w ts a t] assms by (simp add: aggregate_def adds_addAll)

section \<open>The values\<close>

lemma addAll_Count: "addAll w ts (ACount a) = Ok (ACount (a\<lparr>countCount := countCount a + of_nat (length ts)\<rparr>))"
  by (induction ts arbitrary: a) (simp_all add: Count_AddTuple_def algebra_simps)

lemma addAll_Sum:
  assumes "sumGetter a = intAggGetter" and "\<forall>t \<in> set ts. EvalExpr w (sumExpr a) (Some t) = Ok (IntField (f t))"
  shows "addAll w ts (ASum a) = Ok (ASum (a\<lparr>sumSum := sumSum a + sum_list (map f ts)\<rparr>))"
  using assms
proof (induction ts arbitrary: a)
  case (Cons t ts)
  have "AddTuple w t (ASum a) = Ok (ASum (a\<lparr>sumSum := sumSum a + f t\<rparr>))"
    using Cons.prems by (simp add: Sum_AddTuple_def evalOrNil_def)
  moreover have "addAll w ts (ASum (a\<lparr>sumSum := sumSum a + f t\<rparr>)) =
      Ok (ASum (a\<lparr>sumSum := sumSum a + f t + sum_list (map f ts)\<rparr>))"
    using Cons.IH [of "a\<lparr>sumSum := sumSum a + f t\<rparr>"] Cons.prems by simp
  ultimately show ?case by (simp add: add.assoc)
qed simp

lemma addAll_Avg:
  assumes "avgGetter a = intAggGetter" and "\<forall>t \<in> set ts. EvalExpr w (avgExpr a) (Some t) = Ok (IntField (f t))"
  shows "addAll w ts (AAvg a) = Ok (AAvg (a\<lparr>avgSum := avgSum a + sum_list (map f ts), avgCount := avgCount a + of_nat (length ts)\<rparr>))"
  using assms
proof (induction ts arbitrary: a)
  case (Cons t ts)
  have "AddTuple w t (AAvg a) = Ok (AAvg (a\<lparr>avgSum := avgSum a + f t, avgCount := avgCount a + 1\<rparr>))"
    using Cons.prems by (simp add: Avg_AddTuple_def evalOrNil_def)
  moreover have "addAll w ts (AAvg (a\<lparr>avgSum := avgSum a + f t, avgCount := avgCount a + 1\<rparr>)) =
      Ok (AAvg (a\<lparr>avgSum := avgSum a + f t + sum_list (map f ts), avgCount := avgCount a + 1 + of_nat (length ts)\<rparr>))"
    using Cons.IH [of "a\<lparr>avgSum := avgSum a + f t, avgCount := avgCount a + 1\<rparr>"] Cons.prems by simp
  ultimately show ?case by (simp add: algebra_simps)
qed simp

text \<open>The maximum and the minimum: of the values seen so far, once one has been seen.\<close>

lemma addAll_Max:
  assumes "maxGetter a = intAggGetter" and "\<forall>t \<in> set ts. EvalExpr w (maxExpr a) (Some t) = Ok (IntField (f t))"
    and "maxMax a = AnyInt m" and "\<not> maxNull a"
  shows "\<exists>n. addAll w ts (AMax a) = Ok (AMax (a\<lparr>maxMax := AnyInt n\<rparr>)) \<and> n \<in> insert m (f ` set ts) \<and>
    (\<forall>k \<in> insert m (f ` set ts). sint k \<le> sint n)"
  using assms
proof (induction ts arbitrary: a m)
  case Nil
  then show ?case by (intro exI [of _ m]) simp
next
  case (Cons t ts)
  let ?m = "if sint (f t) > sint m then f t else m" and ?a = "a\<lparr>maxMax := AnyInt (if sint (f t) > sint m then f t else m)\<rparr>"
  have "AddTuple w t (AMax a) = Ok (AMax ?a)"
    using Cons.prems by (simp add: Max_AddTuple_def)
  moreover obtain n where "addAll w ts (AMax ?a) = Ok (AMax (?a\<lparr>maxMax := AnyInt n\<rparr>))" "n \<in> insert ?m (f ` set ts)"
      "\<forall>k \<in> insert ?m (f ` set ts). sint k \<le> sint n"
    using Cons.IH [of ?a ?m] Cons.prems by auto
  ultimately show ?case by (intro exI [of _ n]) (auto split: if_splits)
qed

lemma addAll_Min:
  assumes "minGetter a = intAggGetter" and "\<forall>t \<in> set ts. EvalExpr w (minExpr a) (Some t) = Ok (IntField (f t))"
    and "minMin a = AnyInt m" and "\<not> minNull a"
  shows "\<exists>n. addAll w ts (AMin a) = Ok (AMin (a\<lparr>minMin := AnyInt n\<rparr>)) \<and> n \<in> insert m (f ` set ts) \<and>
    (\<forall>k \<in> insert m (f ` set ts). sint n \<le> sint k)"
  using assms
proof (induction ts arbitrary: a m)
  case Nil
  then show ?case by (intro exI [of _ m]) simp
next
  case (Cons t ts)
  let ?m = "if sint m > sint (f t) then f t else m" and ?a = "a\<lparr>minMin := AnyInt (if sint m > sint (f t) then f t else m)\<rparr>"
  have "AddTuple w t (AMin a) = Ok (AMin ?a)"
    using Cons.prems by (simp add: Min_AddTuple_def)
  moreover obtain n where "addAll w ts (AMin ?a) = Ok (AMin (?a\<lparr>minMin := AnyInt n\<rparr>))" "n \<in> insert ?m (f ` set ts)"
      "\<forall>k \<in> insert ?m (f ` set ts). sint n \<le> sint k"
    using Cons.IH [of ?a ?m] Cons.prems by auto
  ultimately show ?case by (intro exI [of _ n]) (auto split: if_splits)
qed

theorem aggregate_typed_witness:
  "\<exists>t. aggregate exWorld [exTuple 7, exTuple 3] (AMax (Max_Init ''m'' exField intAggGetter
      \<lparr>maxAlias = '''', maxExpr = exField, maxMax = AnyInt 0, maxNull = False, maxGetter = intAggGetter\<rparr>)) = Ok t \<and>
    tupleTyped (intColumn ''m'') t"
proof -
  let ?a = "AMax (Max_Init ''m'' exField intAggGetter
      \<lparr>maxAlias = '''', maxExpr = exField, maxMax = AnyInt 0, maxNull = False, maxGetter = intAggGetter\<rparr>)"
  obtain t where t: "aggregate exWorld [exTuple 7, exTuple 3] ?a = Ok t"
    by (simp add: aggregate_def Max_Init_def Max_Copy_def Max_AddTuple_def exField_value)
  have "GetTupleDesc ?a = intColumn ''m''" by (simp add: Max_Init_def Max_GetTupleDesc_def)
  with aggregate_typed [OF t] t show ?thesis by metis
qed

lemma of_nat_count:
  assumes "0 < n" and "n < 2 ^ 63"
  shows "(of_nat n :: int64) \<noteq> 0" and "sint (of_nat n :: int64) = int n"
proof -
  show s: "sint (of_nat n :: int64) = int n" using sint_word_of_int [of "int n"] assms(2) by simp
  then show "(of_nat n :: int64) \<noteq> 0" using assms(1) by auto
qed

text \<open>
  Over a list of tuples on which the expression is an integer, not empty and shorter than \<open>2 ^ 63\<close>, \<^verbatim>\<open>COUNT\<close>
  is the number of the tuples, \<^verbatim>\<open>SUM\<close> the sum of their values modulo \<open>2 ^ 64\<close> and \<^verbatim>\<open>AVG\<close> that sum divided by
  the count, truncated towards zero.
\<close>

theorem count_sum_avg:
  assumes "\<forall>t \<in> set ts. EvalExpr w e (Some t) = Ok (IntField (f t))" and "ts \<noteq> []" and "length ts < 2 ^ 63"
  shows "aggregate w ts (ACount (Count_Init al e c)) = Ok \<lparr>Desc = intColumn al, TFields = [IntField (of_nat (length ts))], Rid = None\<rparr> \<and>
    aggregate w ts (ASum (Sum_Init al e intAggGetter s)) =
      Ok \<lparr>Desc = intColumn al, TFields = [IntField (sum_list (map f ts))], Rid = None\<rparr> \<and>
    aggregate w ts (AAvg (Avg_Init al e intAggGetter v)) =
      Ok \<lparr>Desc = intColumn al, TFields = [IntField (word_of_int (sint (sum_list (map f ts)) sdiv int (length ts)))], Rid = None\<rparr>"
proof (intro conjI)
  have n: "(of_nat (length ts) :: int64) \<noteq> 0" "sint (of_nat (length ts) :: int64) = int (length ts)"
    using of_nat_count [of "length ts"] assms(2,3) by auto
  show "aggregate w ts (ACount (Count_Init al e c)) = Ok \<lparr>Desc = intColumn al, TFields = [IntField (of_nat (length ts))], Rid = None\<rparr>"
    by (simp add: aggregate_def addAll_Count Count_Init_def Count_Copy_def Count_Finalize_def Count_GetTupleDesc_def)
  have "addAll w ts (ASum (Sum_Copy (Sum_Init al e intAggGetter s))) =
      Ok (ASum ((Sum_Copy (Sum_Init al e intAggGetter s))\<lparr>sumSum := sum_list (map f ts)\<rparr>))"
    using assms(1) by (subst addAll_Sum [where f = f]) (simp_all add: Sum_Init_def Sum_Copy_def)
  then show "aggregate w ts (ASum (Sum_Init al e intAggGetter s)) =
      Ok \<lparr>Desc = intColumn al, TFields = [IntField (sum_list (map f ts))], Rid = None\<rparr>"
    by (simp add: aggregate_def Sum_Init_def Sum_Copy_def Sum_Finalize_def Sum_GetTupleDesc_def)
  have "addAll w ts (AAvg (Avg_Copy (Avg_Init al e intAggGetter v))) =
      Ok (AAvg ((Avg_Copy (Avg_Init al e intAggGetter v))\<lparr>avgSum := sum_list (map f ts), avgCount := of_nat (length ts)\<rparr>))"
    using assms(1) by (subst addAll_Avg [where f = f]) (simp_all add: Avg_Init_def Avg_Copy_def)
  then show "aggregate w ts (AAvg (Avg_Init al e intAggGetter v)) =
      Ok \<lparr>Desc = intColumn al, TFields = [IntField (word_of_int (sint (sum_list (map f ts)) sdiv int (length ts)))], Rid = None\<rparr>"
    using n by (simp add: aggregate_def Avg_Init_def Avg_Copy_def Avg_Finalize_def Avg_GetTupleDesc_def)
qed

theorem count_sum_avg_witness:
  "aggregate exWorld [exTuple 7, exTuple 3] (AAvg (Avg_Init ''a'' exField intAggGetter
      \<lparr>avgAlias = '''', avgExpr = exField, avgSum = 9, avgCount = 9, avgAvg = 9, avgGetter = stringAggGetter\<rparr>)) =
    Ok \<lparr>Desc = intColumn ''a'', TFields = [IntField 5], Rid = None\<rparr>"
proof -
  define f where "f t = (case TFields t of [IntField n] \<Rightarrow> n | _ \<Rightarrow> 0)" for t :: Tuple
  have "\<forall>t \<in> set [exTuple 7, exTuple 3]. EvalExpr exWorld exField (Some t) = Ok (IntField (f t))"
    by (simp add: exField_value) (simp add: f_def exTuple_def)
  from count_sum_avg [OF this] show ?thesis by (simp add: f_def exTuple_def)
qed

text \<open>
  Over a list of tuples that is not empty and on which the expression is an integer, a copy of a \<^verbatim>\<open>MAX\<close> or \<^verbatim>\<open>MIN\<close>
  template for integers, whatever value the template holds, finishes with the greatest, or the least, of the values.
\<close>

theorem max_min:
  assumes "\<forall>t \<in> set ts. EvalExpr w e (Some t) = Ok (IntField (f t))" and "ts \<noteq> []"
    and "maxMax x = AnyInt z" and "minMin n = AnyInt z'"
  shows "(\<exists>k \<in> f ` set ts. (\<forall>i \<in> f ` set ts. sint i \<le> sint k) \<and>
      aggregate w ts (AMax (Max_Init al e intAggGetter x)) = Ok \<lparr>Desc = intColumn al, TFields = [IntField k], Rid = None\<rparr>) \<and>
    (\<exists>k \<in> f ` set ts. (\<forall>i \<in> f ` set ts. sint k \<le> sint i) \<and>
      aggregate w ts (AMin (Min_Init al e intAggGetter n)) = Ok \<lparr>Desc = intColumn al, TFields = [IntField k], Rid = None\<rparr>)"
proof -
  obtain t us where ts: "ts = t # us" using assms(2) by (cases ts) auto
  have t: "EvalExpr w e (Some t) = Ok (IntField (f t))" and us: "\<forall>t \<in> set us. EvalExpr w e (Some t) = Ok (IntField (f t))"
    using assms(1) ts by auto
  let ?x = "(Max_Copy (Max_Init al e intAggGetter x))\<lparr>maxMax := AnyInt (f t), maxNull := False\<rparr>"
  let ?n = "(Min_Copy (Min_Init al e intAggGetter n))\<lparr>minMin := AnyInt (f t), minNull := False\<rparr>"
  have "addAll w ts (Copy (AMax (Max_Init al e intAggGetter x))) = addAll w us (AMax ?x)"
    using t assms(3) by (simp add: ts Max_Init_def Max_Copy_def Max_AddTuple_def)
  moreover obtain k where k: "addAll w us (AMax ?x) = Ok (AMax (?x\<lparr>maxMax := AnyInt k\<rparr>))" "k \<in> insert (f t) (f ` set us)"
      "\<forall>i \<in> insert (f t) (f ` set us). sint i \<le> sint k"
    using addAll_Max [of ?x us w f "f t"] us by (auto simp: Max_Init_def Max_Copy_def)
  moreover have "addAll w ts (Copy (AMin (Min_Init al e intAggGetter n))) = addAll w us (AMin ?n)"
    using t assms(4) by (simp add: ts Min_Init_def Min_Copy_def Min_AddTuple_def)
  moreover obtain l where l: "addAll w us (AMin ?n) = Ok (AMin (?n\<lparr>minMin := AnyInt l\<rparr>))" "l \<in> insert (f t) (f ` set us)"
      "\<forall>i \<in> insert (f t) (f ` set us). sint l \<le> sint i"
    using addAll_Min [of ?n us w f "f t"] us by (auto simp: Min_Init_def Min_Copy_def)
  ultimately have "aggregate w ts (AMax (Max_Init al e intAggGetter x)) = Ok \<lparr>Desc = intColumn al, TFields = [IntField k], Rid = None\<rparr>"
    "aggregate w ts (AMin (Min_Init al e intAggGetter n)) = Ok \<lparr>Desc = intColumn al, TFields = [IntField l], Rid = None\<rparr>"
    by (simp_all add: aggregate_def Max_Init_def Max_Copy_def Max_Finalize_def Max_GetTupleDesc_def
        Min_Init_def Min_Copy_def Min_Finalize_def Min_GetTupleDesc_def)
  with k(2,3) l(2,3) show ?thesis by (auto simp: ts)
qed

theorem max_min_witness:
  "\<exists>k. aggregate exWorld [exTuple 7, exTuple 3] (AMin (Min_Init ''m'' exField intAggGetter
      \<lparr>minAlias = '''', minExpr = exField, minMin = AnyInt 0, minNull = False, minGetter = intAggGetter\<rparr>)) =
    Ok \<lparr>Desc = intColumn ''m'', TFields = [IntField k], Rid = None\<rparr> \<and> k \<in> {7, 3}"
proof -
  define f where "f t = (case TFields t of [IntField n] \<Rightarrow> n | _ \<Rightarrow> 0)" for t :: Tuple
  have h: "\<forall>t \<in> set [exTuple 7, exTuple 3]. EvalExpr exWorld exField (Some t) = Ok (IntField (f t))"
    by (simp add: exField_value) (simp add: f_def exTuple_def)
  from max_min [OF h, of "\<lparr>maxAlias = '''', maxExpr = exField, maxMax = AnyInt 0, maxNull = False, maxGetter = intAggGetter\<rparr>" 0
      "\<lparr>minAlias = '''', minExpr = exField, minMin = AnyInt 0, minNull = False, minGetter = intAggGetter\<rparr>" 0]
  show ?thesis by (auto simp: f_def exTuple_def)
qed

text \<open>
  With no tuple at all \<^verbatim>\<open>AVG\<close> panics on a division by zero, and \<^verbatim>\<open>MAX\<close> gives the zero value of its template as
  if it were a maximum, although the comments assume that a tuple has been added before \<^verbatim>\<open>Finalize\<close>.
\<close>

theorem aggregate_empty:
  "aggregate w [] (AAvg (Avg_Init al e g v)) = Panic DivideByZero \<and>
   aggregate w [] (AMax (Max_Init al e g x)) = Ok \<lparr>Desc = anyColumn al (maxMax x), TFields = [anyField (maxMax x)], Rid = None\<rparr>"
  by (simp add: aggregate_def Avg_Init_def Avg_Copy_def Avg_Finalize_def Max_Init_def Max_Copy_def Max_Finalize_def Max_GetTupleDesc_def)

end
