(* ===== verification/Aggregators.thy ===== *)
theory Aggregators
  imports AggStates
begin

text \<open>
  \<^verbatim>\<open>agg_op.go\<close>: the aggregation operator. The closure captures the map from group keys to partial aggregates and the
  list of group tuples; the hash of a group tuple (\<^verbatim>\<open>tupleKey\<close>) is the parameter \<open>key\<close>. A nil list of group
  expressions is \<open>None\<close>.
\<close>

section \<open>The operator\<close>

record Aggregator =
  groupByFields :: "Expr list option"
  newAggState :: "AggState list"

definition NewGroupedAggregator :: "AggState list \<Rightarrow> Expr list \<Rightarrow> Aggregator" where
  "NewGroupedAggregator emptyAggState groupBy = \<lparr>groupByFields = Some groupBy, newAggState = emptyAggState\<rparr>"

definition NewAggregator :: "AggState list \<Rightarrow> Aggregator" where
  "NewAggregator emptyAggState = \<lparr>groupByFields = None, newAggState = emptyAggState\<rparr>"

definition groupExprs :: "Aggregator \<Rightarrow> Expr list" where
  "groupExprs a = (case groupByFields a of None \<Rightarrow> [] | Some es \<Rightarrow> es)"

text \<open>
  The slice is made with the length of the group expressions before they are appended, so it starts with as many zero
  field types; and the descriptors of the aggregates are merged into a descriptor that is thrown away.
\<close>

definition aggDescriptor :: "world \<Rightarrow> Aggregator \<Rightarrow> TupleDesc" where
  "aggDescriptor w a =
     \<lparr>Fields = replicate (length (groupExprs a)) \<lparr>Fname = '''', TableQualifier = '''', Ftype = IntType\<rparr> @
        map (GetExprType w) (groupExprs a)\<rparr>"

datatype 'h aggKey = DefaultGroup | HashKey 'h

datatype finalIter = NoIter | NilIter | GroupIter nat

record ('s, 'h) aggClosure =
  aggChild :: 's
  aggMap :: "('h aggKey \<times> AggState option list) list"
  groupByList :: "Tuple list"
  finalizedIter :: finalIter

definition aggOpen :: "Aggregator \<Rightarrow> 's option result \<Rightarrow> ('s, 'h) aggClosure result" where
  "aggOpen a childIter =
     (case childIter of
        Err e \<Rightarrow> Err e
      | Panic x \<Rightarrow> Panic x
      | Ok None \<Rightarrow> Err (GoDBError MalformedDataError)
      | Ok (Some s) \<Rightarrow> Ok \<lparr>aggChild = s,
          aggMap = (if groupByFields a = None then [(DefaultGroup, map (\<lambda>as. Some (Copy as)) (newAggState a))] else []),
          groupByList = [], finalizedIter = NoIter\<rparr>)"

definition extractGroupByKeyTuple :: "world \<Rightarrow> Aggregator \<Rightarrow> Tuple \<Rightarrow> Tuple result" where
  "extractGroupByKeyTuple w a t =
     bind_go (map_go (\<lambda>e. EvalExpr w e (Some t)) (groupExprs a)) (\<lambda>vs.
       Ok \<lparr>Desc = \<lparr>Fields = map (GetExprType w) (groupExprs a)\<rparr>, TFields = vs, Rid = None\<rparr>)"

definition addTupleToGrpAggState :: "world \<Rightarrow> Aggregator \<Rightarrow> Tuple \<Rightarrow> AggState option list \<Rightarrow> AggState option list result" where
  "addTupleToGrpAggState w a t grp =
     map_go (\<lambda>(i, s). bind_go (AddTuple w t (case s of None \<Rightarrow> Copy (newAggState a ! i) | Some s \<Rightarrow> s)) (\<lambda>s'. Ok (Some s')))
       (enumerate 0 grp)"

text \<open>The body of the loop over the child's tuples.\<close>

definition aggAdd ::
  "world \<Rightarrow> (Tuple \<Rightarrow> 'h) \<Rightarrow> Aggregator \<Rightarrow> Tuple \<Rightarrow> ('s, 'h) aggClosure \<Rightarrow> ('s, 'h) aggClosure result" where
  "aggAdd w key a t c =
     (if groupByFields a = None then
        (case map_of (aggMap c) DefaultGroup of
           None \<Rightarrow> Panic NilDereference
         | Some grp \<Rightarrow>
             bind_go (map_go (\<lambda>s. case s of None \<Rightarrow> Panic NilDereference
                        | Some s \<Rightarrow> bind_go (AddTuple w t s) (\<lambda>s'. Ok (Some s'))) grp) (\<lambda>grp'.
               Ok (c\<lparr>aggMap := AList.update DefaultGroup grp' (aggMap c)\<rparr>)))
      else
        bind_go (extractGroupByKeyTuple w a t) (\<lambda>keygenTup.
          let k = HashKey (key keygenTup);
              c1 = (case map_of (aggMap c) k of
                      None \<Rightarrow> c\<lparr>aggMap := AList.update k (replicate (length (newAggState a)) None) (aggMap c),
                               groupByList := groupByList c @ [keygenTup]\<rparr>
                    | Some _ \<Rightarrow> c)
          in (case map_of (aggMap c1) k of
                None \<Rightarrow> Panic NilDereference
              | Some grp \<Rightarrow>
                  bind_go (addTupleToGrpAggState w a t grp) (\<lambda>grp'.
                    Ok (c1\<lparr>aggMap := AList.update k grp' (aggMap c1)\<rparr>)))))"

partial_function (option) aggLoop ::
  "world \<Rightarrow> (Tuple \<Rightarrow> 'h) \<Rightarrow> Aggregator \<Rightarrow> ('s, Tuple) iter \<Rightarrow> ('s, 'h) aggClosure \<Rightarrow> (unit result \<times> ('s, 'h) aggClosure) option" where
  "aggLoop w key a ite c =
     (case ite (aggChild c) of
        None \<Rightarrow> None
      | Some (Err e, s) \<Rightarrow> Some (Err e, c\<lparr>aggChild := s\<rparr>)
      | Some (Panic x, s) \<Rightarrow> Some (Panic x, c\<lparr>aggChild := s\<rparr>)
      | Some (Ok None, s) \<Rightarrow> Some (Ok (), c\<lparr>aggChild := s\<rparr>)
      | Some (Ok (Some t), s) \<Rightarrow>
          (case aggAdd w key a t (c\<lparr>aggChild := s\<rparr>) of
             Err e \<Rightarrow> Some (Err e, c\<lparr>aggChild := s\<rparr>)
           | Panic x \<Rightarrow> Some (Panic x, c\<lparr>aggChild := s\<rparr>)
           | Ok c' \<Rightarrow> aggLoop w key a ite c'))"

text \<open>Joining the finalized aggregates to a tuple, which is nil at the start when there is no group.\<close>

fun finalizeAll :: "Tuple option \<Rightarrow> AggState option list \<Rightarrow> Tuple option result" where
  "finalizeAll tup [] = Ok tup"
| "finalizeAll tup (None # ss) = Panic NilDereference"
| "finalizeAll tup (Some s # ss) =
     bind_go (Finalize s) (\<lambda>newTup. bind_go (joinTuples tup (Some newTup)) (\<lambda>t. finalizeAll (Some t) ss))"

text \<open>The closure of \<^verbatim>\<open>getFinalizedTuplesIterator\<close> with its counter.\<close>

definition finalizedNext ::
  "(Tuple \<Rightarrow> 'h) \<Rightarrow> nat \<Rightarrow> ('s, 'h) aggClosure \<Rightarrow> Tuple option result \<times> ('s, 'h) aggClosure" where
  "finalizedNext key cur c =
     (if cur = length (groupByList c) then (Ok None, c\<lparr>finalizedIter := GroupIter cur\<rparr>)
      else (let tuple = groupByList c ! cur in
        (case map_of (aggMap c) (HashKey (key tuple)) of
           None \<Rightarrow> (Panic NilDereference, c)
         | Some grp \<Rightarrow>
             (case finalizeAll (Some tuple) grp of
                Ok t \<Rightarrow> (Ok t, c\<lparr>finalizedIter := GroupIter (Suc cur)\<rparr>)
              | Err e \<Rightarrow> (Err e, c)
              | Panic x \<Rightarrow> (Panic x, c)))))"

definition aggNext :: "world \<Rightarrow> (Tuple \<Rightarrow> 'h) \<Rightarrow> Aggregator \<Rightarrow> ('s, Tuple) iter \<Rightarrow> (('s, 'h) aggClosure, Tuple) iter" where
  "aggNext w key a ite c =
     (case aggLoop w key a ite c of
        None \<Rightarrow> None
      | Some (Err e, c1) \<Rightarrow> Some (Err e, c1)
      | Some (Panic x, c1) \<Rightarrow> Some (Panic x, c1)
      | Some (Ok _, c1) \<Rightarrow>
          (case finalizedIter c1 of
             NoIter \<Rightarrow>
               (if groupByFields a = None then
                  (case map_of (aggMap c1) DefaultGroup of
                     None \<Rightarrow> Some (Panic NilDereference, c1)
                   | Some grp \<Rightarrow>
                       (case finalizeAll None grp of
                          Ok tup \<Rightarrow> Some (Ok tup, c1\<lparr>finalizedIter := NilIter\<rparr>)
                        | Err e \<Rightarrow> Some (Err e, c1)
                        | Panic x \<Rightarrow> Some (Panic x, c1)))
                else Some (finalizedNext key 0 (c1\<lparr>finalizedIter := GroupIter 0\<rparr>)))
           | NilIter \<Rightarrow> Some (Ok None, c1)
           | GroupIter cur \<Rightarrow> Some (finalizedNext key cur c1)))"

section \<open>Partial aggregates\<close>

definition partialAgg :: "world \<Rightarrow> Tuple list \<Rightarrow> AggState \<Rightarrow> AggState" where
  "partialAgg w us as = (case addAll w us (Copy as) of Ok b \<Rightarrow> b | _ \<Rightarrow> as)"

lemma addAll_append: "addAll w (us @ vs) a = bind_go (addAll w us a) (addAll w vs)"
proof (induction us arbitrary: a)
  case (Cons u us)
  then show ?case by (cases "AddTuple w u a") simp_all
qed simp

lemma partialAgg_Nil [simp]: "partialAgg w [] as = Copy as"
  by (simp add: partialAgg_def)

lemma partialAgg_step:
  "addAll w (us @ t # vs) (Copy as) = Ok b \<Longrightarrow> AddTuple w t (partialAgg w us as) = Ok (partialAgg w (us @ [t]) as)"
  by (auto simp: addAll_append partialAgg_def)

lemma partialAgg_done: "aggregate w ts as = Ok r \<Longrightarrow> Finalize (partialAgg w ts as) = Ok r"
  by (auto simp: aggregate_def partialAgg_def)

lemma aggregate_addAll: "aggregate w ts as = Ok r \<Longrightarrow> \<exists>b. addAll w ts (Copy as) = Ok b"
  by (auto simp: aggregate_def)

lemma finalizeAll_Some:
  assumes "\<forall>as \<in> set N. Finalize (st as) = Ok (ft as)"
  shows "\<exists>t'. finalizeAll (Some t) (map (\<lambda>as. Some (st as)) N) = Ok (Some t') \<and>
    TFields t' = TFields t @ concat (map (\<lambda>as. TFields (ft as)) N)"
  using assms
proof (induction N arbitrary: t)
  case (Cons as N)
  let ?t = "\<lparr>Desc = merge (Desc t) (Desc (ft as)), TFields = TFields t @ TFields (ft as), Rid = None\<rparr>"
  obtain t' where "finalizeAll (Some ?t) (map (\<lambda>as. Some (st as)) N) = Ok (Some t')"
      "TFields t' = TFields ?t @ concat (map (\<lambda>as. TFields (ft as)) N)"
    using Cons.IH [of ?t] Cons.prems by auto
  with Cons.prems show ?case by (simp add: joinTuples_def)
qed simp

lemma finalizeAll_None:
  assumes "\<forall>as \<in> set N. Finalize (st as) = Ok (ft as)" and "N \<noteq> []"
  shows "\<exists>t'. finalizeAll None (map (\<lambda>as. Some (st as)) N) = Ok (Some t') \<and> TFields t' = concat (map (\<lambda>as. TFields (ft as)) N)"
proof -
  obtain as M where N: "N = as # M" using assms(2) by (cases N) auto
  then show ?thesis
    using assms(1) finalizeAll_Some [of M st ft "\<lparr>Desc = Desc (ft as), TFields = TFields (ft as), Rid = None\<rparr>"]
    by (auto simp: joinTuples_def)
qed

section \<open>Without groups\<close>

definition ungrouped :: "world \<Rightarrow> Aggregator \<Rightarrow> Tuple list \<Rightarrow> ('h aggKey \<times> AggState option list) list" where
  "ungrouped w a us = [(DefaultGroup, map (\<lambda>as. Some (partialAgg w us as)) (newAggState a))]"

lemma aggLoop_ungrouped:
  assumes "yields ite s vs s'" and a: "groupByFields a = None" and "\<forall>as \<in> set (newAggState a). \<exists>b. addAll w (us @ vs) (Copy as) = Ok b"
  shows "aggLoop w key a ite \<lparr>aggChild = s, aggMap = ungrouped w a us, groupByList = gl, finalizedIter = fi\<rparr> =
    Some (Ok (), \<lparr>aggChild = s', aggMap = ungrouped w a (us @ vs), groupByList = gl, finalizedIter = fi\<rparr>)"
  using assms(1,3)
proof (induction arbitrary: us rule: yields.induct)
  case (yields_Nil s s')
  then show ?case by (simp add: aggLoop.simps)
next
  case (yields_Cons s t s' vs s'')
  have "\<forall>as \<in> set (newAggState a). AddTuple w t (partialAgg w us as) = Ok (partialAgg w (us @ [t]) as)"
    using partialAgg_step yields_Cons.prems by blast
  then have "map_go (\<lambda>s. case s of None \<Rightarrow> Panic NilDereference | Some s \<Rightarrow> bind_go (AddTuple w t s) (\<lambda>s'. Ok (Some s')))
        (map (\<lambda>as. Some (partialAgg w us as)) (newAggState a)) = Ok (map (\<lambda>as. Some (partialAgg w (us @ [t]) as)) (newAggState a))"
    by (auto simp: map_go_Ok_iff list_all2_conv_all_nth)
  then have "aggAdd w key a t \<lparr>aggChild = s', aggMap = ungrouped w a us, groupByList = gl, finalizedIter = fi\<rparr> =
      Ok \<lparr>aggChild = s', aggMap = ungrouped w a (us @ [t]), groupByList = gl, finalizedIter = fi\<rparr>"
    using a by (simp add: aggAdd_def ungrouped_def)
  then have "aggLoop w key a ite \<lparr>aggChild = s, aggMap = ungrouped w a us, groupByList = gl, finalizedIter = fi\<rparr> =
      aggLoop w key a ite \<lparr>aggChild = s', aggMap = ungrouped w a (us @ [t]), groupByList = gl, finalizedIter = fi\<rparr>"
    using yields_Cons.hyps(1) by (subst aggLoop.simps) simp
  then show ?case using yields_Cons.IH [of "us @ [t]"] yields_Cons.prems by simp
qed

lemma aggLoop_ended: "ended ite (aggChild c) \<Longrightarrow> aggLoop w key a ite c = Some (Ok (), c)"
  by (simp add: aggLoop.simps ended_def)

text \<open>
  An aggregation without groups reads its child to the end and yields exactly one tuple, the concatenation of the
  results of its aggregates over all the tuples, in their order, and then ends.
\<close>

theorem aggregator_yields:
  fixes key :: "Tuple \<Rightarrow> 'h"
  assumes "newAggState a \<noteq> []" and "groupByFields a = None" and "yields ite s ts s'" and "ended ite s'"
    and "\<forall>as \<in> set (newAggState a). aggregate w ts as = Ok (ft as)"
  shows "\<exists>c t c'. aggOpen a (Ok (Some s)) = Ok c \<and> yields (aggNext w key a ite) c [t] c' \<and>
    TFields t = concat (map (\<lambda>as. TFields (ft as)) (newAggState a))"
proof -
  let ?c = "\<lparr>aggChild = s, aggMap = ungrouped w a [] :: ('h aggKey \<times> AggState option list) list,
      groupByList = [], finalizedIter = NoIter\<rparr>"
  let ?d = "\<lambda>f. \<lparr>aggChild = s', aggMap = ungrouped w a ts :: ('h aggKey \<times> AggState option list) list,
      groupByList = [], finalizedIter = f\<rparr>"
  have o: "aggOpen a (Ok (Some s)) = Ok ?c" using assms(2) by (simp add: aggOpen_def ungrouped_def)
  have loop: "aggLoop w key a ite ?c = Some (Ok (), ?d NoIter)"
    using aggLoop_ungrouped [OF assms(3,2), of w "[]" key "[]" NoIter] aggregate_addAll assms(5) by fastforce
  obtain t where t: "finalizeAll None (map (\<lambda>as. Some (partialAgg w ts as)) (newAggState a)) = Ok (Some t)"
    "TFields t = concat (map (\<lambda>as. TFields (ft as)) (newAggState a))"
    using finalizeAll_None [of "newAggState a" "partialAgg w ts" ft] partialAgg_done assms(1,5) by metis
  have "aggNext w key a ite ?c = Some (Ok (Some t), ?d NilIter)"
    using loop t(1) assms(2) by (simp add: aggNext_def ungrouped_def)
  moreover have "aggNext w key a ite (?d NilIter) = Some (Ok None, ?d NilIter)"
    using aggLoop_ended [of ite "?d NilIter"] assms(4) by (simp add: aggNext_def)
  ultimately show ?thesis using o t(2) by (intro exI conjI) (auto intro: yields.intros)
qed

section \<open>With groups\<close>

lemma firstBy_snoc:
  "firstBy key seen (xs @ [x]) = firstBy key seen xs @ (if key x \<in> set seen \<union> key ` set xs then [] else [x])"
  by (induction xs arbitrary: seen) auto

definition groupOf :: "(Tuple \<Rightarrow> 'h) \<Rightarrow> (Tuple \<Rightarrow> Tuple) \<Rightarrow> 'h \<Rightarrow> Tuple list \<Rightarrow> Tuple list" where
  "groupOf key grp h us = filter (\<lambda>t. key (grp t) = h) us"

text \<open>The state of the closure after the tuples \<open>us\<close>: the groups seen so far and their partial aggregates.\<close>

definition grouped :: "world \<Rightarrow> (Tuple \<Rightarrow> 'h) \<Rightarrow> (Tuple \<Rightarrow> Tuple) \<Rightarrow> Aggregator \<Rightarrow> Tuple list \<Rightarrow> ('s, 'h) aggClosure \<Rightarrow> bool" where
  "grouped w key grp a us c \<longleftrightarrow> groupByList c = firstBy key [] (map grp us) \<and>
     (\<forall>h. map_of (aggMap c) (HashKey h) =
       (if h \<in> key ` grp ` set us then Some (map (\<lambda>as. Some (partialAgg w (groupOf key grp h us) as)) (newAggState a)) else None))"

lemma addTupleToGrp_partial:
  assumes "length gs = length (newAggState a)"
    and "\<And>i. i < length gs \<Longrightarrow> (case gs ! i of None \<Rightarrow> Copy (newAggState a ! i) | Some s \<Rightarrow> s) = partialAgg w us (newAggState a ! i)"
    and "\<And>as. as \<in> set (newAggState a) \<Longrightarrow> AddTuple w t (partialAgg w us as) = Ok (partialAgg w (us @ [t]) as)"
  shows "addTupleToGrpAggState w a t gs = Ok (map (\<lambda>as. Some (partialAgg w (us @ [t]) as)) (newAggState a))"
  using assms by (auto simp: addTupleToGrpAggState_def map_go_Ok_iff list_all2_conv_all_nth nth_enumerate_eq)

lemma aggAdd_grouped:
  assumes inv: "grouped w key grp a us c" and g: "groupByFields a \<noteq> None" and ex: "extractGroupByKeyTuple w a t = Ok (grp t)"
    and add: "\<And>as. as \<in> set (newAggState a) \<Longrightarrow>
      AddTuple w t (partialAgg w (groupOf key grp (key (grp t)) us) as) = Ok (partialAgg w (groupOf key grp (key (grp t)) us @ [t]) as)"
  shows "\<exists>c'. aggAdd w key a t c = Ok c' \<and> grouped w key grp a (us @ [t]) c' \<and> aggChild c' = aggChild c \<and> finalizedIter c' = finalizedIter c"
proof -
  let ?h = "key (grp t)" and ?n = "newAggState a" and ?old = "map_of (aggMap c) (HashKey (key (grp t)))"
  let ?gs = "case ?old of None \<Rightarrow> replicate (length ?n) None | Some gs \<Rightarrow> gs"
  let ?us = "groupOf key grp ?h us" and ?new = "map (\<lambda>as. Some (partialAgg w (groupOf key grp ?h us @ [t]) as)) ?n"
  let ?c = "case ?old of None \<Rightarrow> c\<lparr>aggMap := AList.update (HashKey ?h) (replicate (length ?n) None) (aggMap c), groupByList := groupByList c @ [grp t]\<rparr>
      | Some _ \<Rightarrow> c"
  have old: "?old = (if ?h \<in> key ` grp ` set us then Some (map (\<lambda>as. Some (partialAgg w ?us as)) ?n) else None)"
    using inv by (simp add: grouped_def)
  have fresh: "?us = []" if "?h \<notin> key ` grp ` set us" using that by (auto simp: groupOf_def filter_empty_conv) (metis imageI)
  have len: "length ?gs = length ?n" using old by (simp split: option.split)
  have at: "(case ?gs ! i of None \<Rightarrow> Copy (?n ! i) | Some s \<Rightarrow> s) = partialAgg w ?us (?n ! i)" if "i < length ?gs" for i
    using that old fresh by (cases "?h \<in> key ` grp ` set us") simp_all
  have grp': "addTupleToGrpAggState w a t ?gs = Ok ?new" by (rule addTupleToGrp_partial [OF len at add])
  have c: "map_of (aggMap ?c) (HashKey ?h) = Some ?gs" "groupByList ?c = groupByList c @ (if ?old = None then [grp t] else [])"
    "aggChild ?c = aggChild c" "finalizedIter ?c = finalizedIter c"
    "\<And>h. h \<noteq> ?h \<Longrightarrow> map_of (aggMap ?c) (HashKey h) = map_of (aggMap c) (HashKey h)"
    by (cases ?old; simp add: update_conv')+
  let ?c' = "?c\<lparr>aggMap := AList.update (HashKey ?h) ?new (aggMap ?c)\<rparr>"
  have "aggAdd w key a t c = Ok ?c'" using ex c(1) grp' unfolding aggAdd_def if_not_P [OF g] by (simp add: Let_def)
  moreover have "grouped w key grp a (us @ [t]) ?c'"
    unfolding grouped_def
  proof (intro conjI allI)
    have "groupByList c = firstBy key [] (map grp us)" using inv by (simp add: grouped_def)
    then show "groupByList ?c' = firstBy key [] (map grp (us @ [t]))" using c(2) old by (simp add: firstBy_snoc)
    fix h
    have split: "groupOf key grp h (us @ [t]) = groupOf key grp h us @ (if h = ?h then [t] else [])" by (auto simp: groupOf_def)
    have "map_of (aggMap c) (HashKey h) =
       (if h \<in> key ` grp ` set us then Some (map (\<lambda>as. Some (partialAgg w (groupOf key grp h us) as)) ?n) else None)"
      using inv by (simp add: grouped_def)
    then show "map_of (aggMap ?c') (HashKey h) = (if h \<in> key ` grp ` set (us @ [t])
        then Some (map (\<lambda>as. Some (partialAgg w (groupOf key grp h (us @ [t])) as)) ?n) else None)"
      using c(5) [of h] split by (cases "h = ?h") (simp_all add: update_conv')
  qed
  ultimately show ?thesis using c(3,4) by (intro exI [of _ ?c'] conjI) simp_all
qed

lemma aggLoop_grouped:
  assumes "yields ite s vs s'" and "groupByFields a \<noteq> None"
    and "\<forall>t \<in> set vs. extractGroupByKeyTuple w a t = Ok (grp t)"
    and "\<forall>h. \<forall>as \<in> set (newAggState a). \<exists>b. addAll w (groupOf key grp h (us @ vs)) (Copy as) = Ok b"
    and "grouped w key grp a us c" and "aggChild c = s"
  shows "\<exists>c'. aggLoop w key a ite c = Some (Ok (), c') \<and> grouped w key grp a (us @ vs) c' \<and> aggChild c' = s' \<and>
    finalizedIter c' = finalizedIter c"
  using assms(1,3-6)
proof (induction arbitrary: us c rule: yields.induct)
  case (yields_Nil s s')
  then show ?case by (simp add: aggLoop.simps grouped_def)
next
  case (yields_Cons s t s' vs s'')
  have "groupOf key grp (key (grp t)) (us @ t # vs) = groupOf key grp (key (grp t)) us @ t # groupOf key grp (key (grp t)) vs"
    by (simp add: groupOf_def)
  then have add: "AddTuple w t (partialAgg w (groupOf key grp (key (grp t)) us) as) =
      Ok (partialAgg w (groupOf key grp (key (grp t)) us @ [t]) as)" if "as \<in> set (newAggState a)" for as
    using yields_Cons.prems(2) that partialAgg_step by metis
  have "grouped w key grp a us (c\<lparr>aggChild := s'\<rparr>)" using yields_Cons.prems(3) by (simp add: grouped_def)
  from aggAdd_grouped [OF this assms(2) _ add] yields_Cons.prems(1)
  obtain c1 where c1: "aggAdd w key a t (c\<lparr>aggChild := s'\<rparr>) = Ok c1" "grouped w key grp a (us @ [t]) c1" "aggChild c1 = s'"
    "finalizedIter c1 = finalizedIter c" by auto
  have "aggLoop w key a ite c = aggLoop w key a ite c1"
    using yields_Cons.hyps(1) yields_Cons.prems(4) c1(1) by (subst aggLoop.simps) simp
  with yields_Cons.IH [OF _ _ c1(2,3)] yields_Cons.prems(1,2) c1(4) show ?case by simp
qed

text \<open>The rows of the result: a group tuple and the aggregates of its group.\<close>

lemma finalized_yields:
  assumes inv: "grouped w key grp a ts c" and e: "ended ite (aggChild c)"
    and fin: "\<And>g as. g \<in> grp ` set ts \<Longrightarrow> as \<in> set (newAggState a) \<Longrightarrow> aggregate w (groupOf key grp (key g) ts) as = Ok (ft g as)"
    and "cur \<le> length (groupByList c)"
  shows "\<exists>rs c'. yields (aggNext w key a ite) (c\<lparr>finalizedIter := GroupIter cur\<rparr>) rs c' \<and>
    map TFields rs = map (\<lambda>g. TFields g @ concat (map (\<lambda>as. TFields (ft g as)) (newAggState a))) (drop cur (groupByList c))"
  using assms(4)
proof (induction "length (groupByList c) - cur" arbitrary: cur)
  case 0
  then show ?case using aggLoop_ended [of ite "c\<lparr>finalizedIter := GroupIter cur\<rparr>"] e
    by (intro exI [of _ "[]"] exI [of _ "c\<lparr>finalizedIter := GroupIter cur\<rparr>"]) (simp add: aggNext_def finalizedNext_def)
next
  case (Suc n)
  then have cur: "cur < length (groupByList c)" and n: "n = length (groupByList c) - Suc cur" by simp_all
  let ?g = "groupByList c ! cur" and ?row = "\<lambda>g. TFields g @ concat (map (\<lambda>as. TFields (ft g as)) (newAggState a))"
  have "?g \<in> set (firstBy key [] (map grp ts))" using inv cur by (simp add: grouped_def)
  then have g: "?g \<in> grp ` set ts" using firstBy_subset [of key "[]" "map grp ts"] by auto
  then have m: "map_of (aggMap c) (HashKey (key ?g)) = Some (map (\<lambda>as. Some (partialAgg w (groupOf key grp (key ?g) ts) as)) (newAggState a))"
    using inv by (auto simp: grouped_def)
  obtain t where t: "finalizeAll (Some ?g) (map (\<lambda>as. Some (partialAgg w (groupOf key grp (key ?g) ts) as)) (newAggState a)) = Ok (Some t)"
    "TFields t = ?row ?g"
    using finalizeAll_Some [of "newAggState a" "partialAgg w (groupOf key grp (key ?g) ts)" "ft ?g" ?g] partialAgg_done fin [OF g] by metis
  have "aggNext w key a ite (c\<lparr>finalizedIter := GroupIter cur\<rparr>) = Some (Ok (Some t), c\<lparr>finalizedIter := GroupIter (Suc cur)\<rparr>)"
    using aggLoop_ended [of ite "c\<lparr>finalizedIter := GroupIter cur\<rparr>"] e cur m t(1) by (simp add: aggNext_def finalizedNext_def)
  moreover obtain rs c' where "yields (aggNext w key a ite) (c\<lparr>finalizedIter := GroupIter (Suc cur)\<rparr>) rs c'"
      "map TFields rs = map ?row (drop (Suc cur) (groupByList c))"
    using Suc.hyps(1) [OF n] cur by auto
  ultimately show ?case using t(2) cur
    by (intro exI [of _ "t # rs"] exI [of _ c']) (auto simp: Cons_nth_drop_Suc [symmetric] intro: yields_Cons)
qed

text \<open>The first occurrences of the elements of a list, in order.\<close>

lemma firstBy_first: "inj_on key (set xs) \<Longrightarrow> firstBy key [] xs = rev (remdups (rev xs))"
proof (induction xs rule: rev_induct)
  case (snoc x xs)
  have "key x \<in> key ` set xs \<longleftrightarrow> x \<in> set xs" by (rule inj_on_image_mem_iff [OF snoc.prems]) auto
  moreover have "inj_on key (set xs)" by (rule inj_on_subset [OF snoc.prems]) auto
  ultimately show ?case using snoc.IH by (simp add: firstBy_snoc)
qed simp

text \<open>
  C35: \<^verbatim>\<open>GROUP BY\<close> partitions its input. An aggregation with group expressions, and a tuple hash without collision among
  the group tuples, reads its child to the end and yields one row for each distinct group, in the order in which
  the groups occur first in the input, and then ends: each row has the group's values followed by the results of the aggregates over
  exactly the tuples of that group.
\<close>

theorem group_by_yields:
  assumes "groupByFields a \<noteq> None" and "yields ite s ts s'" and "ended ite s'"
    and "\<forall>t \<in> set ts. extractGroupByKeyTuple w a t = Ok (grp t)" and "inj_on key (grp ` set ts)"
    and "\<forall>g \<in> grp ` set ts. \<forall>as \<in> set (newAggState a). aggregate w (filter (\<lambda>t. grp t = g) ts) as = Ok (ft g as)"
  shows "\<exists>c groups rs c'. aggOpen a (Ok (Some s)) = Ok c \<and> groups = rev (remdups (rev (map grp ts))) \<and>
    yields (aggNext w key a ite) c rs c' \<and>
    map TFields rs = map (\<lambda>g. TFields g @ concat (map (\<lambda>as. TFields (ft g as)) (newAggState a))) groups"
proof -
  let ?c = "\<lparr>aggChild = s, aggMap = [], groupByList = [], finalizedIter = NoIter\<rparr>"
  have o: "aggOpen a (Ok (Some s)) = Ok ?c" using assms(1) by (simp add: aggOpen_def)
  have same: "groupOf key grp (key g) ts = filter (\<lambda>t. grp t = g) ts" if "g \<in> grp ` set ts" for g
    unfolding groupOf_def using that assms(5) by (intro filter_cong) (auto dest: inj_onD)
  have adds: "\<forall>h. \<forall>as \<in> set (newAggState a). \<exists>b. addAll w (groupOf key grp h ([] @ ts)) (Copy as) = Ok b"
  proof (intro allI ballI)
    fix h as assume as: "as \<in> set (newAggState a)"
    show "\<exists>b. addAll w (groupOf key grp h ([] @ ts)) (Copy as) = Ok b"
    proof (cases "h \<in> key ` grp ` set ts")
      case True
      then show ?thesis using same assms(6) as aggregate_addAll by fastforce
    next
      case False
      then have "groupOf key grp h ts = []" by (auto simp: groupOf_def filter_empty_conv)
      then show ?thesis by simp
    qed
  qed
  have "grouped w key grp a [] ?c" by (simp add: grouped_def)
  from aggLoop_grouped [OF assms(2,1,4) adds this] obtain c1 where
    loop: "aggLoop w key a ite ?c = Some (Ok (), c1)" and c1: "grouped w key grp a ts c1" "aggChild c1 = s'" "finalizedIter c1 = NoIter" by auto
  let ?gs = "groupByList c1"
  have gs: "?gs = firstBy key [] (map grp ts)" using c1(1) by (simp add: grouped_def)
  obtain es where "groupByFields a = Some es" using assms(1) by blast
  then have first: "aggNext w key a ite ?c = aggNext w key a ite (c1\<lparr>finalizedIter := GroupIter 0\<rparr>)"
    using loop c1(2,3) assms(3) aggLoop_ended [of ite "c1\<lparr>finalizedIter := GroupIter 0\<rparr>"]
    by (simp add: aggNext_def)
  obtain rs c' where y: "yields (aggNext w key a ite) (c1\<lparr>finalizedIter := GroupIter 0\<rparr>) rs c'"
    and rs: "map TFields rs = map (\<lambda>g. TFields g @ concat (map (\<lambda>as. TFields (ft g as)) (newAggState a))) ?gs"
    using finalized_yields [OF c1(1), of ite ft 0] assms(3,6) c1(2) same by auto
  have "yields (aggNext w key a ite) ?c rs c'" by (rule yields_same_next [OF first y])
  moreover have "?gs = rev (remdups (rev (map grp ts)))" using assms(5) by (simp add: gs firstBy_first)
  ultimately show ?thesis using o rs by blast
qed

section \<open>The aggregation on an example\<close>

definition exCount :: AggState where
  "exCount = ACount (Count_Init ''n'' exField \<lparr>countAlias = '''', countExpr = exField, countCount = 0\<rparr>)"

lemma exCount_aggregate:
  "aggregate w ts exCount = Ok \<lparr>Desc = intColumn ''n'', TFields = [IntField (of_nat (length ts))], Rid = None\<rparr>"
  by (simp add: aggregate_def exCount_def addAll_Count Count_Init_def Count_Copy_def Count_Finalize_def Count_GetTupleDesc_def)

lemma exEnded: "ended (valueNext exWorld (NewValueOp exWorld exRows)) 3"
  by (simp add: ended_def valueNext_def NewValueOp_def exRows_def)

theorem aggregator_yields_witness:
  "\<exists>c t c'. aggOpen (NewAggregator [exCount]) (Ok (Some 0)) = Ok c \<and>
    yields (aggNext exWorld TFields (NewAggregator [exCount]) (valueNext exWorld (NewValueOp exWorld exRows))) c [t] c' \<and>
    TFields t = [IntField 3]"
  using aggregator_yields [of "NewAggregator [exCount]", OF _ _ exChild exEnded, of exWorld
      "\<lambda>as. case aggregate exWorld [exTuple 7, exTuple 3, exTuple 7] as of Ok t \<Rightarrow> t" TFields]
  by (simp add: NewAggregator_def exCount_aggregate)

theorem group_by_yields_witness:
  "\<exists>c rs c'. aggOpen (NewGroupedAggregator [exCount] [exField]) (Ok (Some 0)) = Ok c \<and>
    yields (aggNext exWorld TFields (NewGroupedAggregator [exCount] [exField]) (valueNext exWorld (NewValueOp exWorld exRows))) c rs c' \<and>
    map TFields rs = [[IntField 7, IntField 2], [IntField 3, IntField 1]]"
proof -
  let ?a = "NewGroupedAggregator [exCount] [exField]" and ?ts = "[exTuple 7, exTuple 3, exTuple 7]"
  let ?grp = "\<lambda>t. \<lparr>Desc = \<lparr>Fields = [GetExprType exWorld exField]\<rparr>, TFields = TFields t, Rid = None\<rparr>"
  let ?ft = "\<lambda>g as. \<lparr>Desc = intColumn ''n'', TFields = [IntField (of_nat (length (filter (\<lambda>t. ?grp t = g) ?ts)))], Rid = None\<rparr>"
  have f: "TFields (exTuple n) = [IntField n]" for n by (simp add: exTuple_def)
  have g: "groupByFields ?a \<noteq> None" and n: "newAggState ?a = [exCount]" by (simp_all add: NewGroupedAggregator_def)
  have ex: "\<forall>t \<in> set ?ts. extractGroupByKeyTuple exWorld ?a t = Ok (?grp t)"
    by (simp add: extractGroupByKeyTuple_def groupExprs_def NewGroupedAggregator_def exField_value f)
  have inj: "inj_on TFields (?grp ` set ?ts)" by (auto simp: inj_on_def f)
  have agg: "\<forall>g \<in> ?grp ` set ?ts. \<forall>as \<in> set (newAggState ?a). aggregate exWorld (filter (\<lambda>t. ?grp t = g) ?ts) as = Ok (?ft g as)"
    by (simp add: n exCount_aggregate)
  have gs: "rev (remdups (rev (map ?grp ?ts))) = [?grp (exTuple 7), ?grp (exTuple 3)]" by (simp add: f)
  obtain c rs c' where o: "aggOpen ?a (Ok (Some 0)) = Ok c"
    and y: "yields (aggNext exWorld TFields ?a (valueNext exWorld (NewValueOp exWorld exRows))) c rs c'"
    and rs: "map TFields rs = map (\<lambda>g. TFields g @ concat (map (\<lambda>as. TFields (?ft g as)) (newAggState ?a))) (rev (remdups (rev (map ?grp ?ts))))"
    using group_by_yields [OF g exChild exEnded ex inj agg] by blast
  have "map TFields rs = [[IntField 7, IntField 2], [IntField 3, IntField 1]]" unfolding rs gs n by (simp add: f)
  with o y show ?thesis by (intro exI [of _ c] exI [of _ rs] exI [of _ c'] conjI)
qed

end
