(* ===== verification/BufferPool.thy ===== *)
theory BufferPool
  imports HeapFileIO
begin

text \<open>
  \<^verbatim>\<open>godb/buffer_pool.go\<close>: the page cache, the page locks held by transactions, the waits-for relation
  and the deadlock check, \<^verbatim>\<open>GetPage\<close>, commit and abort.

  Pages are shared objects: the pool, the lock table and the callers of \<^verbatim>\<open>GetPage\<close> hold pointers to
  them. \<open>objs\<close> is the store of page objects and a pointer is an index into it. Go maps are association
  lists; the iteration order of \<^verbatim>\<open>range\<close> is the order of the list.

  Each function here is one critical section under \<^verbatim>\<open>bp.mu\<close>. The loop of \<^verbatim>\<open>handleTransactionInGetPage\<close>
  gives up the mutex between rounds; run on its own, without other goroutines, it never ends when a
  lock stays taken, which is the value \<open>None\<close> of \<open>GetPage\<close>. The parameter \<^verbatim>\<open>task\<close> is only logged.
\<close>

section \<open>State\<close>

datatype RWPerm = ReadPerm | WritePerm

type_synonym page_ref = nat

record PageLock =
  lockPage :: page_ref
  lockPageNo :: nat
  perm :: RWPerm
  lockKey :: heapHash

type_synonym LockTable = "(TransactionID \<times> (heapHash \<times> PageLock) list) list"
type_synonym WaitTable = "(TransactionID \<times> TransactionID list) list"

record BufferPool =
  numPages :: int
  pages :: "(heapHash \<times> page_ref) list"
  mapPageLocksByTid :: LockTable
  waitTidLocks :: WaitTable

record DB = BufferPool +
  objs :: "heapPage list"
  disk :: Disk

definition NewBufferPool :: "int \<Rightarrow> Disk \<Rightarrow> DB" where
  "NewBufferPool n d =
     \<lparr>numPages = n, pages = [], mapPageLocksByTid = [], waitTidLocks = [], objs = [], disk = d\<rparr>"

definition locksOf :: "LockTable \<Rightarrow> TransactionID \<Rightarrow> (heapHash \<times> PageLock) list" where
  "locksOf m tid = (case map_of m tid of None \<Rightarrow> [] | Some ls \<Rightarrow> ls)"

definition waitsOf :: "WaitTable \<Rightarrow> TransactionID \<Rightarrow> TransactionID list" where
  "waitsOf w tid = (case map_of w tid of None \<Rightarrow> [] | Some ts \<Rightarrow> ts)"

section \<open>Waits-for edges\<close>

definition deleteWaitTidLocks :: "TransactionID \<Rightarrow> DB \<Rightarrow> DB" where
  "deleteWaitTidLocks tid db = db\<lparr>waitTidLocks :=
     filter (\<lambda>(k, ts). ts \<noteq> [])
       (map (\<lambda>(k, ts). (k, removeAll tid ts)) (AList.delete tid (waitTidLocks db)))\<rparr>"

text \<open>\<^verbatim>\<open>waitTidLocks[tid][t] = struct{}{}\<close>, creating the inner map when it is missing.\<close>

definition addWait :: "TransactionID \<Rightarrow> TransactionID \<Rightarrow> WaitTable \<Rightarrow> WaitTable" where
  "addWait tid t w = AList.update tid (List.insert t (waitsOf w tid)) w"

definition conflictsWith :: "nat \<Rightarrow> RWPerm \<Rightarrow> (heapHash \<times> PageLock) list \<Rightarrow> bool" where
  "conflictsWith pgNo p ls =
     list_ex (\<lambda>(_, l). lockPageNo l = pgNo \<and> (perm l = WritePerm \<or> p = WritePerm)) ls"

fun conflictLoop :: "nat \<Rightarrow> TransactionID \<Rightarrow> RWPerm \<Rightarrow> LockTable \<Rightarrow> WaitTable \<Rightarrow> bool \<times> WaitTable" where
  "conflictLoop pgNo tid p [] w = (False, w)"
| "conflictLoop pgNo tid p ((t, ls) # rest) w =
     (if t = tid then conflictLoop pgNo tid p rest w
      else if conflictsWith pgNo p ls then (True, snd (conflictLoop pgNo tid p rest (addWait tid t w)))
      else conflictLoop pgNo tid p rest w)"

definition isConflicted :: "nat \<Rightarrow> TransactionID \<Rightarrow> RWPerm \<Rightarrow> DB \<Rightarrow> bool \<times> DB" where
  "isConflicted pgNo tid p db =
     (let (c, w) = conflictLoop pgNo tid p (mapPageLocksByTid db) (waitTidLocks db)
      in (c, db\<lparr>waitTidLocks := w\<rparr>))"

text \<open>
  The depth-first search of \<^verbatim>\<open>deadLockPrevent\<close>. \<open>deadLockLoop\<close> is its \<^verbatim>\<open>for\<close> loop, with the test that
  opens the recursive call unfolded; the equation \<open>deadLockLoop_Cons\<close> below has the call itself. The
  visited map is shared by all calls, so it is threaded through and returned.
\<close>

definition waitNodes :: "WaitTable \<Rightarrow> TransactionID set" where
  "waitNodes w = fst ` set w \<union> (\<Union>(_, ts) \<in> set w. set ts)"

lemma finite_waitNodes [simp]: "finite (waitNodes w)"
  by (auto simp: waitNodes_def)

lemma waitsOf_outside [simp]: "t \<notin> waitNodes w \<Longrightarrow> waitsOf w t = []"
  by (auto simp: waitsOf_def waitNodes_def image_iff split: option.splits dest!: map_of_SomeD)

function deadLockLoop ::
  "WaitTable \<Rightarrow> TransactionID \<Rightarrow> TransactionID list \<Rightarrow> TransactionID list \<Rightarrow> bool \<times> TransactionID list" where
  "deadLockLoop w root [] visited = (False, visited)"
| "deadLockLoop w root (t # ts) visited =
     (if t \<in> set visited then deadLockLoop w root ts visited
      else if root \<in> set (waitsOf w t) then (True, t # visited)
      else (case deadLockLoop w root (waitsOf w t) (t # visited) of
         (True, v) \<Rightarrow> (True, v)
       | (False, v) \<Rightarrow> deadLockLoop w root ts v))"
  by pat_completeness auto

lemma deadLockLoop_visited_dom:
  "deadLockLoop_dom (w, root, ts, visited) \<Longrightarrow> set visited \<subseteq> set (snd (deadLockLoop w root ts visited))"
  by (induction w root ts visited rule: deadLockLoop.pinduct)
    (force simp: deadLockLoop.psimps split: prod.splits bool.splits)+

termination deadLockLoop
proof (relation "inv_image (finite_psubset <*lex*> less_than)
    (\<lambda>(w, root, ts, visited). (waitNodes w - set visited, length ts))", goal_cases)
  case 1
  show ?case by auto
next
  case 2
  then show ?case by (simp add: finite_psubset_def)
next
  case (3 w root t ts visited)
  then show ?case by (cases "t \<in> waitNodes w") (auto simp: finite_psubset_def)
next
  case (4 w root t ts visited b v)
  then have "snd (deadLockLoop w root (waitsOf w t) (t # visited)) = v" by (metis snd_conv)
  with 4 have "set (t # visited) \<subseteq> set v"
    using deadLockLoop_visited_dom [of w root "waitsOf w t" "t # visited"] by auto
  with 4 show ?case by (cases "t \<in> waitNodes w") (auto simp: finite_psubset_def)
qed

definition deadLockPrevent ::
  "WaitTable \<Rightarrow> TransactionID \<Rightarrow> TransactionID list \<Rightarrow> TransactionID list \<Rightarrow> bool \<times> TransactionID list" where
  "deadLockPrevent w root tidMap visited =
     (if root \<in> set tidMap then (True, visited) else deadLockLoop w root tidMap visited)"

lemma deadLockLoop_Cons:
  "deadLockLoop w root (t # ts) visited =
     (if t \<in> set visited then deadLockLoop w root ts visited
      else (case deadLockPrevent w root (waitsOf w t) (t # visited) of
         (True, v) \<Rightarrow> (True, v)
       | (False, v) \<Rightarrow> deadLockLoop w root ts v))"
  by (simp add: deadLockPrevent_def)

section \<open>Locks\<close>

definition saveMapAndUpgradeLock :: "nat \<Rightarrow> heapHash \<Rightarrow> page_ref \<Rightarrow> TransactionID \<Rightarrow> RWPerm \<Rightarrow> DB \<Rightarrow> DB" where
  "saveMapAndUpgradeLock pgNo key page tid p db =
     (let ls = locksOf (mapPageLocksByTid db) tid in
      if map_of ls key = None \<or> p = WritePerm then
        db\<lparr>mapPageLocksByTid := AList.update tid
             (AList.update key \<lparr>lockPage = page, lockPageNo = pgNo, perm = p, lockKey = key\<rparr> ls)
             (mapPageLocksByTid db)\<rparr>
      else db)"

definition clearMap :: "TransactionID \<Rightarrow> DB \<Rightarrow> DB" where
  "clearMap tid db =
     deleteWaitTidLocks tid
       (db\<lparr>pages := fold (\<lambda>(_, l) ps. if perm l = WritePerm then AList.delete (lockKey l) ps else ps)
              (locksOf (mapPageLocksByTid db) tid) (pages db),
           mapPageLocksByTid := AList.delete tid (mapPageLocksByTid db)\<rparr>)"

text \<open>\<^verbatim>\<open>waitWhenConflict\<close>: the error of an aborted transaction, or the wait (nothing here) and no error.\<close>

definition waitWhenConflict :: "TransactionID \<Rightarrow> DB \<Rightarrow> GoError option \<times> DB" where
  "waitWhenConflict tid db =
     (if fst (deadLockPrevent (waitTidLocks db) tid (waitsOf (waitTidLocks db) tid) [])
      then (Some (PlainError ''transaction is aborted''), clearMap tid db)
      else (None, db))"

text \<open>
  One round of the loop of \<^verbatim>\<open>handleTransactionInGetPage\<close>, which is what runs between two waits:
  the lock is granted, the transaction is aborted, or the goroutine goes to sleep.
\<close>

datatype round = Granted | Aborted GoError | Sleeps

definition lockRound :: "nat \<Rightarrow> heapHash \<Rightarrow> page_ref \<Rightarrow> TransactionID \<Rightarrow> RWPerm \<Rightarrow> DB \<Rightarrow> round \<times> DB" where
  "lockRound pgNo key page tid p db =
     (case isConflicted pgNo tid p db of
        (True, db1) \<Rightarrow> (case waitWhenConflict tid db1 of
           (Some e, db2) \<Rightarrow> (Aborted e, db2)
         | (None, db2) \<Rightarrow> (Sleeps, db2))
      | (False, db1) \<Rightarrow>
          (Granted, deleteWaitTidLocks tid (saveMapAndUpgradeLock pgNo key page tid p db1)))"

partial_function (option) handleTransactionInGetPage ::
  "nat \<Rightarrow> heapHash \<Rightarrow> page_ref \<Rightarrow> TransactionID \<Rightarrow> RWPerm \<Rightarrow> DB \<Rightarrow> (GoError option \<times> DB) option" where
  "handleTransactionInGetPage pgNo key page tid p db =
     (case lockRound pgNo key page tid p db of
        (Granted, db') \<Rightarrow> Some (None, db')
      | (Aborted e, db') \<Rightarrow> Some (Some e, db')
      | (Sleeps, db') \<Rightarrow> handleTransactionInGetPage pgNo key page tid p db')"

section \<open>Fetching pages\<close>

text \<open>The eviction loop of \<^verbatim>\<open>GetPage\<close>: the first clean page the iteration meets leaves the pool.\<close>

definition evictPage :: "DB \<Rightarrow> DB option" where
  "evictPage db =
     (case List.find (\<lambda>(_, r). \<not> isDirty (objs db ! r)) (pages db) of
        None \<Rightarrow> None
      | Some (_, r) \<Rightarrow>
          Some (db\<lparr>pages := AList.delete (pageKey (pgFile (objs db ! r)) (pageNo (objs db ! r))) (pages db)\<rparr>))"

text \<open>The part of \<^verbatim>\<open>GetPage\<close> before locking: the cached page, or one read from disk into the pool.\<close>

definition fetchPage :: "HeapFile \<Rightarrow> nat \<Rightarrow> DB \<Rightarrow> page_ref result \<times> DB" where
  "fetchPage f n db =
     (case map_of (pages db) (pageKey f n) of
        Some r \<Rightarrow> (Ok r, db)
      | None \<Rightarrow>
          (case (if int (length (pages db)) \<ge> numPages db then evictPage db else Some db) of
             None \<Rightarrow> (Err (PlainError ''buffer pool is full of dirty pages''), db)
           | Some db1 \<Rightarrow> (case readPage f n (disk db1) of
               Err e \<Rightarrow> (Err e, db1)
             | Panic x \<Rightarrow> (Panic x, db1)
             | Ok p \<Rightarrow> (Ok (length (objs db1)),
                   db1\<lparr>objs := objs db1 @ [p], pages := AList.update (pageKey f n) (length (objs db1)) (pages db1)\<rparr>))))"

definition GetPage :: "HeapFile \<Rightarrow> nat \<Rightarrow> TransactionID \<Rightarrow> RWPerm \<Rightarrow> DB \<Rightarrow> (page_ref result \<times> DB) option" where
  "GetPage f n tid p db =
     (case fetchPage f n db of
        (Ok r, db1) \<Rightarrow> (case handleTransactionInGetPage n (pageKey f n) r tid p db1 of
            None \<Rightarrow> None
          | Some (Some e, db2) \<Rightarrow> Some (Err e, db2)
          | Some (None, db2) \<Rightarrow> Some (Ok r, db2))
      | (Err e, db1) \<Rightarrow> Some (Err e, db1)
      | (Panic x, db1) \<Rightarrow> Some (Panic x, db1))"

section \<open>Transactions\<close>

definition BeginTransaction :: "TransactionID \<Rightarrow> DB \<Rightarrow> DB" where
  "BeginTransaction tid db = db"

definition AbortTransaction :: "TransactionID \<Rightarrow> DB \<Rightarrow> DB" where
  "AbortTransaction tid db = clearMap tid db"

text \<open>Flushing a page object through its own file; the object is marked clean.\<close>

definition flushObj :: "page_ref \<Rightarrow> DB \<Rightarrow> DB result" where
  "flushObj r db =
     bind_go (flushPage (pgFile (objs db ! r)) (objs db ! r) (disk db)) (\<lambda>(p, d).
       Ok (db\<lparr>objs := (objs db)[r := p], disk := d\<rparr>))"

text \<open>The flush loop of \<^verbatim>\<open>CommitTransaction\<close>; an error of \<^verbatim>\<open>flushPage\<close> is raised with \<^verbatim>\<open>panic(err)\<close>.\<close>

fun commitLoop :: "(heapHash \<times> PageLock) list \<Rightarrow> DB \<Rightarrow> DB result" where
  "commitLoop [] db = Ok db"
| "commitLoop ((_, l) # ls) db =
     (if \<not> isDirty (objs db ! lockPage l) then commitLoop ls db
      else case flushObj (lockPage l) db of
        Ok db' \<Rightarrow> commitLoop ls db'
      | Err e \<Rightarrow> Panic ExplicitPanic
      | Panic x \<Rightarrow> Panic x)"

definition CommitTransaction :: "TransactionID \<Rightarrow> DB \<Rightarrow> DB result" where
  "CommitTransaction tid db =
     bind_go (commitLoop (locksOf (mapPageLocksByTid db) tid) db) (\<lambda>db1.
       Ok (deleteWaitTidLocks tid (db1\<lparr>mapPageLocksByTid := AList.delete tid (mapPageLocksByTid db1)\<rparr>)))"

text \<open>\<^verbatim>\<open>FlushAllPages\<close> ignores the error of each flush.\<close>

fun flushAllLoop :: "(heapHash \<times> page_ref) list \<Rightarrow> DB \<Rightarrow> DB result" where
  "flushAllLoop [] db = Ok db"
| "flushAllLoop ((_, r) # ps) db =
     (case flushObj r db of
        Ok db' \<Rightarrow> flushAllLoop ps db'
      | Err e \<Rightarrow> flushAllLoop ps db
      | Panic x \<Rightarrow> Panic x)"

definition FlushAllPages :: "DB \<Rightarrow> DB result" where
  "FlushAllPages db = flushAllLoop (pages db) db"

section \<open>The deadlock check\<close>

text \<open>The waits-for relation that the table stores.\<close>

definition waitsFor :: "WaitTable \<Rightarrow> (TransactionID \<times> TransactionID) set" where
  "waitsFor w = {(a, b). b \<in> set (waitsOf w a)}"

lemma deadLockLoop_visited: "set visited \<subseteq> set (snd (deadLockLoop w root ts visited))"
  by (induction w root ts visited rule: deadLockLoop.induct) (force split: prod.splits bool.splits)+

lemma deadLockLoop_sound:
  "fst (deadLockLoop w root ts visited) \<Longrightarrow> \<exists>t \<in> set ts. (t, root) \<in> (waitsFor w)\<^sup>+"
proof (induction w root ts visited rule: deadLockLoop.induct)
  case (1 w root visited)
  then show ?case by simp
next
  case (2 w root t ts visited)
  consider (seen) "t \<in> set visited"
    | (edge) "t \<notin> set visited" "root \<in> set (waitsOf w t)"
    | (deeper) "t \<notin> set visited" "root \<notin> set (waitsOf w t)" "fst (deadLockLoop w root (waitsOf w t) (t # visited))"
    | (later) v where "t \<notin> set visited" "root \<notin> set (waitsOf w t)"
        "deadLockLoop w root (waitsOf w t) (t # visited) = (False, v)"
    by (cases "deadLockLoop w root (waitsOf w t) (t # visited)") auto
  then show ?case
  proof cases
    case seen
    then show ?thesis using "2.IH"(1) "2.prems" by auto
  next
    case edge
    then have "(t, root) \<in> waitsFor w" by (simp add: waitsFor_def)
    then show ?thesis by auto
  next
    case deeper
    with "2.IH"(2) obtain u where "u \<in> set (waitsOf w t)" "(u, root) \<in> (waitsFor w)\<^sup>+" by blast
    then have "(t, root) \<in> (waitsFor w)\<^sup>+" by (auto simp: waitsFor_def intro: trancl_into_trancl2)
    then show ?thesis by simp
  next
    case later
    then show ?thesis using "2.IH"(3) [OF later(1,2) later(3)[symmetric]] "2.prems" by simp
  qed
qed

lemma deadLockLoop_closed:
  "deadLockLoop w root ts visited = (False, v) \<Longrightarrow>
   set ts \<subseteq> set v \<and> (\<forall>x \<in> set v - set visited. set (waitsOf w x) \<subseteq> set v \<and> root \<notin> set (waitsOf w x))"
proof (induction w root ts visited arbitrary: v rule: deadLockLoop.induct)
  case (1 w root visited)
  then show ?case by simp
next
  case (2 w root t ts visited)
  show ?case
  proof (cases "t \<in> set visited")
    case True
    with 2 deadLockLoop_visited [of visited w root ts] show ?thesis by auto
  next
    case False
    with "2.prems" obtain u where root: "root \<notin> set (waitsOf w t)"
        and u: "deadLockLoop w root (waitsOf w t) (t # visited) = (False, u)"
        and v: "deadLockLoop w root ts u = (False, v)"
      by (auto split: prod.splits bool.splits if_splits)
    from "2.IH"(2) [OF False root u] have iu: "set (waitsOf w t) \<subseteq> set u"
      "\<forall>x \<in> set u - set (t # visited). set (waitsOf w x) \<subseteq> set u \<and> root \<notin> set (waitsOf w x)" by auto
    from "2.IH"(3) [OF False root u[symmetric] _ v] have iv: "set ts \<subseteq> set v"
      "\<forall>x \<in> set v - set u. set (waitsOf w x) \<subseteq> set v \<and> root \<notin> set (waitsOf w x)" by auto
    have "set (t # visited) \<subseteq> set u" "set u \<subseteq> set v"
      using deadLockLoop_visited [of "t # visited" w root "waitsOf w t"] u
        deadLockLoop_visited [of u w root ts] v by auto
    with iu iv root show ?thesis by (auto, blast+)
  qed
qed

lemma closed_trancl:
  assumes "(a, b) \<in> (waitsFor w)\<^sup>+" and "a \<in> A" and "\<And>x. x \<in> A \<Longrightarrow> set (waitsOf w x) \<subseteq> A"
  shows "\<exists>x \<in> A. b \<in> set (waitsOf w x)"
  using assms(1,2)
proof (induction rule: trancl_induct)
  case (base y)
  then show ?case by (auto simp: waitsFor_def)
next
  case (step y z)
  then show ?case using assms(3) by (fastforce simp: waitsFor_def)
qed

lemma deadLockPrevent_iff:
  "fst (deadLockPrevent w root (waitsOf w root) []) \<longleftrightarrow> (root, root) \<in> (waitsFor w)\<^sup>+"
proof
  assume "fst (deadLockPrevent w root (waitsOf w root) [])"
  then show "(root, root) \<in> (waitsFor w)\<^sup>+"
    using deadLockLoop_sound [of w root "waitsOf w root" "[]"]
    by (auto simp: deadLockPrevent_def waitsFor_def split: if_splits intro: trancl_into_trancl2)
next
  assume cyc: "(root, root) \<in> (waitsFor w)\<^sup>+"
  show "fst (deadLockPrevent w root (waitsOf w root) [])"
  proof (rule ccontr)
    assume "\<not> ?thesis"
    then obtain v where out: "root \<notin> set (waitsOf w root)" and v: "deadLockLoop w root (waitsOf w root) [] = (False, v)"
      by (cases "deadLockLoop w root (waitsOf w root) []") (auto simp: deadLockPrevent_def split: if_splits)
    from deadLockLoop_closed [OF v] have "set (waitsOf w root) \<subseteq> set v"
      "\<And>x. x \<in> set v \<Longrightarrow> set (waitsOf w x) \<subseteq> set v \<and> root \<notin> set (waitsOf w x)" by auto
    then show False
      using closed_trancl [OF cyc, of "insert root (set v)"] out by auto
  qed
qed

section \<open>Conflicts\<close>

definition table_ok :: "LockTable \<Rightarrow> bool" where
  "table_ok m \<longleftrightarrow> distinct (map fst m) \<and>
     (\<forall>(t, ls) \<in> set m. distinct (map fst ls) \<and>
        (\<forall>(k, l) \<in> set ls. lockKey l = k \<and> lockPageNo l = HPageNo k))"

definition holds :: "LockTable \<Rightarrow> TransactionID \<Rightarrow> PageLock \<Rightarrow> bool" where
  "holds m t l \<longleftrightarrow> (\<exists>k. (k, l) \<in> set (locksOf m t))"

definition locks_compatible :: "LockTable \<Rightarrow> bool" where
  "locks_compatible m \<longleftrightarrow>
     (\<forall>t t' l l'. t \<noteq> t' \<longrightarrow> holds m t l \<longrightarrow> holds m t' l' \<longrightarrow> lockPageNo l = lockPageNo l' \<longrightarrow>
        perm l = ReadPerm \<and> perm l' = ReadPerm)"

definition blockers :: "LockTable \<Rightarrow> nat \<Rightarrow> TransactionID \<Rightarrow> RWPerm \<Rightarrow> TransactionID set" where
  "blockers m n tid p =
     {t. t \<noteq> tid \<and> (\<exists>l. holds m t l \<and> lockPageNo l = n \<and> (perm l = WritePerm \<or> p = WritePerm))}"

lemma locksOf_Nil [simp]: "locksOf [] t = []"
  by (simp add: locksOf_def)

lemma locksOf_Cons [simp]: "locksOf ((t, ls) # m) t' = (if t' = t then ls else locksOf m t')"
  by (simp add: locksOf_def)

lemma locksOf_update [simp]: "locksOf (AList.update t ls m) t' = (if t' = t then ls else locksOf m t')"
  by (simp add: locksOf_def)

lemma locksOf_delete [simp]: "locksOf (AList.delete t m) t' = (if t' = t then [] else locksOf m t')"
  by (simp add: locksOf_def)

lemma waitsOf_update [simp]: "waitsOf (AList.update t ts w) t' = (if t' = t then ts else waitsOf w t')"
  by (simp add: waitsOf_def)

lemma waitsOf_delete [simp]: "waitsOf (AList.delete t w) t' = (if t' = t then [] else waitsOf w t')"
  by (simp add: waitsOf_def)

lemma conflictsWith_iff:
  "conflictsWith n p (locksOf m t) \<longleftrightarrow>
     (\<exists>l. holds m t l \<and> lockPageNo l = n \<and> (perm l = WritePerm \<or> p = WritePerm))"
  by (auto simp: conflictsWith_def holds_def list_ex_iff)

lemma locksOf_absent: "t \<notin> fst ` set m \<Longrightarrow> locksOf m t = []"
  by (simp add: locksOf_def map_of_eq_None_iff [symmetric])

lemma conflictLoop_spec:
  assumes "distinct (map fst m)"
  shows "fst (conflictLoop n tid p m w) \<longleftrightarrow> blockers m n tid p \<noteq> {}"
    and "set (waitsOf (snd (conflictLoop n tid p m w)) t) =
      set (waitsOf w t) \<union> (if t = tid then blockers m n tid p else {})"
proof -
  have "(fst (conflictLoop n tid p m w) \<longleftrightarrow> (\<exists>t. t \<noteq> tid \<and> conflictsWith n p (locksOf m t))) \<and>
      (\<forall>t. set (waitsOf (snd (conflictLoop n tid p m w)) t) =
        set (waitsOf w t) \<union> (if t = tid then {t. t \<noteq> tid \<and> conflictsWith n p (locksOf m t)} else {}))"
    using assms
  proof (induction n tid p m w rule: conflictLoop.induct)
    case (1 n tid p w)
    then show ?case by (simp add: conflictsWith_def)
  next
    case (2 n tid p t ls rest w)
    then have "locksOf rest t = []" by (auto intro: locksOf_absent)
    then have out: "\<not> conflictsWith n p (locksOf rest t)" by (simp add: conflictsWith_def)
    show ?case
      using 2 out by (auto simp: addWait_def split: if_splits)
  qed
  then show "fst (conflictLoop n tid p m w) \<longleftrightarrow> blockers m n tid p \<noteq> {}"
    and "set (waitsOf (snd (conflictLoop n tid p m w)) t) =
      set (waitsOf w t) \<union> (if t = tid then blockers m n tid p else {})"
    by (auto simp: blockers_def conflictsWith_iff)
qed

lemma AList_update_same: "map_of al k = Some v \<Longrightarrow> AList.update k v al = al"
  by (induction al) (auto split: if_splits)

lemma conflictLoop_again:
  "\<forall>t. t \<noteq> tid \<and> conflictsWith n p (locksOf m t) \<longrightarrow> t \<in> set (waitsOf w tid) \<Longrightarrow> distinct (map fst m) \<Longrightarrow>
   snd (conflictLoop n tid p m w) = w"
proof (induction n tid p m w rule: conflictLoop.induct)
  case (1 n tid p w)
  then show ?case by simp
next
  case (2 n tid p t ls rest w)
  have "locksOf rest t = []" using "2.prems"(2) by (auto intro: locksOf_absent)
  then have "\<not> conflictsWith n p (locksOf rest t)" by (simp add: conflictsWith_def)
  with "2.prems"(1) have rest: "\<forall>t. t \<noteq> tid \<and> conflictsWith n p (locksOf rest t) \<longrightarrow> t \<in> set (waitsOf w tid)"
    by (metis locksOf_Cons)
  have add: "addWait tid t w = w" if "t \<noteq> tid" "conflictsWith n p ls"
  proof -
    from "2.prems"(1) that have "t \<in> set (waitsOf w tid)" by auto
    then show ?thesis
      by (auto simp: addWait_def waitsOf_def AList_update_same split: option.splits)
  qed
  with 2 rest show ?case by auto
qed

lemma isConflicted_fields [simp]:
  "pages (snd (isConflicted n tid p db)) = pages db"
  "mapPageLocksByTid (snd (isConflicted n tid p db)) = mapPageLocksByTid db"
  "objs (snd (isConflicted n tid p db)) = objs db"
  "disk (snd (isConflicted n tid p db)) = disk db"
  "numPages (snd (isConflicted n tid p db)) = numPages db"
  by (simp_all add: isConflicted_def split: prod.splits)

lemma deleteWait_fields [simp]:
  "pages (deleteWaitTidLocks tid db) = pages db"
  "mapPageLocksByTid (deleteWaitTidLocks tid db) = mapPageLocksByTid db"
  "objs (deleteWaitTidLocks tid db) = objs db"
  "disk (deleteWaitTidLocks tid db) = disk db"
  "numPages (deleteWaitTidLocks tid db) = numPages db"
  by (simp_all add: deleteWaitTidLocks_def)

lemma set_waitsOf: "distinct (map fst w) \<Longrightarrow> u \<in> set (waitsOf w t) \<longleftrightarrow> (\<exists>ts. (t, ts) \<in> set w \<and> u \<in> set ts)"
  by (auto simp: waitsOf_def map_of_eq_None_iff image_iff split: option.splits
      intro: map_of_SomeD dest: map_of_is_SomeI) 

lemma distinct_deleteWait:
  "distinct (map fst (waitTidLocks db)) \<Longrightarrow> distinct (map fst (waitTidLocks (deleteWaitTidLocks tid db)))"
proof -
  assume "distinct (map fst (waitTidLocks db))"
  then have "distinct (map fst (map (\<lambda>(k, ts). (k, removeAll tid ts)) (AList.delete tid (waitTidLocks db))))"
    by (simp add: comp_def case_prod_beta distinct_delete)
  then show ?thesis by (simp add: deleteWaitTidLocks_def distinct_map_filter)
qed

lemma set_deleteWait:
  "set (waitTidLocks (deleteWaitTidLocks tid db)) =
     {(k, removeAll tid ts) | k ts. (k, ts) \<in> set (waitTidLocks db) \<and> k \<noteq> tid \<and> removeAll tid ts \<noteq> []}"
  by (force simp: deleteWaitTidLocks_def in_set_AList_delete)

lemma waitsOf_deleteWait:
  assumes "distinct (map fst (waitTidLocks db))"
  shows "set (waitsOf (waitTidLocks (deleteWaitTidLocks tid db)) t) =
     (if t = tid then {} else set (waitsOf (waitTidLocks db) t) - {tid})"
proof (rule set_eqI)
  fix u
  have "u \<in> set (waitsOf (waitTidLocks (deleteWaitTidLocks tid db)) t) \<longleftrightarrow>
      (\<exists>ts. (t, ts) \<in> set (waitTidLocks (deleteWaitTidLocks tid db)) \<and> u \<in> set ts)"
    by (rule set_waitsOf [OF distinct_deleteWait [OF assms]])
  also have "\<dots> \<longleftrightarrow> t \<noteq> tid \<and> u \<noteq> tid \<and> (\<exists>ts. (t, ts) \<in> set (waitTidLocks db) \<and> u \<in> set ts)"
    unfolding set_deleteWait
  proof safe
    fix ts
    assume "(t, ts) \<in> set (waitTidLocks db)" "u \<in> set ts" "u \<noteq> tid" "t \<noteq> tid"
    moreover from this have "u \<in> set (removeAll tid ts)" by simp
    moreover from this have "removeAll tid ts \<noteq> []" by (metis empty_iff empty_set)
    ultimately show "\<exists>ts. (t, ts) \<in> {(k, removeAll tid ts) |k ts. (k, ts) \<in> set (waitTidLocks db) \<and>
        k \<noteq> tid \<and> removeAll tid ts \<noteq> []} \<and> u \<in> set ts" by blast
  qed auto
  finally show "u \<in> set (waitsOf (waitTidLocks (deleteWaitTidLocks tid db)) t) \<longleftrightarrow>
      u \<in> (if t = tid then {} else set (waitsOf (waitTidLocks db) t) - {tid})"
    by (auto simp: set_waitsOf [OF assms])
qed

section \<open>One round of locking\<close>

definition waits_ok :: "DB \<Rightarrow> bool" where
  "waits_ok db \<longleftrightarrow> distinct (map fst (waitTidLocks db))"

lemma distinct_conflictLoop:
  "distinct (map fst w) \<Longrightarrow> distinct (map fst (snd (conflictLoop n tid p m w)))"
  by (induction n tid p m w rule: conflictLoop.induct) (auto simp: addWait_def distinct_update)

lemma isConflicted_spec:
  assumes "table_ok (mapPageLocksByTid db)"
  shows "fst (isConflicted n tid p db) \<longleftrightarrow> blockers (mapPageLocksByTid db) n tid p \<noteq> {}"
    and "set (waitsOf (waitTidLocks (snd (isConflicted n tid p db))) t) =
      set (waitsOf (waitTidLocks db) t) \<union> (if t = tid then blockers (mapPageLocksByTid db) n tid p else {})"
    and "waits_ok db \<Longrightarrow> waits_ok (snd (isConflicted n tid p db))"
proof -
  have "distinct (map fst (mapPageLocksByTid db))" using assms by (simp add: table_ok_def)
  note spec = conflictLoop_spec [OF this, of n tid p "waitTidLocks db"]
  show "fst (isConflicted n tid p db) \<longleftrightarrow> blockers (mapPageLocksByTid db) n tid p \<noteq> {}"
    and "set (waitsOf (waitTidLocks (snd (isConflicted n tid p db))) t) =
      set (waitsOf (waitTidLocks db) t) \<union> (if t = tid then blockers (mapPageLocksByTid db) n tid p else {})"
    and "waits_ok db \<Longrightarrow> waits_ok (snd (isConflicted n tid p db))"
    using spec distinct_conflictLoop
    by (auto simp: isConflicted_def waits_ok_def split: prod.splits) (metis fst_conv snd_conv)+
qed

lemma isConflicted_again:
  assumes "table_ok (mapPageLocksByTid db)"
  shows "isConflicted n tid p (snd (isConflicted n tid p db)) =
     (fst (isConflicted n tid p db), snd (isConflicted n tid p db))"
proof -
  let ?m = "mapPageLocksByTid db" and ?w = "snd (conflictLoop n tid p (mapPageLocksByTid db) (waitTidLocks db))"
  have d: "distinct (map fst ?m)" using assms by (simp add: table_ok_def)
  have "\<forall>t. t \<noteq> tid \<and> conflictsWith n p (locksOf ?m t) \<longrightarrow> t \<in> set (waitsOf ?w tid)"
    using conflictLoop_spec(2) [OF d, of n tid p "waitTidLocks db" tid]
    by (auto simp: blockers_def conflictsWith_iff)
  then have "snd (conflictLoop n tid p ?m ?w) = ?w" using d by (intro conflictLoop_again)
  moreover have "fst (conflictLoop n tid p ?m ?w) = fst (conflictLoop n tid p ?m (waitTidLocks db))"
    using conflictLoop_spec(1) [OF d] by simp
  ultimately show ?thesis
    by (auto simp: isConflicted_def split: prod.splits)
qed

lemma lockRound_Sleeps_again:
  assumes "table_ok (mapPageLocksByTid db)" and "lockRound n k r tid p db = (Sleeps, db')"
  shows "lockRound n k r tid p db' = (Sleeps, db')"
proof -
  from assms(2) have c: "fst (isConflicted n tid p db)" and db': "db' = snd (isConflicted n tid p db)"
      and w: "waitWhenConflict tid db' = (None, db')"
    by (auto simp: lockRound_def waitWhenConflict_def split: prod.splits bool.splits option.splits if_splits)
  with isConflicted_again [OF assms(1), of n tid p] show ?thesis
    by (simp add: lockRound_def)
qed

lemma handle_Some_not_stuck:
  assumes "handleTransactionInGetPage n k r tid p db = Some y"
  shows "lockRound n k r tid p db \<noteq> (Sleeps, db)"
proof (rule handleTransactionInGetPage.raw_induct [where
      P = "\<lambda>n k r tid p db y. lockRound n k r tid p db \<noteq> (Sleeps, db)", OF _ assms])
  fix f n k r tid p db y
  assume IH: "\<And>n k r tid p db y. f n k r tid p db = Some y \<Longrightarrow> lockRound n k r tid p db \<noteq> (Sleeps, db)"
    and eq: "(case lockRound n k r tid p db of (Granted, db') \<Rightarrow> Some (None, db')
        | (Aborted e, db') \<Rightarrow> Some (Some e, db') | (Sleeps, db') \<Rightarrow> f n k r tid p db') = Some y"
  show "lockRound n k r tid p db \<noteq> (Sleeps, db)"
  proof
    assume s: "lockRound n k r tid p db = (Sleeps, db)"
    with eq have "f n k r tid p db = Some y" by simp
    with IH s show False by blast
  qed
qed

lemma handle_eq:
  assumes "table_ok (mapPageLocksByTid db)"
  shows "handleTransactionInGetPage n k r tid p db =
     (case lockRound n k r tid p db of
        (Granted, db') \<Rightarrow> Some (None, db')
      | (Aborted e, db') \<Rightarrow> Some (Some e, db')
      | (Sleeps, db') \<Rightarrow> None)"
proof (cases "lockRound n k r tid p db")
  case (Pair res db')
  show ?thesis
  proof (cases res)
    case Sleeps
    with Pair have "lockRound n k r tid p db' = (Sleeps, db')"
      using lockRound_Sleeps_again [OF assms] by blast
    then have "handleTransactionInGetPage n k r tid p db' = None"
      using handle_Some_not_stuck by (metis not_None_eq)
    with Sleeps Pair show ?thesis by (subst handleTransactionInGetPage.simps) simp
  qed (use Pair in \<open>subst handleTransactionInGetPage.simps; simp\<close>)+
qed

subsection \<open>What a round does to the lock table\<close>

lemma clearMap_fields [simp]:
  "mapPageLocksByTid (clearMap tid db) = AList.delete tid (mapPageLocksByTid db)"
  "objs (clearMap tid db) = objs db" "disk (clearMap tid db) = disk db" "numPages (clearMap tid db) = numPages db"
  by (simp_all add: clearMap_def)

lemma saveMap_fields [simp]:
  "pages (saveMapAndUpgradeLock n k r tid p db) = pages db"
  "waitTidLocks (saveMapAndUpgradeLock n k r tid p db) = waitTidLocks db"
  "objs (saveMapAndUpgradeLock n k r tid p db) = objs db"
  "disk (saveMapAndUpgradeLock n k r tid p db) = disk db"
  "numPages (saveMapAndUpgradeLock n k r tid p db) = numPages db"
  by (simp_all add: saveMapAndUpgradeLock_def)

lemma table_ok_entry: "table_ok m \<Longrightarrow> distinct (map fst (locksOf m t))"
  and table_ok_lock: "table_ok m \<Longrightarrow> (k, l) \<in> set (locksOf m t) \<Longrightarrow> lockKey l = k \<and> lockPageNo l = HPageNo k"
  by (auto simp: table_ok_def locksOf_def split: option.splits dest!: map_of_SomeD)

lemma table_ok_delete: "table_ok m \<Longrightarrow> table_ok (AList.delete t m)"
  unfolding table_ok_def by (auto simp: distinct_delete in_set_AList_delete simp del: split_paired_All) fastforce+

lemma table_ok_update:
  assumes "table_ok m" and "distinct (map fst ls)" and "\<And>k l. (k, l) \<in> set ls \<Longrightarrow> lockKey l = k \<and> lockPageNo l = HPageNo k"
  shows "table_ok (AList.update t ls m)"
  unfolding table_ok_def
proof (intro conjI ballI)
  show "distinct (map fst (AList.update t ls m))" using assms(1) by (simp add: table_ok_def distinct_update)
  fix x
  assume "x \<in> set (AList.update t ls m)"
  then have "x = (t, ls) \<or> x \<in> set m"
    using assms(1) in_set_AList_update [of m "fst x" "snd x" t ls] by (auto simp: table_ok_def)
  then show "case x of (t, ls) \<Rightarrow> distinct (map fst ls) \<and>
      (\<forall>(k, l) \<in> set ls. lockKey l = k \<and> lockPageNo l = HPageNo k)"
    using assms by (auto simp: table_ok_def)
qed

lemma holds_delete [simp]: "holds (AList.delete t m) t' l \<longleftrightarrow> t' \<noteq> t \<and> holds m t' l"
  by (simp add: holds_def)

lemma compatible_delete: "locks_compatible m \<Longrightarrow> locks_compatible (AList.delete t m)"
  by (auto simp: locks_compatible_def)

text \<open>The lock that a granted request leaves, and the other locks of the same transaction.\<close>

lemma saveMap_locks:
  assumes "table_ok (mapPageLocksByTid db)" and "HPageNo k = n"
  shows "table_ok (mapPageLocksByTid (saveMapAndUpgradeLock n k r tid p db))"
    and "t \<noteq> tid \<Longrightarrow> locksOf (mapPageLocksByTid (saveMapAndUpgradeLock n k r tid p db)) t = locksOf (mapPageLocksByTid db) t"
    and "holds (mapPageLocksByTid (saveMapAndUpgradeLock n k r tid p db)) tid l \<Longrightarrow>
       holds (mapPageLocksByTid db) tid l \<or> l = \<lparr>lockPage = r, lockPageNo = n, perm = p, lockKey = k\<rparr>"
    and "\<exists>l. (k, l) \<in> set (locksOf (mapPageLocksByTid (saveMapAndUpgradeLock n k r tid p db)) tid) \<and>
       (p = WritePerm \<longrightarrow> perm l = WritePerm \<and> lockPage l = r)"
proof -
  let ?ls = "locksOf (mapPageLocksByTid db) tid"
  let ?new = "\<lparr>lockPage = r, lockPageNo = n, perm = p, lockKey = k\<rparr>"
  have d: "distinct (map fst ?ls)" using assms(1) by (rule table_ok_entry)
  have "lockKey l = k' \<and> lockPageNo l = HPageNo k'" if "(k', l) \<in> set (AList.update k ?new ?ls)" for k' l
    using that table_ok_lock [OF assms(1)] assms(2) by (auto simp: in_set_AList_update [OF d])
  then have upd: "table_ok (AList.update tid (AList.update k ?new ?ls) (mapPageLocksByTid db))"
    using assms(1) d by (intro table_ok_update) (auto simp: distinct_update)
  show "table_ok (mapPageLocksByTid (saveMapAndUpgradeLock n k r tid p db))"
    using upd assms(1) by (simp add: saveMapAndUpgradeLock_def)
  show "t \<noteq> tid \<Longrightarrow> locksOf (mapPageLocksByTid (saveMapAndUpgradeLock n k r tid p db)) t = locksOf (mapPageLocksByTid db) t"
    by (simp add: saveMapAndUpgradeLock_def)
  show "holds (mapPageLocksByTid (saveMapAndUpgradeLock n k r tid p db)) tid l \<Longrightarrow>
       holds (mapPageLocksByTid db) tid l \<or> l = ?new"
    by (auto simp: saveMapAndUpgradeLock_def holds_def in_set_AList_update [OF d] split: if_splits)
  show "\<exists>l. (k, l) \<in> set (locksOf (mapPageLocksByTid (saveMapAndUpgradeLock n k r tid p db)) tid) \<and>
       (p = WritePerm \<longrightarrow> perm l = WritePerm \<and> lockPage l = r)"
    by (auto simp: saveMapAndUpgradeLock_def in_set_AList_update [OF d] dest: map_of_SomeD)
qed

lemma compatible_saveMap:
  assumes "table_ok (mapPageLocksByTid db)" and "HPageNo k = n" and "locks_compatible (mapPageLocksByTid db)"
    and "blockers (mapPageLocksByTid db) n tid p = {}"
  shows "locks_compatible (mapPageLocksByTid (saveMapAndUpgradeLock n k r tid p db))"
proof -
  let ?m = "mapPageLocksByTid db" and ?m' = "mapPageLocksByTid (saveMapAndUpgradeLock n k r tid p db)"
  have other: "holds ?m' t l \<longleftrightarrow> holds ?m t l" if "t \<noteq> tid" for t l
    using saveMap_locks(2) [OF assms(1,2) that] by (simp add: holds_def)
  have free: "perm l = ReadPerm \<and> p = ReadPerm" if "t \<noteq> tid" "holds ?m t l" "lockPageNo l = n" for t l
    using assms(4) that by (cases "perm l"; cases p) (auto simp: blockers_def)
  have own: "perm l = ReadPerm \<and> perm l' = ReadPerm"
    if t: "t \<noteq> tid" "holds ?m t l" and l': "holds ?m' tid l'" and n: "lockPageNo l = lockPageNo l'" for t l l'
    using saveMap_locks(3) [OF assms(1,2) l'] free [OF t] n assms(3) t
    by (auto simp: locks_compatible_def)
  show ?thesis
    unfolding locks_compatible_def
  proof (intro allI impI)
    fix t t' l l'
    assume "t \<noteq> t'" "holds ?m' t l" "holds ?m' t' l'" "lockPageNo l = lockPageNo l'"
    then show "perm l = ReadPerm \<and> perm l' = ReadPerm"
      using own other assms(3) by (cases "t = tid"; cases "t' = tid") (auto simp: locks_compatible_def)
  qed
qed

text \<open>
  C30: deadlock detection is exact: \<^verbatim>\<open>deadLockPrevent\<close>, started on the transactions a transaction waits for,
  finds a deadlock exactly when the transaction lies on a cycle of the wait-for graph. (The search is a
  total function, so it also always ends.)
\<close>

theorem deadLockPrevent_exact:
  "fst (deadLockPrevent w root (waitsOf w root) []) \<longleftrightarrow> (root, root) \<in> (waitsFor w)\<^sup>+"
  by (rule deadLockPrevent_iff)

end
