(* ===== verification/Recovery.thy ===== *)
theory Recovery
  imports BufferPool
begin

text \<open>
  What the buffer pool promises to a transaction, one operation at a time. Two views of the database are
  taken of its state: the committed contents of a page, which the disk holds, and the current contents,
  which a transaction that gets the page sees. The invariant \<open>db_ok\<close> says when the pool, the lock table
  and the disk agree; every operation of \<^verbatim>\<open>buffer_pool.go\<close> keeps it, and acts on the two views the way the
  comments of \<^verbatim>\<open>CommitTransaction\<close> and \<^verbatim>\<open>AbortTransaction\<close> say (FORCE, NO STEAL).

  The \<open>files\<close> argument names the heap file of each file name.
\<close>

section \<open>A disk of well-formed pages\<close>

definition disk_ok :: "(string \<Rightarrow> HeapFile) \<Rightarrow> Disk \<Rightarrow> bool" where
  "disk_ok files d \<longleftrightarrow> (\<forall>s. fromFile (files s) = s) \<and>
     (\<forall>s n. n < NumPages (files s) d \<longrightarrow>
        (\<exists>p. load_page files d \<lparr>FileName = s, HPageNo = n\<rparr> = Some p \<and>
             page_at files \<lparr>FileName = s, HPageNo = n\<rparr> p \<and> compact p = p))"

lemma load_page_NumPages:
  assumes "load_page files d k = Some p"
  shows "HPageNo k < NumPages (files (FileName k)) d"
proof -
  from assms have "HPageNo k * PageSize + PageSize \<le> length (d (fromFile (files (FileName k))))"
    by (auto simp: load_page_def readPage_def read_at_def split: go_result.splits if_splits)
  then show ?thesis by (simp add: NumPages_def)
qed

lemma disk_ok_load:
  assumes "disk_ok files d" and "load_page files d k = Some p"
  shows "page_at files k p" and "compact p = p"
  using load_page_NumPages [OF assms(2)] assms by (auto simp: disk_ok_def) (metis heapHash.surjective old.unit.exhaust option.inject)+

lemma disk_ok_exists:
  "disk_ok files d \<Longrightarrow> HPageNo k < NumPages (files (FileName k)) d \<Longrightarrow> \<exists>p. load_page files d k = Some p"
  by (auto simp: disk_ok_def) (metis heapHash.surjective old.unit.exhaust)

lemma NumPages_save:
  assumes "page_at files k p"
  shows "NumPages f (save_page files d k p) =
    (if fromFile f = FileName k then max (NumPages f d) (Suc (HPageNo k)) else NumPages f d)"
proof -
  obtain buf where "length buf = PageSize" and
    "save_page files d k p = d(FileName k := write_at (d (FileName k)) (HPageNo k * PageSize) buf)"
    using assms by (auto simp: page_at_def save_page_def intro: flushPage_Ok [of "files (FileName k)" p d])
  moreover have "max a (m * 4096 + 4096) div 4096 = max (a div 4096) (Suc m)" for a m :: nat
    by (auto simp: max_def)
  ultimately show ?thesis by (simp add: NumPages_def length_write_at)
qed

lemma disk_ok_save:
  assumes "disk_ok files d" and "page_at files k p" and "HPageNo k \<le> NumPages (files (FileName k)) d"
  shows "disk_ok files (save_page files d k p)"
  unfolding disk_ok_def
proof (intro conjI allI impI)
  show "fromFile (files s) = s" for s using assms(1) by (simp add: disk_ok_def)
  fix s n
  assume n: "n < NumPages (files s) (save_page files d k p)"
  let ?k = "\<lparr>FileName = s, HPageNo = n\<rparr>"
  show "\<exists>q. load_page files (save_page files d k p) ?k = Some q \<and> page_at files ?k q \<and> compact q = q"
  proof (cases "?k = k")
    case True
    then show ?thesis
      using assms(2) disk.load_save_same disk.valid_norm compact_idem by blast
  next
    case False
    have "n < NumPages (files s) d"
      using n assms False by (cases k) (auto simp: NumPages_save disk_ok_def max_def not_le less_Suc_eq split: if_splits)
    then obtain q where "load_page files d ?k = Some q" "page_at files ?k q" "compact q = q"
      using assms(1) unfolding disk_ok_def by blast
    then show ?thesis using disk.load_save_other [OF assms(2) False] by blast
  qed
qed

section \<open>The invariant of the database\<close>

definition entry_ok :: "(string \<Rightarrow> HeapFile) \<Rightarrow> DB \<Rightarrow> heapHash \<Rightarrow> page_ref \<Rightarrow> bool" where
  "entry_ok files db k r \<longleftrightarrow> r < length (objs db) \<and> page_at files k (objs db ! r) \<and>
     (if dirty (objs db ! r)
      then load_page files (disk db) k \<noteq> None \<and>
        (\<exists>t l. map_of (locksOf (mapPageLocksByTid db) t) k = Some l \<and> perm l = WritePerm \<and> lockPage l = r)
      else load_page files (disk db) k = Some (compact (objs db ! r)))"

definition pool_ok :: "(string \<Rightarrow> HeapFile) \<Rightarrow> DB \<Rightarrow> bool" where
  "pool_ok files db \<longleftrightarrow> distinct (map fst (pages db)) \<and>
     (\<forall>k r. map_of (pages db) k = Some r \<longrightarrow> entry_ok files db k r)"

definition lock_ok :: "(string \<Rightarrow> HeapFile) \<Rightarrow> DB \<Rightarrow> heapHash \<Rightarrow> PageLock \<Rightarrow> bool" where
  "lock_ok files db k l \<longleftrightarrow> lockPage l < length (objs db) \<and> page_at files k (objs db ! lockPage l) \<and>
     (dirty (objs db ! lockPage l) \<longrightarrow> perm l = WritePerm \<and> map_of (pages db) k = Some (lockPage l))"

definition locks_ok :: "(string \<Rightarrow> HeapFile) \<Rightarrow> DB \<Rightarrow> bool" where
  "locks_ok files db \<longleftrightarrow>
     (\<forall>t k l. map_of (locksOf (mapPageLocksByTid db) t) k = Some l \<longrightarrow> lock_ok files db k l)"

definition db_ok :: "(string \<Rightarrow> HeapFile) \<Rightarrow> DB \<Rightarrow> bool" where
  "db_ok files db \<longleftrightarrow> disk_ok files (disk db) \<and> pool_ok files db \<and> locks_ok files db \<and>
     table_ok (mapPageLocksByTid db) \<and> locks_compatible (mapPageLocksByTid db) \<and> waits_ok db"

text \<open>The rows of a page, the committed and the current rows of a key.\<close>

definition rows :: "heapPage \<Rightarrow> DBValue list list" where
  "rows p = map TFields (somes (tuples p))"

definition committed :: "(string \<Rightarrow> HeapFile) \<Rightarrow> DB \<Rightarrow> heapHash \<Rightarrow> DBValue list list option" where
  "committed files db k = map_option rows (load_page files (disk db) k)"

definition current :: "(string \<Rightarrow> HeapFile) \<Rightarrow> DB \<Rightarrow> heapHash \<Rightarrow> DBValue list list option" where
  "current files db k =
     (case map_of (pages db) k of
        Some r \<Rightarrow> Some (rows (objs db ! r))
      | None \<Rightarrow> committed files db k)"

lemma rows_compact [simp]: "rows (compact p) = rows p"
  by (simp add: rows_def somes_compact)

lemma rows_setDirty [simp]: "rows (setDirty p b) = rows p"
  by (simp add: rows_def)

lemma page_at_setDirty [simp]: "page_at files k (setDirty p b) = page_at files k p"
  by (simp add: page_at_def)

lemma page_at_key: "page_at files k p \<Longrightarrow> pageKey (pgFile p) (pageNo p) = k"
  by (simp add: page_at_def page_of_def pageKey_def)

lemma page_at_unique: "page_at files k p \<Longrightarrow> page_at files k' p \<Longrightarrow> k = k'"
  using page_at_key by metis

section \<open>Fetching keeps the invariant and both views\<close>

declare map_of_eq_Some_iff [simp del]

lemma pool_okD:
  assumes "pool_ok files db" and "map_of (pages db) k = Some r"
  shows "r < length (objs db)" and "page_at files k (objs db ! r)" and "load_page files (disk db) k \<noteq> None"
    and "\<not> dirty (objs db ! r) \<Longrightarrow> load_page files (disk db) k = Some (compact (objs db ! r))"
    and "dirty (objs db ! r) \<Longrightarrow>
      \<exists>t l. map_of (locksOf (mapPageLocksByTid db) t) k = Some l \<and> perm l = WritePerm \<and> lockPage l = r"
  using assms by (auto simp: pool_ok_def entry_ok_def split: if_splits)

lemma locks_okD:
  assumes "locks_ok files db" and "map_of (locksOf (mapPageLocksByTid db) t) k = Some l"
  shows "lockPage l < length (objs db)" and "page_at files k (objs db ! lockPage l)"
    and "dirty (objs db ! lockPage l) \<Longrightarrow> perm l = WritePerm \<and> map_of (pages db) k = Some (lockPage l)"
  using assms by (auto simp: locks_ok_def lock_ok_def)

lemma db_ok_waits: "db_ok files db \<Longrightarrow> distinct (map fst w) \<Longrightarrow> db_ok files (db\<lparr>waitTidLocks := w\<rparr>)"
  by (simp add: db_ok_def pool_ok_def entry_ok_def locks_ok_def lock_ok_def waits_ok_def)

lemma db_ok_drop:
  assumes "db_ok files db" and "\<And>r. map_of (pages db) k = Some r \<Longrightarrow> \<not> dirty (objs db ! r)"
  shows "db_ok files (db\<lparr>pages := AList.delete k (pages db)\<rparr>)"
proof -
  let ?db = "db\<lparr>pages := AList.delete k (pages db)\<rparr>"
  have "entry_ok files ?db = entry_ok files db" by (simp add: entry_ok_def fun_eq_iff)
  then have "pool_ok files ?db"
    using assms(1) by (simp add: db_ok_def pool_ok_def distinct_delete)
  moreover have "lock_ok files ?db k' l" if "lock_ok files db k' l" for k' l
    using that assms(2) by (auto simp: lock_ok_def)
  then have "locks_ok files ?db"
    using assms(1) by (simp add: db_ok_def locks_ok_def)
  ultimately show ?thesis using assms(1) by (simp add: db_ok_def waits_ok_def)
qed

lemma current_drop:
  assumes "db_ok files db" and "\<And>r. map_of (pages db) k = Some r \<Longrightarrow> \<not> dirty (objs db ! r)"
  shows "current files (db\<lparr>pages := AList.delete k (pages db)\<rparr>) = current files db"
proof
  fix k'
  have "committed files db k = Some (rows (objs db ! r))" if "map_of (pages db) k = Some r" for r
    using pool_okD(4) [OF _ that, of files] assms that by (auto simp: db_ok_def committed_def)
  then show "current files (db\<lparr>pages := AList.delete k (pages db)\<rparr>) k' = current files db k'"
    by (auto simp: current_def committed_def split: option.splits)
qed

lemma evictPage_Some:
  assumes "db_ok files db" and "evictPage db = Some db'"
  obtains k r where "map_of (pages db) k = Some r" and "\<not> dirty (objs db ! r)"
    and "db' = db\<lparr>pages := AList.delete k (pages db)\<rparr>"
proof -
  from assms(2) obtain k r where f: "List.find (\<lambda>(_, r). \<not> isDirty (objs db ! r)) (pages db) = Some (k, r)"
      and db': "db' = db\<lparr>pages := AList.delete (pageKey (pgFile (objs db ! r)) (pageNo (objs db ! r))) (pages db)\<rparr>"
    by (auto simp: evictPage_def split: option.splits)
  from f have kr: "(k, r) \<in> set (pages db)" and c: "\<not> dirty (objs db ! r)"
    by (auto simp: find_Some_iff isDirty_def) (metis nth_mem)
  have pool: "pool_ok files db" using assms(1) by (simp add: db_ok_def)
  with kr have m: "map_of (pages db) k = Some r" by (simp add: pool_ok_def)
  from page_at_key [OF pool_okD(2) [OF pool m]] db' have "db' = db\<lparr>pages := AList.delete k (pages db)\<rparr>" by simp
  with m c show thesis by (rule that)
qed

lemma evictPage_None:
  "evictPage db = None \<longleftrightarrow> (\<forall>(k, r) \<in> set (pages db). dirty (objs db ! r))"
proof -
  have "evictPage db = None \<longleftrightarrow> List.find (\<lambda>(_, r). \<not> isDirty (objs db ! r)) (pages db) = None"
    by (auto simp: evictPage_def split: option.splits)
  also have "\<dots> \<longleftrightarrow> (\<forall>(k, r) \<in> set (pages db). dirty (objs db ! r))"
    by (auto simp: find_None_iff isDirty_def)
  finally show ?thesis .
qed

lemma db_ok_load:
  assumes "db_ok files db" and "map_of (pages db) k = None" and "load_page files (disk db) k = Some p"
  shows "db_ok files (db\<lparr>objs := objs db @ [p], pages := AList.update k (length (objs db)) (pages db)\<rparr>)"
    and "current files (db\<lparr>objs := objs db @ [p], pages := AList.update k (length (objs db)) (pages db)\<rparr>) = current files db"
proof -
  let ?db = "db\<lparr>objs := objs db @ [p], pages := AList.update k (length (objs db)) (pages db)\<rparr>"
  have p: "page_at files k p" "compact p = p"
    using disk_ok_load [OF _ assms(3)] assms(1) by (auto simp: db_ok_def)
  then have clean: "\<not> dirty p" by (metis compact_def heapPage.select_convs(7) heapPage.surjective heapPage.update_convs(7))
  have old: "entry_ok files ?db k' r'" if "entry_ok files db k' r'" for k' r'
    using that by (simp add: entry_ok_def nth_append)
  have new: "entry_ok files ?db k (length (objs db))"
    using p clean assms(3) by (simp add: entry_ok_def)
  from old new have "pool_ok files ?db"
    using assms(1) by (simp add: db_ok_def pool_ok_def distinct_update)
  moreover have "lock_ok files ?db k' l" if "lock_ok files db k' l" for k' l
    using that assms(2) by (auto simp: lock_ok_def nth_append)
  then have "locks_ok files ?db"
    using assms(1) by (simp add: db_ok_def locks_ok_def)
  ultimately show "db_ok files ?db" using assms(1) by (simp add: db_ok_def waits_ok_def)
  show "current files ?db = current files db"
  proof
    fix k'
    show "current files ?db k' = current files db k'"
      using assms pool_okD(1) [of files db k'] by (auto simp: current_def committed_def db_ok_def nth_append split: option.splits)
  qed
qed

lemma load_page_readPage:
  "files (fromFile f) = f \<Longrightarrow> load_page files d (pageKey f n) = (case readPage f n d of Ok p \<Rightarrow> Some p | _ \<Rightarrow> None)"
  by (simp add: load_page_def pageKey_def)

text \<open>What \<^verbatim>\<open>GetPage\<close> leaves alone: the disk, the locks, the waits and every page object there was.\<close>

definition same_but_pool :: "DB \<Rightarrow> DB \<Rightarrow> bool" where
  "same_but_pool db db' \<longleftrightarrow> disk db' = disk db \<and> mapPageLocksByTid db' = mapPageLocksByTid db \<and>
     waitTidLocks db' = waitTidLocks db \<and> numPages db' = numPages db \<and> (\<exists>xs. objs db' = objs db @ xs)"

lemma fetchPage_spec:
  assumes "db_ok files db" and "files (fromFile f) = f" and "fetchPage f n db = (res, db')"
  shows "db_ok files db'" and "same_but_pool db db'" and "current files db' = current files db"
    and "res = Ok r \<Longrightarrow> map_of (pages db') (pageKey f n) = Some r"
proof -
  have goal: "db_ok files db' \<and> same_but_pool db db' \<and> current files db' = current files db \<and>
     (\<forall>r. res = Ok r \<longrightarrow> map_of (pages db') (pageKey f n) = Some r)"
  proof (cases "map_of (pages db) (pageKey f n)")
    case (Some r)
    with assms show ?thesis by (auto simp: fetchPage_def same_but_pool_def)
  next
    case miss: None
    let ?room = "if int (length (pages db)) \<ge> numPages db then evictPage db else Some db"
    show ?thesis
    proof (cases ?room)
      case None
      then have "fetchPage f n db = (Err (PlainError ''buffer pool is full of dirty pages''), db)"
        using miss unfolding fetchPage_def by (simp only: option.case)
      with assms show ?thesis by (auto simp: same_but_pool_def)
    next
      case (Some db1)
      have db1: "db_ok files db1" "current files db1 = current files db" "same_but_pool db db1"
          "map_of (pages db1) (pageKey f n) = None"
        using Some assms(1) miss
        by (auto split: if_splits simp: same_but_pool_def elim!: evictPage_Some [OF assms(1)] intro!: current_drop db_ok_drop)
      have eq: "fetchPage f n db = (case readPage f n (disk db1) of
               Err e \<Rightarrow> (Err e, db1)
             | Panic x \<Rightarrow> (Panic x, db1)
             | Ok p \<Rightarrow> (Ok (length (objs db1)),
                   db1\<lparr>objs := objs db1 @ [p], pages := AList.update (pageKey f n) (length (objs db1)) (pages db1)\<rparr>))"
        using miss Some unfolding fetchPage_def by (simp only: option.case)
      show ?thesis
      proof (cases "readPage f n (disk db1)")
        case (Ok p)
        then have "load_page files (disk db1) (pageKey f n) = Some p" by (simp add: load_page_readPage assms(2))
        from db_ok_load [OF db1(1,4) this] Ok eq assms(3) db1(2,3) show ?thesis
          by (auto simp: same_but_pool_def)
      qed (use eq assms(3) db1 in auto)
    qed
  qed
  then show "db_ok files db'" and "same_but_pool db db'" and "current files db' = current files db"
    and "res = Ok r \<Longrightarrow> map_of (pages db') (pageKey f n) = Some r" by auto
qed

section \<open>Granting a lock\<close>

definition write_locked :: "DB \<Rightarrow> TransactionID \<Rightarrow> heapHash \<Rightarrow> bool" where
  "write_locked db t k \<longleftrightarrow> (\<exists>l. map_of (locksOf (mapPageLocksByTid db) t) k = Some l \<and> perm l = WritePerm)"

lemma map_of_locks:
  "table_ok m \<Longrightarrow> map_of (locksOf m t) k = Some l \<longleftrightarrow> (k, l) \<in> set (locksOf m t)"
  using table_ok_entry by (metis map_of_eq_Some_iff)

lemma map_of_holds: "map_of (locksOf m t) k = Some l \<Longrightarrow> holds m t l"
  by (auto simp: holds_def dest: map_of_SomeD)

lemma map_of_key: "table_ok m \<Longrightarrow> map_of (locksOf m t) k = Some l \<Longrightarrow> lockKey l = k \<and> lockPageNo l = HPageNo k"
  using table_ok_lock map_of_SomeD by metis

text \<open>Two transactions that hold a lock on the same key both read.\<close>

lemma same_key_readers:
  assumes "db_ok files db" and "t \<noteq> t'"
    and "map_of (locksOf (mapPageLocksByTid db) t) k = Some l" and "map_of (locksOf (mapPageLocksByTid db) t') k = Some l'"
  shows "perm l = ReadPerm" and "perm l' = ReadPerm"
proof -
  have "table_ok (mapPageLocksByTid db)" and c: "locks_compatible (mapPageLocksByTid db)"
    using assms(1) by (auto simp: db_ok_def)
  then have "lockPageNo l = lockPageNo l'" using map_of_key assms(3,4) by metis
  with c assms(2) map_of_holds [OF assms(3)] map_of_holds [OF assms(4)]
  show "perm l = ReadPerm" and "perm l' = ReadPerm" by (auto simp: locks_compatible_def)
qed

lemma saveMap_table:
  "mapPageLocksByTid (saveMapAndUpgradeLock n k r tid p db) =
     (if map_of (locksOf (mapPageLocksByTid db) tid) k = None \<or> p = WritePerm
      then AList.update tid (AList.update k \<lparr>lockPage = r, lockPageNo = n, perm = p, lockKey = k\<rparr>
        (locksOf (mapPageLocksByTid db) tid)) (mapPageLocksByTid db)
      else mapPageLocksByTid db)"
  by (simp add: saveMapAndUpgradeLock_def)

lemma db_ok_grant:
  assumes ok: "db_ok files db" and r: "map_of (pages db) k = Some r"
    and free: "blockers (mapPageLocksByTid db) (HPageNo k) tid p = {}"
  shows "db_ok files (deleteWaitTidLocks tid (saveMapAndUpgradeLock (HPageNo k) k r tid p db))"
proof -
  let ?new = "\<lparr>lockPage = r, lockPageNo = HPageNo k, perm = p, lockKey = k\<rparr>"
  let ?s = "saveMapAndUpgradeLock (HPageNo k) k r tid p db"
  let ?m = "mapPageLocksByTid db" and ?m' = "mapPageLocksByTid ?s"
  have t: "table_ok ?m" and c: "locks_compatible ?m" and pool: "pool_ok files db" and w: "waits_ok db"
    using ok by (auto simp: db_ok_def)
  have found: "map_of (locksOf ?m' t) k' =
      (if t = tid \<and> k' = k \<and> (map_of (locksOf ?m tid) k = None \<or> p = WritePerm) then Some ?new
       else map_of (locksOf ?m t) k')" for t k'
    by (auto simp: saveMap_table)
  have dirty: "tid = t \<and> perm l = WritePerm" if "dirty (objs db ! r)" "map_of (locksOf ?m t) k = Some l"
      "perm l = WritePerm" for t l
  proof (rule ccontr)
    assume "\<not> ?thesis"
    with that(3) have "t \<noteq> tid" by simp
    with that map_of_holds [OF that(2)] map_of_key [OF t that(2)] free show False
      by (auto simp: blockers_def)
  qed
  have "entry_ok files ?s k' r'" if m: "map_of (pages db) k' = Some r'" for k' r'
  proof -
    have "\<exists>t l. map_of (locksOf ?m' t) k' = Some l \<and> perm l = WritePerm \<and> lockPage l = r'" if d: "dirty (objs db ! r')"
    proof -
      obtain t l where "map_of (locksOf ?m t) k' = Some l" "perm l = WritePerm" "lockPage l = r'"
        using pool_okD(5) [OF pool m d] by blast
      moreover from this have "map_of (locksOf ?m' t) k' = Some l \<or> map_of (locksOf ?m' t) k' = Some ?new \<and> p = WritePerm \<and> r' = r"
        using m r found [of t k'] by auto
      ultimately show ?thesis by fastforce
    qed
    then show ?thesis using pool_okD [OF pool m] by (auto simp: entry_ok_def)
  qed
  then have "pool_ok files ?s" using pool by (simp add: pool_ok_def)
  moreover have "lock_ok files ?s k' l" if "map_of (locksOf ?m' t) k' = Some l" for t k' l
  proof (cases "map_of (locksOf ?m t) k' = Some l")
    case True
    then show ?thesis using ok by (auto simp: db_ok_def locks_ok_def lock_ok_def)
  next
    case False
    then have l: "t = tid" "k' = k" "l = ?new" "map_of (locksOf ?m tid) k = None \<or> p = WritePerm"
      using that found [of t k'] by (auto split: if_splits)
    have "p = WritePerm" if d: "dirty (objs db ! r)"
      using pool_okD(5) [OF pool r d] dirty [OF d] l(4) by fastforce
    then show ?thesis using pool_okD(1,2) [OF pool r] r l by (auto simp: lock_ok_def)
  qed
  then have "locks_ok files ?s" unfolding locks_ok_def by blast
  moreover have "table_ok ?m'" "locks_compatible ?m'"
    using saveMap_locks(1) [OF t] compatible_saveMap [OF t _ c free] by auto
  ultimately have "db_ok files ?s" using ok by (simp add: db_ok_def waits_ok_def)
  moreover have "deleteWaitTidLocks tid ?s = ?s\<lparr>waitTidLocks := waitTidLocks (deleteWaitTidLocks tid ?s)\<rparr>"
    by (simp add: deleteWaitTidLocks_def)
  moreover have "distinct (map fst (waitTidLocks (deleteWaitTidLocks tid ?s)))"
    using w by (intro distinct_deleteWait) (simp add: waits_ok_def)
  ultimately show ?thesis using db_ok_waits by metis
qed

section \<open>Aborting\<close>

lemma map_of_fold_delete:
  "map_of (fold (\<lambda>(k, l) ps. if P l then AList.delete (key k l) ps else ps) ls ps) k' =
     (if \<exists>(k, l) \<in> set ls. P l \<and> key k l = k' then None else map_of ps k')"
  by (induction ls arbitrary: ps) (auto split: if_splits)

lemma distinct_fold_delete:
  "distinct (map fst ps) \<Longrightarrow>
   distinct (map fst (fold (\<lambda>(k, l) ps. if P l then AList.delete (key k l) ps else ps) ls ps))"
  by (induction ls arbitrary: ps) (auto simp: distinct_delete)

lemma clearMap_pages:
  assumes "table_ok (mapPageLocksByTid db)"
  shows "map_of (pages (clearMap tid db)) k = (if write_locked db tid k then None else map_of (pages db) k)"
proof -
  have "(\<exists>(k', l) \<in> set (locksOf (mapPageLocksByTid db) tid). perm l = WritePerm \<and> lockKey l = k) \<longleftrightarrow> write_locked db tid k"
    using table_ok_lock [OF assms] by (fastforce simp: write_locked_def map_of_locks [OF assms])
  then show ?thesis
    using map_of_fold_delete [of "\<lambda>l. perm l = WritePerm" "\<lambda>_. lockKey" "locksOf (mapPageLocksByTid db) tid" "pages db" k]
    by (simp add: clearMap_def)
qed

lemma db_ok_clearMap:
  assumes ok: "db_ok files db"
  shows "db_ok files (clearMap tid db)"
proof -
  let ?m = "mapPageLocksByTid db" and ?db = "clearMap tid db"
  have t: "table_ok ?m" and c: "locks_compatible ?m" and pool: "pool_ok files db" and w: "waits_ok db"
    using ok by (auto simp: db_ok_def)
  note pages = clearMap_pages [OF t, of tid]
  have "entry_ok files ?db k r" if m: "map_of (pages ?db) k = Some r" for k r
  proof -
    from m have m0: "map_of (pages db) k = Some r" and nw: "\<not> write_locked db tid k" by (auto simp: pages split: if_splits)
    have "\<exists>t l. t \<noteq> tid \<and> map_of (locksOf ?m t) k = Some l \<and> perm l = WritePerm \<and> lockPage l = r" if "dirty (objs db ! r)"
      using pool_okD(5) [OF pool m0 that] nw by (auto simp: write_locked_def)
    then show ?thesis using pool_okD [OF pool m0] by (auto simp: entry_ok_def)
  qed
  moreover have "distinct (map fst (pages ?db))"
    using distinct_fold_delete [of "pages db" "\<lambda>l. perm l = WritePerm" "\<lambda>_. lockKey" "locksOf ?m tid"] pool by (simp add: clearMap_def pool_ok_def)
  ultimately have "pool_ok files ?db" by (simp add: pool_ok_def)
  moreover have "lock_ok files ?db k l" if m: "map_of (locksOf (mapPageLocksByTid ?db) t) k = Some l" for t k l
  proof -
    from m have l: "t \<noteq> tid" "map_of (locksOf ?m t) k = Some l" by (auto split: if_splits)
    have "\<not> write_locked db tid k" if "perm l = WritePerm"
      using same_key_readers(2) [OF ok _ _ l(2)] l(1) that by (fastforce simp: write_locked_def)
    then show ?thesis using ok l(2) by (auto simp: db_ok_def locks_ok_def lock_ok_def pages)
  qed
  then have "locks_ok files ?db" unfolding locks_ok_def by blast
  moreover have "distinct (map fst (waitTidLocks ?db))"
    using w distinct_deleteWait by (simp add: clearMap_def waits_ok_def)
  ultimately show ?thesis
    using ok table_ok_delete compatible_delete by (simp add: db_ok_def waits_ok_def)
qed

lemma views_clearMap:
  assumes "db_ok files db"
  shows "committed files (clearMap tid db) = committed files db"
    and "current files (clearMap tid db) =
      (\<lambda>k. if write_locked db tid k then committed files db k else current files db k)"
proof -
  show same: "committed files (clearMap tid db) = committed files db"
    by (simp add: committed_def fun_eq_iff)
  have "table_ok (mapPageLocksByTid db)" using assms by (simp add: db_ok_def)
  then show "current files (clearMap tid db) =
      (\<lambda>k. if write_locked db tid k then committed files db k else current files db k)"
    by (simp add: current_def same clearMap_pages fun_eq_iff split: option.split)
qed

section \<open>Writing back and committing\<close>

lemma compact_setDirty [simp]: "compact (setDirty p b) = compact p"
  by (simp add: compact_def setDirty_def)

definition flushed :: "(string \<Rightarrow> HeapFile) \<Rightarrow> heapHash \<Rightarrow> page_ref \<Rightarrow> DB \<Rightarrow> DB" where
  "flushed files k r db = db\<lparr>objs := (objs db)[r := setDirty (objs db ! r) False],
      disk := save_page files (disk db) k (objs db ! r)\<rparr>"

lemma flushObj_flushed:
  assumes "page_at files k (objs db ! r)"
  shows "flushObj r db = Ok (flushed files k r db)"
proof -
  have "pgFile (objs db ! r) = files (FileName k)" using assms by (simp add: page_at_def page_of_def)
  moreover obtain d where "flushPage (files (FileName k)) (objs db ! r) (disk db) = Ok (setDirty (objs db ! r) False, d)"
    using assms by (auto simp: page_at_def intro: flushPage_Ok [of "files (FileName k)" "objs db ! r" "disk db"])
  ultimately show ?thesis by (simp add: flushObj_def flushed_def save_page_def)
qed

lemma db_ok_flushed:
  assumes ok: "db_ok files db" and r: "map_of (pages db) k = Some r"
  shows "db_ok files (flushed files k r db)"
    and "committed files (flushed files k r db) = (committed files db)(k := Some (rows (objs db ! r)))"
    and "current files (flushed files k r db) = current files db"
proof -
  let ?db = "flushed files k r db" and ?p = "objs db ! r"
  have pool: "pool_ok files db" and d: "disk_ok files (disk db)" using ok by (auto simp: db_ok_def)
  note kr = pool_okD [OF pool r]
  have same: "load_page files (disk ?db) k = Some (compact ?p)"
    using disk.load_save_same [OF kr(2)] by (simp add: flushed_def)
  have other: "load_page files (disk ?db) k' = load_page files (disk db) k'" if "k' \<noteq> k" for k'
  proof (cases "load_page files (disk db) k'")
    case (Some q)
    then show ?thesis using disk.load_save_other [OF kr(2) that Some] by (simp add: flushed_def)
  next
    case None
    then have "\<not> HPageNo k' < NumPages (files (FileName k')) (disk db)" using disk_ok_exists [OF d] by force
    moreover have "HPageNo k < NumPages (files (FileName k)) (disk db)" using kr(3) load_page_NumPages by fastforce
    moreover have "fromFile (files s) = s" for s using d by (simp add: disk_ok_def)
    ultimately have "\<not> HPageNo k' < NumPages (files (FileName k')) (disk ?db)"
      using NumPages_save [OF kr(2), of "files (FileName k')" "disk db"] that
      by (auto simp: flushed_def max_def split: if_splits intro!: heapHash.equality)
    then show ?thesis using None load_page_NumPages by (metis not_None_eq)
  qed
  have "HPageNo k \<le> NumPages (files (FileName k)) (disk db)" using kr(3) load_page_NumPages by fastforce
  then have "disk_ok files (disk ?db)" using disk_ok_save [OF d kr(2)] by (simp add: flushed_def)
  moreover have "entry_ok files ?db k' r'" if m: "map_of (pages db) k' = Some r'" for k' r'
  proof (cases "k' = k")
    case True
    with m r same kr(1,2) show ?thesis by (simp add: entry_ok_def flushed_def)
  next
    case False
    then have "r' \<noteq> r" using page_at_unique kr(2) pool_okD(2) [OF pool m] by metis
    with False other [OF False] pool_okD [OF pool m] show ?thesis by (auto simp: entry_ok_def flushed_def)
  qed
  then have "pool_ok files ?db" using pool by (simp add: pool_ok_def flushed_def)
  moreover have "lock_ok files ?db k' l" if "lock_ok files db k' l" for k' l
    using that by (cases "lockPage l = r") (auto simp: lock_ok_def flushed_def)
  then have "locks_ok files ?db" using ok by (simp add: db_ok_def locks_ok_def) (simp add: flushed_def)
  ultimately show "db_ok files ?db" using ok by (simp add: db_ok_def waits_ok_def) (simp add: flushed_def)
  show c: "committed files ?db = (committed files db)(k := Some (rows ?p))"
    using same other by (auto simp: committed_def fun_eq_iff)
  have "rows (objs ?db ! r') = rows (objs db ! r')" for r'
    using kr(1) by (cases "r' = r") (auto simp: flushed_def)
  moreover have "pages ?db = pages db" by (simp add: flushed_def)
  ultimately show "current files ?db = current files db"
    using r by (auto simp: current_def c fun_eq_iff split: option.split)
qed

text \<open>A page whose current rows are not the committed ones is write-locked.\<close>

lemma uncommitted_locked:
  assumes "db_ok files db" and "current files db k \<noteq> committed files db k"
  shows "\<exists>t l r. map_of (locksOf (mapPageLocksByTid db) t) k = Some l \<and> perm l = WritePerm \<and>
    lockPage l = r \<and> map_of (pages db) k = Some r \<and> dirty (objs db ! r)"
proof -
  have pool: "pool_ok files db" using assms(1) by (simp add: db_ok_def)
  from assms(2) obtain r where r: "map_of (pages db) k = Some r" and "committed files db k \<noteq> Some (rows (objs db ! r))"
    by (auto simp: current_def split: option.splits)
  then have "dirty (objs db ! r)" using pool_okD(4) [OF pool r] by (cases "dirty (objs db ! r)") (auto simp: committed_def)
  with pool_okD(5) [OF pool r] r show ?thesis by blast
qed

definition locked :: "DB \<Rightarrow> TransactionID \<Rightarrow> heapHash \<Rightarrow> bool" where
  "locked db t k \<longleftrightarrow> map_of (locksOf (mapPageLocksByTid db) t) k \<noteq> None"

lemma locked_clean_committed:
  assumes "db_ok files db" and "map_of (locksOf (mapPageLocksByTid db) t) k = Some l" and "\<not> dirty (objs db ! lockPage l)"
  shows "committed files db k = current files db k"
proof (rule ccontr)
  assume "\<not> ?thesis"
  then have "current files db k \<noteq> committed files db k" by simp
  from uncommitted_locked [OF assms(1) this] obtain t' l' where
    l': "map_of (locksOf (mapPageLocksByTid db) t') k = Some l'" "perm l' = WritePerm" "dirty (objs db ! lockPage l')"
    by blast
  show False
  proof (cases "t' = t")
    case True
    with l' assms(2,3) show False by simp
  next
    case False
    with same_key_readers(1) [OF assms(1) False l'(1) assms(2)] l'(2) show False by simp
  qed
qed

lemma commitLoop_spec:
  assumes "db_ok files db" and "\<forall>(k, l) \<in> set ls. map_of (locksOf (mapPageLocksByTid db) tid) k = Some l"
  shows "\<exists>db'. commitLoop ls db = Ok db' \<and> db_ok files db' \<and> current files db' = current files db \<and>
    committed files db' = (\<lambda>k. if k \<in> fst ` set ls then current files db k else committed files db k) \<and>
    pages db' = pages db \<and> mapPageLocksByTid db' = mapPageLocksByTid db \<and> waitTidLocks db' = waitTidLocks db \<and>
    numPages db' = numPages db \<and>
    (\<forall>(k, l) \<in> set ls. \<not> dirty (objs db' ! lockPage l)) \<and> (\<forall>r. dirty (objs db' ! r) \<longrightarrow> dirty (objs db ! r))"
  using assms
proof (induction ls arbitrary: db)
  case Nil
  then show ?case by simp
next
  case (Cons kl ls)
  obtain k l where kl: "kl = (k, l)" by (cases kl)
  with Cons.prems have l: "map_of (locksOf (mapPageLocksByTid db) tid) k = Some l" by simp
  have rest: "\<forall>(k, l) \<in> set ls. map_of (locksOf (mapPageLocksByTid db) tid) k = Some l" using Cons.prems by simp
  let ?r = "lockPage l"
  have lk: "locks_ok files db" using Cons.prems(1) by (simp add: db_ok_def)
  show ?case
  proof (cases "dirty (objs db ! ?r)")
    case False
    have c: "committed files db k = current files db k"
      using locked_clean_committed [OF Cons.prems(1) l False] .
    from Cons.IH [OF Cons.prems(1) rest] obtain db' where "commitLoop ls db = Ok db'" and *: "db_ok files db'"
      "current files db' = current files db" "pages db' = pages db" "mapPageLocksByTid db' = mapPageLocksByTid db"
      "committed files db' = (\<lambda>k. if k \<in> fst ` set ls then current files db k else committed files db k)"
      "waitTidLocks db' = waitTidLocks db" "numPages db' = numPages db"
      "\<forall>(k, l) \<in> set ls. \<not> dirty (objs db' ! lockPage l)" "\<forall>r. dirty (objs db' ! r) \<longrightarrow> dirty (objs db ! r)"
      by blast
    then have "commitLoop (kl # ls) db = Ok db'" using kl False by (simp add: isDirty_def)
    with * kl False c show ?thesis by auto
  next
    case True
    then have r: "map_of (pages db) k = Some ?r" using locks_okD(3) [OF lk l] by simp
    let ?db = "flushed files k ?r db"
    have len: "?r < length (objs db)" using locks_okD(1) [OF lk l] .
    have m: "mapPageLocksByTid ?db = mapPageLocksByTid db" "pages ?db = pages db" "waitTidLocks ?db = waitTidLocks db"
      "numPages ?db = numPages db" by (simp_all add: flushed_def)
    have cl: "\<not> dirty (objs ?db ! ?r)" and mono: "dirty (objs ?db ! r') \<Longrightarrow> dirty (objs db ! r')" for r'
      using len by (auto simp: flushed_def nth_list_update split: if_splits) 
    note f = db_ok_flushed [OF Cons.prems(1) r]
    from Cons.IH [OF f(1)] rest m obtain db' where "commitLoop ls ?db = Ok db'" and *: "db_ok files db'"
      "current files db' = current files ?db" "pages db' = pages ?db" "mapPageLocksByTid db' = mapPageLocksByTid ?db"
      "committed files db' = (\<lambda>k. if k \<in> fst ` set ls then current files ?db k else committed files ?db k)"
      "waitTidLocks db' = waitTidLocks ?db" "numPages db' = numPages ?db"
      "\<forall>(k, l) \<in> set ls. \<not> dirty (objs db' ! lockPage l)" "\<forall>r. dirty (objs db' ! r) \<longrightarrow> dirty (objs ?db ! r)"
      by auto
    then have "commitLoop (kl # ls) db = Ok db'"
      using kl True flushObj_flushed [OF locks_okD(2) [OF lk l]] by (simp add: isDirty_def)
    moreover have "current files db k = Some (rows (objs db ! ?r))" using r by (simp add: current_def)
    ultimately show ?thesis using * kl m f(2,3) cl mono by (auto simp: fun_eq_iff)
  qed
qed

lemma CommitTransaction_spec:
  assumes ok: "db_ok files db"
  shows "\<exists>db'. CommitTransaction tid db = Ok db' \<and> db_ok files db' \<and> current files db' = current files db \<and>
    committed files db' = (\<lambda>k. if locked db tid k then current files db k else committed files db k) \<and>
    mapPageLocksByTid db' = AList.delete tid (mapPageLocksByTid db) \<and> pages db' = pages db \<and> numPages db' = numPages db"
proof -
  let ?m = "mapPageLocksByTid db" and ?ls = "locksOf (mapPageLocksByTid db) tid"
  have t: "table_ok ?m" and w: "waits_ok db" using ok by (auto simp: db_ok_def)
  have "\<forall>(k, l) \<in> set ?ls. map_of ?ls k = Some l" using map_of_locks [OF t] by blast
  from commitLoop_spec [OF ok this] obtain db1 where loop: "commitLoop ?ls db = Ok db1" and db1: "db_ok files db1"
    "current files db1 = current files db" "pages db1 = pages db" "mapPageLocksByTid db1 = ?m"
    "committed files db1 = (\<lambda>k. if k \<in> fst ` set ?ls then current files db k else committed files db k)"
    "waitTidLocks db1 = waitTidLocks db" "\<forall>(k, l) \<in> set ?ls. \<not> dirty (objs db1 ! lockPage l)" "numPages db1 = numPages db" by blast
  let ?db = "deleteWaitTidLocks tid (db1\<lparr>mapPageLocksByTid := AList.delete tid (mapPageLocksByTid db1)\<rparr>)"
  have same: "pages ?db = pages db1" "objs ?db = objs db1" "disk ?db = disk db1"
    "mapPageLocksByTid ?db = AList.delete tid ?m" by (simp_all add: db1(4))
  have pool: "pool_ok files db1" using db1(1) by (simp add: db_ok_def)
  have "entry_ok files ?db k r" if m: "map_of (pages db1) k = Some r" for k r
  proof -
    have "\<exists>t l. t \<noteq> tid \<and> map_of (locksOf ?m t) k = Some l \<and> perm l = WritePerm \<and> lockPage l = r" if "dirty (objs db1 ! r)"
      using pool_okD(5) [OF pool m that] db1(4,7) that by (fastforce dest: map_of_SomeD)
    then show ?thesis using pool_okD [OF pool m] by (auto simp: entry_ok_def db1(4))
  qed
  then have "pool_ok files ?db" using pool by (simp add: pool_ok_def)
  moreover have "locks_ok files ?db"
    using db1(1,4) by (auto simp: db_ok_def locks_ok_def lock_ok_def)
  moreover have "distinct (map fst (waitTidLocks ?db))"
    using w db1(6) by (intro distinct_deleteWait) (simp add: waits_ok_def)
  ultimately have "db_ok files ?db"
    using db1(1,4) table_ok_delete compatible_delete by (simp add: db_ok_def waits_ok_def)
  moreover have "committed files ?db = committed files db1" "current files ?db = current files db1"
    by (simp_all add: committed_def current_def fun_eq_iff split: option.split)
  moreover have "k \<in> fst ` set ?ls \<longleftrightarrow> locked db tid k" for k
    by (simp add: locked_def map_of_eq_None_iff)
  ultimately show ?thesis using loop db1(2,3,5,8) by (auto simp: CommitTransaction_def db1(4) fun_eq_iff)
qed

section \<open>Getting a page\<close>

lemma lockRound_cases:
  assumes ok: "db_ok files db" and r: "map_of (pages db) k = Some r" and eq: "lockRound (HPageNo k) k r tid p db = (res, db')"
  obtains (Granted) "res = Granted" "db_ok files db'" "pages db' = pages db" "objs db' = objs db" "disk db' = disk db"
      "mapPageLocksByTid db' = mapPageLocksByTid (saveMapAndUpgradeLock (HPageNo k) k r tid p db)"
      "blockers (mapPageLocksByTid db) (HPageNo k) tid p = {}" "numPages db' = numPages db"
  | (Aborted) db1 where "res = Aborted (PlainError ''transaction is aborted'')" "db_ok files db1"
      "db1 = db\<lparr>waitTidLocks := waitTidLocks db1\<rparr>" "db' = clearMap tid db1" "blockers (mapPageLocksByTid db) (HPageNo k) tid p \<noteq> {}"
      "(tid, tid) \<in> (waitsFor (waitTidLocks db) \<union> {tid} \<times> blockers (mapPageLocksByTid db) (HPageNo k) tid p)\<^sup>+"
  | (Sleeps) "res = Sleeps" "db_ok files db'" "db' = db\<lparr>waitTidLocks := waitTidLocks db'\<rparr>"
      "blockers (mapPageLocksByTid db) (HPageNo k) tid p \<noteq> {}" "(tid, tid) \<notin> (waitsFor (waitTidLocks db'))\<^sup>+"
proof -
  obtain c db1 where ic: "isConflicted (HPageNo k) tid p db = (c, db1)" by (cases "isConflicted (HPageNo k) tid p db")
  have t: "table_ok (mapPageLocksByTid db)" and w: "waits_ok db" using ok by (auto simp: db_ok_def)
  note spec = isConflicted_spec [OF t, where n = "HPageNo k" and tid = tid and p = p]
  have db1: "db1 = db\<lparr>waitTidLocks := waitTidLocks db1\<rparr>" using ic by (auto simp: isConflicted_def split: prod.splits)
  have "distinct (map fst (waitTidLocks db1))" using spec(3) w ic by (simp add: waits_ok_def)
  then have ok1: "db_ok files db1" using db_ok_waits [OF ok] db1 by metis
  have c: "c \<longleftrightarrow> blockers (mapPageLocksByTid db) (HPageNo k) tid p \<noteq> {}" using spec(1) ic by simp
  have wf: "waitsFor (waitTidLocks db1) = waitsFor (waitTidLocks db) \<union> {tid} \<times> blockers (mapPageLocksByTid db) (HPageNo k) tid p"
    using spec(2) ic by (auto simp: waitsFor_def split: if_splits)
  show thesis
  proof (cases c)
    case False
    have m: "mapPageLocksByTid db1 = mapPageLocksByTid db" "pages db1 = pages db" "objs db1 = objs db"
      "disk db1 = disk db" "numPages db1 = numPages db" by (subst db1, simp)+
    have "db_ok files (deleteWaitTidLocks tid (saveMapAndUpgradeLock (HPageNo k) k r tid p db1))"
      using False c m r by (intro db_ok_grant [OF ok1]) auto
    with False eq ic m c show thesis by (intro Granted) (auto simp: lockRound_def saveMap_table)
  next
    case True
    then show thesis
      using eq ic ok1 db1 c
      by (auto simp: lockRound_def waitWhenConflict_def deadLockPrevent_iff simp flip: wf split: if_splits intro: Aborted [unfolded wf [symmetric]] Sleeps)
  qed
qed

lemma views_cong:
  "disk db' = disk db \<Longrightarrow> committed files db' = committed files db"
  "disk db' = disk db \<Longrightarrow> pages db' = pages db \<Longrightarrow> objs db' = objs db \<Longrightarrow> current files db' = current files db"
  by (rule ext, simp add: committed_def current_def split: option.split)+

lemma GetPage_cases:
  assumes ok: "db_ok files db" and f: "files (fromFile f) = f" and get: "GetPage f n tid p db = Some (res, db')"
  obtains (Page) r db1 where "res = Ok r" "fetchPage f n db = (Ok r, db1)" "db_ok files db'"
      "pages db' = pages db1" "objs db' = objs db1" "disk db' = disk db" "numPages db' = numPages db"
      "mapPageLocksByTid db' = mapPageLocksByTid (saveMapAndUpgradeLock n (pageKey f n) r tid p db)"
      "blockers (mapPageLocksByTid db) n tid p = {}"
  | (NoPage) "fetchPage f n db = (res, db')" "\<forall>r. res \<noteq> Ok r"
  | (Deadlock) r db1 db2 where "res = Err (PlainError ''transaction is aborted'')" "fetchPage f n db = (Ok r, db1)"
      "db_ok files db2" "db2 = db1\<lparr>waitTidLocks := waitTidLocks db2\<rparr>" "db' = clearMap tid db2"
      "blockers (mapPageLocksByTid db) n tid p \<noteq> {}"
      "(tid, tid) \<in> (waitsFor (waitTidLocks db) \<union> {tid} \<times> blockers (mapPageLocksByTid db) n tid p)\<^sup>+"
proof -
  obtain fr db1 where fetch: "fetchPage f n db = (fr, db1)" by (cases "fetchPage f n db")
  note spec = fetchPage_spec [OF ok f fetch]
  show thesis
  proof (cases fr)
    case (Ok r)
    then have r: "map_of (pages db1) (pageKey f n) = Some r" using spec(4) by simp
    obtain lr db2 where lock: "lockRound n (pageKey f n) r tid p db1 = (lr, db2)" by (cases "lockRound n (pageKey f n) r tid p db1")
    have n: "HPageNo (pageKey f n) = n" by (simp add: pageKey_def)
    have "table_ok (mapPageLocksByTid db1)" using spec(1) by (simp add: db_ok_def)
    from handle_eq [OF this, of n "pageKey f n" r tid p] lock
    have get': "GetPage f n tid p db = (case lr of Granted \<Rightarrow> Some (Ok r, db2) | Aborted e \<Rightarrow> Some (Err e, db2) | Sleeps \<Rightarrow> None)"
      by (auto simp: GetPage_def fetch Ok split: round.split)
    have m: "mapPageLocksByTid db1 = mapPageLocksByTid db" "disk db1 = disk db" "numPages db1 = numPages db" "waitTidLocks db1 = waitTidLocks db"
      using spec(2) by (auto simp: same_but_pool_def)
    show thesis
    proof (cases rule: lockRound_cases [OF spec(1) r, unfolded n, OF lock])
      case 1
      then show thesis using get get' fetch Ok m by (intro Page [of r db1]) (auto simp: saveMap_table)
    next
      case (2 db3)
      then show thesis using get get' fetch Ok m by (intro Deadlock [of r db1 db3]) auto
    next
      case 3
      then show thesis using get get' by simp
    qed
  qed (use fetch get NoPage in \<open>auto simp: GetPage_def\<close>)
qed

section \<open>Changing a page\<close>

lemma db_ok_modify:
  assumes ok: "db_ok files db" and r: "map_of (pages db) k = Some r"
    and l: "map_of (locksOf (mapPageLocksByTid db) t) k = Some l" "perm l = WritePerm" "lockPage l = r"
    and p: "page_at files k p" "dirty p"
  shows "db_ok files (db\<lparr>objs := (objs db)[r := p]\<rparr>)"
    and "committed files (db\<lparr>objs := (objs db)[r := p]\<rparr>) = committed files db"
    and "current files (db\<lparr>objs := (objs db)[r := p]\<rparr>) = (current files db)(k := Some (rows p))"
proof -
  let ?db = "db\<lparr>objs := (objs db)[r := p]\<rparr>"
  have pool: "pool_ok files db" and lk: "locks_ok files db" using ok by (auto simp: db_ok_def)
  note kr = pool_okD [OF pool r]
  have apart: "r' \<noteq> r" if "k' \<noteq> k" "map_of (pages db) k' = Some r'" for k' r'
    using that page_at_unique kr(2) pool_okD(2) [OF pool] by metis
  have "entry_ok files ?db k' r'" if m: "map_of (pages db) k' = Some r'" for k' r'
    using m r kr(1,3) p l pool_okD [OF pool m] apart [OF _ m] by (cases "k' = k") (auto simp: entry_ok_def)
  then have "pool_ok files ?db" using pool by (simp add: pool_ok_def)
  moreover have "lock_ok files ?db k' l'" if l': "map_of (locksOf (mapPageLocksByTid db) t') k' = Some l'" for t' k' l'
  proof (cases "lockPage l' = r")
    case True
    then have "k' = k" using page_at_unique [OF locks_okD(2) [OF lk l']] kr(2) by simp
    then have "l' = l" using same_key_readers(2) [OF ok _ l' [unfolded \<open>k' = k\<close>] l(1)] l(1,2) l' by (cases "t' = t") auto
    then show ?thesis using \<open>k' = k\<close> l r p kr(1) by (auto simp: lock_ok_def)
  next
    case False
    then show ?thesis using locks_okD [OF lk l'] by (simp add: lock_ok_def)
  qed
  then have "locks_ok files ?db" by (simp add: locks_ok_def)
  ultimately show "db_ok files ?db" using ok by (simp add: db_ok_def waits_ok_def)
  show c: "committed files ?db = committed files db" by (rule views_cong) simp
  show "current files ?db = (current files db)(k := Some (rows p))"
  proof
    fix k'
    show "current files ?db k' = ((current files db)(k := Some (rows p))) k'"
      using r kr(1) apart [of k'] by (cases "map_of (pages db) k'"; cases "k' = k") (auto simp: current_def c)
  qed
qed

section \<open>The contract of the buffer pool\<close>

lemma GetPage_Ok:
  assumes "db_ok files db" and "files (fromFile f) = f" and "GetPage f n tid p db = Some (Ok r, db')"
  shows "db_ok files db' \<and> current files db' = current files db \<and> committed files db' = committed files db \<and>
    map_of (pages db') (pageKey f n) = Some r \<and>
    current files db (pageKey f n) = Some (rows (objs db' ! r)) \<and>
    (\<exists>l. map_of (locksOf (mapPageLocksByTid db') tid) (pageKey f n) = Some l \<and>
       (p = WritePerm \<longrightarrow> perm l = WritePerm \<and> lockPage l = r))"
  using assms
proof (cases rule: GetPage_cases [consumes 3])
  case (Page r' db1)
  note spec = fetchPage_spec [OF assms(1,2) Page(2)]
  have views: "current files db' = current files db" "committed files db' = committed files db"
    using views_cong [of db' db1] Page spec(2,3) views_cong(1) [of db' db] by (auto simp: same_but_pool_def)
  have r: "map_of (pages db') (pageKey f n) = Some r" using Page spec(4) by simp
  have t: "table_ok (mapPageLocksByTid db)" "table_ok (mapPageLocksByTid db')" using assms(1) Page(3) by (auto simp: db_ok_def)
  have "HPageNo (pageKey f n) = n" by (simp add: pageKey_def)
  from saveMap_locks(4) [OF t(1) this] Page(1,8)
  have "\<exists>l. map_of (locksOf (mapPageLocksByTid db') tid) (pageKey f n) = Some l \<and>
       (p = WritePerm \<longrightarrow> perm l = WritePerm \<and> lockPage l = r)"
    using map_of_locks [OF t(2)] by simp
  moreover have "current files db (pageKey f n) = Some (rows (objs db' ! r))"
    using r views(1) by (metis current_def option.simps(5))
  ultimately show ?thesis using views r Page(3) by simp
qed auto

text \<open>
  A call of \<^verbatim>\<open>GetPage\<close> is served: at once, or after a sleep by a round of the lock loop that finds the lock free, while the page that the call
  has found before its sleep is still in the pool. The code does not see to this last condition; when the holder of the lock has aborted
  in the meantime it fails, see \<open>waiter_commits_aborted_rows\<close>.
\<close>

definition served :: "HeapFile \<Rightarrow> nat \<Rightarrow> TransactionID \<Rightarrow> RWPerm \<Rightarrow> DB \<Rightarrow> page_ref \<Rightarrow> DB \<Rightarrow> bool" where
  "served f n tid p db r db' \<longleftrightarrow> GetPage f n tid p db = Some (Ok r, db') \<or>
     map_of (pages db) (pageKey f n) = Some r \<and> lockRound n (pageKey f n) r tid p db = (Granted, db')"

text \<open>A granted round on the page of the pool is the call of \<^verbatim>\<open>GetPage\<close> that would be made now.\<close>

lemma granted_is_GetPage:
  assumes "db_ok files db" and "map_of (pages db) (pageKey f n) = Some r" and "lockRound n (pageKey f n) r tid p db = (Granted, db')"
  shows "GetPage f n tid p db = Some (Ok r, db')"
proof -
  have "table_ok (mapPageLocksByTid db)" using assms(1) by (simp add: db_ok_def)
  from handle_eq [OF this, of n "pageKey f n" r tid p] show ?thesis using assms(2,3) by (simp add: GetPage_def fetchPage_def)
qed

lemma served_GetPage: "db_ok files db \<Longrightarrow> served f n tid p db r db' \<Longrightarrow> GetPage f n tid p db = Some (Ok r, db')"
  using granted_is_GetPage by (auto simp: served_def)

text \<open>
  C6: a page that \<^verbatim>\<open>GetPage\<close> returns, at once or after a wait during which the page stayed in the pool, holds the current rows of its key;
  the operation keeps the invariant of the database, changes neither the current nor the committed rows of any page, has the
  page in the pool and leaves the transaction with a lock on it, for writing when it asked to write.
\<close>

theorem GetPage_returns_current:
  assumes "db_ok files db" and "files (fromFile f) = f" and "served f n tid p db r db'"
  shows "db_ok files db' \<and> current files db' = current files db \<and> committed files db' = committed files db \<and>
    map_of (pages db') (pageKey f n) = Some r \<and>
    current files db (pageKey f n) = Some (rows (objs db' ! r)) \<and>
    (\<exists>l. map_of (locksOf (mapPageLocksByTid db') tid) (pageKey f n) = Some l \<and>
       (p = WritePerm \<longrightarrow> perm l = WritePerm \<and> lockPage l = r))"
  using GetPage_Ok [OF assms(1,2) served_GetPage [OF assms(1,3)]] .

text \<open>
  C3: no dirty reads. The page that \<^verbatim>\<open>GetPage\<close> returns, at once or after a wait during which the page stayed in the pool, to a transaction
  that has not write-locked it before holds exactly the rows that are on disk.
\<close>

theorem GetPage_no_dirty_read:
  assumes "db_ok files db" and "files (fromFile f) = f" and "served f n tid p db r db'"
    and "\<not> write_locked db tid (pageKey f n)"
  shows "committed files db (pageKey f n) = Some (rows (objs db' ! r))"
  using assms(1,2) served_GetPage [OF assms(1,3)]
proof (cases rule: GetPage_cases [consumes 3])
  case (Page r' db1)
  let ?k = "pageKey f n"
  note spec = fetchPage_spec [OF assms(1,2) Page(2)]
  have "current files db' ?k = Some (rows (objs db' ! r))" using spec(4) Page by (simp add: current_def)
  moreover have "current files db' = current files db" using views_cong(2) [of db' db1] Page spec(2,3) by (auto simp: same_but_pool_def)
  moreover have "committed files db ?k = current files db ?k"
  proof (rule ccontr)
    assume "\<not> ?thesis"
    then obtain t l where l: "map_of (locksOf (mapPageLocksByTid db) t) ?k = Some l" "perm l = WritePerm"
      using uncommitted_locked [OF assms(1), of ?k] by auto
    with assms(4) have "t \<noteq> tid" by (auto simp: write_locked_def)
    moreover have "lockPageNo l = n" using map_of_key l(1) assms(1) by (fastforce simp: db_ok_def pageKey_def)
    ultimately show False using Page(9) l map_of_holds by (fastforce simp: blockers_def)
  qed
  ultimately show ?thesis by simp
qed auto

lemma fetchPage_not_aborted:
  assumes "db_ok files db" and "files (fromFile f) = f"
  shows "fetchPage f n db \<noteq> (Err (PlainError ''transaction is aborted''), db')"
proof -
  have "readPage f n (disk db1) \<noteq> Err (PlainError ''transaction is aborted'')" if "disk db1 = disk db" for db1 :: DB
  proof (cases "n < NumPages f (disk db)")
    case True
    then have "HPageNo (pageKey f n) < NumPages (files (FileName (pageKey f n))) (disk db)" by (simp add: pageKey_def assms(2))
    moreover have "disk_ok files (disk db)" using assms(1) by (simp add: db_ok_def)
    ultimately obtain q where "load_page files (disk db) (pageKey f n) = Some q" using disk_ok_exists by blast
    then show ?thesis using that by (auto simp: load_page_readPage assms(2) split: go_result.splits)
  next
    case False
    then have "read_at (disk db (fromFile f)) (n * PageSize) PageSize = None" by (auto simp: NumPages_def read_at_def)
    then show ?thesis using that by (simp add: readPage_def)
  qed
  moreover have "evictPage db = Some db1 \<Longrightarrow> disk db1 = disk db" for db1
    by (auto simp: evictPage_def split: option.splits)
  ultimately show ?thesis by (auto simp: fetchPage_def split: option.splits if_splits go_result.splits)
qed

lemma GetPage_Err:
  assumes "db_ok files db" and "files (fromFile f) = f" and "GetPage f n tid p db = Some (Err e, db')"
  shows "db_ok files db' \<and> committed files db' = committed files db \<and>
    (e \<noteq> PlainError ''transaction is aborted'' \<and> current files db' = current files db \<and> mapPageLocksByTid db' = mapPageLocksByTid db \<or>
     e = PlainError ''transaction is aborted'' \<and> blockers (mapPageLocksByTid db) n tid p \<noteq> {} \<and>
     (tid, tid) \<in> (waitsFor (waitTidLocks db) \<union> {tid} \<times> blockers (mapPageLocksByTid db) n tid p)\<^sup>+ \<and> locksOf (mapPageLocksByTid db') tid = [] \<and>
     current files db' = (\<lambda>k. if write_locked db tid k then committed files db k else current files db k))"
  using assms
proof (cases rule: GetPage_cases [consumes 3])
  case NoPage
  have "e \<noteq> PlainError ''transaction is aborted''" using fetchPage_not_aborted [OF assms(1,2)] NoPage(1) by blast
  with fetchPage_spec [OF assms(1,2) NoPage(1)] show ?thesis
    using views_cong(1) [of db' db] by (auto simp: same_but_pool_def)
next
  case (Deadlock r db1 db2)
  note spec = fetchPage_spec [OF assms(1,2) Deadlock(2)]
  have "disk db2 = disk db1" "pages db2 = pages db1" "objs db2 = objs db1" "mapPageLocksByTid db2 = mapPageLocksByTid db1"
    by (subst Deadlock(4), simp)+
  then have "committed files db2 = committed files db" "current files db2 = current files db" "write_locked db2 = write_locked db"
    using views_cong [of db2 db1] views_cong(1) [of db2 db] spec(2,3) by (auto simp: same_but_pool_def write_locked_def fun_eq_iff)
  then show ?thesis
    using Deadlock(1,5,6,7) views_clearMap [OF Deadlock(3), of tid] db_ok_clearMap [OF Deadlock(3), of tid]
    by (simp cong: if_cong)
qed auto

text \<open>
C27: when \<^verbatim>\<open>GetPage\<close> fails with an error other than that of an abort, nothing has changed but the pool. When it fails with
  the error of an abort, other transactions hold conflicting locks, and waiting for them would close a cycle of the waits that are
  recorded; the transaction then holds no lock, and every page that it had write-locked is back to its committed rows.
\<close>

theorem GetPage_error:
  assumes "db_ok files db" and "files (fromFile f) = f" and "GetPage f n tid p db = Some (Err e, db')"
  shows "db_ok files db' \<and> committed files db' = committed files db \<and>
    (e \<noteq> PlainError ''transaction is aborted'' \<and> current files db' = current files db \<and> mapPageLocksByTid db' = mapPageLocksByTid db \<or>
     e = PlainError ''transaction is aborted'' \<and> blockers (mapPageLocksByTid db) n tid p \<noteq> {} \<and>
     (tid, tid) \<in> (waitsFor (waitTidLocks db) \<union> {tid} \<times> blockers (mapPageLocksByTid db) n tid p)\<^sup>+ \<and> locksOf (mapPageLocksByTid db') tid = [] \<and>
     current files db' = (\<lambda>k. if write_locked db tid k then committed files db k else current files db k))"
  using assms by (rule GetPage_Err)

text \<open>
  C4: commit is durable and complete. In a database whose invariant holds, so that among others every stored string fits the 32 bytes
  of its column (a longer one makes \<^verbatim>\<open>writeTo\<close> panic), \<^verbatim>\<open>CommitTransaction\<close> returns; afterwards the rows on disk of
  every page the transaction locked are the rows that it saw, the disk rows of the other pages and all
  current rows are as before, the transaction holds no lock and the other transactions keep theirs.
\<close>

theorem CommitTransaction_durable:
  assumes "db_ok files db"
  shows "\<exists>db'. CommitTransaction tid db = Ok db' \<and> db_ok files db' \<and>
    committed files db' = (\<lambda>k. if locked db tid k then current files db k else committed files db k) \<and>
    current files db' = current files db \<and>
    (\<forall>t. locksOf (mapPageLocksByTid db') t = (if t = tid then [] else locksOf (mapPageLocksByTid db) t))"
  using CommitTransaction_spec [OF assms, of tid] by fastforce

text \<open>
  C5: abort undoes. \<^verbatim>\<open>AbortTransaction\<close> puts every page the transaction write-locked back to its rows
  on disk, leaves the disk and every other page alone, and releases the locks of this transaction only.
\<close>

theorem AbortTransaction_undoes:
  assumes "db_ok files db"
  shows "db_ok files (AbortTransaction tid db) \<and> disk (AbortTransaction tid db) = disk db \<and>
    current files (AbortTransaction tid db) =
      (\<lambda>k. if write_locked db tid k then committed files db k else current files db k) \<and>
    (\<forall>t. locksOf (mapPageLocksByTid (AbortTransaction tid db)) t =
      (if t = tid then [] else locksOf (mapPageLocksByTid db) t))"
  using db_ok_clearMap [OF assms, of tid] views_clearMap [OF assms, of tid]
  by (simp add: AbortTransaction_def)

lemma GetPage_dirty_stay:
  assumes "db_ok files db" and "files (fromFile f) = f" and "GetPage f n tid p db = Some (res, db')"
  shows "disk db' = disk db \<and>
    (res \<noteq> Err (PlainError ''transaction is aborted'') \<longrightarrow>
      (\<forall>k r. map_of (pages db) k = Some r \<and> dirty (objs db ! r) \<longrightarrow>
        map_of (pages db') k = Some r \<and> objs db' ! r = objs db ! r))"
proof -
  have stay: "map_of (pages db1) k = Some r \<and> objs db1 ! r = objs db ! r"
    if "fetchPage f n db = (fr, db1)" and r: "map_of (pages db) k = Some r" and d: "dirty (objs db ! r)" for fr db1 k r
  proof -
    have pool: "pool_ok files db" using assms(1) by (simp add: db_ok_def)
    obtain t l where "map_of (locksOf (mapPageLocksByTid db) t) k = Some l" "lockPage l = r" "perm l = WritePerm"
      using pool_okD(5) [OF pool r d] by blast
    moreover note spec = fetchPage_spec [OF assms(1,2) that(1)]
    moreover have "objs db1 ! r = objs db ! r"
      using spec(2) pool_okD(1) [OF pool r] by (auto simp: same_but_pool_def nth_append)
    ultimately show ?thesis
      using d locks_okD(3) [of files db1 t k l] by (auto simp: db_ok_def same_but_pool_def)
  qed
  from assms show ?thesis
  proof (cases rule: GetPage_cases [consumes 3])
    case (Page r db1)
    then show ?thesis using stay [OF Page(2)] by auto
  next
    case NoPage
    then show ?thesis using stay [OF NoPage(1)] fetchPage_spec(2) [OF assms(1,2) NoPage(1)] by (auto simp: same_but_pool_def)
  next
    case (Deadlock r db1 db2)
    have "disk db2 = disk db1" by (subst Deadlock(4)) simp
    then show ?thesis using Deadlock fetchPage_spec(2) [OF assms(1,2) Deadlock(2)] by (auto simp: same_but_pool_def)
  qed
qed

text \<open>
  C26: NO STEAL. \<^verbatim>\<open>GetPage\<close> never writes to disk, and unless it aborts the transaction every dirty page
  of the pool stays in the pool as it is.
\<close>

theorem GetPage_no_steal:
  assumes "db_ok files db" and "files (fromFile f) = f" and "GetPage f n tid p db = Some (res, db')"
  shows "disk db' = disk db \<and>
    (res \<noteq> Err (PlainError ''transaction is aborted'') \<longrightarrow>
      (\<forall>k r. map_of (pages db) k = Some r \<and> dirty (objs db ! r) \<longrightarrow>
        map_of (pages db') k = Some r \<and> objs db' ! r = objs db ! r))"
  using assms by (rule GetPage_dirty_stay)

lemma evictPage_shrinks:
  assumes "db_ok files db" and "evictPage db = Some db'"
  shows "length (pages db') < length (pages db)"
proof -
  obtain k r where "map_of (pages db) k = Some r" "db' = db\<lparr>pages := AList.delete k (pages db)\<rparr>"
    using evictPage_Some [OF assms] by blast
  then show ?thesis by (auto intro!: length_AList_delete_less dest!: map_of_SomeD intro: rev_image_eqI)
qed

lemma fetchPage_length:
  assumes "db_ok files db" and "fetchPage f n db = (res, db')"
    and "0 < numPages db" and "int (length (pages db)) \<le> numPages db"
  shows "int (length (pages db')) \<le> numPages db"
proof -
  let ?room = "if int (length (pages db)) \<ge> numPages db then evictPage db else Some db"
  have shrink: "int (length (pages db1)) < numPages db" if "?room = Some db1" for db1
    using that evictPage_shrinks [OF assms(1), of db1] assms(4) by (auto split: if_splits)
  have upd: "int (length (AList.update k v al)) \<le> int (length al) + 1" for k :: heapHash and v :: nat and al
    by (simp add: length_AList_update)
  show ?thesis
  proof (cases "map_of (pages db) (pageKey f n)")
    case None
    show ?thesis
    proof (cases ?room)
      case None
      then have "db' = db" using assms(2) \<open>map_of (pages db) (pageKey f n) = None\<close>
        unfolding fetchPage_def by (simp only: option.case prod.inject)
      then show ?thesis using assms(4) by simp
    next
      case (Some db1)
      have "pages db' = pages db1 \<or> pages db' = AList.update (pageKey f n) (length (objs db1)) (pages db1)"
        using assms(2) Some \<open>map_of (pages db) (pageKey f n) = None\<close>
        unfolding fetchPage_def by (simp only: option.case) (auto split: go_result.splits)
      then show ?thesis using shrink [OF Some] upd [of "pageKey f n" "length (objs db1)" "pages db1"] by auto
    qed
  qed (use assms in \<open>simp add: fetchPage_def\<close>)
qed

lemma clearMap_length: "length (pages (clearMap tid db)) \<le> length (pages db)"
proof -
  have "length (fold (\<lambda>(_, l) ps. if perm l = WritePerm then AList.delete (lockKey l) ps else ps) ls ps) \<le> length ps"
    for ls :: "(heapHash \<times> PageLock) list" and ps :: "(heapHash \<times> page_ref) list"
  proof (induction ls arbitrary: ps)
    case (Cons x ls)
    show ?case using Cons [of "AList.delete (lockKey (snd x)) ps"] Cons [of ps] length_delete_le [of "lockKey (snd x)" ps]
      by (cases x) auto
  qed simp
  then show ?thesis by (simp add: clearMap_def)
qed

text \<open>
  C32: the pool stays within its capacity: \<^verbatim>\<open>GetPage\<close> on a pool of at most \<^verbatim>\<open>numPages\<close> pages leaves a pool
  of at most \<^verbatim>\<open>numPages\<close> pages, whatever it returns.
\<close>

theorem GetPage_capacity:
  assumes "db_ok files db" and "files (fromFile f) = f" and "GetPage f n tid p db = Some (res, db')"
    and "0 < numPages db" and "int (length (pages db)) \<le> numPages db"
  shows "int (length (pages db')) \<le> numPages db'"
  using assms(1,2,3)
proof (cases rule: GetPage_cases [consumes 3])
  case (Page r db1)
  then show ?thesis using fetchPage_length [OF assms(1) Page(2) assms(4,5)] by simp
next
  case NoPage
  then show ?thesis
    using fetchPage_length [OF assms(1) NoPage(1) assms(4,5)] fetchPage_spec(2) [OF assms(1,2) NoPage(1)]
    by (simp add: same_but_pool_def)
next
  case (Deadlock r db1 db2)
  have "pages db2 = pages db1" "numPages db2 = numPages db1" by (subst Deadlock(4), simp)+
  then show ?thesis
    using fetchPage_length [OF assms(1) Deadlock(2) assms(4,5)] fetchPage_spec(2) [OF assms(1,2) Deadlock(2)]
      clearMap_length [of tid db2] Deadlock(5) by (simp add: same_but_pool_def)
qed

text \<open>
  C31: the sequential \<^verbatim>\<open>GetPage\<close> fails to return exactly when it reaches the page but another
  transaction holds a conflicting lock and waiting for it closes no cycle. In particular it returns
  when no other transaction holds a lock on a page of that number.
\<close>

theorem GetPage_blocks_iff:
  assumes "db_ok files db" and "files (fromFile f) = f"
  shows "GetPage f n tid p db = None \<longleftrightarrow>
    (\<exists>r db1. fetchPage f n db = (Ok r, db1)) \<and> blockers (mapPageLocksByTid db) n tid p \<noteq> {} \<and>
    (tid, tid) \<notin> (waitsFor (waitTidLocks db) \<union> {tid} \<times> blockers (mapPageLocksByTid db) n tid p)\<^sup>+"
proof -
  obtain fr db1 where fetch: "fetchPage f n db = (fr, db1)" by (cases "fetchPage f n db")
  note spec = fetchPage_spec [OF assms fetch]
  show ?thesis
  proof (cases fr)
    case (Ok r)
    have t: "table_ok (mapPageLocksByTid db1)" using spec(1) by (simp add: db_ok_def)
    have same: "mapPageLocksByTid db1 = mapPageLocksByTid db" "waitTidLocks db1 = waitTidLocks db"
      using spec(2) by (auto simp: same_but_pool_def)
    obtain c db2 where ic: "isConflicted n tid p db1 = (c, db2)" by (cases "isConflicted n tid p db1")
    note ic_spec = isConflicted_spec [OF t, of n tid p, unfolded ic, simplified]
    have "waitsFor (waitTidLocks db2) = waitsFor (waitTidLocks db) \<union> {tid} \<times> blockers (mapPageLocksByTid db) n tid p"
      using ic_spec(2) same by (auto simp: waitsFor_def split: if_splits)
    moreover have "GetPage f n tid p db = None \<longleftrightarrow> c \<and> (tid, tid) \<notin> (waitsFor (waitTidLocks db2))\<^sup>+"
      using handle_eq [OF t, of n "pageKey f n" r tid p]
      by (auto simp: GetPage_def fetch Ok lockRound_def ic waitWhenConflict_def deadLockPrevent_iff split: bool.splits)
    ultimately show ?thesis using ic_spec(1) same fetch Ok by auto
  qed (auto simp: GetPage_def fetch)
qed

lemma readPage_no_panic:
  assumes "disk_ok files d" and "files (fromFile f) = f"
  shows "readPage f n d \<noteq> Panic x"
proof (cases "n < NumPages f d")
  case True
  then have "HPageNo (pageKey f n) < NumPages (files (FileName (pageKey f n))) d" by (simp add: pageKey_def assms(2))
  with disk_ok_exists [OF assms(1)] obtain p where "load_page files d (pageKey f n) = Some p" by blast
  then show ?thesis by (auto simp: load_page_readPage assms(2) split: go_result.splits)
next
  case False
  then have "read_at (d (fromFile f)) (n * PageSize) PageSize = None" by (auto simp: NumPages_def read_at_def)
  then show ?thesis by (simp add: readPage_def)
qed

lemma GetPage_no_panic:
  assumes "db_ok files db" and "files (fromFile f) = f"
  shows "GetPage f n tid p db \<noteq> Some (Panic x, db')"
proof
  assume get: "GetPage f n tid p db = Some (Panic x, db')"
  have "readPage f n (disk db1) \<noteq> Panic x" if "(if int (length (pages db)) \<ge> numPages db then evictPage db else Some db) = Some db1" for db1
    using that assms readPage_no_panic by (auto simp: db_ok_def split: if_splits elim!: evictPage_Some [OF assms(1)])
  then have "fetchPage f n db \<noteq> (Panic x, db')"
    by (auto simp: fetchPage_def split: option.splits go_result.splits)
  with GetPage_cases [OF assms get] show False by auto
qed

end
