(* ===== verification/HeapFiles.thy ===== *)
theory HeapFiles
  imports Recovery
begin

text \<open>
  The rest of \<^verbatim>\<open>godb/heap_file.go\<close>: inserting and deleting tuples through the buffer pool, the scan
  iterator and the CSV loader. A page that \<^verbatim>\<open>GetPage\<close> returned is changed in the store of page objects.
  \<open>None\<close> is a call that never returns because \<^verbatim>\<open>GetPage\<close> waits for ever.

  The last part states what a heap file promises, as operations on the multiset of its rows.
\<close>

section \<open>Operations\<close>

definition Descriptor :: "HeapFile \<Rightarrow> TupleDesc" where
  "Descriptor f = hfDesc f"

definition setObj :: "page_ref \<Rightarrow> heapPage \<Rightarrow> DB \<Rightarrow> DB" where
  "setObj r p db = db\<lparr>objs := (objs db)[r := p]\<rparr>"

text \<open>
  The loop of \<^verbatim>\<open>HeapFile.insertTuple\<close> over the page numbers that are left. \<open>Ok None\<close> is falling out of
  the loop, \<open>Ok (Some t')\<close> the early return, with the caller's tuple as it is then.
\<close>

fun insertLoop :: "HeapFile \<Rightarrow> Tuple \<Rightarrow> TransactionID \<Rightarrow> nat list \<Rightarrow> DB \<Rightarrow> (Tuple option result \<times> DB) option" where
  "insertLoop f t tid [] db = Some (Ok None, db)"
| "insertLoop f t tid (i # is) db =
     (case GetPage f i tid WritePerm db of
        None \<Rightarrow> None
      | Some (Err e, db1) \<Rightarrow> Some (Err e, db1)
      | Some (Panic x, db1) \<Rightarrow> Some (Panic x, db1)
      | Some (Ok r, db1) \<Rightarrow>
          (case page_insertTuple (objs db1 ! r) t of
             Err e \<Rightarrow> insertLoop f t tid is db1
           | Panic x \<Rightarrow> Some (Panic x, db1)
           | Ok (rid, p, t') \<Rightarrow> Some (Ok (Some t'), setObj r p db1)))"

text \<open>
  After the loop: an empty page is written to the end of the file and fetched, and the tuple goes
  there; an error of that last insertion is only logged.
\<close>

definition appendTuple :: "HeapFile \<Rightarrow> Tuple \<Rightarrow> TransactionID \<Rightarrow> nat \<Rightarrow> DB \<Rightarrow> (Tuple result \<times> DB) option" where
  "appendTuple f t tid i db =
     (case newHeapPage (hfDesc f) (NumPages f (disk db)) f of
        Err e \<Rightarrow> Some (Err e, db)
      | Panic x \<Rightarrow> Some (Panic x, db)
      | Ok page \<Rightarrow> (case flushPage f page (disk db) of
          Err e \<Rightarrow> Some (Err e, db)
        | Panic x \<Rightarrow> Some (Panic x, db)
        | Ok (_, d) \<Rightarrow> (case GetPage f i tid WritePerm (db\<lparr>disk := d\<rparr>) of
            None \<Rightarrow> None
          | Some (Err e, db1) \<Rightarrow> Some (Err e, db1)
          | Some (Panic x, db1) \<Rightarrow> Some (Panic x, db1)
          | Some (Ok r, db1) \<Rightarrow> (case page_insertTuple (objs db1 ! r) t of
              Ok (rid, p, t') \<Rightarrow> Some (Ok t', setObj r p db1)
            | Err e \<Rightarrow> Some (Ok t, db1)
            | Panic x \<Rightarrow> Some (Panic x, db1)))))"

definition insertTuple :: "HeapFile \<Rightarrow> Tuple \<Rightarrow> TransactionID \<Rightarrow> DB \<Rightarrow> (Tuple result \<times> DB) option" where
  "insertTuple f t tid db =
     (let n = NumPages f (disk db) in
      case insertLoop f t tid [0..<n] db of
        None \<Rightarrow> None
      | Some (Err e, db1) \<Rightarrow> Some (Err e, db1)
      | Some (Panic x, db1) \<Rightarrow> Some (Panic x, db1)
      | Some (Ok (Some t'), db1) \<Rightarrow> Some (Ok t', db1)
      | Some (Ok None, db1) \<Rightarrow> appendTuple f t tid n db1)"

text \<open>\<^verbatim>\<open>HeapFile.deleteTuple\<close> ignores the error of the page.\<close>

definition deleteTuple :: "HeapFile \<Rightarrow> Tuple \<Rightarrow> TransactionID \<Rightarrow> DB \<Rightarrow> (unit result \<times> DB) option" where
  "deleteTuple f t tid db =
     (case Rid t of
        None \<Rightarrow> Some (Err (PlainError ''deleteTuple_cast_RecordId_error''), db)
      | Some rid \<Rightarrow>
          (case GetPage f (PageNo rid) tid WritePerm db of
             None \<Rightarrow> None
           | Some (Err e, db1) \<Rightarrow> Some (Err e, db1)
           | Some (Panic x, db1) \<Rightarrow> Some (Panic x, db1)
           | Some (Ok r, db1) \<Rightarrow>
               (case page_deleteTuple (objs db1 ! r) (Rid t) of
                  Ok p \<Rightarrow> Some (Ok (), setObj r p db1)
                | Err e \<Rightarrow> Some (Ok (), db1)
                | Panic x \<Rightarrow> Some (Panic x, db1))))"

text \<open>
  The scan closure of \<^verbatim>\<open>HeapFile.Iterator\<close>. Its state is the captured page number \<open>i\<close> and slot \<open>j\<close>,
  beside the database. \<open>skipNil\<close> of the page model is its inner loop over the slots.
\<close>

fun scanLoop :: "HeapFile \<Rightarrow> TransactionID \<Rightarrow> nat \<Rightarrow> nat \<Rightarrow> nat \<Rightarrow> DB \<Rightarrow> (Tuple option result \<times> DB \<times> nat \<times> nat) option" where
  "scanLoop f tid 0 i j db = Some (Ok None, db, i, j)"
| "scanLoop f tid (Suc left) i j db =
     (case GetPage f i tid ReadPerm db of
        None \<Rightarrow> None
      | Some (Err e, db1) \<Rightarrow> Some (Err e, db1, i, j)
      | Some (Panic x, db1) \<Rightarrow> Some (Panic x, db1, i, j)
      | Some (Ok r, db1) \<Rightarrow>
          (case skipNil (objs db1 ! r) j of
             Ok j' \<Rightarrow>
               (if int j' < sint (totalSlots (objs db1 ! r)) then
                  Some (Ok (tuples (objs db1 ! r) ! j'), db1, i, Suc j')
                else scanLoop f tid left (Suc i) 0 db1)
           | Err e \<Rightarrow> Some (Err e, db1, i, j)
           | Panic x \<Rightarrow> Some (Panic x, db1, i, j)))"

definition scanNext :: "HeapFile \<Rightarrow> TransactionID \<Rightarrow> (DB \<times> nat \<times> nat, Tuple) iter" where
  "scanNext f tid = (\<lambda>(db, i, j). scanLoop f tid (NumPages f (disk db) - i) i j db)"

definition scanStart :: "DB \<Rightarrow> DB \<times> nat \<times> nat" where
  "scanStart db = (db, 0, 0)"

section \<open>The rows of a table\<close>

definition table_rows :: "(string \<Rightarrow> HeapFile) \<Rightarrow> DB \<Rightarrow> HeapFile \<Rightarrow> DBValue list list" where
  "table_rows files db f =
     concat (map (\<lambda>n. case current files db (pageKey f n) of None \<Rightarrow> [] | Some rs \<Rightarrow> rs) [0..<NumPages f (disk db)])"

text \<open>One row more, or one row less, on page \<open>n\<close> of \<open>f\<close>, every other page as it was.\<close>

definition row_added :: "(string \<Rightarrow> HeapFile) \<Rightarrow> HeapFile \<Rightarrow> nat \<Rightarrow> DBValue list \<Rightarrow> DB \<Rightarrow> DB \<Rightarrow> bool" where
  "row_added files f n row db db' \<longleftrightarrow>
     (\<exists>rs rs'. current files db (pageKey f n) = Some rs \<and> mset rs' = add_mset row (mset rs) \<and>
        current files db' = (current files db)(pageKey f n := Some rs'))"

text \<open>The tuple is stored in a cached page of the file, at the place that its record id names.\<close>

definition stored_at :: "DB \<Rightarrow> HeapFile \<Rightarrow> Tuple \<Rightarrow> bool" where
  "stored_at db f t \<longleftrightarrow> (\<exists>n s r. Rid t = Some \<lparr>PageNo = n, SlotNo = s\<rparr> \<and> n < NumPages f (disk db) \<and>
     map_of (pages db) (pageKey f n) = Some r \<and>
     s < length (tuples (objs db ! r)) \<and> tuples (objs db ! r) ! s = Some t)"

lemma pageKey_eq [simp]: "pageKey f n = pageKey f' n' \<longleftrightarrow> fromFile f = fromFile f' \<and> n = n'"
  by (simp add: pageKey_def)

lemma mset_table_rows:
  "mset (table_rows files db f) =
     (\<Sum>n < NumPages f (disk db). case current files db (pageKey f n) of None \<Rightarrow> {#} | Some rs \<Rightarrow> mset rs)"
proof -
  have "mset (concat (map g [0..<m])) = (\<Sum>n < m. mset (g n))" for g :: "nat \<Rightarrow> DBValue list list" and m
    by (induction m) (auto simp: union_commute)
  then show ?thesis by (simp add: table_rows_def) (intro sum.cong, auto split: option.split)
qed

lemma row_added_table:
  assumes "row_added files f n row db db'" and "n < NumPages f (disk db)" and "disk db' = disk db"
  shows "mset (table_rows files db' f) = add_mset row (mset (table_rows files db f))"
    and "fromFile f' \<noteq> fromFile f \<Longrightarrow> table_rows files db' f' = table_rows files db f'"
proof -
  let ?g = "\<lambda>db m. case current files db (pageKey f m) of None \<Rightarrow> {#} | Some rs \<Rightarrow> mset rs"
  from assms(1) obtain rs rs' where rs: "current files db (pageKey f n) = Some rs" "mset rs' = add_mset row (mset rs)"
    "current files db' = (current files db)(pageKey f n := Some rs')" by (auto simp: row_added_def)
  have split: "(\<Sum>m < NumPages f (disk db). ?g x m) = ?g x n + (\<Sum>m \<in> {..<NumPages f (disk db)} - {n}. ?g x m)" for x
    using assms(2) by (simp add: sum.remove)
  have "(\<Sum>m \<in> {..<NumPages f (disk db)} - {n}. ?g db' m) = (\<Sum>m \<in> {..<NumPages f (disk db)} - {n}. ?g db m)"
    by (rule sum.cong) (auto simp: rs)
  then show "mset (table_rows files db' f) = add_mset row (mset (table_rows files db f))"
    using split [of db] split [of db'] rs by (simp add: mset_table_rows assms(3))
  show "fromFile f' \<noteq> fromFile f \<Longrightarrow> table_rows files db' f' = table_rows files db f'"
    by (simp add: table_rows_def assms(3) rs)
qed

lemma table_rows_cong:
  "current files db' = current files db \<Longrightarrow> disk db' = disk db \<Longrightarrow> table_rows files db' f = table_rows files db f"
  by (simp add: table_rows_def)

section \<open>Pages changed under a write lock\<close>

lemma pool_page_at:
  assumes "db_ok files db" and "files (fromFile f) = f" and "map_of (pages db) (pageKey f n) = Some r"
  shows "page_ok (objs db ! r)" and "page_fits (objs db ! r)" and "pgDesc (objs db ! r) = hfDesc f"
    and "pgFile (objs db ! r) = f" and "pageNo (objs db ! r) = n" and "page_at files (pageKey f n) (objs db ! r)"
    and "r < length (objs db)"
proof -
  have "pool_ok files db" using assms(1) by (simp add: db_ok_def)
  from pool_okD(1,2) [OF this assms(3)]
  show "r < length (objs db)" and p: "page_at files (pageKey f n) (objs db ! r)" by auto
  then show "page_ok (objs db ! r)" and "page_fits (objs db ! r)" and "pgDesc (objs db ! r) = hfDesc f"
    and "pgFile (objs db ! r) = f" and "pageNo (objs db ! r) = n"
    using assms(2) by (auto simp: page_at_def page_of_def pageKey_def)
qed

lemma page_at_same:
  assumes "page_at files k p" and "page_ok q" and "page_fits q"
    and "pgDesc q = pgDesc p" and "pgFile q = pgFile p" and "pageNo q = pageNo p"
  shows "page_at files k q"
  using assms by (auto simp: page_at_def page_of_def)

lemma db_ok_setObj:
  assumes "db_ok files db" and "files (fromFile f) = f" and "GetPage f n tid WritePerm db = Some (Ok r, db1)"
    and "page_at files (pageKey f n) p" and "dirty p"
  shows "db_ok files (setObj r p db1)" and "committed files (setObj r p db1) = committed files db"
    and "current files (setObj r p db1) = (current files db)(pageKey f n := Some (rows p))"
proof -
  note get = GetPage_Ok [OF assms(1-3)]
  then obtain l where ok: "db_ok files db1" and l: "map_of (locksOf (mapPageLocksByTid db1) tid) (pageKey f n) = Some l"
    "perm l = WritePerm" "lockPage l = r" and r: "map_of (pages db1) (pageKey f n) = Some r"
    and v: "current files db1 = current files db" "committed files db1 = committed files db" by auto
  from db_ok_modify [OF ok r l assms(4,5)] v
  show "db_ok files (setObj r p db1)" and "committed files (setObj r p db1) = committed files db"
    and "current files (setObj r p db1) = (current files db)(pageKey f n := Some (rows p))"
    by (simp_all add: setObj_def)
qed

text \<open>Inserting into a page that \<^verbatim>\<open>GetPage\<close> returned.\<close>

lemma insert_into_page:
  assumes ok: "db_ok files db" and f: "files (fromFile f) = f" and get: "GetPage f n tid WritePerm db = Some (Ok r, db1)"
    and fits: "tupleFits (hfDesc f) t" and ins: "page_insertTuple (objs db1 ! r) t = Ok (rid, p, t')"
  shows "db_ok files (setObj r p db1)" and "committed files (setObj r p db1) = committed files db"
    and "row_added files f n (TFields t) db (setObj r p db1)"
    and "t' = t\<lparr>Rid := Some \<lparr>PageNo = n, SlotNo = SlotNo rid\<rparr>\<rparr>"
    and "n < NumPages f (disk db1) \<Longrightarrow> stored_at (setObj r p db1) f t'"
proof -
  note g = GetPage_Ok [OF ok f get]
  have r: "map_of (pages db1) (pageKey f n) = Some r" and c: "current files db (pageKey f n) = Some (rows (objs db1 ! r))"
    using g by auto
  note at = pool_page_at [OF conjunct1 [OF g] f r]
  note i = page_insertTuple_Ok [OF at(1) ins]
  have "page_fits p" using page_fits_insert [OF at(1,2) _ ins] fits at(3) by simp
  then have p: "page_at files (pageKey f n) p"
    using page_at_same [OF at(6) i(1)] i(9-11) by simp
  from db_ok_setObj [OF ok f get p i(8)]
  show "db_ok files (setObj r p db1)" and "committed files (setObj r p db1) = committed files db" by auto
  have "mset (rows p) = add_mset (TFields t) (mset (rows (objs db1 ! r)))"
    using arg_cong [OF i(2), of "image_mset TFields"] i(3) by (simp add: rows_def)
  with db_ok_setObj(3) [OF ok f get p i(8)] c show "row_added files f n (TFields t) db (setObj r p db1)"
    by (auto simp: row_added_def)
  show t': "t' = t\<lparr>Rid := Some \<lparr>PageNo = n, SlotNo = SlotNo rid\<rparr>\<rparr>"
    using i(3,5) at(5) by (metis RecordID.surjective old.unit.exhaust)
  show "stored_at (setObj r p db1) f t'" if "n < NumPages f (disk db1)"
    using that t' r i(4,7) at(7) by (auto simp: stored_at_def setObj_def)
qed

section \<open>Inserting\<close>

text \<open>
  The effect of an error on the database: either the transaction has been aborted or the current rows
  are as they were.
\<close>

definition failed :: "(string \<Rightarrow> HeapFile) \<Rightarrow> TransactionID \<Rightarrow> GoError \<Rightarrow> DB \<Rightarrow> DB \<Rightarrow> bool" where
  "failed files tid e db db' \<longleftrightarrow>
     (\<forall>f. table_rows files db' f = table_rows files db f) \<or>
     e = PlainError ''transaction is aborted'' \<and> locksOf (mapPageLocksByTid db') tid = []"

lemma GetPage_failed:
  assumes "db_ok files db" and "files (fromFile f) = f" and "GetPage f n tid p db = Some (Err e, db')"
  shows "db_ok files db'" and "failed files tid e db db'" and "disk db' = disk db" and "committed files db' = committed files db"
  using GetPage_Err [OF assms] GetPage_dirty_stay [OF assms] table_rows_cong [of files db' db] by (auto simp: failed_def)

lemma GetPage_got:
  assumes "db_ok files db" and "files (fromFile f) = f" and "GetPage f n tid p db = Some (Ok r, db')"
  shows "db_ok files db'" and "table_rows files db' = table_rows files db" and "disk db' = disk db"
    and "committed files db' = committed files db" and "current files db' = current files db"
    and "row_added files g m row db' db'' = row_added files g m row db db''"
    and "failed files tid e db' db'' = failed files tid e db db''"
proof -
  show d: "disk db' = disk db" and "db_ok files db'" and c: "current files db' = current files db"
    and "committed files db' = committed files db"
    using GetPage_Ok [OF assms] GetPage_dirty_stay [OF assms] by auto
  show rows: "table_rows files db' = table_rows files db" using table_rows_cong [OF c d] by blast
  show "row_added files g m row db' db'' = row_added files g m row db db''" by (simp add: row_added_def c)
  show "failed files tid e db' db'' = failed files tid e db db''" by (simp add: failed_def rows)
qed

lemma page_insertTuple_no_panic [simp]: "page_insertTuple p t \<noteq> Panic x"
  by (simp add: page_insertTuple_def split: option.split)

lemma insertLoop_spec:
  assumes "db_ok files db" and f: "files (fromFile f) = f" and fits: "tupleFits (hfDesc f) t"
    and "insertLoop f t tid is db = Some (res, db')"
  shows "db_ok files db' \<and> disk db' = disk db \<and> committed files db' = committed files db \<and>
    (case res of
       Ok None \<Rightarrow> current files db' = current files db
     | Ok (Some t') \<Rightarrow> \<exists>n \<in> set is. \<exists>s. t' = t\<lparr>Rid := Some \<lparr>PageNo = n, SlotNo = s\<rparr>\<rparr> \<and>
         row_added files f n (TFields t) db db' \<and> (n < NumPages f (disk db) \<longrightarrow> stored_at db' f t')
     | Err e \<Rightarrow> failed files tid e db db'
     | Panic x \<Rightarrow> False)"
  using assms(1,4)
proof (induction "is" arbitrary: db)
  case Nil
  then show ?case by auto
next
  case (Cons i "is")
  from Cons.prems(2) obtain gr db1 where get: "GetPage f i tid WritePerm db = Some (gr, db1)"
    by (auto split: option.splits)
  show ?case
  proof (cases gr)
    case (Ok r)
    note got = GetPage_got [OF Cons.prems(1) f get [unfolded Ok]]
    show ?thesis
    proof (cases "page_insertTuple (objs db1 ! r) t")
      case ins: (Ok x)
      obtain rid p t' where x: "x = (rid, p, t')" by (cases x)
      note ip = insert_into_page [OF Cons.prems(1) f get [unfolded Ok] fits ins [unfolded x]]
      have "res = Ok (Some t')" "db' = setObj r p db1" using Cons.prems(2) get Ok ins x by auto
      with ip got(3) show ?thesis by (auto simp: setObj_def)
    next
      case (Err e)
      then have "insertLoop f t tid is db1 = Some (res, db')" using Cons.prems(2) get Ok by simp
      from Cons.IH [OF got(1) this] got(3-7) show ?thesis by (auto split: go_result.splits option.splits)
    next
      case (Panic y)
      then show ?thesis by (simp add: page_insertTuple_no_panic)
    qed
  next
    case (Err e)
    then show ?thesis
      using GetPage_failed [OF Cons.prems(1) f get [unfolded Err]] Cons.prems(2) get by auto
  next
    case (Panic y)
    then show ?thesis using GetPage_no_panic [OF Cons.prems(1) f] get by blast
  qed
qed

lemma newHeapPage_empty:
  assumes "newHeapPage desc n f = Ok p"
  shows "page_ok p" and "page_fits p" and "pgDesc p = desc" and "pgFile p = f" and "pageNo p = n"
    and "rows p = []" and "compact p = p" and "length (tuples p) = numSlotsFor desc"
proof -
  have "tupleSize desc > 0" using assms newHeapPage_panics_iff [of desc n f DivideByZero] by auto
  then obtain q where q: "newHeapPage desc n f = Ok q" "page_ok q" "page_fits q" "somes (tuples q) = []"
    "pgDesc q = desc" "pgFile q = f" "pageNo q = n" "length (tuples q) = numSlotsFor desc"
    by (rule newHeapPage_ok [of desc n f])
  with assms show "page_ok p" and "page_fits p" and "pgDesc p = desc" and "pgFile p = f" and "pageNo p = n"
    and "rows p = []" and "length (tuples p) = numSlotsFor desc" by (auto simp: rows_def)
  show "compact p = p"
    using assms by (auto simp: newHeapPage_def compact_def rereadAll_def split: if_splits)
qed

text \<open>Extending the file by an empty page.\<close>

lemma db_ok_extend:
  assumes ok: "db_ok files db" and f: "files (fromFile f) = f" and n: "n = NumPages f (disk db)"
    and page: "newHeapPage (hfDesc f) n f = Ok page" and fl: "flushPage f page (disk db) = Ok (page', d)"
  shows "db_ok files (db\<lparr>disk := d\<rparr>)" and "committed files (db\<lparr>disk := d\<rparr>) = (committed files db)(pageKey f n := Some [])"
    and "current files (db\<lparr>disk := d\<rparr>) = (current files db)(pageKey f n := Some [])"
    and "current files db (pageKey f n) = None" and "NumPages g d = (if fromFile g = fromFile f then Suc n else NumPages g (disk db))"
proof -
  let ?k = "pageKey f n" and ?db = "db\<lparr>disk := d\<rparr>"
  have dk: "disk_ok files (disk db)" and pool: "pool_ok files db" using ok by (auto simp: db_ok_def)
  note p = newHeapPage_empty [OF page]
  then have at: "page_at files ?k page" using dk f by (auto simp: page_at_def page_of_def pageKey_def disk_ok_def)
  have d: "d = save_page files (disk db) ?k page" using fl f by (simp add: save_page_def pageKey_def)
  have same: "load_page files d ?k = Some page" using disk.load_save_same [OF at] p d by simp
  have none: "load_page files (disk db) ?k = None"
    using load_page_NumPages [of files "disk db" ?k] n f by (cases "load_page files (disk db) ?k") (auto simp: pageKey_def)
  have num: "NumPages g d = (if fromFile g = fromFile f then Suc n else NumPages g (disk db))" for g
    using NumPages_save [OF at, of g "disk db"] d n by (auto simp: pageKey_def NumPages_def)
  then show "NumPages g d = (if fromFile g = fromFile f then Suc n else NumPages g (disk db))" .
  have other: "load_page files d k = load_page files (disk db) k" if "k \<noteq> ?k" for k
  proof (cases "load_page files (disk db) k")
    case (Some q)
    then show ?thesis using disk.load_save_other [OF at that Some] d by simp
  next
    case None
    then have "\<not> HPageNo k < NumPages (files (FileName k)) (disk db)" using disk_ok_exists [OF dk] by force
    then have "\<not> HPageNo k < NumPages (files (FileName k)) d"
      using that num [of "files (FileName k)"] n dk f
      by (cases k) (auto simp: pageKey_def disk_ok_def less_Suc_eq NumPages_def split: if_splits)
    then show ?thesis using None load_page_NumPages by (metis not_None_eq)
  qed
  have out: "map_of (pages db) ?k = None"
    using pool_okD(3) [OF pool, of ?k] none by (cases "map_of (pages db) ?k") auto
  have "disk_ok files d"
    unfolding d using n f by (intro disk_ok_save [OF dk at]) (simp add: pageKey_def)
  moreover have "entry_ok files ?db k r" if "map_of (pages db) k = Some r" for k r
  proof -
    have "k \<noteq> ?k" using that out by auto
    with pool_okD [OF pool that] other [OF this] show ?thesis by (auto simp: entry_ok_def)
  qed
  then have "pool_ok files ?db" using pool by (simp add: pool_ok_def)
  moreover have "locks_ok files ?db" using ok by (simp add: db_ok_def locks_ok_def lock_ok_def)
  ultimately show "db_ok files ?db" using ok by (simp add: db_ok_def waits_ok_def)
  show c: "committed files ?db = (committed files db)(?k := Some [])"
    using same other p(6) by (auto simp: committed_def fun_eq_iff)
  show "current files ?db = (current files db)(?k := Some [])"
    using out by (auto simp: current_def c fun_eq_iff split: option.split)
  show "current files db ?k = None" using out none by (simp add: current_def committed_def)
qed

lemma table_rows_extend:
  assumes "NumPages f (disk db) = n" and "NumPages f (disk db') = Suc n"
    and "current files db' = (current files db)(pageKey f n := Some rs)"
  shows "table_rows files db' f = table_rows files db f @ rs"
proof -
  have "map (\<lambda>m. case current files db' (pageKey f m) of None \<Rightarrow> [] | Some rs \<Rightarrow> rs) [0..<n] =
      map (\<lambda>m. case current files db (pageKey f m) of None \<Rightarrow> [] | Some rs \<Rightarrow> rs) [0..<n]"
    by (rule map_cong) (auto simp: assms(3))
  moreover have "current files db' (pageKey f n) = Some rs" by (simp add: assms(3))
  ultimately show ?thesis unfolding table_rows_def assms(1,2) by (simp del: map_eq_conv)
qed

lemma insertTuple_eq:
  "insertTuple f t tid db = (case insertLoop f t tid [0..<NumPages f (disk db)] db of
     None \<Rightarrow> None
   | Some (lr, db1) \<Rightarrow> (case lr of
       Err e \<Rightarrow> Some (Err e, db1)
     | Panic x \<Rightarrow> Some (Panic x, db1)
     | Ok x \<Rightarrow> (case x of Some t' \<Rightarrow> Some (Ok t', db1) | None \<Rightarrow> appendTuple f t tid (NumPages f (disk db)) db1)))"
  by (simp add: insertTuple_def split: option.split go_result.split prod.split)

lemma insertTuple_cases:
  assumes "insertTuple f t tid db = Some (res, db')"
  obtains (Stored) t' where "insertLoop f t tid [0..<NumPages f (disk db)] db = Some (Ok (Some t'), db')" "res = Ok t'"
  | (Appended) db1 where "insertLoop f t tid [0..<NumPages f (disk db)] db = Some (Ok None, db1)"
      "appendTuple f t tid (NumPages f (disk db)) db1 = Some (res, db')"
  | (LoopErr) e where "insertLoop f t tid [0..<NumPages f (disk db)] db = Some (Err e, db')" "res = Err e"
  | (LoopPanic) x where "insertLoop f t tid [0..<NumPages f (disk db)] db = Some (Panic x, db')" "res = Panic x"
proof -
  obtain lr db1 where loop: "insertLoop f t tid [0..<NumPages f (disk db)] db = Some (lr, db1)"
    using assms by (cases "insertLoop f t tid [0..<NumPages f (disk db)] db") (auto simp: insertTuple_eq)
  show thesis
  proof (cases lr)
    case (Ok x)
    then show thesis using assms loop Stored Appended by (cases x) (auto simp: insertTuple_eq)
  qed (use assms loop LoopErr LoopPanic in \<open>auto simp: insertTuple_eq\<close>)
qed

lemma table_rows_other:
  assumes "NumPages g (disk db') = NumPages g (disk db)" and "fromFile g \<noteq> fromFile f"
    and "current files db' = (current files db)(pageKey f n := x)"
  shows "table_rows files db' g = table_rows files db g"
  using assms by (simp add: table_rows_def)

lemma fresh_insert:
  assumes "page_ok p" and "rows p = []" and "0 < numSlotsFor (pgDesc p)"
  obtains rid q t' where "page_insertTuple p t = Ok (rid, q, t')"
proof -
  have "somes (tuples p) = []" "0 < length (tuples p)" using assms by (auto simp: rows_def page_ok_def)
  then have "None \<in> set (tuples p)" using somes_full_iff [of "tuples p"] by fastforce
  with page_insertTuple_free [OF assms(1), of t] that show thesis by metis
qed

lemma appendTuple_cases:
  assumes "appendTuple f t tid i db = Some (Ok t', db')"
  obtains page page' d r db1 where "newHeapPage (hfDesc f) (NumPages f (disk db)) f = Ok page"
    and "flushPage f page (disk db) = Ok (page', d)"
    and "GetPage f i tid WritePerm (db\<lparr>disk := d\<rparr>) = Some (Ok r, db1)"
    and "(\<exists>rid p. page_insertTuple (objs db1 ! r) t = Ok (rid, p, t') \<and> db' = setObj r p db1) \<or>
       (\<exists>e. page_insertTuple (objs db1 ! r) t = Err e \<and> t' = t \<and> db' = db1)"
  using assms by (auto simp: appendTuple_def split: go_result.splits option.splits prod.splits)

lemma appendTuple_Ok:
  assumes ok: "db_ok files db" and f: "files (fromFile f) = f" and n: "n = NumPages f (disk db)"
    and fits: "tupleFits (hfDesc f) t" and slots: "0 < numSlotsFor (hfDesc f)"
    and app: "appendTuple f t tid n db = Some (Ok t', db')"
  shows "db_ok files db'" and "mset (table_rows files db' f) = add_mset (TFields t) (mset (table_rows files db f))"
    and "fromFile g \<noteq> fromFile f \<Longrightarrow> table_rows files db' g = table_rows files db g"
    and "\<exists>s. t' = t\<lparr>Rid := Some \<lparr>PageNo = n, SlotNo = s\<rparr>\<rparr>"
    and "committed files db' = (committed files db)(pageKey f n := Some [])"
    and "committed files db (pageKey f n) = None" and "stored_at db' f t'"
proof -
  from app n obtain page page' d r db1 where page: "newHeapPage (hfDesc f) n f = Ok page"
      and fl: "flushPage f page (disk db) = Ok (page', d)"
      and get: "GetPage f n tid WritePerm (db\<lparr>disk := d\<rparr>) = Some (Ok r, db1)"
      and ends: "(\<exists>rid p. page_insertTuple (objs db1 ! r) t = Ok (rid, p, t') \<and> db' = setObj r p db1) \<or>
       (\<exists>e. page_insertTuple (objs db1 ! r) t = Err e \<and> t' = t \<and> db' = db1)"
    by (auto elim: appendTuple_cases)
  note ext = db_ok_extend [OF ok f n page fl]
  note g = GetPage_Ok [OF ext(1) f get]
  then have r: "map_of (pages db1) (pageKey f n) = Some r" and "rows (objs db1 ! r) = []" by (auto simp: ext(3))
  note at = pool_page_at [OF conjunct1 [OF g] f r]
  obtain rid p t1 where ins: "page_insertTuple (objs db1 ! r) t = Ok (rid, p, t1)"
    using fresh_insert [OF at(1) \<open>rows (objs db1 ! r) = []\<close>] at(3) slots by metis
  have res: "t' = t1" "db' = setObj r p db1"
    using ends ins by auto
  note ip = insert_into_page [OF ext(1) f get fits ins]
  show "db_ok files db'" and "\<exists>s. t' = t\<lparr>Rid := Some \<lparr>PageNo = n, SlotNo = s\<rparr>\<rparr>"
    and "committed files db' = (committed files db)(pageKey f n := Some [])" using ip res ext(2) by auto
  have dk: "disk db' = d" using GetPage_got(3) [OF ext(1) f get] res by (simp add: setObj_def)
  then have "disk db1 = d" using res by (simp add: setObj_def)
  then show "stored_at db' f t'" using ip(5) res ext(5) [of f] by simp
  have cur: "current files db' = (current files db)(pageKey f n := Some [TFields t])"
    using ip(3) res(2) ext(3) by (auto simp: row_added_def)
  have num: "NumPages h (disk db') = (if fromFile h = fromFile f then Suc n else NumPages h (disk db))" for h
    using ext(5) [of h] dk by simp
  show "mset (table_rows files db' f) = add_mset (TFields t) (mset (table_rows files db f))"
    using table_rows_extend [OF n [symmetric] _ cur] num [of f] by simp
  show "table_rows files db' g = table_rows files db g" if "fromFile g \<noteq> fromFile f"
    using table_rows_other [OF _ that cur] num [of g] that by simp
  show "committed files db (pageKey f n) = None"
    using ext(4) by (auto simp: current_def split: option.splits)
qed

lemma insertTuple_Ok:
  assumes "db_ok files db" and "files (fromFile f) = f" and "tupleFits (hfDesc f) t"
    and "0 < numSlotsFor (hfDesc f)" and "insertTuple f t tid db = Some (Ok t', db')"
  shows "db_ok files db' \<and>
    mset (table_rows files db' f) = add_mset (TFields t) (mset (table_rows files db f)) \<and>
    (\<forall>g. fromFile g \<noteq> fromFile f \<longrightarrow> table_rows files db' g = table_rows files db g) \<and>
    (\<forall>k. committed files db' k = committed files db k \<or> committed files db k = None \<and> committed files db' k = Some []) \<and>
    TFields t' = TFields t \<and> stored_at db' f t'"
  using assms(5)
proof (cases rule: insertTuple_cases)
  case (Stored t1)
  note spec = insertLoop_spec [OF assms(1-3) Stored(1)]
  with Stored(2) obtain n s where ns: "n < NumPages f (disk db)" "t' = t\<lparr>Rid := Some \<lparr>PageNo = n, SlotNo = s\<rparr>\<rparr>"
    "row_added files f n (TFields t) db db'" "stored_at db' f t'" by auto
  with row_added_table [OF ns(3,1)] spec show ?thesis by auto
next
  case (Appended db1)
  note spec = insertLoop_spec [OF assms(1-3) Appended(1)]
  then have v: "db_ok files db1" "disk db1 = disk db" "committed files db1 = committed files db"
    "\<And>g. table_rows files db1 g = table_rows files db g" using table_rows_cong [of files db1 db] by auto
  have n: "NumPages f (disk db) = NumPages f (disk db1)" using v(2) by simp
  note app = appendTuple_Ok [OF v(1) assms(2) n assms(3,4) Appended(2)]
  show ?thesis using app v(3,4) by auto
qed auto

text \<open>
  C8: for a tuple that fits the table, its strings no longer than 32 bytes, and a descriptor that leaves room for at least one tuple in
  a page, \<^verbatim>\<open>HeapFile.insertTuple\<close>, when it reports success, has added exactly the row of the tuple to the
  table and left every other table alone, keeps the invariant of the database, and changes nothing on
  disk but for an empty page at the end of the file; the tuple is found where its record id says.
\<close>

theorem insertTuple_adds_row:
  assumes "db_ok files db" and "files (fromFile f) = f" and "tupleFits (hfDesc f) t"
    and "0 < numSlotsFor (hfDesc f)" and "insertTuple f t tid db = Some (Ok t', db')"
  shows "db_ok files db' \<and>
    mset (table_rows files db' f) = add_mset (TFields t) (mset (table_rows files db f)) \<and>
    (\<forall>g. fromFile g \<noteq> fromFile f \<longrightarrow> table_rows files db' g = table_rows files db g) \<and>
    (\<forall>k. committed files db' k = committed files db k \<or> committed files db k = None \<and> committed files db' k = Some []) \<and>
    TFields t' = TFields t \<and> stored_at db' f t'"
  using assms by (rule insertTuple_Ok)

section \<open>Tuples that fit no page\<close>

lemma page_insertTuple_no_slots:
  "page_ok p \<Longrightarrow> numSlotsFor (pgDesc p) = 0 \<Longrightarrow> page_insertTuple p t = Err (PlainError ''no free slots available'')"
  by (rule page_insertTuple_full) (auto simp: page_ok_def)

lemma insertLoop_no_slots:
  assumes "db_ok files db" and f: "files (fromFile f) = f" and w: "numSlotsFor (hfDesc f) = 0"
    and "insertLoop f t tid is db = Some (Ok x, db')"
  shows "x = None \<and> db_ok files db' \<and> disk db' = disk db \<and> current files db' = current files db"
  using assms(1,4)
proof (induction "is" arbitrary: db)
  case (Cons i "is")
  from Cons.prems(2) obtain r db1 where get: "GetPage f i tid WritePerm db = Some (Ok r, db1)"
    by (auto split: option.splits go_result.splits)
  note g = GetPage_Ok [OF Cons.prems(1) f get] and got = GetPage_got [OF Cons.prems(1) f get]
  note at = pool_page_at [OF got(1) f, of i r]
  have "page_insertTuple (objs db1 ! r) t = Err (PlainError ''no free slots available'')"
    using g at(1,3) w by (intro page_insertTuple_no_slots) auto
  with Cons.prems(2) get have "insertLoop f t tid is db1 = Some (Ok x, db')" by simp
  from Cons.IH [OF got(1) this] got(3,5) show ?case by simp
qed simp

text \<open>
  A tuple that no page can hold is lost silently. When the descriptor is so wide that a page has
  no slot, \<^verbatim>\<open>HeapFile.insertTuple\<close> never stores anything: whenever it reports success the rows of the
  table are unchanged.
\<close>

theorem insertTuple_wide_lost:
  assumes "db_ok files db" and "files (fromFile f) = f" and "numSlotsFor (hfDesc f) = 0"
    and "insertTuple f t tid db = Some (Ok t', db')"
  shows "table_rows files db' f = table_rows files db f \<and> t' = t"
  using assms(4)
proof (cases rule: insertTuple_cases)
  case (Stored t1)
  then show ?thesis using insertLoop_no_slots [OF assms(1-3) Stored(1)] by simp
next
  case (Appended db1)
  note loop = insertLoop_no_slots [OF assms(1-3) Appended(1)]
  define n where "n = NumPages f (disk db1)"
  have n: "NumPages f (disk db) = n" using loop by (simp add: n_def)
  from Appended(2) [unfolded n] obtain page page' d r db2 where page: "newHeapPage (hfDesc f) n f = Ok page"
      and fl: "flushPage f page (disk db1) = Ok (page', d)"
      and get: "GetPage f n tid WritePerm (db1\<lparr>disk := d\<rparr>) = Some (Ok r, db2)"
      and ends: "(\<exists>rid p. page_insertTuple (objs db2 ! r) t = Ok (rid, p, t') \<and> db' = setObj r p db2) \<or>
       (\<exists>e. page_insertTuple (objs db2 ! r) t = Err e \<and> t' = t \<and> db' = db2)"
    unfolding n_def by (rule appendTuple_cases)
  note ext = db_ok_extend [OF conjunct1 [OF conjunct2 [OF loop]] assms(2) n_def page fl]
  note g = GetPage_Ok [OF ext(1) assms(2) get] and got = GetPage_got [OF ext(1) assms(2) get]
  note at = pool_page_at [OF got(1) assms(2), of n r]
  have r: "map_of (pages db2) (pageKey f n) = Some r" using g by simp
  have "page_insertTuple (objs db2 ! r) t = Err (PlainError ''no free slots available'')"
    using at(1) [OF r] at(3) [OF r] assms(3) by (simp add: page_insertTuple_no_slots)
  then have res: "t' = t" "db' = db2"
    using ends by auto
  have "table_rows files db2 f = table_rows files db f @ []"
  proof (rule table_rows_extend [OF n])
    show "NumPages f (disk db2) = Suc n" using got(3) ext(5) [of f] by simp
    show "current files db2 = (current files db)(pageKey f n := Some [])" using got(5) ext(3) loop by simp
  qed
  with res show ?thesis by simp
qed auto

text \<open>
  When \<^verbatim>\<open>HeapFile.insertTuple\<close> fails, either its transaction has been aborted because of a deadlock
  or every table has the rows it had. It does not panic on a descriptor with at least one field of
  known type.
\<close>

theorem insertTuple_error:
  assumes "db_ok files db" and "files (fromFile f) = f" and "tupleFits (hfDesc f) t"
    and "0 < tupleSize (hfDesc f)" and "insertTuple f t tid db = Some (res, db')"
  shows "db_ok files db' \<and> (\<forall>e. res = Err e \<longrightarrow> failed files tid e db db') \<and> (\<forall>x. res \<noteq> Panic x)"
  using assms(5)
proof (cases rule: insertTuple_cases)
  case (Appended db1)
  define n where "n = NumPages f (disk db1)"
  note loop = insertLoop_spec [OF assms(1-3) Appended(1), simplified]
  then have n: "NumPages f (disk db) = n" by (simp add: n_def)
  have rows: "table_rows files db1 = table_rows files db" using loop table_rows_cong by blast
  obtain page where page: "newHeapPage (hfDesc f) n f = Ok page" using newHeapPage_ok [OF assms(4)] by metis
  note p = newHeapPage_empty [OF page]
  then have "page_of f page" by (simp add: page_of_def)
  from flushPage_Ok [OF this] obtain page' d where fl: "flushPage f page (disk db1) = Ok (page', d)" by metis
  note ext = db_ok_extend [OF conjunct1 [OF loop] assms(2) n_def page fl]
  let ?db = "db1\<lparr>disk := d\<rparr>"
  have same: "table_rows files ?db g = table_rows files db g" for g
  proof (cases "fromFile g = fromFile f")
    case True
    then have "pageKey g m = pageKey f m" "NumPages g x = NumPages f x" for m x by (auto simp: NumPages_def)
    then have "table_rows files ?db g = table_rows files db1 g @ []"
      using ext(3,5) n_def by (intro table_rows_extend) auto
    then show ?thesis by (simp add: rows)
  next
    case False
    then have "table_rows files ?db g = table_rows files db1 g"
      using ext(3) ext(5) [of g] by (intro table_rows_other [where f = f]) auto
    then show ?thesis by (simp add: rows)
  qed
  obtain gr db2 where get: "GetPage f n tid WritePerm ?db = Some (gr, db2)"
    using Appended(2) page fl by (auto simp: appendTuple_def n n_def [symmetric] split: option.splits)
  show ?thesis
  proof (cases gr)
    case (Ok r)
    note got = GetPage_got [OF ext(1) assms(2) get [unfolded Ok]]
    have "db_ok files db'" "\<not> (\<exists>e. res = Err e)" "\<not> (\<exists>x. res = Panic x)"
      using Appended(2) page fl get Ok got(1) insert_into_page(1) [OF ext(1) assms(2) get [unfolded Ok] assms(3)]
      by (auto simp: appendTuple_def n n_def [symmetric] split: go_result.splits)
    then show ?thesis by blast
  next
    case (Err e)
    then have "res = Err e" "db' = db2" using Appended(2) page fl get by (auto simp: appendTuple_def n n_def [symmetric])
    with GetPage_failed(1,2) [OF ext(1) assms(2) get [unfolded Err]] same show ?thesis by (simp add: failed_def)
  next
    case (Panic x)
    then show ?thesis using GetPage_no_panic [OF ext(1) assms(2)] get by blast
  qed
next
  case (Stored t1)
  then show ?thesis using insertLoop_spec [OF assms(1-3) Stored(1)] by simp
next
  case (LoopErr e)
  then show ?thesis using insertLoop_spec [OF assms(1-3) LoopErr(1)] by simp
next
  case (LoopPanic x)
  then show ?thesis using insertLoop_spec [OF assms(1-3) LoopPanic(1)] by simp
qed

section \<open>Deleting\<close>

text \<open>A page in the pool is the one \<^verbatim>\<open>GetPage\<close> returns, and the page objects stay as they are.\<close>

lemma GetPage_cached:
  assumes "db_ok files db" and "files (fromFile f) = f" and "map_of (pages db) (pageKey f n) = Some r"
    and "GetPage f n tid p db = Some (Ok r', db')"
  shows "r' = r" and "objs db' = objs db" and "pages db' = pages db"
proof -
  have "fetchPage f n db = (Ok r, db)" using assms(3) by (simp add: fetchPage_def)
  then have "r' = r \<and> objs db' = objs db \<and> pages db' = pages db"
    by (cases rule: GetPage_cases [OF assms(1,2,4)]) auto
  then show "r' = r" and "objs db' = objs db" and "pages db' = pages db" by auto
qed

lemma delete_from_page:
  assumes ok: "db_ok files db" and f: "files (fromFile f) = f" and get: "GetPage f n tid WritePerm db = Some (Ok r, db1)"
    and slot: "s < length (tuples (objs db1 ! r))" "tuples (objs db1 ! r) ! s = Some t"
    and del: "page_deleteTuple (objs db1 ! r) (Some \<lparr>PageNo = n, SlotNo = s\<rparr>) = Ok p"
  shows "db_ok files (setObj r p db1)" and "committed files (setObj r p db1) = committed files db"
    and "row_added files f n (TFields t) (setObj r p db1) db"
proof -
  note g = GetPage_Ok [OF ok f get]
  then have r: "map_of (pages db1) (pageKey f n) = Some r" and c: "current files db (pageKey f n) = Some (rows (objs db1 ! r))" by auto
  let ?q = "objs db1 ! r"
  note at = pool_page_at [OF conjunct1 [OF g] f r]
  have p: "p = setDirty (?q\<lparr>tuples := (tuples ?q)[s := None], usedSlots := usedSlots ?q - 1\<rparr>) True"
    using page_deleteTuple_slot [OF at(1) slot] del at(5) by simp
  have pa: "page_at files (pageKey f n) p"
    using page_at_same [OF at(6) page_ok_delete [OF at(1) del] page_fits_delete [OF at(1,2) del]] p by simp
  have "dirty p" using p by (simp add: setDirty_def)
  note so = db_ok_setObj [OF ok f get pa this]
  show "db_ok files (setObj r p db1)" and "committed files (setObj r p db1) = committed files db" using so by auto
  have "mset (somes (tuples ?q)) = add_mset t (mset (somes ((tuples ?q)[s := None])))"
    using slot by (simp add: mset_somes_delete)
  then have "mset (rows ?q) = add_mset (TFields t) (mset (rows p))"
    using arg_cong [of _ _ "image_mset TFields"] by (simp add: rows_def p)
  then show "row_added files f n (TFields t) (setObj r p db1) db"
    using so(3) c by (auto simp: row_added_def fun_eq_iff)
qed

lemma deleteTuple_stored:
  assumes "db_ok files db" and "files (fromFile f) = f" and "stored_at db f t"
    and "deleteTuple f t tid db = Some (Ok (), db')"
  shows "db_ok files db' \<and> disk db' = disk db \<and>
    mset (table_rows files db f) = add_mset (TFields t) (mset (table_rows files db' f)) \<and>
    (\<forall>g. fromFile g \<noteq> fromFile f \<longrightarrow> table_rows files db' g = table_rows files db g)"
proof -
  obtain n s r where rid: "Rid t = Some \<lparr>PageNo = n, SlotNo = s\<rparr>" and n: "n < NumPages f (disk db)"
    and r: "map_of (pages db) (pageKey f n) = Some r"
    and slot: "s < length (tuples (objs db ! r))" "tuples (objs db ! r) ! s = Some t"
    using assms(3) by (auto simp: stored_at_def)
  note at = pool_page_at [OF assms(1,2) r]
  from assms(4) rid obtain r' db1 where get: "GetPage f n tid WritePerm db = Some (Ok r', db1)"
    by (cases "GetPage f n tid WritePerm db") (auto simp: deleteTuple_def rid split: go_result.splits)
  note cached = GetPage_cached [OF assms(1,2) r get]
  obtain p where del: "page_deleteTuple (objs db1 ! r') (Some \<lparr>PageNo = n, SlotNo = s\<rparr>) = Ok p"
    using page_deleteTuple_slot [OF at(1) slot] at(5) cached by simp
  with assms(4) rid get have db': "db' = setObj r' p db1" by (simp add: deleteTuple_def)
  have "s < length (tuples (objs db1 ! r'))" "tuples (objs db1 ! r') ! s = Some t" using slot cached by auto
  note dp = delete_from_page [OF assms(1,2) get this del]
  have dk: "disk db' = disk db" using GetPage_got(3) [OF assms(1,2) get] db' by (simp add: setObj_def)
  have "row_added files f n (TFields t) db' db" using dp(3) db' by simp
  note rt = row_added_table [OF this _ dk [symmetric]]
  have "n < NumPages f (disk db')" using n dk by simp
  with rt dp(1) db' dk show ?thesis by metis
qed

text \<open>
  C9: deleting a tuple that is stored in a cached page at the place its record id names removes
  exactly that row from the table: no other row, no other table and nothing on disk changes.
\<close>

theorem deleteTuple_removes_row:
  assumes "db_ok files db" and "files (fromFile f) = f" and "stored_at db f t"
    and "deleteTuple f t tid db = Some (Ok (), db')"
  shows "db_ok files db' \<and> disk db' = disk db \<and>
    mset (table_rows files db f) = add_mset (TFields t) (mset (table_rows files db' f)) \<and>
    (\<forall>g. fromFile g \<noteq> fromFile f \<longrightarrow> table_rows files db' g = table_rows files db g)"
  using assms by (rule deleteTuple_stored)

end
