(* ===== verification/Scans.thy ===== *)
theory Scans
  imports HeapFiles
begin

text \<open>
  What the scan iterator of a heap file yields, and when the operations of a heap file return: the lemmas
  on \<^verbatim>\<open>GetPage\<close> that need no waiting, the completeness of \<^verbatim>\<open>HeapFile.Iterator\<close> and the totality of
  \<^verbatim>\<open>HeapFile.insertTuple\<close> and \<^verbatim>\<open>HeapFile.deleteTuple\<close>.
\<close>

section \<open>Scanning\<close>

text \<open>There is a free place in the pool or a clean page to evict.\<close>

definition has_room :: "DB \<Rightarrow> bool" where
  "has_room db \<longleftrightarrow> int (length (pages db)) < numPages db \<or> (\<exists>(k, r) \<in> set (pages db). \<not> dirty (objs db ! r))"

text \<open>No other transaction holds a lock that conflicts with permission \<open>p\<close>.\<close>

definition alone :: "TransactionID \<Rightarrow> RWPerm \<Rightarrow> DB \<Rightarrow> bool" where
  "alone tid p db \<longleftrightarrow> (\<forall>n. blockers (mapPageLocksByTid db) n tid p = {})"

lemma alone_cong:
  "(\<And>t. t \<noteq> tid \<Longrightarrow> locksOf (mapPageLocksByTid db') t = locksOf (mapPageLocksByTid db) t) \<Longrightarrow>
   alone tid p db' = alone tid p db"
proof -
  assume same: "\<And>t. t \<noteq> tid \<Longrightarrow> locksOf (mapPageLocksByTid db') t = locksOf (mapPageLocksByTid db) t"
  have "blockers (mapPageLocksByTid db') n tid p = blockers (mapPageLocksByTid db) n tid p" for n
    by (rule set_eqI) (simp add: blockers_def holds_def same cong: conj_cong)
  then show ?thesis by (simp add: alone_def)
qed

lemma fetchPage_Ok:
  assumes ok: "db_ok files db" and f: "files (fromFile f) = f" and n: "n < NumPages f (disk db)" and room: "has_room db"
  shows "\<exists>r db1. fetchPage f n db = (Ok r, db1) \<and> has_room db1"
proof (cases "map_of (pages db) (pageKey f n)")
  case (Some r)
  then show ?thesis using room by (simp add: fetchPage_def)
next
  case None
  have "(if int (length (pages db)) \<ge> numPages db then evictPage db else Some db) \<noteq> None"
    using room evictPage_None [of db] by (auto simp: has_room_def)
  then obtain db1 where db1: "(if int (length (pages db)) \<ge> numPages db then evictPage db else Some db) = Some db1" by blast
  then have "disk db1 = disk db" by (auto split: if_splits elim!: evictPage_Some [OF ok])
  moreover have "disk_ok files (disk db)" using ok by (simp add: db_ok_def)
  moreover have "HPageNo (pageKey f n) < NumPages (files (FileName (pageKey f n))) (disk db)" using n f by (simp add: pageKey_def)
  ultimately obtain p where p: "load_page files (disk db1) (pageKey f n) = Some p" and clean: "compact p = p"
    using disk_ok_exists disk_ok_load(2) by metis
  then have "readPage f n (disk db1) = Ok p" by (auto simp: load_page_readPage f split: go_result.splits)
  then have "fetchPage f n db = (Ok (length (objs db1)),
      db1\<lparr>objs := objs db1 @ [p], pages := AList.update (pageKey f n) (length (objs db1)) (pages db1)\<rparr>)"
    using None db1 unfolding fetchPage_def by (simp only: option.case go_result.case)
  moreover have "\<not> dirty p" using clean by (metis compact_def heapPage.select_convs(7) heapPage.surjective heapPage.update_convs(7))
  moreover have "(pageKey f n, length (objs db1)) \<in> set (AList.update (pageKey f n) (length (objs db1)) (pages db1))"
    by (rule map_of_SomeD) simp
  ultimately show ?thesis by (force simp: has_room_def)
qed

lemma GetPage_total:
  assumes ok: "db_ok files db" and f: "files (fromFile f) = f" and n: "n < NumPages f (disk db)"
    and room: "has_room db" and alone: "alone tid p db"
  obtains r db' where "GetPage f n tid p db = Some (Ok r, db')" and "has_room db'" and "alone tid p db'"
proof -
  obtain r db1 where fetch: "fetchPage f n db = (Ok r, db1)" and room1: "has_room db1" using fetchPage_Ok [OF ok f n room] by blast
  note spec = fetchPage_spec [OF ok f fetch]
  have same: "mapPageLocksByTid db1 = mapPageLocksByTid db" using spec(2) by (simp add: same_but_pool_def)
  have t: "table_ok (mapPageLocksByTid db1)" using spec(1) by (simp add: db_ok_def)
  have free: "blockers (mapPageLocksByTid db1) n tid p = {}" using alone same by (simp add: alone_def)
  have key: "HPageNo (pageKey f n) = n" by (simp add: pageKey_def)
  obtain res db2 where lock: "lockRound n (pageKey f n) r tid p db1 = (res, db2)" by (cases "lockRound n (pageKey f n) r tid p db1")
  have "\<not> fst (isConflicted n tid p db1)" using isConflicted_spec(1) [OF t] free by blast
  then have "res = Granted" using lock by (auto simp: lockRound_def split: prod.splits bool.splits)
  then have "GetPage f n tid p db = Some (Ok r, db2)"
    using lock by (simp add: GetPage_def fetch handle_eq [OF t])
  moreover have "pages db2 = pages db1" "objs db2 = objs db1" "numPages db2 = numPages db1"
      "mapPageLocksByTid db2 = mapPageLocksByTid (saveMapAndUpgradeLock n (pageKey f n) r tid p db1)"
    using lockRound_cases [OF spec(1) spec(4) [OF refl], unfolded key, OF lock] \<open>res = Granted\<close> by auto
  moreover from this(4) have "alone tid p db2"
    using alone alone_cong [of tid db2 db1] alone_cong [of tid db1 db] same saveMap_locks(2) [OF t key] by simp
  ultimately show thesis using that room1 by (simp add: has_room_def)
qed

text \<open>One call of the closure on a page: the next tuple of the page, or the next page.\<close>

lemma scanLoop_step:
  assumes get: "GetPage f i tid ReadPerm db = Some (Ok r, db1)" and ok: "page_ok (objs db1 ! r)" and j: "j \<le> length (tuples (objs db1 ! r))"
  obtains (Tuple) u j' where "scanLoop f tid (Suc left) i j db = Some (Ok (Some u), db1, i, Suc j')" "j \<le> j'"
      "j' < length (tuples (objs db1 ! r))" "somes (drop j (tuples (objs db1 ! r))) = u # somes (drop (Suc j') (tuples (objs db1 ! r)))"
  | (Over) "scanLoop f tid (Suc left) i j db = scanLoop f tid left (Suc i) 0 db1" "somes (drop j (tuples (objs db1 ! r))) = []"
proof -
  let ?p = "objs db1 ! r"
  from skipNil_ok [OF ok j] obtain j' where j': "skipNil ?p j = Ok j'" "j \<le> j'" "j' \<le> length (tuples ?p)"
      and gap: "\<And>k. j \<le> k \<Longrightarrow> k < j' \<Longrightarrow> tuples ?p ! k = None" and hit: "j' < length (tuples ?p) \<Longrightarrow> tuples ?p ! j' \<noteq> None" by blast
  have same: "somes (drop j (tuples ?p)) = somes (drop j' (tuples ?p))"
    using j' gap by (intro somes_drop_None) auto
  show thesis
  proof (cases "j' < length (tuples ?p)")
    case True
    with hit obtain u where u: "tuples ?p ! j' = Some u" by auto
    then have "somes (drop j' (tuples ?p)) = u # somes (drop (Suc j') (tuples ?p))"
      using True by (simp add: Cons_nth_drop_Suc [symmetric])
    then show thesis using get j' True u same ok by (intro Tuple [of u j']) (simp_all add: page_ok_total)
  next
    case False
    then show thesis using get j' same ok by (intro Over) (simp_all add: page_ok_total)
  qed
qed

text \<open>A scan starts from, and goes on in, a state in which it can get every page.\<close>

definition scan_ready :: "(string \<Rightarrow> HeapFile) \<Rightarrow> TransactionID \<Rightarrow> DB \<Rightarrow> bool" where
  "scan_ready files tid db \<longleftrightarrow> db_ok files db \<and> has_room db \<and> alone tid ReadPerm db"

abbreviation page_rows :: "(string \<Rightarrow> HeapFile) \<Rightarrow> DB \<Rightarrow> HeapFile \<Rightarrow> nat \<Rightarrow> DBValue list list" where
  "page_rows files db f n \<equiv> (case current files db (pageKey f n) of None \<Rightarrow> [] | Some rs \<Rightarrow> rs)"

lemma scan_from:
  assumes f: "files (fromFile f) = f"
  shows "scan_ready files tid db \<Longrightarrow> i < NumPages f (disk db) \<Longrightarrow>
    GetPage f i tid ReadPerm db = Some (Ok r, db1) \<Longrightarrow> j \<le> length (tuples (objs db1 ! r)) \<Longrightarrow>
    \<exists>ts db' i' j'. yields (scanNext f tid) (db, i, j) ts (db', i', j') \<and> scan_ready files tid db' \<and>
      current files db' = current files db \<and> disk db' = disk db \<and>
      map TFields ts = map TFields (somes (drop j (tuples (objs db1 ! r)))) @
        concat (map (page_rows files db f) [Suc i..<NumPages f (disk db)])"
proof (induction "(NumPages f (disk db) - i, length (tuples (objs db1 ! r)) - j)" arbitrary: db i j r db1
    rule: wf_induct_rule [OF wf_lex_prod [OF wf_less_than wf_less_than]])
  case 1
  let ?N = "NumPages f (disk db)"
  have ready: "db_ok files db" "has_room db" "alone tid ReadPerm db" using "1.prems"(1) by (auto simp: scan_ready_def)
  from GetPage_total [OF ready(1) f "1.prems"(2) ready(2,3)] "1.prems"(3)
  have room1: "has_room db1" "alone tid ReadPerm db1" by auto
  note g = GetPage_Ok [OF ready(1) f "1.prems"(3)] and got = GetPage_got [OF ready(1) f "1.prems"(3)]
  have r: "map_of (pages db1) (pageKey f i) = Some r" using g by simp
  note at = pool_page_at [OF got(1) f r]
  have ready1: "scan_ready files tid db1" using got(1) room1 by (simp add: scan_ready_def)
  have N: "NumPages f (disk db1) = ?N" and rest: "page_rows files db1 f = page_rows files db f" using got(3,5) by auto
  obtain left where left: "?N - i = Suc left" "left = ?N - Suc i" using "1.prems"(2) by (metis Suc_diff_Suc)
  show ?case
  proof (cases rule: scanLoop_step [OF "1.prems"(3) at(1) "1.prems"(4), of left])
    case (1 u j')
    obtain r2 db2 where get2: "GetPage f i tid ReadPerm db1 = Some (Ok r2, db2)"
      using GetPage_total [OF got(1) f _ room1] "1.prems"(2) N by metis
    note c = GetPage_cached [OF got(1) f r get2]
    obtain ts db' i' j'' where "yields (scanNext f tid) (db1, i, Suc j') ts (db', i', j'')" and *: "scan_ready files tid db'"
      "current files db' = current files db1" "disk db' = disk db1"
      "map TFields ts = map TFields (somes (drop (Suc j') (tuples (objs db1 ! r)))) @ concat (map (page_rows files db1 f) [Suc i..<?N])"
    proof -
      have "length (tuples (objs db1 ! r)) - Suc j' < length (tuples (objs db1 ! r)) - j" using 1(2,3) by linarith
      then show thesis using that "1.hyps" [of db1 i db2 r2 "Suc j'"] 1(3) N c get2 ready1 "1.prems"(2) by auto
    qed
    then have y: "yields (scanNext f tid) (db, i, j) (u # ts) (db', i', j'')"
      using 1(1) left(1) by (auto intro!: yields_Cons simp: scanNext_def)
    show ?thesis
    proof (intro exI conjI)
      show "yields (scanNext f tid) (db, i, j) (u # ts) (db', i', j'')" by (rule y)
    qed (use * 1(4) got(3,5) in \<open>simp_all add: rest\<close>)
  next
    case 2
    have next_eq: "scanNext f tid (db, i, j) = scanNext f tid (db1, Suc i, 0)"
      using 2(1) left N by (simp add: scanNext_def)
    show ?thesis
    proof (cases "Suc i < ?N")
      case True
      obtain r2 db2 where get2: "GetPage f (Suc i) tid ReadPerm db1 = Some (Ok r2, db2)"
        using GetPage_total [OF got(1) f _ room1] True N by metis
      have "rows (objs db2 ! r2) = page_rows files db f (Suc i)"
        using GetPage_Ok [OF got(1) f get2] got(5) by simp
      moreover obtain ts db' i' j'' where y: "yields (scanNext f tid) (db1, Suc i, 0) ts (db', i', j'')" and *: "scan_ready files tid db'"
        "current files db' = current files db1" "disk db' = disk db1"
        "map TFields ts = rows (objs db2 ! r2) @ concat (map (page_rows files db1 f) [Suc (Suc i)..<?N])"
      proof -
        have "?N - Suc i < ?N - i" using True by linarith
        then show thesis using that "1.hyps" [of db1 "Suc i" db2 r2 0] N get2 ready1 True by (auto simp: rows_def)
      qed
      moreover have "[Suc i..<?N] = Suc i # [Suc (Suc i)..<?N]" using True by (rule upt_conv_Cons)
      ultimately have "map TFields ts = concat (map (page_rows files db f) [Suc i..<?N])" by (simp add: rest)
      moreover note y = yields_same_next [OF next_eq y]
      ultimately show ?thesis using * 2(2) got(3,5) by auto
    next
      case False
      then have "yields (scanNext f tid) (db1, Suc i, 0) [] (db1, Suc i, 0)" using N by (simp add: scanNext_def)
      note y = yields_same_next [OF next_eq this]
      have "concat (map (page_rows files db f) [Suc i..<?N]) = []" using False by simp
      with y ready1 got(3,5) 2(2) show ?thesis by (intro exI [of _ "[]"] exI [of _ db1]) auto
    qed
  qed
qed

lemma scan_all:
  assumes f: "files (fromFile f) = f" and ready: "scan_ready files tid db"
  shows "\<exists>ts db' i' j'. yields (scanNext f tid) (scanStart db) ts (db', i', j') \<and> scan_ready files tid db' \<and>
    map TFields ts = table_rows files db f \<and> current files db' = current files db \<and> disk db' = disk db"
proof (cases "NumPages f (disk db)")
  case 0
  then have "yields (scanNext f tid) (scanStart db) [] (db, 0, 0)" by (simp add: scanNext_def scanStart_def)
  with 0 ready show ?thesis by (intro exI [of _ "[]"] exI [of _ db]) (auto simp: table_rows_def)
next
  case (Suc m)
  have "db_ok files db" "has_room db" "alone tid ReadPerm db" using ready by (auto simp: scan_ready_def)
  then obtain r db1 where get: "GetPage f 0 tid ReadPerm db = Some (Ok r, db1)"
    using GetPage_total [of files db f 0 tid ReadPerm] f Suc by (metis zero_less_Suc)
  have "page_rows files db f 0 = rows (objs db1 ! r)" using GetPage_Ok [OF \<open>db_ok files db\<close> f get] by simp
  moreover have "[0..<Suc m] = 0 # [Suc 0..<Suc m]" by (rule upt_conv_Cons) simp
  ultimately have "table_rows files db f = rows (objs db1 ! r) @ concat (map (page_rows files db f) [Suc 0..<Suc m])"
    by (simp add: table_rows_def Suc)
  then have all: "table_rows files db f =
      map TFields (somes (drop 0 (tuples (objs db1 ! r)))) @ concat (map (page_rows files db f) [Suc 0..<NumPages f (disk db)])"
    by (simp add: rows_def Suc)
  have "0 < NumPages f (disk db)" by (simp add: Suc)
  from scan_from [of files f, OF f ready this get, of 0] show ?thesis unfolding scanStart_def all by blast
qed

text \<open>
  C7: a scan is complete and exact. When no other transaction holds a write lock and the pool is not
  full of dirty pages, the iterator of a heap file ends, and the tuples it yields are exactly the rows
  of the table, page by page and slot by slot; it changes no row and nothing on disk.
\<close>

theorem scan_yields_table:
  assumes "files (fromFile f) = f" and "db_ok files db" and "has_room db" and "alone tid ReadPerm db"
  shows "\<exists>ts db' i' j'. yields (scanNext f tid) (scanStart db) ts (db', i', j') \<and>
    map TFields ts = table_rows files db f \<and>
    db_ok files db' \<and> current files db' = current files db \<and> disk db' = disk db"
proof -
  have "scan_ready files tid db" using assms(2-4) by (simp add: scan_ready_def)
  from scan_all [of files f, OF assms(1) this] show ?thesis unfolding scan_ready_def by blast
qed

section \<open>Operations that return\<close>

lemma insertLoop_total:
  assumes "db_ok files db" and f: "files (fromFile f) = f" and "\<forall>i \<in> set is. i < NumPages f (disk db)"
    and "has_room db" and "alone tid WritePerm db"
  shows "\<exists>x db'. insertLoop f t tid is db = Some (Ok x, db') \<and> (x = None \<longrightarrow> has_room db') \<and> alone tid WritePerm db'"
  using assms(1,3-5)
proof (induction "is" arbitrary: db)
  case Nil
  then show ?case by simp
next
  case (Cons i "is")
  then obtain r db1 where get: "GetPage f i tid WritePerm db = Some (Ok r, db1)" and 1: "has_room db1" "alone tid WritePerm db1"
    using GetPage_total [OF Cons.prems(1) f _ Cons.prems(3,4), of i] by auto
  note got = GetPage_got [OF Cons.prems(1) f get]
  show ?case
  proof (cases "page_insertTuple (objs db1 ! r) t")
    case (Ok x)
    then obtain rid p t' where "page_insertTuple (objs db1 ! r) t = Ok (rid, p, t')" by (cases x) auto
    moreover have "alone tid WritePerm (setObj r p db1)" using 1(2) by (simp add: alone_def setObj_def)
    ultimately show ?thesis using get by simp
  next
    case (Err e)
    then show ?thesis using Cons.IH [OF got(1) _ 1] Cons.prems(2) got(3) get by simp
  qed simp
qed

lemma insertTuple_total:
  assumes "db_ok files db" and f: "files (fromFile f) = f" and fits: "tupleFits (hfDesc f) t" and size: "0 < tupleSize (hfDesc f)"
    and "has_room db" and "alone tid WritePerm db"
  shows "\<exists>t' db'. insertTuple f t tid db = Some (Ok t', db') \<and> alone tid WritePerm db'"
proof -
  let ?n = "NumPages f (disk db)"
  obtain x db1 where loop: "insertLoop f t tid [0..<?n] db = Some (Ok x, db1)"
    and 1: "x = None \<longrightarrow> has_room db1" "alone tid WritePerm db1"
    using insertLoop_total [OF assms(1) f _ assms(5,6), of "[0..<?n]" t] by auto
  show ?thesis
  proof (cases x)
    case (Some t')
    then show ?thesis using loop 1(2) by (simp add: insertTuple_eq)
  next
    case None
    note spec = insertLoop_spec [OF assms(1-3) loop]
    have ok1: "db_ok files db1" and n: "?n = NumPages f (disk db1)" using spec by auto
    obtain page where page: "newHeapPage (hfDesc f) ?n f = Ok page" using newHeapPage_ok [OF size] by metis
    then have "page_of f page" using newHeapPage_empty [OF page] by (simp add: page_of_def)
    from flushPage_Ok [OF this] obtain page' d where fl: "flushPage f page (disk db1) = Ok (page', d)" by metis
    note ext = db_ok_extend [OF ok1 f n page fl]
    have "has_room (db1\<lparr>disk := d\<rparr>)" "alone tid WritePerm (db1\<lparr>disk := d\<rparr>)" "?n < NumPages f (disk (db1\<lparr>disk := d\<rparr>))"
      using 1 None ext(5) [of f] by (simp_all add: has_room_def alone_def)
    then obtain r db2 where get: "GetPage f ?n tid WritePerm (db1\<lparr>disk := d\<rparr>) = Some (Ok r, db2)" and al: "alone tid WritePerm db2"
      using GetPage_total [OF ext(1) f] by metis
    show ?thesis
    proof (cases "page_insertTuple (objs db2 ! r) t")
      case (Ok y)
      then obtain rid p t' where "page_insertTuple (objs db2 ! r) t = Ok (rid, p, t')" by (cases y) auto
      moreover have "alone tid WritePerm (setObj r p db2)" using al by (simp add: alone_def setObj_def)
      ultimately show ?thesis using loop None page fl get n by (simp add: insertTuple_eq appendTuple_def)
    next
      case (Err e)
      then show ?thesis using loop None page fl get n al by (simp add: insertTuple_eq appendTuple_def)
    qed simp
  qed
qed

text \<open>
  C25: inserting makes progress. When no other transaction holds a lock and the pool is not full of
  dirty pages, \<^verbatim>\<open>HeapFile.insertTuple\<close> of a fitting tuple returns without error, and the row is in the table.
\<close>

theorem insertTuple_succeeds:
  assumes "db_ok files db" and "files (fromFile f) = f" and "tupleFits (hfDesc f) t" and "0 < numSlotsFor (hfDesc f)"
    and "has_room db" and "alone tid WritePerm db"
  shows "\<exists>t' db'. insertTuple f t tid db = Some (Ok t', db') \<and> TFields t \<in> set (table_rows files db' f)"
proof -
  have "0 < tupleSize (hfDesc f)" using assms(4) by (cases "tupleSize (hfDesc f)") (auto simp: numSlotsFor_def)
  then obtain t' db' where ins: "insertTuple f t tid db = Some (Ok t', db')"
    using insertTuple_total [OF assms(1-3) _ assms(5,6)] by blast
  with insertTuple_Ok [OF assms(1-4) ins] have "TFields t \<in># mset (table_rows files db' f)" by simp
  with ins show ?thesis by auto
qed

lemma deleteTuple_total:
  assumes "db_ok files db" and f: "files (fromFile f) = f" and "stored_at db f t"
    and "has_room db" and "alone tid WritePerm db"
  shows "\<exists>db'. deleteTuple f t tid db = Some (Ok (), db')"
proof -
  obtain n s where rid: "Rid t = Some \<lparr>PageNo = n, SlotNo = s\<rparr>" and n: "n < NumPages f (disk db)"
    using assms(3) by (auto simp: stored_at_def)
  obtain r db1 where "GetPage f n tid WritePerm db = Some (Ok r, db1)"
    using GetPage_total [OF assms(1) f n assms(4,5)] by metis
  then show ?thesis using rid by (auto simp: deleteTuple_def page_deleteTuple_def split: option.splits)
qed

end
