(* ===== verification/Examples.thy ===== *)
theory Examples
  imports Scans
begin

text \<open>
  A concrete database that goes through an insertion and a commit, and the storage theorems applied to it.
\<close>

section \<open>An example database\<close>

text \<open>
  A pool of three pages over an empty disk, a table of one integer column; one row inserted by
  transaction 1, then its commit. The examples below take these states.
\<close>

definition exDesc :: TupleDesc where
  "exDesc = \<lparr>Fields = [\<lparr>Fname = ''a'', TableQualifier = ''t'', Ftype = IntType\<rparr>]\<rparr>"

definition exFiles :: "string \<Rightarrow> HeapFile" where
  "exFiles s = NewHeapFile s exDesc"

definition exFile :: HeapFile where
  "exFile = exFiles ''t.dat''"

definition exRow :: Tuple where
  "exRow = \<lparr>Desc = exDesc, TFields = [IntField 5], Rid = None\<rparr>"

definition exDB0 :: DB where
  "exDB0 = NewBufferPool 3 (\<lambda>_. [])"

definition exDB1 :: DB where
  "exDB1 = snd (the (insertTuple exFile exRow 1 exDB0))"

definition exRow1 :: Tuple where
  "exRow1 = (case fst (the (insertTuple exFile exRow 1 exDB0)) of Ok t \<Rightarrow> t | _ \<Rightarrow> exRow)"

definition exDB2 :: DB where
  "exDB2 = (case CommitTransaction 1 exDB1 of Ok db \<Rightarrow> db | _ \<Rightarrow> exDB1)"

lemma exFile_simps [simp]: "exFiles (fromFile exFile) = exFile" "hfDesc exFile = exDesc" "tupleFits exDesc exRow"
    "tupleSize exDesc = 8" "0 < numSlotsFor exDesc"
  by (simp_all add: exFile_def exFiles_def NewHeapFile_def tupleFits_def exDesc_def exRow_def tupleSize_def numSlotsFor_def)

lemma exDB0_ok: "db_ok exFiles exDB0" "has_room exDB0" "alone t p exDB0" "table_rows exFiles exDB0 exFile = []"
  by (simp_all add: db_ok_def disk_ok_def NumPages_def exDB0_def NewBufferPool_def pool_ok_def locks_ok_def table_ok_def
      locks_compatible_def waits_ok_def has_room_def alone_def blockers_def holds_def exFiles_def NewHeapFile_def table_rows_def)

lemma exDB1_ins: "insertTuple exFile exRow 1 exDB0 = Some (Ok exRow1, exDB1)" and exDB1_alone: "alone 1 WritePerm exDB1"
  using insertTuple_total [of exFiles exDB0 exFile exRow 1] exDB0_ok by (auto simp: exRow1_def exDB1_def)

lemma exDB1_ok: "db_ok exFiles exDB1" "stored_at exDB1 exFile exRow1" "TFields exRow1 = [IntField 5]"
    "table_rows exFiles exDB1 exFile = [[IntField 5]]"
proof -
  have row: "TFields exRow = [IntField 5]" by (simp add: exRow_def)
  have "tupleFits (hfDesc exFile) exRow" "0 < numSlotsFor (hfDesc exFile)" by simp_all
  note ins = insertTuple_Ok [OF exDB0_ok(1) exFile_simps(1) this exDB1_ins, unfolded row]
  then show "db_ok exFiles exDB1" "stored_at exDB1 exFile exRow1" "TFields exRow1 = [IntField 5]" by simp_all
  show "table_rows exFiles exDB1 exFile = [[IntField 5]]" using ins exDB0_ok(4) by simp
qed
lemma setObj_frame: "pages (setObj r p db) = pages db" "numPages (setObj r p db) = numPages db"
  by (simp_all add: setObj_def)

lemma exDB1_pages: "length (pages exDB1) = 1" "numPages exDB1 = 3"
proof -
  have n0: "NumPages exFile (disk exDB0) = 0" by (simp add: NumPages_def exDB0_def NewBufferPool_def)
  have "appendTuple exFile exRow 1 0 exDB0 = Some (Ok exRow1, exDB1)"
    using exDB1_ins n0 by (simp add: insertTuple_eq)
  then obtain page page' d r db1 where page: "newHeapPage (hfDesc exFile) (NumPages exFile (disk exDB0)) exFile = Ok page"
    and fl: "flushPage exFile page (disk exDB0) = Ok (page', d)"
    and get: "GetPage exFile 0 1 WritePerm (exDB0\<lparr>disk := d\<rparr>) = Some (Ok r, db1)"
    and ends: "(\<exists>rid p. page_insertTuple (objs db1 ! r) exRow = Ok (rid, p, exRow1) \<and> exDB1 = setObj r p db1) \<or>
       (\<exists>e. page_insertTuple (objs db1 ! r) exRow = Err e \<and> exRow1 = exRow \<and> exDB1 = db1)"
    by (rule appendTuple_cases)
  have db1: "pages exDB1 = pages db1" "numPages exDB1 = numPages db1"
    using ends by (metis setObj_frame)+
  note ext = db_ok_extend [OF exDB0_ok(1) exFile_simps(1) refl page fl]
  obtain db2 where "fetchPage exFile 0 (exDB0\<lparr>disk := d\<rparr>) = (Ok r, db2)" "pages db1 = pages db2" "numPages db1 = 3"
    using GetPage_cases [OF ext(1) exFile_simps(1) get] by (auto simp: exDB0_def NewBufferPool_def)
  then show "length (pages exDB1) = 1" "numPages exDB1 = 3"
    using db1 by (auto simp: fetchPage_def exDB0_def NewBufferPool_def split: go_result.splits)
qed

lemma exDB1_ready: "has_room exDB1" "0 < NumPages exFile (disk exDB1)"
  using exDB1_pages exDB1_ok(2) by (auto simp: has_room_def stored_at_def)

lemma exDB2_commit: "CommitTransaction 1 exDB1 = Ok exDB2"
  and exDB2_ok: "db_ok exFiles exDB2" "current exFiles exDB2 = current exFiles exDB1"
    "committed exFiles exDB2 = (\<lambda>k. if locked exDB1 1 k then current exFiles exDB1 k else committed exFiles exDB1 k)"
    "mapPageLocksByTid exDB2 = AList.delete 1 (mapPageLocksByTid exDB1)" "pages exDB2 = pages exDB1" "numPages exDB2 = 3"
  using CommitTransaction_spec [OF exDB1_ok(1), of 1] exDB1_pages(2) by (auto simp: exDB2_def)

lemma exDB2_unlocked: "\<not> holds (mapPageLocksByTid exDB2) t l"
  using exDB1_alone exDB2_ok(4) by (auto simp: alone_def blockers_def)

lemma exDB2_alone: "alone t p exDB2" "has_room exDB2"
  using exDB2_unlocked exDB1_pages(1) exDB2_ok(5,6) by (simp_all add: alone_def blockers_def has_room_def)

lemma ex_disk: "0 < NumPages exFile (disk exDB2)"
proof -
  have "exDB2 = exDB2 \<and> stored_at exDB1 exFile exRow1" using exDB1_ok(2) by simp
  then obtain n r where r: "map_of (pages exDB2) (pageKey exFile n) = Some r" using exDB2_ok(5) by (auto simp: stored_at_def)
  have "pool_ok exFiles exDB2" using exDB2_ok(1) by (simp add: db_ok_def)
  from pool_okD(3) [OF this r] load_page_NumPages [of exFiles "disk exDB2" "pageKey exFile n"]
  show ?thesis by (auto simp: pageKey_def)
qed

section \<open>The storage theorems on the example\<close>

lemma ex_get: obtains r db where "GetPage exFile 0 2 ReadPerm exDB2 = Some (Ok r, db)"
  using GetPage_total [OF exDB2_ok(1) exFile_simps(1) ex_disk exDB2_alone(2,1)] by metis

lemma ex_bad_page: "GetPage exFile 7 2 ReadPerm exDB0 = Some (Err (PlainError ''could not read page data''), exDB0)"
  by (simp add: GetPage_def fetchPage_def readPage_def read_at_def exDB0_def NewBufferPool_def)

lemma exDB2_free: "\<not> write_locked exDB2 t k" "\<not> locked exDB2 t k"
  unfolding write_locked_def locked_def using map_of_holds exDB2_unlocked by (meson not_Some_eq)+

theorem GetPage_returns_current_witness:
  "\<exists>r db. GetPage exFile 0 2 ReadPerm exDB2 = Some (Ok r, db) \<and> db_ok exFiles db \<and>
     current exFiles exDB2 (pageKey exFile 0) = Some (rows (objs db ! r))"
proof -
  obtain r db where get: "GetPage exFile 0 2 ReadPerm exDB2 = Some (Ok r, db)" by (rule ex_get)
  then have "served exFile 0 2 ReadPerm exDB2 r db" by (simp add: served_def)
  from GetPage_returns_current [OF exDB2_ok(1) exFile_simps(1) this] get show ?thesis by blast
qed

theorem GetPage_no_dirty_read_witness:
  "\<exists>r db. GetPage exFile 0 2 ReadPerm exDB2 = Some (Ok r, db) \<and>
     committed exFiles exDB2 (pageKey exFile 0) = Some (rows (objs db ! r))"
proof -
  obtain r db where get: "GetPage exFile 0 2 ReadPerm exDB2 = Some (Ok r, db)" by (rule ex_get)
  then have "served exFile 0 2 ReadPerm exDB2 r db" by (simp add: served_def)
  from GetPage_no_dirty_read [OF exDB2_ok(1) exFile_simps(1) this exDB2_free(1)] get show ?thesis by blast
qed

theorem GetPage_error_witness:
  "\<exists>e db. GetPage exFile 7 2 ReadPerm exDB0 = Some (Err e, db) \<and> committed exFiles db = committed exFiles exDB0"
  using GetPage_error [OF exDB0_ok(1) exFile_simps(1) ex_bad_page] ex_bad_page by blast

theorem CommitTransaction_durable_witness:
  "\<exists>db. CommitTransaction 1 exDB1 = Ok db \<and> db_ok exFiles db \<and> current exFiles db = current exFiles exDB1"
  using CommitTransaction_durable [OF exDB1_ok(1), of 1] by blast

theorem AbortTransaction_undoes_witness:
  "db_ok exFiles (AbortTransaction 1 exDB1) \<and> disk (AbortTransaction 1 exDB1) = disk exDB1"
  using AbortTransaction_undoes [OF exDB1_ok(1), of 1] by blast

theorem GetPage_no_steal_witness:
  "\<exists>r db. GetPage exFile 0 1 WritePerm exDB1 = Some (Ok r, db) \<and> disk db = disk exDB1"
proof -
  obtain r db where get: "GetPage exFile 0 1 WritePerm exDB1 = Some (Ok r, db)"
    using GetPage_total [OF exDB1_ok(1) exFile_simps(1) exDB1_ready(2,1) exDB1_alone] by metis
  from GetPage_no_steal [OF exDB1_ok(1) exFile_simps(1) get] get show ?thesis by blast
qed

theorem GetPage_capacity_witness:
  "\<exists>res db. GetPage exFile 0 2 ReadPerm exDB2 = Some (res, db) \<and> int (length (pages db)) \<le> numPages db"
proof -
  obtain r db where get: "GetPage exFile 0 2 ReadPerm exDB2 = Some (Ok r, db)" by (rule ex_get)
  have "0 < numPages exDB2" "int (length (pages exDB2)) \<le> numPages exDB2"
    using exDB2_ok(5,6) exDB1_pages by simp_all
  from GetPage_capacity [OF exDB2_ok(1) exFile_simps(1) get this] get show ?thesis by blast
qed

theorem GetPage_blocks_iff_witness: "GetPage exFile 7 2 ReadPerm exDB0 \<noteq> None"
  using GetPage_blocks_iff [OF exDB0_ok(1) exFile_simps(1), of 7 2 ReadPerm] exDB0_ok(3) [of 2 ReadPerm] by (simp add: alone_def)

theorem insertTuple_adds_row_witness:
  "mset (table_rows exFiles exDB1 exFile) = add_mset (TFields exRow) (mset (table_rows exFiles exDB0 exFile))"
  using insertTuple_adds_row [OF exDB0_ok(1) exFile_simps(1) _ _ exDB1_ins] by simp

theorem insertTuple_error_witness: "db_ok exFiles exDB1"
  using insertTuple_error [OF exDB0_ok(1) exFile_simps(1) _ _ exDB1_ins] by simp

theorem insertTuple_succeeds_witness:
  "\<exists>t db. insertTuple exFile exRow 1 exDB0 = Some (Ok t, db) \<and> TFields exRow \<in> set (table_rows exFiles db exFile)"
  using insertTuple_succeeds [OF exDB0_ok(1) exFile_simps(1), of exRow 1] exDB0_ok by simp

theorem deleteTuple_removes_row_witness:
  "\<exists>db. deleteTuple exFile exRow1 1 exDB1 = Some (Ok (), db) \<and> table_rows exFiles db exFile = []"
proof -
  obtain db where del: "deleteTuple exFile exRow1 1 exDB1 = Some (Ok (), db)"
    using deleteTuple_total [OF exDB1_ok(1) exFile_simps(1) exDB1_ok(2) exDB1_ready(1) exDB1_alone] by blast
  from deleteTuple_removes_row [OF exDB1_ok(1) exFile_simps(1) exDB1_ok(2) del] exDB1_ok(3,4) del show ?thesis by simp
qed

theorem scan_yields_table_witness:
  "\<exists>ts st. yields (scanNext exFile 2) (scanStart exDB2) ts st \<and> map TFields ts = table_rows exFiles exDB2 exFile"
  using scan_yields_table [OF exFile_simps(1) exDB2_ok(1) exDB2_alone(2,1)] by blast

text \<open>A table whose rows are wider than a page: 128 string columns.\<close>

definition exWideDesc :: TupleDesc where
  "exWideDesc = \<lparr>Fields = replicate 128 \<lparr>Fname = ''s'', TableQualifier = '''', Ftype = StringType\<rparr>\<rparr>"

definition exWide :: HeapFile where
  "exWide = NewHeapFile ''w.dat'' exWideDesc"

definition exWideRow :: Tuple where
  "exWideRow = \<lparr>Desc = exWideDesc, TFields = replicate 128 (StringField ''x''), Rid = None\<rparr>"

lemma exWide_simps [simp]: "hfDesc exWide = exWideDesc" "fromFile exWide = ''w.dat''" "tupleFits exWideDesc exWideRow"
    "tupleSize exWideDesc = 4096" "numSlotsFor exWideDesc = 0"
  by (simp_all add: exWide_def NewHeapFile_def tupleFits_def exWideDesc_def exWideRow_def tupleSize_def numSlotsFor_def
      sum_list_replicate list_all2_conv_all_nth)

lemma exWide_ok: "db_ok (\<lambda>s. NewHeapFile s exWideDesc) exDB0" "table_rows (\<lambda>s. NewHeapFile s exWideDesc) exDB0 exWide = []"
  by (simp_all add: db_ok_def disk_ok_def NumPages_def exDB0_def NewBufferPool_def pool_ok_def locks_ok_def table_ok_def
      locks_compatible_def waits_ok_def holds_def NewHeapFile_def table_rows_def exWideDesc_def tupleSize_def numSlotsFor_def)

theorem insertTuple_wide_lost_witness:
  "\<exists>t db. insertTuple exWide exWideRow 1 exDB0 = Some (Ok t, db) \<and> table_rows (\<lambda>s. NewHeapFile s exWideDesc) db exWide = []"
proof -
  have f: "NewHeapFile (fromFile exWide) exWideDesc = exWide" by (simp add: exWide_def NewHeapFile_def)
  have wide: "numSlotsFor (hfDesc exWide) = 0" by simp
  obtain t db where ins: "insertTuple exWide exWideRow 1 exDB0 = Some (Ok t, db)"
    using insertTuple_total [OF exWide_ok(1) f, of exWideRow 1] exDB0_ok by auto
  from insertTuple_wide_lost [OF exWide_ok(1) f wide ins] ins exWide_ok(2) show ?thesis by auto
qed

text \<open>A page of the example table with its row in it.\<close>

definition exPage :: heapPage where
  "exPage = (case newHeapPage exDesc 0 exFile of Ok p \<Rightarrow>
     (case page_insertTuple p exRow of Ok (_, p', _) \<Rightarrow> p' | _ \<Rightarrow> p) | _ \<Rightarrow> undefined)"

lemma exPage_ok: "page_of exFile exPage" "page_ok exPage" "page_fits exPage" "map TFields (somes (tuples exPage)) = [[IntField 5]]"
proof -
  obtain p where p: "newHeapPage exDesc 0 exFile = Ok p" "page_ok p" "page_fits p" "somes (tuples p) = []"
      "pgDesc p = exDesc" "pgFile p = exFile" "length (tuples p) = numSlotsFor exDesc"
    using newHeapPage_ok [of exDesc 0 exFile] by (metis exFile_simps(4) zero_less_numeral)
  have "None \<in> set (tuples p)"
    using p(4,7) somes_full_iff [of "tuples p"] exFile_simps(5) by (metis length_0_conv less_numeral_extra(3))
  then obtain rid p' t' where ins: "page_insertTuple p exRow = Ok (rid, p', t')"
    using page_insertTuple_free [OF p(2)] by metis
  note ok = page_insertTuple_Ok [OF p(2) ins]
  have e: "exPage = p'" by (simp add: exPage_def p(1) ins)
  have ts: "somes (tuples p') = [t']" using ok(2) p(4) by simp
  have "tupleFits exDesc t'" using ok(3) exFile_simps(3) by simp
  then show "page_fits exPage" using ts p(5) ok(10) by (simp add: e page_fits_def)
  then show "page_of exFile exPage" "page_ok exPage" using ok p(5,6) by (simp_all add: e page_of_def)
  show "map TFields (somes (tuples exPage)) = [[IntField 5]]" using ts ok(3) by (simp add: e exRow_def)
qed

theorem page_roundtrip_witness:
  "\<exists>bs. toBuffer exPage = Ok bs \<and> length bs = PageSize \<and> map TFields (somes (tuples (compact exPage))) = [[IntField 5]]"
  using page_roundtrip [OF exPage_ok(2,3)] exPage_ok(4) by auto

theorem flush_roundtrip_witness:
  "\<exists>p d. flushPage exFile exPage (\<lambda>_. []) = Ok (p, d) \<and> readPage exFile (pageNo exPage) d = Ok (compact exPage)"
proof -
  obtain p d where fl: "flushPage exFile exPage (\<lambda>_. []) = Ok (p, d)"
    using flushPage_Ok [OF exPage_ok(1), of "\<lambda>_. []"] by metis
  from flush_roundtrip [OF exPage_ok(1) fl] fl show ?thesis by blast
qed

end
