(* ===== verification/Queries.thy ===== *)
theory Queries
  imports Examples Joins
begin

text \<open>
  Queries on heap files: the contract that operators on shared storage have with each other, met by the
  table scan, and what a join of two tables yields.
\<close>

section \<open>What a scan sees\<close>

text \<open>The page a scan would read for a key: the cached object or the page on disk.\<close>

definition visible :: "(string \<Rightarrow> HeapFile) \<Rightarrow> DB \<Rightarrow> heapHash \<Rightarrow> heapPage option" where
  "visible files db k =
     (case map_of (pages db) k of Some r \<Rightarrow> Some (objs db ! r) | None \<Rightarrow> load_page files (disk db) k)"

text \<open>
  Every clean page of the pool has its tuples in the front slots, as if it had just been read. It may then be
  evicted and read again in the middle of a scan without moving a tuple.
\<close>

definition dense :: "DB \<Rightarrow> bool" where
  "dense db \<longleftrightarrow> (\<forall>k r. map_of (pages db) k = Some r \<longrightarrow> dirty (objs db ! r) \<or> compact (objs db ! r) = objs db ! r)"

lemma fetchPage_origin:
  assumes ok: "db_ok files db" and f: "files (fromFile f) = f" and fetch: "fetchPage f n db = (Ok r, db1)"
    and r': "map_of (pages db1) k = Some r'"
  shows "map_of (pages db) k = Some r' \<and> objs db1 ! r' = objs db ! r' \<or> load_page files (disk db) k = Some (objs db1 ! r')"
proof (cases "map_of (pages db) (pageKey f n)")
  case (Some r0)
  with fetch r' show ?thesis by (simp add: fetchPage_def)
next
  case miss: None
  obtain db0 p where room: "(if int (length (pages db)) \<ge> numPages db then evictPage db else Some db) = Some db0"
    and p: "readPage f n (disk db0) = Ok p"
    and db1: "db1 = db0\<lparr>objs := objs db0 @ [p], pages := AList.update (pageKey f n) (length (objs db0)) (pages db0)\<rparr>"
    using fetch miss unfolding fetchPage_def by (auto split: option.splits go_result.splits)
  have same: "objs db0 = objs db" "disk db0 = disk db" and old: "\<And>k r. map_of (pages db0) k = Some r \<Longrightarrow> map_of (pages db) k = Some r"
    using room by (auto split: if_splits elim!: evictPage_Some [OF ok] simp: delete_conv' split: if_splits)
  have load: "load_page files (disk db) (pageKey f n) = Some p" using p same by (simp add: load_page_readPage f)
  have "pool_ok files db" using ok by (simp add: db_ok_def)
  then have "r < length (objs db)" if "map_of (pages db) k = Some r" for k r using that by (rule pool_okD(1))
  then show ?thesis using r' old load by (auto simp: db1 same update_conv' nth_append split: if_splits)
qed

lemma dense_load:
  assumes "db_ok files db" and "dense db" and "map_of (pages db) k = Some r" and "\<not> dirty (objs db ! r)"
  shows "load_page files (disk db) k = Some (objs db ! r)"
proof -
  have "pool_ok files db" using assms(1) by (simp add: db_ok_def)
  then have "entry_ok files db k r" using assms(3) by (simp add: pool_ok_def)
  then show ?thesis using assms(2-4) by (auto simp: entry_ok_def dense_def)
qed

lemma GetPage_visible:
  assumes ok: "db_ok files db" and f: "files (fromFile f) = f" and get: "GetPage f n tid p db = Some (Ok r, db')" and d: "dense db"
  shows "dense db'" and "visible files db' = visible files db"
proof -
  obtain db1 where fetch: "fetchPage f n db = (Ok r, db1)" and eq: "pages db' = pages db1" "objs db' = objs db1"
    using GetPage_cases [OF ok f get] by auto
  note origin = fetchPage_origin [OF ok f fetch, folded eq]
  have disk: "disk db' = disk db" and ok': "db_ok files db'" using GetPage_got [OF ok f get] by auto
  have dk: "disk_ok files (disk db)" using ok by (simp add: db_ok_def)
  show d': "dense db'"
    unfolding dense_def using origin d disk_ok_load(2) [OF dk] unfolding dense_def by metis
  show "visible files db' = visible files db"
  proof
    fix k
    have new: "visible files db k = Some (objs db' ! r')" if "map_of (pages db') k = Some r'" for r'
      using origin [OF that]
    proof
      assume load: "load_page files (disk db) k = Some (objs db' ! r')"
      show ?thesis
      proof (cases "map_of (pages db) k")
        case (Some r0)
        show ?thesis
        proof (cases "dirty (objs db ! r0)")
          case True
          then show ?thesis using GetPage_dirty_stay [OF ok f get] Some that by (simp add: visible_def)
        next
          case False
          then show ?thesis using dense_load [OF ok d Some] load Some by (simp add: visible_def)
        qed
      qed (use load in \<open>simp add: visible_def\<close>)
    qed (simp add: visible_def)
    have gone: "visible files db k = load_page files (disk db) k" if "map_of (pages db') k = None"
    proof (cases "map_of (pages db) k")
      case (Some r0)
      then have "\<not> dirty (objs db ! r0)" using GetPage_dirty_stay [OF ok f get] that by fastforce
      with dense_load [OF ok d Some] Some show ?thesis by (simp add: visible_def)
    qed (simp add: visible_def)
    show "visible files db' k = visible files db k"
      using new gone disk by (cases "map_of (pages db') k") (simp_all add: visible_def)
  qed
qed

section \<open>The scan as an operator on shared storage\<close>

definition scanOpen :: "HeapFile \<Rightarrow> (DB, nat \<times> nat) opener" where
  "scanOpen f db = Some (Ok (Some (0, 0)), db)"

type_synonym pages_view = "Disk \<times> (heapHash \<Rightarrow> heapPage option)"

definition viewOf :: "(string \<Rightarrow> HeapFile) \<Rightarrow> DB \<Rightarrow> pages_view" where
  "viewOf files db = (disk db, visible files db)"

definition pageTuples :: "pages_view \<Rightarrow> HeapFile \<Rightarrow> nat \<Rightarrow> Tuple option list" where
  "pageTuples v f n = (case snd v (pageKey f n) of None \<Rightarrow> [] | Some p \<Rightarrow> tuples p)"

text \<open>The tuples that a scan of \<open>f\<close> has left, from slot \<open>j\<close> of page \<open>i\<close> on.\<close>

definition scanRest :: "HeapFile \<Rightarrow> pages_view \<Rightarrow> nat \<times> nat \<Rightarrow> Tuple list" where
  "scanRest f v = (\<lambda>(i, j).
     (if i < NumPages f (fst v) then somes (drop j (pageTuples v f i)) else []) @
     concat (map (\<lambda>n. somes (pageTuples v f n)) [Suc i..<NumPages f (fst v)]))"

definition scanTuples :: "HeapFile \<Rightarrow> pages_view \<Rightarrow> Tuple list" where
  "scanTuples f v = concat (map (\<lambda>n. somes (pageTuples v f n)) [0..<NumPages f (fst v)])"

lemma scanRest_0: "scanRest f v (0, 0) = scanTuples f v"
proof (cases "NumPages f (fst v)")
  case (Suc m)
  then have "[0..<NumPages f (fst v)] = 0 # [Suc 0..<NumPages f (fst v)]" by (intro upt_conv_Cons) simp
  then show ?thesis by (simp add: scanRest_def scanTuples_def Suc del: upt_Suc)
qed (simp add: scanRest_def scanTuples_def)

lemma scanRest_page_over:
  "i < NumPages f (fst v) \<Longrightarrow> somes (drop j (pageTuples v f i)) = [] \<Longrightarrow> scanRest f v (i, j) = scanRest f v (Suc i, 0)"
  by (cases "Suc i < NumPages f (fst v)") (auto simp: scanRest_def upt_conv_Cons [of "Suc i"])

definition sharing :: "(string \<Rightarrow> HeapFile) \<Rightarrow> TransactionID \<Rightarrow> DB \<Rightarrow> bool" where
  "sharing files tid db \<longleftrightarrow> scan_ready files tid db \<and> dense db"

lemma GetPage_sharing:
  assumes "sharing files tid db" and f: "files (fromFile f) = f" and n: "n < NumPages f (disk db)"
  obtains r db1 where "GetPage f n tid ReadPerm db = Some (Ok r, db1)" and "sharing files tid db1"
    and "viewOf files db1 = viewOf files db" and "pageTuples (viewOf files db) f n = tuples (objs db1 ! r)" and "page_ok (objs db1 ! r)"
proof -
  have ok: "db_ok files db" "has_room db" "alone tid ReadPerm db" and d: "dense db"
    using assms(1) by (auto simp: sharing_def scan_ready_def)
  obtain r db1 where get: "GetPage f n tid ReadPerm db = Some (Ok r, db1)" and 1: "has_room db1" "alone tid ReadPerm db1"
    by (rule GetPage_total [OF ok(1) f n ok(2,3)])
  note got = GetPage_got [OF ok(1) f get] and vis = GetPage_visible [OF ok(1) f get d]
  have r: "map_of (pages db1) (pageKey f n) = Some r" using GetPage_Ok [OF ok(1) f get] by simp
  have "pageTuples (viewOf files db) f n = tuples (objs db1 ! r)"
    using r by (simp add: pageTuples_def viewOf_def vis(2) [symmetric]) (simp add: visible_def)
  then show thesis
    using that [OF get] got vis 1 pool_page_at(1) [OF got(1) f r] by (simp add: sharing_def scan_ready_def viewOf_def)
qed

lemma scanLoop_page:
  assumes get: "GetPage f i tid ReadPerm db = Some (Ok r, db1)" and ok: "page_ok (objs db1 ! r)"
  obtains (Tuple) u j' where "scanLoop f tid (Suc left) i j db = Some (Ok (Some u), db1, i, j')"
      "somes (drop j (tuples (objs db1 ! r))) = u # somes (drop j' (tuples (objs db1 ! r)))"
  | (Over) "scanLoop f tid (Suc left) i j db = scanLoop f tid left (Suc i) 0 db1" "somes (drop j (tuples (objs db1 ! r))) = []"
proof (cases "j \<le> length (tuples (objs db1 ! r))")
  case True
  then show thesis by (cases rule: scanLoop_step [OF get ok True, of left]) (auto intro: that)
next
  case False
  then have "skipNil (objs db1 ! r) j = Ok j" "\<not> int j < sint (totalSlots (objs db1 ! r))"
    using page_ok_total [OF ok] by (simp_all add: skipNil.simps)
  then show thesis using get False by (intro Over) simp_all
qed

lemma scanNext_step:
  assumes f: "files (fromFile f) = f"
  shows "sharing files tid db \<Longrightarrow> \<exists>db' s'. scanNext f tid (db, i, j) =
      Some (Ok (case scanRest f (viewOf files db) (i, j) of [] \<Rightarrow> None | t # _ \<Rightarrow> Some t), db', s') \<and>
    sharing files tid db' \<and> viewOf files db' = viewOf files db \<and>
    scanRest f (viewOf files db) s' = tl (scanRest f (viewOf files db) (i, j))"
proof (induction "NumPages f (disk db) - i" arbitrary: db i j)
  case 0
  then have "scanRest f (viewOf files db) (i, j) = []" by (simp add: scanRest_def viewOf_def)
  with 0 show ?case by (intro exI [of _ db] exI [of _ "(i, j)"]) (simp add: scanNext_def)
next
  case (Suc left)
  let ?v = "viewOf files db"
  have i: "i < NumPages f (disk db)" "i < NumPages f (fst ?v)" using Suc.hyps(2) by (simp_all add: viewOf_def)
  obtain r db1 where get: "GetPage f i tid ReadPerm db = Some (Ok r, db1)" and 1: "sharing files tid db1" "viewOf files db1 = ?v"
    and p: "pageTuples ?v f i = tuples (objs db1 ! r)" and ok: "page_ok (objs db1 ! r)"
    using GetPage_sharing [OF Suc.prems f i(1)] by metis
  have n: "NumPages f (disk db1) = NumPages f (disk db)" using 1(2) by (simp add: viewOf_def)
  show ?case
  proof (cases rule: scanLoop_page [OF get ok, of left j])
    case (1 u j')
    then have "scanNext f tid (db, i, j) = Some (Ok (Some u), db1, i, j')" using Suc.hyps(2) by (simp add: scanNext_def)
    moreover have "scanRest f ?v (i, j) = u # scanRest f ?v (i, j')" using 1(2) i(2) p by (simp add: scanRest_def)
    ultimately show ?thesis using \<open>sharing files tid db1\<close> \<open>viewOf files db1 = ?v\<close> by simp
  next
    case 2
    have left: "left = NumPages f (disk db1) - Suc i" using Suc.hyps(2) n by simp
    have "scanNext f tid (db, i, j) = scanNext f tid (db1, Suc i, 0)"
      using 2(1) left by (simp add: scanNext_def Suc.hyps(2) [symmetric])
    moreover have "scanRest f ?v (i, j) = scanRest f ?v (Suc i, 0)" using 2(2) i(2) p by (intro scanRest_page_over) simp_all
    ultimately show ?thesis using Suc.hyps(1) [OF left 1(1), of 0] 1(2) by simp
  qed
qed

lemma sharing_file: "sharing files tid db \<Longrightarrow> files (fromFile (files s)) = files s"
  by (simp add: sharing_def scan_ready_def db_ok_def disk_ok_def)

interpretation scan_op: stable_operator "sharing files tid" "viewOf files" "scanNext (files s) tid" "\<lambda>v st ts. scanRest (files s) v st = ts"
    "scanOpen (files s)" "scanTuples (files s)"
proof
  fix d st ts assume d: "sharing files tid d" and "scanRest (files s) (viewOf files d) st = ts"
  then show "\<exists>d' s'. scanNext (files s) tid (d, st) = Some (Ok (case ts of [] \<Rightarrow> None | t # _ \<Rightarrow> Some t), d', s') \<and> sharing files tid d' \<and>
      viewOf files d' = viewOf files d \<and> scanRest (files s) (viewOf files d) s' = tl ts"
    using scanNext_step [OF sharing_file [OF d] d, of s "fst st" "snd st"] by auto
next
  fix d assume "sharing files tid d"
  then show "\<exists>d' st. scanOpen (files s) d = Some (Ok (Some st), d') \<and> sharing files tid d' \<and>
      viewOf files d' = viewOf files d \<and> scanRest (files s) (viewOf files d) st = scanTuples (files s) (viewOf files d)"
    by (simp add: scanOpen_def scanRest_0)
qed

interpretation table_join: join_inputs "\<lambda>db. sharing files tid db \<and> viewOf files db = v" "viewOf files"
    "scanNext (files a) tid" "\<lambda>v st ts. scanRest (files a) v st = ts" "scanOpen (files a)" "scanTuples (files a)"
    "scanNext (files b) tid" "\<lambda>v st ts. scanRest (files b) v st = ts" "scanOpen (files b)" "scanTuples (files b)"
  by (rule join_inputs.intro) (rule scan_op.at_view)+

lemma current_visible: "current files db k = map_option rows (visible files db k)"
  by (simp add: current_def committed_def visible_def split: option.split)

lemma scanTuples_rows: "map TFields (scanTuples f (viewOf files db)) = table_rows files db f"
proof -
  have "map TFields (somes (pageTuples (viewOf files db) f n)) =
      (case current files db (pageKey f n) of None \<Rightarrow> [] | Some rs \<Rightarrow> rs)" for n
    by (simp add: pageTuples_def viewOf_def current_visible rows_def split: option.split)
  then show ?thesis by (simp add: scanTuples_def table_rows_def map_concat comp_def viewOf_def)
qed

section \<open>Joining two tables\<close>

text \<open>
  The nested-loop join of two tables that both have rows, in one transaction and on one buffer pool, ends
  and yields, for every left tuple in scan order, the concatenation with every right tuple whose join value is
  equal, in scan order; the tuples it joins are exactly the rows of the two tables.
\<close>

theorem join_yields:
  assumes "db_ok files db" and "has_room db" and "alone tid ReadPerm db" and "dense db"
    and "table_rows files db (files a) \<noteq> []" and "table_rows files db (files b) \<noteq> []"
    and "\<forall>t \<in> set (scanTuples (files a) (viewOf files db)). evaluates w (leftField j) t"
    and "\<forall>t \<in> set (scanTuples (files b) (viewOf files db)). evaluates w (rightField j) t"
  shows "\<exists>lts rts js db' st. map TFields lts = table_rows files db (files a) \<and> map TFields rts = table_rows files db (files b) \<and>
    joinOpen (scanOpen (files a)) (scanNext (files a) tid) (scanOpen (files b)) db = Some (Ok (Some js), db') \<and>
    yields (joinNext w j (scanNext (files a) tid) (scanOpen (files b)) (scanNext (files b) tid)) (db', js)
      (concat (map (\<lambda>lt. map (joined lt) (filter (joins w j lt) rts)) lts)) st"
proof -
  have sh: "sharing files tid db" using assms(1-4) by (simp add: sharing_def scan_ready_def)
  have ne: "scanTuples (files a) (viewOf files db) \<noteq> []" "scanTuples (files b) (viewOf files db) \<noteq> []"
    using assms(5,6) by (simp_all flip: scanTuples_rows)
  have ev: "\<exists>v. EvalExpr w e (Some t) = Ok v" if "\<forall>t \<in> set ts. evaluates w e t" "t \<in> set ts" for ts t e
    using that by (auto simp: evaluates_def)
  let ?v = "viewOf files db"
  have "stable_operator (\<lambda>db. sharing files tid db \<and> viewOf files db = ?v) (viewOf files)
      (joinNext w j (scanNext (files a) tid) (scanOpen (files b)) (scanNext (files b) tid))
      (\<lambda>v. pairsLeft (joins w j) (\<lambda>st ts. scanRest (files a) v st = ts) (\<lambda>st ts. scanRest (files b) v st = ts)
        (scanTuples (files a) v) (scanTuples (files b) v))
      (joinOpen (scanOpen (files a)) (scanNext (files a) tid) (scanOpen (files b)))
      (\<lambda>v. joinResult w j (scanTuples (files a) v) (scanTuples (files b) v))"
    by (rule table_join.join_stable) (use ne ev [OF assms(7)] ev [OF assms(8)] in auto)
  from stable_operator.opens_and_yields [OF this, of db] sh
  show ?thesis unfolding joinResult_def using scanTuples_rows by blast
qed

text \<open>
  A join with an empty input misbehaves. When the left table has no row the join's iterator is nil;
  when only the right table has none, the iterator is a closure whose first call never returns.
\<close>

theorem join_empty_input:
  assumes "db_ok files db" and "has_room db" and "alone tid ReadPerm db" and "dense db"
  shows "(table_rows files db (files a) = [] \<longrightarrow>
      (\<exists>db'. joinOpen (scanOpen (files a)) (scanNext (files a) tid) (scanOpen (files b)) db = Some (Ok None, db'))) \<and>
    (table_rows files db (files a) \<noteq> [] \<and> table_rows files db (files b) = [] \<longrightarrow>
      (\<exists>js db'. joinOpen (scanOpen (files a)) (scanNext (files a) tid) (scanOpen (files b)) db = Some (Ok (Some js), db') \<and>
        joinNext w j (scanNext (files a) tid) (scanOpen (files b)) (scanNext (files b) tid) (db', js) = None))"
proof -
  have sh: "sharing files tid db" using assms by (simp add: sharing_def scan_ready_def)
  have empty: "table_rows files db (files s) = [] \<longleftrightarrow> scanTuples (files s) (viewOf files db) = []" for s
    by (simp flip: scanTuples_rows)
  show ?thesis
  proof (cases "scanTuples (files a) (viewOf files db)")
    case Nil
    then show ?thesis using table_join.joinOpen_spec [of files tid db "viewOf files db" a b] sh empty [of a] by auto
  next
    case (Cons lt lts)
    then obtain db' l r where o: "joinOpen (scanOpen (files a)) (scanNext (files a) tid) (scanOpen (files b)) db =
        Some (Ok (Some \<lparr>leftTuple = Some lt, leftIte = Some l, rightIte = Some r\<rparr>), db')"
      and d': "sharing files tid db'" "viewOf files db' = viewOf files db"
        "scanRest (files a) (viewOf files db) l = lts" "scanRest (files b) (viewOf files db) r = scanTuples (files b) (viewOf files db)"
      using table_join.joinOpen_spec [of files tid db "viewOf files db" a b] sh by auto
    have "joinNext w j (scanNext (files a) tid) (scanOpen (files b)) (scanNext (files b) tid)
        (db', \<lparr>leftTuple = Some lt, leftIte = Some l, rightIte = Some r\<rparr>) = None"
      if "scanTuples (files b) (viewOf files db) = []"
      using table_join.joinNext_diverges [of files tid db' "viewOf files db" a l lts b r w j] d' that by simp
    with o Cons empty [of a] empty [of b] show ?thesis by auto
  qed
qed
section \<open>A query on one table\<close>

text \<open>
  The plan of \<^verbatim>\<open>SELECT e, ... FROM t WHERE p LIMIT n\<close>, a limit over a projection over a filter over a scan,
  ends and yields the first \<open>n\<close> of the projections of the rows of the table that satisfy the
  predicate, in scan order.
\<close>

theorem select_query:
  assumes "db_ok files db" and "has_room db" and "alone tid ReadPerm db" and "dense db"
    and "\<forall>t \<in> set (scanTuples (files s) (viewOf files db)). (\<exists>b. filterPred w rx flt t = Ok b) \<and> (\<exists>t'. projectTuple w p t = Ok t')"
    and "\<not> isDistinct p" and "limitValue w lim = Ok n"
  shows "\<exists>ts st. map TFields ts = table_rows files db (files s) \<and>
    yields (limitNext w lim (projectNext w key p (filterNext w rx flt (scanNext (files s) tid)))) ((scanStart db, []), 0)
      (take (nat n) (map (projected w p) (filter (\<lambda>t. filterPred w rx flt t = Ok True) ts))) st"
proof -
  have sh: "sharing files tid db" using assms(1-4) by (simp add: sharing_def scan_ready_def)
  let ?ts = "scanTuples (files s) (viewOf files db)" and ?f = "\<lambda>t. filterPred w rx flt t = Ok True"
  obtain t1 where "yields (scanNext (files s) tid) (scanStart db) ?ts t1"
    using scan_op.child_yields [OF sh, of s "(0, 0)"] by (fastforce simp: scanStart_def scanRest_0)
  then obtain t2 where "yields (filterNext w rx flt (scanNext (files s) tid)) (scanStart db) (filter ?f ?ts) t2"
    using filter_op.op_yields [of "scanNext (files s) tid" "scanStart db" ?ts t1 w rx flt] assms(5) by (auto simp: keeps_def [abs_def])
  then obtain t3 where "yields (projectNext w key p (filterNext w rx flt (scanNext (files s) tid))) (scanStart db, [])
      (map (projected w p) (filter ?f ?ts)) t3"
    using project_op.op_yields [of "filterNext w rx flt (scanNext (files s) tid)" "scanStart db" "filter ?f ?ts" t2 w p key] assms(5,6)
    by (auto simp: projectResult_def)
  from limit_op.op_yields [OF this, of w lim] assms(7) obtain st where
    "yields (limitNext w lim (projectNext w key p (filterNext w rx flt (scanNext (files s) tid)))) ((scanStart db, []), 0)
      (take (nat n) (map (projected w p) (filter ?f ?ts))) st" by (auto simp: limitCount_def)
  with scanTuples_rows [of "files s" files db] show ?thesis by blast
qed

section \<open>The queries on an example\<close>

text \<open>The committed example database after a restart: its disk under an empty pool.\<close>

definition exDB3 :: DB where
  "exDB3 = NewBufferPool 3 (disk exDB2)"

lemma no_locks_current:
  assumes "db_ok files db" and free: "\<And>t k. \<not> write_locked db t k"
  shows "current files db = committed files db"
proof
  fix k
  show "current files db k = committed files db k"
  proof (cases "map_of (pages db) k")
    case (Some r)
    have "pool_ok files db" using assms(1) by (simp add: db_ok_def)
    then have "entry_ok files db k r" using Some by (simp add: pool_ok_def)
    then have "load_page files (disk db) k = Some (compact (objs db ! r))"
      using free [unfolded write_locked_def] by (auto simp: entry_ok_def split: if_splits)
    then show ?thesis using Some by (simp add: current_def committed_def)
  qed (simp add: current_def)
qed

lemma NumPages_current:
  assumes ok: "db_ok files db" and f: "files (fromFile f) = f"
  shows "n < NumPages f (disk db) \<longleftrightarrow> current files db (pageKey f n) \<noteq> None"
proof -
  have load: "n < NumPages f (disk db) \<longleftrightarrow> load_page files (disk db) (pageKey f n) \<noteq> None"
    using ok load_page_NumPages [of files "disk db" "pageKey f n"] disk_ok_exists [of files "disk db" "pageKey f n"] f
    by (auto simp: db_ok_def pageKey_def)
  have "pool_ok files db" using ok by (simp add: db_ok_def)
  then have "load_page files (disk db) (pageKey f n) \<noteq> None" if "map_of (pages db) (pageKey f n) = Some r" for r
    using that by (auto simp: pool_ok_def entry_ok_def split: if_splits)
  then show ?thesis by (auto simp: load current_def committed_def split: option.splits)
qed

lemma table_rows_current:
  assumes "db_ok files db" "db_ok files db'" and f: "files (fromFile f) = f" and same: "current files db' = current files db"
  shows "table_rows files db' f = table_rows files db f"
proof -
  have "(n < NumPages f (disk db')) = (n < NumPages f (disk db))" for n
    using NumPages_current [OF assms(1) f] NumPages_current [OF assms(2) f] same by simp
  then have "NumPages f (disk db') = NumPages f (disk db)" by (metis linorder_neqE_nat less_irrefl)
  then show ?thesis by (simp add: table_rows_def same)
qed

lemma exDB3_current: "current exFiles exDB3 = current exFiles exDB1"
  and exDB3_ok: "db_ok exFiles exDB3" "has_room exDB3" "alone t p exDB3" "dense exDB3"
    "table_rows exFiles exDB3 exFile = [[IntField 5]]"
proof -
  have d: "disk exDB3 = disk exDB2" and p: "pages exDB3 = []" by (simp_all add: exDB3_def NewBufferPool_def)
  have "disk_ok exFiles (disk exDB2)" using exDB2_ok(1) by (simp add: db_ok_def)
  then show ok: "db_ok exFiles exDB3"
    by (simp add: db_ok_def exDB3_def NewBufferPool_def pool_ok_def locks_ok_def table_ok_def locks_compatible_def waits_ok_def holds_def)
  show "has_room exDB3" "alone t p exDB3" "dense exDB3"
    by (simp_all add: has_room_def alone_def blockers_def holds_def dense_def exDB3_def NewBufferPool_def)
  have "current exFiles exDB3 = committed exFiles exDB2" by (simp add: current_def committed_def d p fun_eq_iff)
  also have "\<dots> = current exFiles exDB2" using no_locks_current [OF exDB2_ok(1) exDB2_free(1)] by simp
  finally show "current exFiles exDB3 = current exFiles exDB1" using exDB2_ok(2) by simp
  then show "table_rows exFiles exDB3 exFile = [[IntField 5]]"
    using table_rows_current [OF exDB1_ok(1) ok exFile_simps(1)] exDB1_ok(4) by simp
qed

lemma exFile_name: "exFiles ''t.dat'' = exFile"
  by (simp add: exFile_def)

lemma ex_tuples: obtains t where "scanTuples exFile (viewOf exFiles exDB3) = [t]" and "TFields t = [IntField 5]"
  using scanTuples_rows [of exFile exFiles exDB3] exDB3_ok(5) by auto

theorem select_query_witness:
  "\<exists>st. yields (limitNext exWorld (ConstExpr (IntField 2) IntType)
       (projectNext exWorld TFields (exProject\<lparr>isDistinct := False\<rparr>)
       (filterNext exWorld (\<lambda>_ _. False) (newFilter (ConstExpr (IntField 1) IntType) OpLe (ConstExpr (IntField 1) IntType) intFilterGetter)
       (scanNext exFile 2)))) ((scanStart exDB3, []), 0) [exOut] st"
proof -
  let ?p = "exProject\<lparr>isDistinct := False\<rparr>"
  let ?flt = "newFilter (ConstExpr (IntField 1) IntType) OpLe (ConstExpr (IntField 1) IntType) intFilterGetter"
  have p: "projectTuple exWorld ?p t = Ok exOut" for t
    using exProjected(1) [of t] by (simp add: projectTuple_def projectDescriptor_def exProject_def)
  have flt: "filterPred exWorld (\<lambda>_ _. False) ?flt t = Ok True" for t
    by (simp add: filterPred_def newFilter_def evalOrNil_def evalPred_int64_def)
  have lim: "limitValue exWorld (ConstExpr (IntField 2) IntType) = Ok 2" by (simp add: limitValue_def evalOrNil_def)
  have h: "\<forall>t \<in> set (scanTuples (exFiles ''t.dat'') (viewOf exFiles exDB3)).
      (\<exists>b. filterPred exWorld (\<lambda>_ _. False) ?flt t = Ok b) \<and> (\<exists>t'. projectTuple exWorld ?p t = Ok t')"
    using p flt by blast
  have nd: "\<not> isDistinct ?p" by simp
  obtain ts st where ts: "map TFields ts = table_rows exFiles exDB3 exFile"
    and y: "yields (limitNext exWorld (ConstExpr (IntField 2) IntType) (projectNext exWorld TFields ?p
       (filterNext exWorld (\<lambda>_ _. False) ?flt (scanNext exFile 2)))) ((scanStart exDB3, []), 0)
      (take (nat 2) (map (projected exWorld ?p) (filter (\<lambda>t. filterPred exWorld (\<lambda>_ _. False) ?flt t = Ok True) ts))) st"
    using select_query [OF exDB3_ok(1,2) exDB3_ok(3) [of 2 ReadPerm] exDB3_ok(4) h nd lim, of TFields] unfolding exFile_name by blast
  have "length ts = 1" using ts exDB3_ok(5) by (metis length_map length_Cons list.size(3) One_nat_def)
  moreover have "projected exWorld ?p = (\<lambda>_. exOut)" using p by (simp add: projected_def fun_eq_iff)
  ultimately show ?thesis using y by (intro exI [of _ st]) (auto simp: flt length_Suc_conv)
qed

definition exJoin :: EqualityJoin where
  "exJoin = \<lparr>leftField = ConstExpr (IntField 1) IntType, rightField = ConstExpr (IntField 1) IntType,
     joinGetter = intFilterGetter, maxBufferSize = 100\<rparr>"

theorem join_yields_witness:
  "\<exists>t js db st. TFields t = [IntField 5, IntField 5] \<and>
    joinOpen (scanOpen exFile) (scanNext exFile 2) (scanOpen exFile) exDB3 = Some (Ok (Some js), db) \<and>
    yields (joinNext exWorld exJoin (scanNext exFile 2) (scanOpen exFile) (scanNext exFile 2)) (db, js) [t] st"
proof -
  have ne: "table_rows exFiles exDB3 (exFiles ''t.dat'') \<noteq> []" using exDB3_ok(5) by (simp add: exFile_name)
  have ev: "\<forall>t \<in> set (scanTuples (exFiles ''t.dat'') (viewOf exFiles exDB3)). evaluates exWorld (leftField exJoin) t"
    "\<forall>t \<in> set (scanTuples (exFiles ''t.dat'') (viewOf exFiles exDB3)). evaluates exWorld (rightField exJoin) t"
    by (simp_all add: exJoin_def evaluates_def)
  obtain lts rts js db st where r: "map TFields lts = [[IntField 5]]" "map TFields rts = [[IntField 5]]"
    and o: "joinOpen (scanOpen exFile) (scanNext exFile 2) (scanOpen exFile) exDB3 = Some (Ok (Some js), db)"
    and y: "yields (joinNext exWorld exJoin (scanNext exFile 2) (scanOpen exFile) (scanNext exFile 2)) (db, js)
      (concat (map (\<lambda>lt. map (joined lt) (filter (joins exWorld exJoin lt) rts)) lts)) st"
    using join_yields [OF exDB3_ok(1,2) exDB3_ok(3) [of 2 ReadPerm] exDB3_ok(4) ne ne ev] unfolding exFile_name exDB3_ok(5)
    by (elim exE conjE) (rule that)
  obtain l m where lm: "lts = [l]" "TFields l = [IntField 5]" "rts = [m]" "TFields m = [IntField 5]"
    using r by auto
  have "yields (joinNext exWorld exJoin (scanNext exFile 2) (scanOpen exFile) (scanNext exFile 2)) (db, js) [joined l m] st"
    using y lm by (simp add: joins_def exJoin_def)
  moreover have "TFields (joined l m) = [IntField 5, IntField 5]" using lm by (simp add: joined_def)
  ultimately show ?thesis using o by blast
qed

theorem join_empty_input_witness:
  "\<exists>db. joinOpen (scanOpen exFile) (scanNext exFile 2) (scanOpen exFile) exDB0 = Some (Ok None, db)"
proof -
  have "dense exDB0" by (simp add: dense_def exDB0_def NewBufferPool_def)
  from join_empty_input [OF exDB0_ok(1,2) exDB0_ok(3) [of 2 ReadPerm] this, of "''t.dat''" "''t.dat''" exWorld exJoin] exDB0_ok(4)
  show ?thesis by (auto simp: exFile_name)
qed

end
