(* ===== verification/Modifications.thy ===== *)
theory Modifications
  imports Queries
begin

text \<open>
  \<^verbatim>\<open>insert_op.go\<close> and \<^verbatim>\<open>delete_op.go\<close>. Both operators drain their child and call one operation of the file for every tuple;
  the child and the file share the database. The loop is written once, with the operation of the file
  as an argument. (A tuple is a value here: that \<^verbatim>\<open>HeapFile.insertTuple\<close> sets the record id in the child's own tuple
  is not seen by the child.)
\<close>

section \<open>The operators\<close>

definition countDesc :: TupleDesc where
  "countDesc = \<lparr>Fields = [\<lparr>Fname = ''count'', TableQualifier = '''', Ftype = IntType\<rparr>]\<rparr>"

record InsertOp =
  insertFile :: HeapFile
  insertDesc :: TupleDesc

definition NewInsertOp :: "HeapFile \<Rightarrow> InsertOp" where
  "NewInsertOp f = \<lparr>insertFile = f, insertDesc = countDesc\<rparr>"

definition insertDescriptor :: "InsertOp \<Rightarrow> TupleDesc" where
  "insertDescriptor iop = insertDesc iop"

record DeleteOp =
  deleteFile :: HeapFile
  deleteDesc :: TupleDesc

definition NewDeleteOp :: "HeapFile \<Rightarrow> DeleteOp" where
  "NewDeleteOp f = \<lparr>deleteFile = f, deleteDesc = countDesc\<rparr>"

text \<open>The descriptor of the child, not the one of the count.\<close>

definition deleteDescriptor :: "DeleteOp \<Rightarrow> TupleDesc \<Rightarrow> TupleDesc" where
  "deleteDescriptor dop childDesc = childDesc"

text \<open>\<open>opf t d\<close> is \<^verbatim>\<open>file.insertTuple(t, tid)\<close> or \<^verbatim>\<open>file.deleteTuple(t, tid)\<close> on the storage.\<close>

partial_function (option) modifyLoop ::
  "(Tuple \<Rightarrow> 'd \<Rightarrow> (unit result \<times> 'd) option) \<Rightarrow> ('d \<times> 's, Tuple) iter \<Rightarrow> Tuple option result \<Rightarrow> 'd \<times> 's \<Rightarrow> int64 \<Rightarrow>
   (unit result \<times> ('d \<times> 's) \<times> int64) option" where
  "modifyLoop opf ite tuple ds counter =
     (case tupleOrNil tuple of
        Err e \<Rightarrow> Some (Err e, ds, counter)
      | Panic x \<Rightarrow> Some (Panic x, ds, counter)
      | Ok None \<Rightarrow> Some (Ok (), ds, counter)
      | Ok (Some t) \<Rightarrow>
          (case opf t (fst ds) of
             None \<Rightarrow> None
           | Some (Err e, d) \<Rightarrow> Some (Err e, (d, snd ds), counter)
           | Some (Panic x, d) \<Rightarrow> Some (Panic x, (d, snd ds), counter)
           | Some (Ok _, d) \<Rightarrow>
               (case ite (d, snd ds) of
                  None \<Rightarrow> None
                | Some (tuple', ds') \<Rightarrow> modifyLoop opf ite tuple' ds' (counter + 1))))"

definition modifyNext ::
  "TupleDesc \<Rightarrow> (Tuple \<Rightarrow> 'd \<Rightarrow> (unit result \<times> 'd) option) \<Rightarrow> ('d \<times> 's, Tuple) iter \<Rightarrow> (('d \<times> 's) \<times> int64, Tuple) iter" where
  "modifyNext desc opf ite = (\<lambda>(ds, counter).
     (case ite ds of
        None \<Rightarrow> None
      | Some (tuple, ds1) \<Rightarrow>
          (case modifyLoop opf ite tuple ds1 counter of
             None \<Rightarrow> None
           | Some (Err e, ds2, n) \<Rightarrow> Some (Err e, ds2, n)
           | Some (Panic x, ds2, n) \<Rightarrow> Some (Panic x, ds2, n)
           | Some (Ok _, ds2, n) \<Rightarrow> Some (Ok (Some \<lparr>Desc = desc, TFields = [IntField n], Rid = None\<rparr>), ds2, n))))"

definition insertStep :: "HeapFile \<Rightarrow> TransactionID \<Rightarrow> Tuple \<Rightarrow> DB \<Rightarrow> (unit result \<times> DB) option" where
  "insertStep f tid t db = map_option (\<lambda>(r, db'). (bind_go r (\<lambda>_. Ok ()), db')) (insertTuple f t tid db)"

definition insertNext :: "InsertOp \<Rightarrow> TransactionID \<Rightarrow> (DB \<times> 's, Tuple) iter \<Rightarrow> ((DB \<times> 's) \<times> int64, Tuple) iter" where
  "insertNext iop tid ite = modifyNext (insertDesc iop) (insertStep (insertFile iop) tid) ite"

definition deleteNext :: "DeleteOp \<Rightarrow> TransactionID \<Rightarrow> (DB \<times> 's, Tuple) iter \<Rightarrow> ((DB \<times> 's) \<times> int64, Tuple) iter" where
  "deleteNext dop tid ite = modifyNext (deleteDesc dop) (\<lambda>t. deleteTuple (deleteFile dop) t tid) ite"

section \<open>The loop\<close>

text \<open>
  What the loop needs: in a state with the tuples \<open>ts\<close> left, the child returns the first of them and the operation on it
  succeeds, with an effect \<open>upd\<close> on what is observed of the storage, and the others are left.
\<close>

locale modification =
  fixes opf :: "Tuple \<Rightarrow> 'd \<Rightarrow> (unit result \<times> 'd) option" and ite :: "('d \<times> 's, Tuple) iter"
    and left :: "'d \<times> 's \<Rightarrow> Tuple list \<Rightarrow> bool" and obs :: "'d \<Rightarrow> 'o" and upd :: "Tuple \<Rightarrow> 'o \<Rightarrow> 'o"
  assumes over: "left ds [] \<Longrightarrow> \<exists>ds'. ite ds = Some (Ok None, ds') \<and> left ds' [] \<and> obs (fst ds') = obs (fst ds)"
    and step: "left ds (t # ts) \<Longrightarrow> \<exists>d s d'. ite ds = Some (Ok (Some t), d, s) \<and> opf t d = Some (Ok (), d') \<and>
      left (d', s) ts \<and> obs d' = upd t (obs (fst ds))"
begin

lemma modifyLoop_all:
  "left ds ts \<Longrightarrow> \<exists>tuple ds1 ds'. ite ds = Some (tuple, ds1) \<and>
    modifyLoop opf ite tuple ds1 n = Some (Ok (), ds', n + of_nat (length ts)) \<and> left ds' [] \<and>
    obs (fst ds') = fold upd ts (obs (fst ds))"
proof (induction ts arbitrary: ds n)
  case Nil
  then show ?case using over [of ds] by (auto simp: modifyLoop.simps tupleOrNil_def)
next
  case (Cons t ts)
  then obtain d s d' where 1: "ite ds = Some (Ok (Some t), d, s)" "opf t d = Some (Ok (), d')" "left (d', s) ts" "obs d' = upd t (obs (fst ds))"
    using step by blast
  from Cons.IH [OF 1(3), of "n + 1"] obtain tuple ds1 ds' where
    2: "ite (d', s) = Some (tuple, ds1)" "modifyLoop opf ite tuple ds1 (n + 1) = Some (Ok (), ds', n + 1 + of_nat (length ts))"
    "left ds' []" "obs (fst ds') = fold upd ts (obs d')" by auto
  have "modifyLoop opf ite (Ok (Some t)) (d, s) n = Some (Ok (), ds', n + of_nat (length (t # ts)))"
    using 1(2) 2(1,2) by (subst modifyLoop.simps) (simp add: tupleOrNil_def algebra_simps)
  with 1 2 show ?case by (intro exI [of _ "Ok (Some t)"] exI [of _ "(d, s)"] exI [of _ ds']) simp
qed

lemma modifyNext_all:
  "left ds ts \<Longrightarrow> \<exists>ds'. modifyNext desc opf ite (ds, n) =
      Some (Ok (Some \<lparr>Desc = desc, TFields = [IntField (n + of_nat (length ts))], Rid = None\<rparr>), ds', n + of_nat (length ts)) \<and>
    left ds' [] \<and> obs (fst ds') = fold upd ts (obs (fst ds))"
  using modifyLoop_all [of ds ts n] by (auto simp: modifyNext_def)

text \<open>The closure never ends: every further call returns the count again.\<close>

lemma modifyNext_again:
  "left ds [] \<Longrightarrow> \<exists>ds'. modifyNext desc opf ite (ds, n) = Some (Ok (Some \<lparr>Desc = desc, TFields = [IntField n], Rid = None\<rparr>), ds', n) \<and> left ds' []"
  using modifyNext_all [of ds "[]" desc n] by auto

end

section \<open>Room for every page\<close>

definition roomy :: "heapHash set \<Rightarrow> DB \<Rightarrow> bool" where
  "roomy K db \<longleftrightarrow> finite K \<and> fst ` set (pages db) \<subseteq> K \<and> int (card K) < numPages db"

lemma roomy_room: "db_ok files db \<Longrightarrow> roomy K db \<Longrightarrow> has_room db"
proof -
  assume ok: "db_ok files db" and r: "roomy K db"
  have "distinct (map fst (pages db))" using ok by (simp add: db_ok_def pool_ok_def)
  then have "length (pages db) = card (fst ` set (pages db))" using distinct_card by fastforce
  also have "\<dots> \<le> card K" using r by (auto simp: roomy_def intro: card_mono)
  finally show ?thesis using r by (simp add: roomy_def has_room_def)
qed

lemma GetPage_frame:
  assumes ok: "db_ok files db" and f: "files (fromFile f) = f" and get: "GetPage f n tid p db = Some (Ok r, db')"
  shows "alone tid q db' = alone tid q db" and "roomy K db \<Longrightarrow> pageKey f n \<in> K \<Longrightarrow> roomy K db'"
proof -
  obtain db1 where fetch: "fetchPage f n db = (Ok r, db1)" and eq: "pages db' = pages db1" "numPages db' = numPages db"
    and l: "mapPageLocksByTid db' = mapPageLocksByTid (saveMapAndUpgradeLock n (pageKey f n) r tid p db)"
    using GetPage_cases [OF ok f get] by auto
  have t: "table_ok (mapPageLocksByTid db)" using ok by (simp add: db_ok_def)
  show "alone tid q db' = alone tid q db"
    by (rule alone_cong) (simp add: l saveMap_locks(2) [OF t] pageKey_def)
  assume K: "roomy K db" "pageKey f n \<in> K"
  have "db_ok files db1" using fetchPage_spec(1) [OF ok f fetch] .
  then have pool1: "distinct (map fst (pages db1))" by (simp add: db_ok_def pool_ok_def)
  have "fst ` set (pages db1) \<subseteq> insert (pageKey f n) (fst ` set (pages db))"
  proof
    fix k assume k: "k \<in> fst ` set (pages db1)"
    show "k \<in> insert (pageKey f n) (fst ` set (pages db))"
    proof (cases "map_of (pages db) (pageKey f n)")
      case (Some r0)
      with fetch k show ?thesis by (simp add: fetchPage_def)
    next
      case None
      then obtain db0 p where room: "(if int (length (pages db)) \<ge> numPages db then evictPage db else Some db) = Some db0"
        and db1: "pages db1 = AList.update (pageKey f n) (length (objs db0)) (pages db0)"
        using fetch unfolding fetchPage_def by (auto split: option.splits go_result.splits)
      have "fst ` set (pages db0) \<subseteq> fst ` set (pages db)"
        using room by (auto split: if_splits elim!: evictPage_Some [OF ok] simp: AList.delete_eq)
      with k show ?thesis by (auto simp: db1 dom_update)
    qed
  qed
  then have "fst ` set (pages db1) \<subseteq> K" using K unfolding roomy_def by (meson insert_subset order_trans)
  with K eq show "roomy K db'" by (simp add: roomy_def)
qed

section \<open>Inserting rows\<close>

lemma roomy_setObj [simp]: "roomy K (setObj r p db) = roomy K db" and roomy_disk [simp]: "roomy K (db\<lparr>disk := d\<rparr>) = roomy K db"
  by (simp_all add: roomy_def setObj_def)

lemma disk_setObj [simp]: "disk (setObj r p db) = disk db"
  by (simp add: setObj_def)

lemma alone_setObj [simp]: "alone tid p (setObj r q db) = alone tid p db" and alone_disk [simp]: "alone tid p (db\<lparr>disk := d\<rparr>) = alone tid p db"
  by (simp_all add: alone_def setObj_def)

lemma insertLoop_frame:
  assumes "db_ok files db" and f: "files (fromFile f) = f" and "insertLoop f t tid is db = Some (Ok x, db')"
    and "roomy K db" and "\<forall>i \<in> set is. pageKey f i \<in> K"
  shows "roomy K db' \<and> disk db' = disk db"
  using assms(1,3-5)
proof (induction "is" arbitrary: db)
  case (Cons i "is")
  from Cons.prems(2) obtain r db1 where get: "GetPage f i tid WritePerm db = Some (Ok r, db1)"
    by (auto split: option.splits go_result.splits)
  have 1: "db_ok files db1" "disk db1 = disk db" and K: "roomy K db1"
    using GetPage_got [OF Cons.prems(1) f get] GetPage_frame(2) [OF Cons.prems(1) f get] Cons.prems(3,4) by auto
  show ?case
  proof (cases "page_insertTuple (objs db1 ! r) t")
    case (Ok y)
    then have "\<exists>p. db' = setObj r p db1" using Cons.prems(2) get by (auto split: prod.splits)
    then show ?thesis using K 1(2) by auto
  next
    case (Err e)
    then show ?thesis using Cons.IH [OF 1(1) _ K] Cons.prems(2,4) get 1(2) by simp
  next
    case (Panic z)
    then show ?thesis using Cons.prems(2) get by simp
  qed
qed simp

lemma insertTuple_frame:
  assumes ok: "db_ok files db" and f: "files (fromFile f) = f" and fits: "tupleFits (hfDesc f) t"
    and ins: "insertTuple f t tid db = Some (Ok t', db')" and K: "roomy K db" "\<forall>i \<le> NumPages f (disk db). pageKey f i \<in> K"
  shows "roomy K db' \<and> NumPages f (disk db') \<le> Suc (NumPages f (disk db))"
  using ins
proof (cases rule: insertTuple_cases)
  case (Stored t1)
  then show ?thesis using insertLoop_frame [OF ok f Stored(1) K(1)] K(2) by simp
next
  case (Appended db1)
  have l: "roomy K db1" "disk db1 = disk db" using insertLoop_frame [OF ok f Appended(1) K(1)] K(2) by auto
  have ok1: "db_ok files db1" using insertLoop_spec [OF ok f fits Appended(1)] by simp
  obtain page page' d r db2 where page: "newHeapPage (hfDesc f) (NumPages f (disk db1)) f = Ok page"
    and fl: "flushPage f page (disk db1) = Ok (page', d)"
    and get: "GetPage f (NumPages f (disk db)) tid WritePerm (db1\<lparr>disk := d\<rparr>) = Some (Ok r, db2)"
    and ends: "(\<exists>rid p. page_insertTuple (objs db2 ! r) t = Ok (rid, p, t') \<and> db' = setObj r p db2) \<or>
       (\<exists>e. page_insertTuple (objs db2 ! r) t = Err e \<and> t' = t \<and> db' = db2)"
    by (rule appendTuple_cases [OF Appended(2)])
  note ext = db_ok_extend [OF ok1 f refl page fl]
  have "roomy K db2" using GetPage_frame(2) [OF ext(1) f get] l K(2) by simp
  moreover have "disk db2 = d" using GetPage_got(3) [OF ext(1) f get] by simp
  moreover have "roomy K db' = roomy K db2" "disk db' = disk db2" using ends by (metis roomy_setObj, metis disk_setObj)
  ultimately show ?thesis using ext(5) [of f] l(2) by simp
qed auto

text \<open>A child that does not touch the database.\<close>

definition beside :: "('s, Tuple) iter \<Rightarrow> ('d \<times> 's, Tuple) iter" where
  "beside nxt = (\<lambda>(d, s). map_option (\<lambda>(r, s'). (r, d, s')) (nxt s))"

text \<open>What is observed: the rows of the table, and the other tables.\<close>

definition tables :: "(string \<Rightarrow> HeapFile) \<Rightarrow> string \<Rightarrow> DB \<Rightarrow> DBValue list multiset \<times> (string \<Rightarrow> DBValue list list)" where
  "tables files s db = (mset (table_rows files db (files s)), \<lambda>s'. if s' = s then [] else table_rows files db (files s'))"

definition inserting :: "(string \<Rightarrow> HeapFile) \<Rightarrow> string \<Rightarrow> TransactionID \<Rightarrow> heapHash set \<Rightarrow> ('s, Tuple) iter \<Rightarrow> DB \<times> 's \<Rightarrow> Tuple list \<Rightarrow> bool" where
  "inserting files s tid K nxt = (\<lambda>(db, st) ts. db_ok files db \<and> alone tid WritePerm db \<and> roomy K db \<and>
     0 < numSlotsFor (hfDesc (files s)) \<and> (\<forall>i < NumPages (files s) (disk db) + length ts. pageKey (files s) i \<in> K) \<and>
     (\<forall>t \<in> set ts. tupleFits (hfDesc (files s)) t) \<and> (\<exists>st'. yields nxt st ts st' \<and> ended nxt st'))"

interpretation insert_rows: modification "insertStep (files s) tid" "beside nxt" "inserting files s tid K nxt"
  "tables files s" "\<lambda>t (m, others). (add_mset (TFields t) m, others)"
proof
  fix ds assume "inserting files s tid K nxt ds []"
  then show "\<exists>ds'. beside nxt ds = Some (Ok None, ds') \<and> inserting files s tid K nxt ds' [] \<and> tables files s (fst ds') = tables files s (fst ds)"
    by (auto simp: inserting_def beside_def ended_def split: prod.splits)
next
  fix ds t ts assume left: "inserting files s tid K nxt ds (t # ts)"
  obtain db st where ds: "ds = (db, st)" by (cases ds)
  from left have ok: "db_ok files db" and al: "alone tid WritePerm db" and K: "roomy K db" and slots: "0 < numSlotsFor (hfDesc (files s))"
    and keys: "\<forall>i < NumPages (files s) (disk db) + length (t # ts). pageKey (files s) i \<in> K"
    and fits: "\<forall>t \<in> set (t # ts). tupleFits (hfDesc (files s)) t"
    and "\<exists>st'. yields nxt st (t # ts) st' \<and> ended nxt st'"
    by (auto simp: inserting_def ds)
  then obtain st1 st' where n: "nxt st = Some (Ok (Some t), st1)" "yields nxt st1 ts st'" "ended nxt st'"
    by (auto simp: yields_Cons_iff)
  have f: "files (fromFile (files s)) = files s" and names: "\<And>s'. fromFile (files s') = s'" using ok by (auto simp: db_ok_def disk_ok_def)
  have fits': "tupleFits (hfDesc (files s)) t" using fits by simp
  have "0 < tupleSize (hfDesc (files s))" using slots by (cases "tupleSize (hfDesc (files s))") (auto simp: numSlotsFor_def)
  then obtain t' db' where ins: "insertTuple (files s) t tid db = Some (Ok t', db')" and al': "alone tid WritePerm db'"
    using insertTuple_total [OF ok f fits' _ roomy_room [OF ok K] al] by blast
  note fin = insertTuple_Ok [OF ok f fits' slots ins]
  have fr: "roomy K db'" "NumPages (files s) (disk db') \<le> Suc (NumPages (files s) (disk db))"
    using insertTuple_frame [OF ok f fits' ins K] keys by auto
  have "inserting files s tid K nxt (db', st1) ts"
    using fin al' fr slots keys fits n by (auto simp: inserting_def)
  moreover have "tables files s db' = (case tables files s db of (m, others) \<Rightarrow> (add_mset (TFields t) m, others))"
    using fin names by (simp add: tables_def fun_eq_iff)
  ultimately show "\<exists>d sa d'. beside nxt ds = Some (Ok (Some t), d, sa) \<and> insertStep (files s) tid t d = Some (Ok (), d') \<and>
      inserting files s tid K nxt (d', sa) ts \<and>
      tables files s d' = (\<lambda>(m, others). (add_mset (TFields t) m, others)) (tables files s (fst ds))"
    using n(1) ins by (auto simp: ds beside_def insertStep_def)
qed

lemma fold_add_rows: "fold (\<lambda>t (m, others). (add_mset (TFields t) m, others)) ts (m, others) = (mset (map TFields ts) + m, others)"
  by (induction ts arbitrary: m) (auto simp: ac_simps)

text \<open>
  C15: \<^verbatim>\<open>INSERT\<close> of the tuples of a child that does not use the database, such as a VALUES list. When the tuples fit the table, the pool
  has room for every page of the table and one more for each tuple, and no other transaction holds a lock, the operator
  returns one tuple with the number of the tuples, and the table has exactly their rows more; the other tables are as they were. This
  is not \<^verbatim>\<open>INSERT ... SELECT\<close>: its tuples are shared with the pages they come from, whose record ids \<^verbatim>\<open>insertTuple\<close> then overwrites, and a
  scan of the table itself would go on into the rows that are being inserted.
\<close>

theorem insert_op_inserts:
  assumes "db_ok files db" and "alone tid WritePerm db" and "0 < numSlotsFor (hfDesc (files s))"
    and "finite K" and "fst ` set (pages db) \<subseteq> K" and "int (card K) < numPages db"
    and "\<forall>i < NumPages (files s) (disk db) + length ts. pageKey (files s) i \<in> K"
    and "\<forall>t \<in> set ts. tupleFits (hfDesc (files s)) t" and "yields nxt st ts st'" and "ended nxt st'"
  shows "\<exists>db' st''. insertNext (NewInsertOp (files s)) tid (beside nxt) ((db, st), 0) =
      Some (Ok (Some \<lparr>Desc = countDesc, TFields = [IntField (of_nat (length ts))], Rid = None\<rparr>), (db', st''), of_nat (length ts)) \<and>
    db_ok files db' \<and> mset (table_rows files db' (files s)) = mset (table_rows files db (files s)) + mset (map TFields ts) \<and>
    (\<forall>s'. s' \<noteq> s \<longrightarrow> table_rows files db' (files s') = table_rows files db (files s'))"
proof -
  have "inserting files s tid K nxt (db, st) ts" using assms by (auto simp: inserting_def roomy_def)
  from insert_rows.modifyNext_all [OF this, of countDesc 0] obtain db' st'' where
    res: "modifyNext countDesc (insertStep (files s) tid) (beside nxt) ((db, st), 0) =
      Some (Ok (Some \<lparr>Desc = countDesc, TFields = [IntField (of_nat (length ts))], Rid = None\<rparr>), (db', st''), of_nat (length ts))"
    and left: "inserting files s tid K nxt (db', st'') []"
    and obs: "tables files s db' = fold (\<lambda>t (m, others). (add_mset (TFields t) m, others)) ts (tables files s db)" by auto
  have "db_ok files db'" using left by (simp add: inserting_def)
  moreover have "mset (table_rows files db' (files s)) = mset (table_rows files db (files s)) + mset (map TFields ts)"
    "\<forall>s'. s' \<noteq> s \<longrightarrow> table_rows files db' (files s') = table_rows files db (files s')"
    using obs unfolding tables_def fold_add_rows by (auto simp: ac_simps dest: fun_cong split: if_splits)
  ultimately show ?thesis using res by (simp add: insertNext_def NewInsertOp_def)
qed

section \<open>Deleting behind a scan\<close>

text \<open>The tuple that a scan returned last is in the slot before its position.\<close>

definition justRead :: "HeapFile \<Rightarrow> DB \<Rightarrow> nat \<times> nat \<Rightarrow> Tuple \<Rightarrow> bool" where
  "justRead f db = (\<lambda>(i, j) t. \<exists>r j'. j = Suc j' \<and> i < NumPages f (disk db) \<and> map_of (pages db) (pageKey f i) = Some r \<and>
     j' < length (tuples (objs db ! r)) \<and> tuples (objs db ! r) ! j' = Some t)"

definition writable :: "(string \<Rightarrow> HeapFile) \<Rightarrow> string \<Rightarrow> TransactionID \<Rightarrow> heapHash set \<Rightarrow> DB \<Rightarrow> bool" where
  "writable files s tid K db \<longleftrightarrow> db_ok files db \<and> alone tid WritePerm db \<and> roomy K db \<and> dense db \<and>
     (\<forall>i < NumPages (files s) (disk db). pageKey (files s) i \<in> K)"

lemma alone_WritePerm: "alone tid WritePerm db \<Longrightarrow> alone tid ReadPerm db"
  by (auto simp: alone_def blockers_def)

lemma writable_sharing: "writable files s tid K db \<Longrightarrow> sharing files tid db"
  using roomy_room alone_WritePerm by (auto simp: writable_def sharing_def scan_ready_def)

lemma scanLoop_frame:
  assumes f: "files (fromFile f) = f"
  shows "db_ok files db \<Longrightarrow> roomy K db \<Longrightarrow> alone tid q db \<Longrightarrow> \<forall>n < NumPages f (disk db). pageKey f n \<in> K \<Longrightarrow>
    i + left \<le> NumPages f (disk db) \<Longrightarrow> scanLoop f tid left i j db = Some (Ok x, db', i', j') \<Longrightarrow>
    roomy K db' \<and> alone tid q db' \<and> (\<forall>t. x = Some t \<longrightarrow> justRead f db' (i', j') t)"
proof (induction left arbitrary: i j db)
  case (Suc left)
  from Suc.prems(6) obtain r db1 where get: "GetPage f i tid ReadPerm db = Some (Ok r, db1)"
    by (auto split: option.splits go_result.splits)
  note got = GetPage_got [OF Suc.prems(1) f get] and fr = GetPage_frame [OF Suc.prems(1) f get]
  have 1: "db_ok files db1" "disk db1 = disk db" "roomy K db1" "alone tid q db1"
    using got fr Suc.prems(2-5) by auto
  have r: "map_of (pages db1) (pageKey f i) = Some r" using GetPage_Ok [OF Suc.prems(1) f get] by simp
  note at = pool_page_at [OF 1(1) f r]
  obtain k where k: "skipNil (objs db1 ! r) j = Ok k"
    using Suc.prems(6) get by (auto split: go_result.splits)
  show ?case
  proof (cases "int k < sint (totalSlots (objs db1 ! r))")
    case True
    then have "db' = db1" "i' = i" "j' = Suc k" "x = tuples (objs db1 ! r) ! k" using Suc.prems(6) get k by auto
    then show ?thesis using True 1 r Suc.prems(5) page_ok_total [OF at(1)] by (auto simp: justRead_def)
  next
    case False
    then have "scanLoop f tid left (Suc i) 0 db1 = Some (Ok x, db', i', j')" using Suc.prems(6) get k by simp
    then show ?thesis using Suc.IH [OF 1(1,3,4), of "Suc i" 0] Suc.prems(4,5) 1(2) by simp
  qed
qed simp

lemma scanNext_writable:
  assumes w: "writable files s tid K db"
  shows "\<exists>db' st'. scanNext (files s) tid (db, st) =
      Some (Ok (case scanRest (files s) (viewOf files db) st of [] \<Rightarrow> None | t # _ \<Rightarrow> Some t), db', st') \<and>
    writable files s tid K db' \<and> viewOf files db' = viewOf files db \<and>
    scanRest (files s) (viewOf files db) st' = tl (scanRest (files s) (viewOf files db) st) \<and>
    (\<forall>t ts. scanRest (files s) (viewOf files db) st = t # ts \<longrightarrow> justRead (files s) db' st' t)"
proof -
  have sh: "sharing files tid db" by (rule writable_sharing [OF w])
  note f = sharing_file [OF sh, of s]
  obtain i j where st: "st = (i, j)" by (cases st)
  from scanNext_step [OF f sh, of i j] obtain db' st' where
    n: "scanNext (files s) tid (db, st) =
      Some (Ok (case scanRest (files s) (viewOf files db) st of [] \<Rightarrow> None | t # _ \<Rightarrow> Some t), db', st')"
    and sh': "sharing files tid db'" and v: "viewOf files db' = viewOf files db"
    and rest: "scanRest (files s) (viewOf files db) st' = tl (scanRest (files s) (viewOf files db) st)" unfolding st by blast
  obtain i' j' where st': "st' = (i', j')" by (cases st')
  have d: "disk db' = disk db" using v by (simp add: viewOf_def)
  show ?thesis
  proof (cases "i \<le> NumPages (files s) (disk db)")
    case True
    have ok: "db_ok files db" "roomy K db" "alone tid WritePerm db" "\<forall>n < NumPages (files s) (disk db). pageKey (files s) n \<in> K"
      using w by (auto simp: writable_def)
    have "roomy K db' \<and> alone tid WritePerm db' \<and> (\<forall>t. (case scanRest (files s) (viewOf files db) st of [] \<Rightarrow> None | t # _ \<Rightarrow> Some t) = Some t \<longrightarrow>
        justRead (files s) db' (i', j') t)"
      using scanLoop_frame [OF f ok, of i "NumPages (files s) (disk db) - i"] True n by (auto simp: scanNext_def st st')
    then show ?thesis using n v rest sh' ok(4) by (intro exI [of _ db'] exI [of _ st']) (auto simp: writable_def sharing_def scan_ready_def d st')
  next
    case False
    then have "scanNext (files s) tid (db, st) = Some (Ok None, db, st)" "scanRest (files s) (viewOf files db) st = []"
      by (simp_all add: scanNext_def st scanRest_def viewOf_def)
    then show ?thesis using w by simp
  qed
qed

lemma filter_scan_step:
  assumes "writable files s tid K db" and "\<forall>t \<in> set (scanRest (files s) (viewOf files db) st). \<exists>b. filterPred w rx flt t = Ok b"
  shows "\<exists>db' st'. filterNext w rx flt (scanNext (files s) tid) (db, st) =
      Some (Ok (case filter (keeps w rx flt) (scanRest (files s) (viewOf files db) st) of [] \<Rightarrow> None | t # _ \<Rightarrow> Some t), db', st') \<and>
    writable files s tid K db' \<and> viewOf files db' = viewOf files db \<and>
    filter (keeps w rx flt) (scanRest (files s) (viewOf files db) st') = tl (filter (keeps w rx flt) (scanRest (files s) (viewOf files db) st)) \<and>
    set (scanRest (files s) (viewOf files db) st') \<subseteq> set (scanRest (files s) (viewOf files db) st) \<and>
    (\<forall>t ts. filter (keeps w rx flt) (scanRest (files s) (viewOf files db) st) = t # ts \<longrightarrow> justRead (files s) db' st' t)"
  using assms
proof (induction "length (scanRest (files s) (viewOf files db) st)" arbitrary: db st)
  case 0
  then have L: "scanRest (files s) (viewOf files db) st = []" by simp
  then show ?case using scanNext_writable [OF "0.prems"(1), of st] by (auto simp: filterNext_def)
next
  case (Suc n)
  let ?v = "viewOf files db"
  obtain t ts where L: "scanRest (files s) ?v st = t # ts" using Suc.hyps(2) by (cases "scanRest (files s) ?v st") auto
  obtain db1 st1 where n1: "scanNext (files s) tid (db, st) = Some (Ok (Some t), db1, st1)" and w1: "writable files s tid K db1"
    and v1: "viewOf files db1 = ?v" and L1: "scanRest (files s) ?v st1 = ts" and j1: "justRead (files s) db1 st1 t"
    using scanNext_writable [OF Suc.prems(1), of st] L by auto
  obtain b where b: "filterPred w rx flt t = Ok b" using Suc.prems(2) L by auto
  show ?case
  proof (cases b)
    case True
    then show ?thesis using n1 w1 v1 L1 j1 b L
      by (intro exI [of _ db1] exI [of _ st1]) (auto simp: filterNext_def filterLoop_hit keeps_def)
  next
    case False
    obtain x db2 st2 where "scanNext (files s) tid (db1, st1) = Some (Ok x, db2, st2)"
      using scanNext_writable [OF w1, of st1] by blast
    then have "filterNext w rx flt (scanNext (files s) tid) (db, st) = filterNext w rx flt (scanNext (files s) tid) (db1, st1)"
      using b False n1 by (simp add: filterNext_def filterLoop_skip)
    moreover have "filter (keeps w rx flt) (scanRest (files s) ?v st) = filter (keeps w rx flt) (scanRest (files s) (viewOf files db1) st1)"
      using b False L L1 v1 by (simp add: keeps_def)
    moreover have "set (scanRest (files s) (viewOf files db1) st1) \<subseteq> set (scanRest (files s) ?v st)" using L L1 v1 by auto
    moreover have "n = length (scanRest (files s) (viewOf files db1) st1)" using Suc.hyps(2) L L1 v1 by simp
    moreover have "\<forall>t \<in> set (scanRest (files s) (viewOf files db1) st1). \<exists>b. filterPred w rx flt t = Ok b"
      using Suc.prems(2) L L1 v1 by simp
    ultimately show ?thesis using Suc.hyps(1) [of db1 st1] w1 v1 by (simp only:) (blast intro: order_trans)
  qed
qed

lemma delete_behind:
  assumes w: "writable files s tid K db" and j: "justRead (files s) db st t"
  shows "\<exists>db'. deleteTuple (files s) t tid db = Some (Ok (), db') \<and> writable files s tid K db' \<and> stored_at db (files s) t \<and>
    scanRest (files s) (viewOf files db') st = scanRest (files s) (viewOf files db) st"
proof -
  let ?f = "files s"
  obtain i j where st: "st = (i, Suc j)" using j by (auto simp: justRead_def)
  from j obtain r where i: "i < NumPages ?f (disk db)" and r: "map_of (pages db) (pageKey ?f i) = Some r"
    and slot: "j < length (tuples (objs db ! r))" "tuples (objs db ! r) ! j = Some t" by (auto simp: justRead_def st)
  have ok: "db_ok files db" and al: "alone tid WritePerm db" and K: "roomy K db" and de: "dense db"
    and keys: "\<forall>i < NumPages ?f (disk db). pageKey ?f i \<in> K" using w by (auto simp: writable_def)
  have f: "files (fromFile ?f) = ?f" using sharing_file [OF writable_sharing [OF w]] .
  note at = pool_page_at [OF ok f r]
  have rid: "Rid t = Some \<lparr>PageNo = i, SlotNo = j\<rparr>" using page_ok_Rid [OF at(1) slot] at(5) by simp
  then have stored: "stored_at db ?f t" using i r slot by (auto simp: stored_at_def)
  obtain r' db1 where get: "GetPage ?f i tid WritePerm db = Some (Ok r', db1)"
    using GetPage_total [OF ok f i roomy_room [OF ok K] al] by metis
  note c = GetPage_cached [OF ok f r get] and fr = GetPage_frame [OF ok f get]
  obtain p where del: "page_deleteTuple (objs db ! r) (Some \<lparr>PageNo = i, SlotNo = j\<rparr>) = Ok p"
    and p: "tuples p = (tuples (objs db ! r))[j := None]" "dirty p"
    using page_deleteTuple_slot [OF at(1) slot] at(5) by simp
  let ?db = "setObj r p db1"
  have d: "deleteTuple ?f t tid db = Some (Ok (), ?db)" using rid get del c by (simp add: deleteTuple_def)
  have disk: "disk db1 = disk db" using GetPage_got(3) [OF ok f get] .
  have pages: "pages ?db = pages db" and objs: "objs ?db = (objs db)[r := p]" using c by (simp_all add: setObj_def)
  have "db_ok files ?db" using deleteTuple_stored [OF ok f stored d] by simp
  moreover have "dense ?db"
    using de p(2) at(7) unfolding dense_def pages objs by (metis nth_list_update_eq nth_list_update_neq)
  ultimately have w': "writable files s tid K ?db" using al K keys fr i disk by (simp add: writable_def)
  have same: "map_of (pages db) (pageKey ?f n) \<noteq> Some r" if "n \<noteq> i" for n
    using pool_page_at(5) [OF ok f, of n r] at(5) that by auto
  have other: "pageTuples (viewOf files ?db) ?f n = pageTuples (viewOf files db) ?f n" if "n \<noteq> i" for n
    using same [OF that] by (auto simp: pageTuples_def viewOf_def visible_def pages objs disk split: option.split)
  have "pageTuples (viewOf files ?db) ?f i = (pageTuples (viewOf files db) ?f i)[j := None]"
    using r at(7) p(1) by (simp add: pageTuples_def viewOf_def visible_def pages objs)
  moreover have "fst (viewOf files ?db) = fst (viewOf files db)" by (simp add: viewOf_def disk)
  moreover have tail: "map (\<lambda>n. somes (pageTuples (viewOf files ?db) ?f n)) [Suc i..<m] = map (\<lambda>n. somes (pageTuples (viewOf files db) ?f n)) [Suc i..<m]" for m
    using other by (intro map_cong) auto
  ultimately have "scanRest ?f (viewOf files ?db) st = scanRest ?f (viewOf files db) st"
    unfolding scanRest_def st prod.case tail by (simp add: drop_update_cancel)
  with d w' stored show ?thesis by blast
qed

lemma tables_view: "viewOf files db' = viewOf files db \<Longrightarrow> tables files s db' = tables files s db"
  by (simp add: tables_def fun_eq_iff flip: scanTuples_rows)

definition deleting ::
  "(string \<Rightarrow> HeapFile) \<Rightarrow> string \<Rightarrow> TransactionID \<Rightarrow> heapHash set \<Rightarrow> (Tuple \<Rightarrow> bool result) \<Rightarrow> DB \<times> nat \<times> nat \<Rightarrow> Tuple list \<Rightarrow> bool" where
  "deleting files s tid K pr = (\<lambda>(db, st) ts. writable files s tid K db \<and>
     (\<forall>t \<in> set (scanRest (files s) (viewOf files db) st). \<exists>b. pr t = Ok b) \<and>
     ts = filter (\<lambda>t. pr t = Ok True) (scanRest (files s) (viewOf files db) st))"

lemma keeps_eq: "keeps w rx flt = (\<lambda>t. filterPred w rx flt t = Ok True)"
  by (simp add: keeps_def fun_eq_iff)

interpretation delete_rows: modification "\<lambda>t. deleteTuple (files s) t tid" "filterNext w rx flt (scanNext (files s) tid)"
  "deleting files s tid K (filterPred w rx flt)" "tables files s" "\<lambda>t (m, others). (m - {#TFields t#}, others)"
proof
  fix ds assume left: "deleting files s tid K (filterPred w rx flt) ds []"
  obtain db st where ds: "ds = (db, st)" by (cases ds)
  have wr: "writable files s tid K db" and ev: "\<forall>t \<in> set (scanRest (files s) (viewOf files db) st). \<exists>b. filterPred w rx flt t = Ok b"
    and no: "filter (keeps w rx flt) (scanRest (files s) (viewOf files db) st) = []"
    using left by (auto simp: deleting_def ds keeps_eq)
  from filter_scan_step [OF wr ev] no obtain db' st' where n: "filterNext w rx flt (scanNext (files s) tid) (db, st) = Some (Ok None, db', st')"
    and w': "writable files s tid K db'" and v: "viewOf files db' = viewOf files db"
    and r: "filter (keeps w rx flt) (scanRest (files s) (viewOf files db) st') = []"
      "set (scanRest (files s) (viewOf files db) st') \<subseteq> set (scanRest (files s) (viewOf files db) st)" by auto
  have "deleting files s tid K (filterPred w rx flt) (db', st') []"
    using w' r ev v by (auto simp: deleting_def keeps_eq)
  with n tables_view [OF v] show "\<exists>ds'. filterNext w rx flt (scanNext (files s) tid) ds = Some (Ok None, ds') \<and>
      deleting files s tid K (filterPred w rx flt) ds' [] \<and> tables files s (fst ds') = tables files s (fst ds)" by (auto simp: ds)
next
  fix ds t ts assume left: "deleting files s tid K (filterPred w rx flt) ds (t # ts)"
  obtain db st where ds: "ds = (db, st)" by (cases ds)
  have wr: "writable files s tid K db" and ev: "\<forall>t \<in> set (scanRest (files s) (viewOf files db) st). \<exists>b. filterPred w rx flt t = Ok b"
    and hit: "filter (keeps w rx flt) (scanRest (files s) (viewOf files db) st) = t # ts"
    using left by (auto simp: deleting_def ds keeps_eq)
  from filter_scan_step [OF wr ev] hit obtain db1 st1 where n: "filterNext w rx flt (scanNext (files s) tid) (db, st) = Some (Ok (Some t), db1, st1)"
    and w1: "writable files s tid K db1" and v: "viewOf files db1 = viewOf files db"
    and r: "filter (keeps w rx flt) (scanRest (files s) (viewOf files db) st1) = ts"
      "set (scanRest (files s) (viewOf files db) st1) \<subseteq> set (scanRest (files s) (viewOf files db) st)"
    and j: "justRead (files s) db1 st1 t" by auto
  obtain db2 where del: "deleteTuple (files s) t tid db1 = Some (Ok (), db2)" and w2: "writable files s tid K db2"
    and stored: "stored_at db1 (files s) t" and same: "scanRest (files s) (viewOf files db2) st1 = scanRest (files s) (viewOf files db1) st1"
    using delete_behind [OF w1 j] by blast
  have ok: "db_ok files db1" using w1 by (simp add: writable_def)
  have f: "files (fromFile (files s)) = files s" and names: "\<And>s'. fromFile (files s') = s'" using ok by (auto simp: db_ok_def disk_ok_def)
  have "tables files s db2 = (case tables files s db1 of (m, others) \<Rightarrow> (m - {#TFields t#}, others))"
    using deleteTuple_stored [OF ok f stored del] names by (simp add: tables_def fun_eq_iff)
  moreover have "deleting files s tid K (filterPred w rx flt) (db2, st1) ts"
    using w2 r ev v same by (auto simp: deleting_def keeps_eq)
  ultimately show "\<exists>d sa d'. filterNext w rx flt (scanNext (files s) tid) ds = Some (Ok (Some t), d, sa) \<and>
      deleteTuple (files s) t tid d = Some (Ok (), d') \<and> deleting files s tid K (filterPred w rx flt) (d', sa) ts \<and>
      tables files s d' = (\<lambda>(m, others). (m - {#TFields t#}, others)) (tables files s (fst ds))"
    using n del tables_view [OF v] by (auto simp: ds)
qed

lemma fold_remove_rows: "fold (\<lambda>t (m, others). (m - {#TFields t#}, others)) ts (m, others) = (m - mset (map TFields ts), others)"
  by (induction ts arbitrary: m) (auto simp: diff_diff_add_mset)

lemma mset_map_rest: "mset (map g xs) - mset (map g (filter P xs)) = mset (map g (filter (\<lambda>x. \<not> P x) xs))"
proof -
  have "image_mset g (mset xs) = image_mset g (filter_mset P (mset xs)) + image_mset g (filter_mset (\<lambda>x. \<not> P x) (mset xs))"
    using arg_cong [OF multiset_partition [of "mset xs" P], of "image_mset g"] by (simp only: image_mset_union)
  then show ?thesis by simp
qed

text \<open>
  C16: \<^verbatim>\<open>DELETE FROM t WHERE p\<close>, the delete operator over a filter over a scan of the same table, in a pool with room for every
  page of the table and with no other transaction holding a lock: the operator returns one tuple with the number of
  the matching rows, exactly the rows that do not match are left, although the scan goes on while rows are
  deleted behind it, and the other tables are as they were.
\<close>

theorem delete_op_deletes:
  assumes "db_ok files db" and "alone tid WritePerm db" and "dense db"
    and "finite K" and "fst ` set (pages db) \<subseteq> K" and "int (card K) < numPages db"
    and "\<forall>i < NumPages (files s) (disk db). pageKey (files s) i \<in> K"
    and "\<forall>t \<in> set (scanTuples (files s) (viewOf files db)). \<exists>b. filterPred w rx flt t = Ok b"
  shows "\<exists>ts db' st. map TFields ts = table_rows files db (files s) \<and>
    deleteNext (NewDeleteOp (files s)) tid (filterNext w rx flt (scanNext (files s) tid)) (scanStart db, 0) =
      Some (Ok (Some \<lparr>Desc = countDesc, TFields = [IntField (of_nat (length (filter (\<lambda>t. filterPred w rx flt t = Ok True) ts)))], Rid = None\<rparr>),
        (db', st), of_nat (length (filter (\<lambda>t. filterPred w rx flt t = Ok True) ts))) \<and>
    db_ok files db' \<and> mset (table_rows files db' (files s)) = mset (map TFields (filter (\<lambda>t. filterPred w rx flt t \<noteq> Ok True) ts)) \<and>
    (\<forall>s'. s' \<noteq> s \<longrightarrow> table_rows files db' (files s') = table_rows files db (files s'))"
proof -
  let ?ts = "scanTuples (files s) (viewOf files db)" and ?pr = "filterPred w rx flt"
  let ?hit = "filter (\<lambda>t. ?pr t = Ok True) ?ts"
  have "deleting files s tid K ?pr (scanStart db) ?hit"
    using assms by (auto simp: deleting_def scanStart_def writable_def roomy_def scanRest_0)
  from delete_rows.modifyNext_all [OF this, of countDesc 0] obtain db' st where
    res: "modifyNext countDesc (\<lambda>t. deleteTuple (files s) t tid) (filterNext w rx flt (scanNext (files s) tid)) (scanStart db, 0) =
      Some (Ok (Some \<lparr>Desc = countDesc, TFields = [IntField (of_nat (length ?hit))], Rid = None\<rparr>), (db', st), of_nat (length ?hit))"
    and left: "deleting files s tid K ?pr (db', st) []"
    and obs: "tables files s db' = fold (\<lambda>t (m, others). (m - {#TFields t#}, others)) ?hit (tables files s db)" by (auto simp: scanStart_def)
  have "db_ok files db'" using left by (simp add: deleting_def writable_def)
  moreover have "mset (table_rows files db' (files s)) = mset (map TFields (filter (\<lambda>t. ?pr t \<noteq> Ok True) ?ts))"
    "\<forall>s'. s' \<noteq> s \<longrightarrow> table_rows files db' (files s') = table_rows files db (files s')"
    using obs mset_map_rest [of TFields ?ts] scanTuples_rows [of "files s" files db]
    unfolding tables_def fold_remove_rows by (auto dest: fun_cong split: if_splits)
  ultimately show ?thesis using res scanTuples_rows [of "files s" files db] by (auto simp: deleteNext_def NewDeleteOp_def)
qed

section \<open>The modifications on an example\<close>

definition exOne :: "Expr list list" where
  "exOne = [[ConstExpr (IntField 5) IntType]]"

lemma exOne_yields:
  "yields (valueNext exWorld (NewValueOp exWorld exOne)) 0 [valueTuple exWorld (NewValueOp exWorld exOne) (hd exOne)] 1"
  "ended (valueNext exWorld (NewValueOp exWorld exOne)) 1"
  "TFields (valueTuple exWorld (NewValueOp exWorld exOne) (hd exOne)) = [IntField 5]"
  using valueNext_from [of "NewValueOp exWorld exOne" exWorld 0]
  by (simp_all add: NewValueOp_def exOne_def ended_def valueNext_def valueTuple_def)

theorem insert_op_inserts_witness:
  "\<exists>db st. insertNext (NewInsertOp exFile) 1 (beside (valueNext exWorld (NewValueOp exWorld exOne))) ((exDB0, 0), 0) =
      Some (Ok (Some \<lparr>Desc = countDesc, TFields = [IntField 1], Rid = None\<rparr>), (db, st), 1) \<and>
    table_rows exFiles db exFile = [[IntField 5]]"
proof -
  let ?t = "valueTuple exWorld (NewValueOp exWorld exOne) (hd exOne)" and ?K = "{pageKey exFile 0}"
  have pool: "finite ?K" "fst ` set (pages exDB0) \<subseteq> ?K" "int (card ?K) < numPages exDB0"
    by (simp_all add: exDB0_def NewBufferPool_def)
  have keys: "\<forall>i < NumPages (exFiles ''t.dat'') (disk exDB0) + length [?t]. pageKey (exFiles ''t.dat'') i \<in> ?K"
    by (simp add: exFile_name) (simp add: NumPages_def exDB0_def NewBufferPool_def)
  have fits: "\<forall>t \<in> set [?t]. tupleFits (hfDesc (exFiles ''t.dat'')) t"
    by (simp add: exFile_name tupleFits_def exOne_yields(3)) (simp add: exDesc_def)
  have slots: "0 < numSlotsFor (hfDesc (exFiles ''t.dat''))" by (simp add: exFile_name)
  from insert_op_inserts [OF exDB0_ok(1) exDB0_ok(3) [of 1 WritePerm] slots pool keys fits exOne_yields(1,2)]
  show ?thesis by (fastforce simp: exFile_name exDB0_ok(4) exOne_yields(3))
qed

lemma exDB3_pages: "NumPages exFile (disk exDB3) \<le> 1"
proof -
  have z: "NumPages exFile (disk exDB0) = 0" by (simp add: NumPages_def exDB0_def NewBufferPool_def)
  have "roomy {pageKey exFile 0} exDB0" "\<forall>i \<le> NumPages exFile (disk exDB0). pageKey exFile i \<in> {pageKey exFile 0}"
    by (simp_all add: roomy_def z) (simp_all add: exDB0_def NewBufferPool_def)
  from insertTuple_frame [OF exDB0_ok(1) exFile_simps(1) _ exDB1_ins this] have "NumPages exFile (disk exDB1) \<le> 1"
    by (simp add: z)
  moreover have same: "current exFiles exDB3 = current exFiles exDB1"
    using exDB3_current by simp
  have "n < NumPages exFile (disk exDB3) \<longleftrightarrow> n < NumPages exFile (disk exDB1)" for n
    using NumPages_current [OF exDB3_ok(1) exFile_simps(1)] NumPages_current [OF exDB1_ok(1) exFile_simps(1)] same by simp
  ultimately show ?thesis by (metis not_less)
qed

theorem delete_op_deletes_witness:
  "\<exists>db st. deleteNext (NewDeleteOp exFile) 1 (filterNext exWorld (\<lambda>_ _. False)
        (newFilter (ConstExpr (IntField 1) IntType) OpLe (ConstExpr (IntField 1) IntType) intFilterGetter) (scanNext exFile 1)) (scanStart exDB3, 0) =
      Some (Ok (Some \<lparr>Desc = countDesc, TFields = [IntField 1], Rid = None\<rparr>), (db, st), 1) \<and>
    table_rows exFiles db exFile = []"
proof -
  let ?flt = "newFilter (ConstExpr (IntField 1) IntType) OpLe (ConstExpr (IntField 1) IntType) intFilterGetter"
  let ?K = "{pageKey exFile 0}"
  have flt: "filterPred exWorld (\<lambda>_ _. False) ?flt t = Ok True" for t
    by (simp add: filterPred_def newFilter_def evalOrNil_def evalPred_int64_def)
  have pool: "finite ?K" "fst ` set (pages exDB3) \<subseteq> ?K" "int (card ?K) < numPages exDB3"
    by (simp_all add: exDB3_def NewBufferPool_def)
  have keys: "\<forall>i < NumPages (exFiles ''t.dat'') (disk exDB3). pageKey (exFiles ''t.dat'') i \<in> ?K"
    using exDB3_pages by (auto simp: exFile_name)
  have ev: "\<forall>t \<in> set (scanTuples (exFiles ''t.dat'') (viewOf exFiles exDB3)). \<exists>b. filterPred exWorld (\<lambda>_ _. False) ?flt t = Ok b"
    using flt by blast
  from delete_op_deletes [OF exDB3_ok(1) exDB3_ok(3) [of 1 WritePerm] exDB3_ok(4) pool keys ev]
  obtain ts db st where ts: "map TFields ts = table_rows exFiles exDB3 (exFiles ''t.dat'')"
    and d: "deleteNext (NewDeleteOp (exFiles ''t.dat'')) 1 (filterNext exWorld (\<lambda>_ _. False) ?flt (scanNext (exFiles ''t.dat'') 1)) (scanStart exDB3, 0) =
      Some (Ok (Some \<lparr>Desc = countDesc, TFields = [IntField (of_nat (length (filter (\<lambda>t. filterPred exWorld (\<lambda>_ _. False) ?flt t = Ok True) ts)))], Rid = None\<rparr>),
        (db, st), of_nat (length (filter (\<lambda>t. filterPred exWorld (\<lambda>_ _. False) ?flt t = Ok True) ts)))"
    and r: "mset (table_rows exFiles db (exFiles ''t.dat'')) =
      mset (map TFields (filter (\<lambda>t. filterPred exWorld (\<lambda>_ _. False) ?flt t \<noteq> Ok True) ts))"
    by (elim exE conjE) (rule that)
  note d = d [unfolded exFile_name] and r = r [unfolded exFile_name] and ts = ts [unfolded exFile_name]
  have "length ts = 1" using arg_cong [OF ts, of length] exDB3_ok(5) by simp
  with d r show ?thesis by (simp add: flt)
qed

end
