(* ===== verification/PhysicalPlans.thy ===== *)
theory PhysicalPlans
  imports LogicalPlans OrderBys Aggregators Modifications
begin

text \<open>
  The second half of \<^verbatim>\<open>godb/parser.go\<close>: from a logical plan to a tree of operators.

  A Go map has no order: \<^verbatim>\<open>range\<close> may visit its entries in any. The map from table names to plan nodes is an association list,
  and the argument \<open>ord\<close> of the functions that range over it is the order that \<^verbatim>\<open>range\<close> takes. Pointers to plan nodes and the
  operators in them are compared by \<open>nodeId\<close>, a number given to every node when it is made; each node is made together with
  its operator, so that one number serves for both.
\<close>

section \<open>Operators\<close>

text \<open>The implementations of the interface \<^verbatim>\<open>Operator\<close>, each with its children, and nil.\<close>

datatype Operator =
    NilOp
  | FileOp HeapFile
  | FilterOp Filter Operator
  | JoinOp EqualityJoin Operator Operator
  | ProjectOp Project Operator
  | AggregatorOp Aggregator Operator
  | OrderByOp OrderBy Operator
  | LimitOp Expr Operator
  | InsertRowsOp InsertOp Operator
  | DeleteRowsOp DeleteOp Operator
  | ValuesOp ValueOp

fun opDescriptor :: "world \<Rightarrow> Operator \<Rightarrow> TupleDesc result" where
  "opDescriptor w NilOp = Panic NilDereference"
| "opDescriptor w (FileOp f) = Ok (hfDesc f)"
| "opDescriptor w (FilterOp f c) = bind_go (opDescriptor w c) (\<lambda>d. Ok (filterDescriptor d))"
| "opDescriptor w (JoinOp j l r) = bind_go (opDescriptor w l) (\<lambda>dl. bind_go (opDescriptor w r) (\<lambda>dr. Ok (joinDescriptor dl dr)))"
| "opDescriptor w (ProjectOp p c) = projectDescriptor w p"
| "opDescriptor w (AggregatorOp a c) = Ok (aggDescriptor w a)"
| "opDescriptor w (OrderByOp ob c) = bind_go (opDescriptor w c) (\<lambda>d. Ok (orderByDescriptor d))"
| "opDescriptor w (LimitOp e c) = bind_go (opDescriptor w c) (\<lambda>d. Ok (limitDescriptor d))"
| "opDescriptor w (InsertRowsOp i c) = Ok (insertDescriptor i)"
| "opDescriptor w (DeleteRowsOp x c) = bind_go (opDescriptor w c) (\<lambda>d. Ok (deleteDescriptor x d))"
| "opDescriptor w (ValuesOp v) = Ok (valueDesc v)"

text \<open>
  The operator after \<^verbatim>\<open>op.Descriptor().setTableAlias(alias)\<close>: a heap file hands out its own descriptor, and a filter that of its
  child, so that the file itself changes; the others make a new descriptor in each call.
\<close>

fun aliasOp :: "Operator \<Rightarrow> string \<Rightarrow> Operator" where
  "aliasOp (FileOp f) alias = FileOp (f\<lparr>hfDesc := setTableAlias (hfDesc f) alias\<rparr>)"
| "aliasOp (FilterOp f c) alias = FilterOp f (aliasOp c alias)"
| "aliasOp (DeleteRowsOp x c) alias = DeleteRowsOp x (aliasOp c alias)"
| "aliasOp (InsertRowsOp i c) alias = InsertRowsOp (i\<lparr>insertDesc := setTableAlias (insertDesc i) alias\<rparr>) c"
| "aliasOp (ValuesOp v) alias = ValuesOp (v\<lparr>valueDesc := setTableAlias (valueDesc v) alias\<rparr>)"
| "aliasOp c alias = c"

section \<open>Which node has a field\<close>

record PlanNode =
  nodeOp :: Operator
  nodeDesc :: TupleDesc
  nodeId :: nat

type_synonym planMap = "(string \<times> PlanNode) list"

text \<open>The two nested loops of \<^verbatim>\<open>fieldToOp\<close>, with the node found so far.\<close>

fun fieldLoop :: "string \<Rightarrow> string \<Rightarrow> PlanNode \<Rightarrow> FieldType list \<Rightarrow> PlanNode option \<Rightarrow> PlanNode option result" where
  "fieldLoop tab field cand [] node = Ok node"
| "fieldLoop tab field cand (f # fs) node =
     (if Fname f = field \<or> field = ''*'' then
        (if node = None \<or> tab = TableQualifier f then fieldLoop tab field cand fs (Some cand)
         else if field \<noteq> ''*'' then Err (GoDBError ParseError)
         else fieldLoop tab field cand fs node)
      else fieldLoop tab field cand fs node)"

fun nodeLoop :: "string \<Rightarrow> string \<Rightarrow> PlanNode list \<Rightarrow> PlanNode option \<Rightarrow> PlanNode option result" where
  "nodeLoop tab field [] node = Ok node"
| "nodeLoop tab field (cand # cands) node =
     (if map_option nodeId node = Some (nodeId cand) then nodeLoop tab field cands node
      else bind_go (fieldLoop tab field cand (Fields (nodeDesc cand)) node) (nodeLoop tab field cands))"

definition fieldToOp :: "(planMap \<Rightarrow> planMap) \<Rightarrow> string \<Rightarrow> string \<Rightarrow> planMap \<Rightarrow> PlanNode result" where
  "fieldToOp ord tab field opMap =
     (case map_of opMap tab of
        Some node \<Rightarrow> Ok node
      | None \<Rightarrow>
          if tab \<noteq> [] then Err (GoDBError ParseError)
          else bind_go (nodeLoop tab field (map snd (ord opMap)) None) (\<lambda>node.
            case node of None \<Rightarrow> Err (GoDBError ParseError) | Some n \<Rightarrow> Ok n))"

text \<open>The loop of \<^verbatim>\<open>fieldNameToField\<close> at index \<open>i\<close>, with the best field so far.\<close>

fun bestLoop :: "world \<Rightarrow> string \<Rightarrow> string \<Rightarrow> Operator \<Rightarrow> nat \<Rightarrow> FieldType list \<Rightarrow> FieldType option \<Rightarrow> FieldType option result" where
  "bestLoop w table field op i [] best = Ok best"
| "bestLoop w table field op i (f # fs) best =
     (if (Fname f = field \<or> field = ''*'') \<and> (TableQualifier f = table \<or> best = None) then
        bind_go (opDescriptor w op) (\<lambda>d.
          if i < length (Fields d) then bestLoop w table field op (Suc i) fs (Some (Fields d ! i)) else Panic IndexOutOfRange)
      else bestLoop w table field op (Suc i) fs best)"

definition fieldNameToField :: "world \<Rightarrow> string \<Rightarrow> string \<Rightarrow> PlanNode \<Rightarrow> FieldType result" where
  "fieldNameToField w table field node =
     bind_go (bestLoop w table field (nodeOp node) 0 (Fields (nodeDesc node)) None) (\<lambda>best.
       case best of None \<Rightarrow> Err (GoDBError ParseError) | Some f \<Rightarrow> Ok f)"

section \<open>Expressions\<close>

text \<open>\<^verbatim>\<open>strconv.Atoi\<close>: a sign, decimal digits, in the range of an \<^verbatim>\<open>int64\<close>.\<close>

definition Atoi :: "string \<Rightarrow> int64 option" where
  "Atoi s =
     (let neg = (s \<noteq> [] \<and> hd s = CHR ''-''); ds = (if s \<noteq> [] \<and> hd s \<in> {CHR ''-'', CHR ''+''} then tl s else s) in
      if ds = [] then None
      else case digits ds of
        None \<Rightarrow> None
      | Some n \<Rightarrow>
          let i = (if neg then - int n else int n) in
          if - (2 ^ 63) \<le> i \<and> i < 2 ^ 63 then Some (word_of_int i) else None)"

text \<open>The field of a column: the one cached in the node, or of the input, or of the node of a table that is also in the input.\<close>

definition selectField ::
  "world \<Rightarrow> (planMap \<Rightarrow> planMap) \<Rightarrow> TupleDesc option \<Rightarrow> planMap option \<Rightarrow> string \<Rightarrow> string \<Rightarrow> FieldType option \<Rightarrow> FieldType result" where
  "selectField w ord inputDesc tabMap table field cached =
     (case inputDesc of
        None \<Rightarrow> Err (GoDBError ParseError)
      | Some d \<Rightarrow> (case tabMap of
          None \<Rightarrow> Err (GoDBError ParseError)
        | Some m \<Rightarrow> (case cached of
            Some f \<Rightarrow> Ok f
          | None \<Rightarrow> (case findFieldInTd \<lparr>Fname = field, TableQualifier = table, Ftype = UnknownType\<rparr> d of
              (fieldNo, None) \<Rightarrow> Ok (Fields d ! nat fieldNo)
            | (_, Some _) \<Rightarrow>
                bind_go (fieldToOp ord table field m) (\<lambda>selectNode.
                bind_go (case fieldNameToField w table field selectNode of
                           Ok f \<Rightarrow> Ok f
                         | Err _ \<Rightarrow> Ok \<lparr>Fname = [], TableQualifier = [], Ftype = IntType\<rparr>
                         | Panic x \<Rightarrow> Panic x) (\<lambda>f.
                  case findFieldInTd f d of
                    (_, None) \<Rightarrow> Ok f
                  | (_, Some _) \<Rightarrow> Err (GoDBError ParseError)))))))"

fun generateExpr ::
  "world \<Rightarrow> (planMap \<Rightarrow> planMap) \<Rightarrow> TupleDesc option \<Rightarrow> planMap option \<Rightarrow> LogicalSelectNode \<Rightarrow> (Expr \<times> string) result" where
  "generateExpr w ord inputDesc tabMap (LogicalSelectNode ty table field fop alias val args cached) =
     (let named = (\<lambda>fieldName. if alias \<noteq> [] then alias else fieldName) in
      if ty = ExprAggr \<or> ty = ExprField then
        bind_go (selectField w ord inputDesc tabMap table field cached) (\<lambda>f.
        bind_go (case fop of
                   None \<Rightarrow> Ok field
                 | Some op \<Rightarrow>
                     bind_go (getTableField None [] [] (LogicalSelectNode ty table field fop alias val args cached)) (\<lambda>(tName, fName).
                       Ok (op @ ''('' @ (if tName \<noteq> [] then tName @ ''.'' else []) @ fName @ '')''))) (\<lambda>fieldName.
          Ok (FieldExpr f, named fieldName)))
      else if ty = ExprConst then
        (case Atoi val of
           Some n \<Rightarrow> Ok (ConstExpr (IntField n) IntType, named val)
         | None \<Rightarrow> Ok (ConstExpr (StringField val) StringType, named val))
      else if ty = ExprFunc then
        (case fop of
           None \<Rightarrow> Panic NilDereference
         | Some op \<Rightarrow>
             bind_go (map_go (generateExpr w ord inputDesc tabMap) args) (\<lambda>es. Ok (FuncExpr op (map fst es), named op)))
      else Err (GoDBError ParseError))"

section \<open>Filters and joins\<close>

text \<open>The table map, and the number of the next node.\<close>

type_synonym planState = "planMap \<times> nat"

text \<open>The places where a name is looked up: the catalog, the fields of the subqueries, and the tables.\<close>

type_synonym scope = "Catalog \<times> FieldType list \<times> LogicalTableNode list"

definition resolve :: "scope \<Rightarrow> LogicalSelectNode \<Rightarrow> (string \<times> string) result" where
  "resolve sc s = (case sc of (c, qs, ts) \<Rightarrow> getTableField (Some c) qs ts s)"

definition addNode :: "string \<times> Operator \<times> TupleDesc \<Rightarrow> planState \<Rightarrow> planState" where
  "addNode e st = (case e of (name, op, td) \<Rightarrow> (case st of (m, n) \<Rightarrow>
     (AList.update name \<lparr>nodeOp = op, nodeDesc = td, nodeId = n\<rparr> m, Suc n)))"

definition tableEntry :: "LogicalTableNode \<Rightarrow> string \<times> Operator \<times> TupleDesc" where
  "tableEntry t =
     (let name = (if tableAlias t \<noteq> [] then tableAlias t else tableName t);
          f = (tableFile t)\<lparr>hfDesc := setTableAlias (hfDesc (tableFile t)) name\<rparr>
      in (name, FileOp f, hfDesc f))"

text \<open>A filter on an expression of an unknown type is dropped by the \<^verbatim>\<open>switch\<close>.\<close>

definition applyFilter :: "world \<Rightarrow> (planMap \<Rightarrow> planMap) \<Rightarrow> scope \<Rightarrow> LogicalFilterNode \<Rightarrow> planState \<Rightarrow> planState result" where
  "applyFilter w ord sc f st =
     (case st of (m, n) \<Rightarrow>
     bind_go (resolve sc (fieldExpr f)) (\<lambda>(tabName, fieldName).
     bind_go (fieldToOp ord tabName fieldName m) (\<lambda>node.
     bind_go (generateExpr w ord (Some (nodeDesc node)) (Some m) (fieldExpr f)) (\<lambda>(l, _).
     bind_go (generateExpr w ord (Some (nodeDesc node)) (Some m) (constExpr f)) (\<lambda>(r, _).
     bind_go (opDescriptor w (nodeOp node)) (\<lambda>d.
       let put = (\<lambda>flt. Ok (addNode (TableQualifier (GetExprType w l), FilterOp flt (nodeOp node), setTableAlias d tabName) (m, n))) in
       case Ftype (GetExprType w l) of
         IntType \<Rightarrow> bind_go (NewIntFilter w r (filterPredOp f) l) put
       | StringType \<Rightarrow> bind_go (NewStringFilter w r (filterPredOp f) l) put
       | UnknownType \<Rightarrow> Ok (m, n)))))))"

definition JoinBufferSize :: int where
  "JoinBufferSize = 10000000"

text \<open>For expressions of an unknown type \<^verbatim>\<open>newOp\<close> stays nil, and asking for its descriptor panics.\<close>

definition applyJoin :: "world \<Rightarrow> (planMap \<Rightarrow> planMap) \<Rightarrow> scope \<Rightarrow> LogicalJoinNode \<Rightarrow> planState \<Rightarrow> planState result" where
  "applyJoin w ord sc j st =
     (case st of (m, n) \<Rightarrow>
     bind_go (resolve sc (joinLeft j)) (\<lambda>(lTabName, lFieldName).
     bind_go (fieldToOp ord lTabName lFieldName m) (\<lambda>node1.
     bind_go (resolve sc (joinRight j)) (\<lambda>(rTabName, rFieldName).
     bind_go (fieldToOp ord rTabName rFieldName m) (\<lambda>node2.
     bind_go (generateExpr w ord (Some (nodeDesc node1)) (Some m) (joinLeft j)) (\<lambda>(l, _).
     bind_go (generateExpr w ord (Some (nodeDesc node2)) (Some m) (joinRight j)) (\<lambda>(r, _).
     bind_go (case Ftype (GetExprType w l) of
                IntType \<Rightarrow> bind_go (NewIntJoin w l r JoinBufferSize) (\<lambda>jn. Ok (JoinOp jn (nodeOp node1) (nodeOp node2)))
              | StringType \<Rightarrow> bind_go (NewStringJoin w l r JoinBufferSize) (\<lambda>jn. Ok (JoinOp jn (nodeOp node1) (nodeOp node2)))
              | UnknownType \<Rightarrow> Ok NilOp) (\<lambda>newOp.
     bind_go (opDescriptor w newOp) (\<lambda>d.
       let newNode = \<lparr>nodeOp = newOp, nodeDesc = d, nodeId = n\<rparr>;
           m1 = map (\<lambda>(key, node). (key, if nodeId node = nodeId node1 \<or> nodeId node = nodeId node2 then newNode else node)) m
       in Ok (AList.update rTabName newNode (AList.update lTabName newNode m1), Suc n))))))))))"

definition allJoined :: "(planMap \<Rightarrow> planMap) \<Rightarrow> planMap \<Rightarrow> Operator result" where
  "allJoined ord m =
     (case ord m of
        [] \<Rightarrow> Ok NilOp
      | (_, first) # rest \<Rightarrow>
          if list_all (\<lambda>(_, node). nodeId node = nodeId first) rest then Ok (nodeOp first) else Err (GoDBError ParseError))"

section \<open>Aggregates\<close>

text \<open>
  The zero value of a state, after \<^verbatim>\<open>Init\<close>. The expression in the zero value is nil in the source; \<^verbatim>\<open>Init\<close> overwrites it.
\<close>

definition initAgg :: "string \<Rightarrow> string \<Rightarrow> Expr \<Rightarrow> DBType \<Rightarrow> aggGetter \<Rightarrow> AggState result" where
  "initAgg op name e ty g =
     (let zero = (if ty = StringType then AnyString [] else AnyInt 0) in
      if op = ''max'' then Ok (AMax (Max_Init name e g \<lparr>maxAlias = [], maxExpr = e, maxMax = zero, maxNull = False, maxGetter = nilAggGetter\<rparr>))
      else if op = ''min'' then Ok (AMin (Min_Init name e g \<lparr>minAlias = [], minExpr = e, minMin = zero, minNull = False, minGetter = nilAggGetter\<rparr>))
      else if op = ''avg'' then
        Ok (AAvg (Avg_Init name e g \<lparr>avgAlias = [], avgExpr = e, avgSum = 0, avgCount = 0, avgAvg = 0, avgGetter = nilAggGetter\<rparr>))
      else if op = ''sum'' then Ok (ASum (Sum_Init name e g \<lparr>sumAlias = [], sumExpr = e, sumSum = 0, sumGetter = nilAggGetter\<rparr>))
      else if op = ''count'' then Ok (ACount (Count_Init name e \<lparr>countAlias = [], countExpr = e, countCount = 0\<rparr>))
      else Err (GoDBError IllegalOperationError))"

definition planAgg :: "world \<Rightarrow> (planMap \<Rightarrow> planMap) \<Rightarrow> scope \<Rightarrow> planMap \<Rightarrow> nat \<Rightarrow> LogicalSelectNode \<Rightarrow> AggState result" where
  "planAgg w ord sc m aggCnt s =
     (case lsArgs s of
        [] \<Rightarrow> Panic IndexOutOfRange
      | arg # _ \<Rightarrow>
          bind_go (resolve sc arg) (\<lambda>(tabName, fieldName).
          bind_go (fieldToOp ord tabName fieldName m) (\<lambda>node.
          bind_go (generateExpr w ord (Some (nodeDesc node)) (Some m) arg) (\<lambda>(aggExpr, _).
            let ty = Ftype (GetExprType w aggExpr);
                g = (case ty of IntType \<Rightarrow> intAggGetter | StringType \<Rightarrow> stringAggGetter | UnknownType \<Rightarrow> nilAggGetter)
            in (case funcOp s of
                  None \<Rightarrow> Panic NilDereference
                | Some op \<Rightarrow>
                    initAgg op (if lsAlias s \<noteq> [] then lsAlias s
                                else op @ ''('' @ tabName @ ''.'' @ fieldName @ '')'' @ show_int (int aggCnt)) aggExpr ty g)))))"

fun planAggStates :: "world \<Rightarrow> (planMap \<Rightarrow> planMap) \<Rightarrow> scope \<Rightarrow> planMap \<Rightarrow> nat \<Rightarrow> LogicalSelectNode list \<Rightarrow> AggState list result" where
  "planAggStates w ord sc m aggCnt [] = Ok []"
| "planAggStates w ord sc m aggCnt (s # ss) =
     (if exprType s = ExprAggr then
        bind_go (planAgg w ord sc m aggCnt s) (\<lambda>as. bind_go (planAggStates w ord sc m (Suc aggCnt) ss) (\<lambda>rest. Ok (as # rest)))
      else planAggStates w ord sc m aggCnt ss)"

text \<open>
  \<^verbatim>\<open>s.cachedField = &as.GetTupleDesc().Fields[0]\<close>: the nodes of \<^verbatim>\<open>plan.aggs\<close> are the aggregates inside \<^verbatim>\<open>plan.selects\<close>, in the order
  of \<^verbatim>\<open>extractAggs\<close>, so that the fields show up there.
\<close>

fun fillAggs :: "LogicalSelectNode \<Rightarrow> FieldType list \<Rightarrow> LogicalSelectNode \<times> FieldType list"
and fillAll :: "LogicalSelectNode list \<Rightarrow> FieldType list \<Rightarrow> LogicalSelectNode list \<times> FieldType list" where
  "fillAggs (LogicalSelectNode ty table field fop alias val args cached) fs =
     (case ty of
        ExprAggr \<Rightarrow> (case fs of
            [] \<Rightarrow> (LogicalSelectNode ty table field fop alias val args cached, [])
          | f # fs' \<Rightarrow> (LogicalSelectNode ty table field fop alias val args (Some f), fs'))
      | ExprFunc \<Rightarrow> (case fillAll args fs of (args', fs') \<Rightarrow> (LogicalSelectNode ty table field fop alias val args' cached, fs'))
      | _ \<Rightarrow> (LogicalSelectNode ty table field fop alias val args cached, fs))"
| "fillAll [] fs = ([], fs)"
| "fillAll (s # ss) fs = (case fillAggs s fs of (s', fs') \<Rightarrow> (case fillAll ss fs' of (ss', fs'') \<Rightarrow> (s' # ss', fs'')))"

text \<open>The expressions of a list, each generated on the descriptor of the operator they will run on.\<close>

definition generateOn :: "world \<Rightarrow> (planMap \<Rightarrow> planMap) \<Rightarrow> planMap \<Rightarrow> Operator \<Rightarrow> LogicalSelectNode \<Rightarrow> (Expr \<times> string) result" where
  "generateOn w ord m topOp s = bind_go (opDescriptor w topOp) (\<lambda>d. generateExpr w ord (Some d) (Some m) s)"

definition applyAggs ::
  "world \<Rightarrow> (planMap \<Rightarrow> planMap) \<Rightarrow> scope \<Rightarrow> planMap \<Rightarrow> LogicalPlan \<Rightarrow> Operator \<Rightarrow> (Operator \<times> LogicalSelectNode list) result" where
  "applyAggs w ord sc m plan topOp =
     (if planAggs plan = [] then Ok (topOp, planSelects plan)
      else
        bind_go (planAggStates w ord sc m 0 (planAggs plan)) (\<lambda>states.
        bind_go (map_go (generateOn w ord m topOp) (planGroupBy plan)) (\<lambda>gbys.
          Ok (AggregatorOp (if gbys = [] then NewAggregator states else NewGroupedAggregator states (map fst gbys)) topOp,
              fst (fillAll (planSelects plan) (map (\<lambda>as. hd (Fields (GetTupleDesc as))) states))))))"

section \<open>Projection, order and limit\<close>

text \<open>\<^verbatim>\<open>exprList\<close> has an entry for every item of the select list, \<^verbatim>\<open>fieldNames\<close> none for a star.\<close>

definition applyProject ::
  "world \<Rightarrow> (planMap \<Rightarrow> planMap) \<Rightarrow> planMap \<Rightarrow> bool \<Rightarrow> LogicalSelectNode list \<Rightarrow> Operator \<Rightarrow> Operator result" where
  "applyProject w ord m dist sels topOp =
     (let items = filter (\<lambda>s. exprType s \<noteq> ExprStar) sels;
          selectAll = (\<exists>s \<in> set sels. exprType s = ExprStar \<and> lsField s = ''*'' \<and> funcOp s = None)
      in bind_go (map_go (generateOn w ord m topOp) items) (\<lambda>es.
        if selectAll then Ok topOp
        else if length es \<noteq> length sels then Err (PlainError ''outputNames should be same length as selected field'')
        else bind_go (NewProjectOp (map fst es) (map snd es) dist) (\<lambda>p. Ok (ProjectOp p topOp))))"

definition applyOrderBy :: "world \<Rightarrow> (planMap \<Rightarrow> planMap) \<Rightarrow> planMap \<Rightarrow> OrderByNode list \<Rightarrow> Operator \<Rightarrow> Operator result" where
  "applyOrderBy w ord m obys topOp =
     (if obys = [] then Ok topOp
      else
        bind_go (map_go (\<lambda>ob. generateOn w ord m topOp (orderExpr ob)) obys) (\<lambda>es.
        bind_go (NewOrderBy (map fst es) (map ascending obys)) (\<lambda>ob. Ok (OrderByOp ob topOp))))"

definition applyLimit :: "world \<Rightarrow> (planMap \<Rightarrow> planMap) \<Rightarrow> planMap \<Rightarrow> LogicalSelectNode option \<Rightarrow> Operator \<Rightarrow> Operator result" where
  "applyLimit w ord m lim topOp =
     (case lim of
        None \<Rightarrow> Ok topOp
      | Some s \<Rightarrow> bind_go (generateOn w ord m topOp s) (\<lambda>(e, _). Ok (LimitOp e topOp)))"

text \<open>Everything after the table map is built.\<close>

definition planOver :: "world \<Rightarrow> (planMap \<Rightarrow> planMap) \<Rightarrow> scope \<Rightarrow> LogicalPlan \<Rightarrow> planState \<Rightarrow> Operator result" where
  "planOver w ord sc plan st =
     bind_go (fold_go (applyFilter w ord sc) (planFilters plan) st) (\<lambda>st1.
     bind_go (fold_go (applyJoin w ord sc) (planJoins plan) st1) (\<lambda>(m, _).
     bind_go (allJoined ord m) (\<lambda>curOp.
     bind_go (applyAggs w ord sc m plan curOp) (\<lambda>(aggOp, sels).
     bind_go (applyProject w ord m (planDistinct plan) sels aggOp) (\<lambda>projOp.
     bind_go (applyOrderBy w ord m (planOrderBy plan) projOp) (\<lambda>orderOp.
       applyLimit w ord m (planLimit plan) orderOp))))))"

fun makePhysicalPlan :: "world \<Rightarrow> (planMap \<Rightarrow> planMap) \<Rightarrow> Catalog \<Rightarrow> LogicalPlan \<Rightarrow> Operator result" where
  "makePhysicalPlan w ord c (LogicalPlan fs js ss as ts qs gs os l d alias) =
     bind_go (map_go (\<lambda>p.
         bind_go (makePhysicalPlan w ord c p) (\<lambda>op.
         bind_go (opDescriptor w op) (\<lambda>td.
           Ok (planAlias p, aliasOp op (planAlias p), setTableAlias td (planAlias p))))) qs) (\<lambda>subs.
       planOver w ord (c, subFieldsOf c qs, ts) (LogicalPlan fs js ss as ts qs gs os l d alias)
         (fold addNode (subs @ map tableEntry ts) ([], 0)))"

section \<open>Insert and delete statements\<close>

text \<open>The rows of an insert statement: value lists, a query, or a kind of node that the source ignores.\<close>

datatype sqlRows = SqlValues "sqlExpr list list" | SqlRowsOf sqlSelect | SqlOtherRows

record sqlInsert =
  insColumns :: "string list option"
  insTable :: string
  insRows :: sqlRows

record sqlDelete =
  delTableExprs :: "sqlTableExpr list"
  delWhere :: "sqlExpr option"

definition parseInsert :: "world \<Rightarrow> (planMap \<Rightarrow> planMap) \<Rightarrow> Catalog \<Rightarrow> sqlInsert \<Rightarrow> Operator result" where
  "parseInsert w ord c ins =
     (if insColumns ins \<noteq> None then Err (GoDBError ParseError)
      else
        bind_go (GetTable (insTable ins) c) (\<lambda>file.
          case insRows ins of
            SqlValues tups \<Rightarrow>
              bind_go (map_go (map_go (\<lambda>e.
                  bind_go (parseExpr e []) (\<lambda>expr.
                  bind_go (generateExpr w ord None None expr) (\<lambda>(exprOp, _). Ok exprOp)))) tups) (\<lambda>exprAr.
                Ok (InsertRowsOp (NewInsertOp file) (ValuesOp (NewValueOp w exprAr))))
          | SqlRowsOf stmt \<Rightarrow>
              bind_go (parseStatement c stmt) (\<lambda>plan.
              bind_go (makePhysicalPlan w ord c plan) (\<lambda>op.
                Ok (InsertRowsOp (NewInsertOp file) op)))
          | SqlOtherRows \<Rightarrow> Ok NilOp))"

text \<open>The filters of a delete statement are stacked on the scan; the table map keeps the scan itself.\<close>

definition deleteFilter ::
  "world \<Rightarrow> (planMap \<Rightarrow> planMap) \<Rightarrow> scope \<Rightarrow> planMap \<Rightarrow> LogicalFilterNode \<Rightarrow> Operator \<Rightarrow> Operator result" where
  "deleteFilter w ord sc m f newOp =
     bind_go (resolve sc (fieldExpr f)) (\<lambda>(tabName, fieldName).
     bind_go (fieldToOp ord tabName fieldName m) (\<lambda>node.
     bind_go (generateExpr w ord (Some (nodeDesc node)) (Some m) (fieldExpr f)) (\<lambda>(l, _).
     bind_go (generateExpr w ord (Some (nodeDesc node)) (Some m) (constExpr f)) (\<lambda>(r, _).
       case Ftype (GetExprType w l) of
         IntType \<Rightarrow> bind_go (NewIntFilter w r (filterPredOp f) l) (\<lambda>flt. Ok (FilterOp flt newOp))
       | StringType \<Rightarrow> bind_go (NewStringFilter w r (filterPredOp f) l) (\<lambda>flt. Ok (FilterOp flt newOp))
       | UnknownType \<Rightarrow> Ok newOp))))"

definition parseDelete :: "world \<Rightarrow> (planMap \<Rightarrow> planMap) \<Rightarrow> Catalog \<Rightarrow> sqlDelete \<Rightarrow> Operator result" where
  "parseDelete w ord c del =
     (case delTableExprs del of
        [] \<Rightarrow> Panic IndexOutOfRange
      | _ # _ # _ \<Rightarrow> Err (GoDBError ParseError)
      | [te] \<Rightarrow>
          bind_go (parseFrom c te) (\<lambda>(tabs, subplans, js).
          if length tabs > 1 \<or> subplans \<noteq> [] \<or> js \<noteq> [] then Err (GoDBError ParseError)
          else case tabs of
            [] \<Rightarrow> Panic IndexOutOfRange
          | t # _ \<Rightarrow>
              let file = tableFile t; m = [(tableName t, \<lparr>nodeOp = FileOp file, nodeDesc = hfDesc file, nodeId = 0\<rparr>)] in
              bind_go (case delWhere del of None \<Rightarrow> Ok ([], []) | Some e \<Rightarrow> parseWhere c [] tabs e) (\<lambda>(filters, js).
              if js \<noteq> [] then Err (GoDBError ParseError)
              else bind_go (fold_go (deleteFilter w ord (c, [], tabs) m) filters (FileOp file)) (\<lambda>newOp.
                Ok (DeleteRowsOp (NewDeleteOp file) newOp)))))"

section \<open>Statements that change the catalog\<close>

datatype QueryType =
  IteratorType | BeginXactionType | CommitXactionType | AbortXactionType | CreateTableQueryType | DropTableQueryType | UnknownQueryType

text \<open>
  A create statement with the name and the type of each column; \<open>None\<close> where \<^verbatim>\<open>sqlparser\<close> leaves \<^verbatim>\<open>TableSpec\<close> nil.
\<close>

datatype sqlDDL = SqlCreate string "(string \<times> string) list option" | SqlDrop string | SqlOtherDDL

definition columnField :: "string \<times> string \<Rightarrow> FieldType result" where
  "columnField col =
     (if snd col = ''int'' then Ok \<lparr>Fname = fst col, TableQualifier = [], Ftype = IntType\<rparr>
      else if snd col \<in> {''string'', ''text'', ''varchar''} then Ok \<lparr>Fname = fst col, TableQualifier = [], Ftype = StringType\<rparr>
      else Err (GoDBError ParseError))"

text \<open>The error of \<^verbatim>\<open>addTable\<close> is not looked at.\<close>

fun processDDL :: "sqlDDL \<Rightarrow> Catalog \<times> Disk \<Rightarrow> (QueryType \<times> Catalog \<times> Disk) result" where
  "processDDL (SqlCreate tabName None) cd = Panic NilDereference"
| "processDDL (SqlCreate tabName (Some cols)) cd =
     (case GetTable tabName (fst cd) of
        Ok _ \<Rightarrow> Err (GoDBError ParseError)
      | Panic x \<Rightarrow> Panic x
      | Err _ \<Rightarrow>
          bind_go (map_go columnField cols) (\<lambda>fs.
            Ok (CreateTableQueryType, addIgnoring (tabName, \<lparr>Fields = fs\<rparr>) (fst cd), snd cd)))"
| "processDDL (SqlDrop tabName) cd = bind_go (dropTable tabName cd) (\<lambda>cd'. Ok (DropTableQueryType, cd'))"
| "processDDL SqlOtherDDL cd = Err (GoDBError ParseError)"

section \<open>Parse\<close>

datatype sqlStatement =
    SqlSelectStmt sqlSelect
  | SqlInsertStmt sqlInsert
  | SqlDeleteStmt sqlDelete
  | SqlBegin
  | SqlCommit
  | SqlRollback
  | SqlDDLStmt sqlDDL
  | SqlOtherStmt

text \<open>\<open>sqlParse\<close> is \<^verbatim>\<open>sqlparser.Parse\<close>. The catalog and the disk are returned as they are after the call.\<close>

definition Parse ::
  "world \<Rightarrow> (planMap \<Rightarrow> planMap) \<Rightarrow> (string \<Rightarrow> sqlStatement result) \<Rightarrow> string \<Rightarrow> Catalog \<times> Disk \<Rightarrow>
   (QueryType \<times> Operator \<times> Catalog \<times> Disk) result" where
  "Parse w ord sqlParse query cd =
     bind_go (sqlParse query) (\<lambda>stmt.
       case stmt of
         SqlSelectStmt s \<Rightarrow>
           bind_go (parseStatement (fst cd) s) (\<lambda>plan.
           bind_go (makePhysicalPlan w ord (fst cd) plan) (\<lambda>op. Ok (IteratorType, op, cd)))
       | SqlInsertStmt s \<Rightarrow> bind_go (parseInsert w ord (fst cd) s) (\<lambda>op. Ok (IteratorType, op, cd))
       | SqlDeleteStmt s \<Rightarrow> bind_go (parseDelete w ord (fst cd) s) (\<lambda>op. Ok (IteratorType, op, cd))
       | SqlBegin \<Rightarrow> Ok (BeginXactionType, NilOp, cd)
       | SqlCommit \<Rightarrow> Ok (CommitXactionType, NilOp, cd)
       | SqlRollback \<Rightarrow> Ok (AbortXactionType, NilOp, cd)
       | SqlDDLStmt ddl \<Rightarrow> bind_go (processDDL ddl cd) (\<lambda>(qtype, cd'). Ok (qtype, NilOp, cd'))
       | SqlOtherStmt \<Rightarrow> Err (GoDBError ParseError))"

section \<open>Printing a plan\<close>

fun exprToStr :: "Expr \<Rightarrow> string" where
  "exprToStr (FieldExpr f) = (if TableQualifier f \<noteq> [] then TableQualifier f @ ''.'' else []) @ Fname f"
| "exprToStr (ConstExpr v ty) = constString v"
| "exprToStr (FuncExpr op args) = op @ ''('' @ concat (map (\<lambda>arg. exprToStr arg @ '','') args) @ '')''"

definition opToStr :: "BoolOp \<Rightarrow> string" where
  "opToStr op =
     (case op of
        OpEq \<Rightarrow> ''='' | OpNeq \<Rightarrow> ''<>'' | OpGe \<Rightarrow> ''>='' | OpGt \<Rightarrow> ''>'' | OpLe \<Rightarrow> ''<='' | OpLt \<Rightarrow> ''<'' | OpLike \<Rightarrow> '' LIKE '')"

text \<open>The first string among the fields of the struct: that of a heap file is the name of its file.\<close>

definition getStrFromObj :: "HeapFile \<Rightarrow> string" where
  "getStrFromObj f = fromFile f"

text \<open>\<^verbatim>\<open>reflect.TypeOf\<close> of an aggregation state.\<close>

fun stateType :: "AggState \<Rightarrow> string" where
  "stateType (ACount a) = ''*godb.CountAggState''"
| "stateType (ASum a) = ''*godb.SumAggState[int64]''"
| "stateType (AAvg a) = ''*godb.AvgAggState[int64]''"
| "stateType (AMax a) = ''*godb.MaxAggState['' @ (case maxMax a of AnyInt _ \<Rightarrow> ''int64'' | AnyString _ \<Rightarrow> ''string'') @ '']''"
| "stateType (AMin a) = ''*godb.MinAggState['' @ (case minMin a of AnyInt _ \<Rightarrow> ''int64'' | AnyString _ \<Rightarrow> ''string'') @ '']''"

definition exprList :: "Expr list \<Rightarrow> string" where
  "exprList es = concat (map (\<lambda>e. exprToStr e @ '','') es)"

definition aggString :: "AggState list \<Rightarrow> string result" where
  "aggString sts = bind_go (map_go (\<lambda>s. HeaderString (GetTupleDesc s) False) sts) (\<lambda>hs.
     Ok (concat (map (\<lambda>(s, h). stateType s @ ''('' @ h @ ''),'') (zip sts hs))))"

text \<open>What \<^verbatim>\<open>PrintPhysicalPlan\<close> prints, with the indentation so far.\<close>

fun PrintPhysicalPlan :: "Operator \<Rightarrow> string \<Rightarrow> string result" where
  "PrintPhysicalPlan (JoinOp j l r) indent =
     bind_go (PrintPhysicalPlan l (indent @ [CHR 0x09])) (\<lambda>ls.
     bind_go (PrintPhysicalPlan r (indent @ [CHR 0x09])) (\<lambda>rs.
       Ok (indent @ ''Join, '' @ exprToStr (leftField j) @ '' == '' @ exprToStr (rightField j) @ [newline] @ ls @ rs)))"
| "PrintPhysicalPlan (ProjectOp p c) indent =
     bind_go (PrintPhysicalPlan c (indent @ [CHR 0x09])) (\<lambda>s.
       Ok (indent @ ''Project '' @ exprList (selectFields p) @ '' -> ['' @ joinWith '' '' (outputNames p) @ '']'' @ [newline] @ s))"
| "PrintPhysicalPlan (FilterOp f c) indent =
     bind_go (PrintPhysicalPlan c (indent @ [CHR 0x09])) (\<lambda>s.
       Ok (indent @ ''Filter '' @ exprToStr (leftExpr f) @ '' '' @ opToStr (filterOp f) @ '' '' @ exprToStr (rightExpr f) @ [newline] @ s))"
| "PrintPhysicalPlan (FileOp f) indent = Ok (indent @ ''Heap Scan '' @ getStrFromObj f @ [newline])"
| "PrintPhysicalPlan (OrderByOp ob c) indent =
     bind_go (PrintPhysicalPlan c (indent @ [CHR 0x09])) (\<lambda>s. Ok (indent @ ''Order By '' @ exprList (orderByExprs ob) @ [newline] @ s))"
| "PrintPhysicalPlan (LimitOp e c) indent =
     bind_go (PrintPhysicalPlan c (indent @ [CHR 0x09])) (\<lambda>s. Ok (indent @ ''Limit '' @ exprToStr e @ [newline] @ s))"
| "PrintPhysicalPlan (AggregatorOp a c) indent =
     bind_go (aggString (newAggState a)) (\<lambda>aggStr.
     bind_go (PrintPhysicalPlan c (indent @ [CHR 0x09])) (\<lambda>s.
       Ok (indent @ ''Aggregate, '' @ aggStr @ '' '' @ (if groupExprs a \<noteq> [] then ''Group By '' else []) @ exprList (groupExprs a) @ [newline] @ s)))"
| "PrintPhysicalPlan (InsertRowsOp i c) indent = Ok (indent @ ''Unknown op, *godb.InsertOp'' @ [newline])"
| "PrintPhysicalPlan (DeleteRowsOp x c) indent = Ok (indent @ ''Unknown op, *godb.DeleteOp'' @ [newline])"
| "PrintPhysicalPlan (ValuesOp v) indent = Ok (indent @ ''Unknown op, *godb.ValueOp'' @ [newline])"
| "PrintPhysicalPlan NilOp indent = Ok (indent @ ''Unknown op, %!s(<nil>)'' @ [newline])"

section \<open>Literals\<close>

lemma digits_snoc: "c < 10 \<Longrightarrow> digits (s @ [char_of (48 + c)]) = map_option (\<lambda>n. 10 * n + c) (digits s)"
  by (auto simp: digits_def)

lemma digits_show_nat: "digits (show_nat n) = Some n"
proof (induction n rule: show_nat.induct)
  case (1 n)
  show ?case
  proof (cases "n < 10")
    case True
    then show ?thesis using digits_snoc [of n "[]"] by (simp add: show_nat.simps [of n] digits_def)
  next
    case False
    then have "digits (show_nat (n div 10)) = Some (n div 10)" using 1 by simp
    moreover have "show_nat n = show_nat (n div 10) @ [char_of (48 + n mod 10)]" using False by (simp add: show_nat.simps [of n])
    ultimately show ?thesis using digits_snoc [of "n mod 10" "show_nat (n div 10)"] by simp
  qed
qed

lemma show_nat_ne: "show_nat n \<noteq> []"
  by (simp add: show_nat.simps [of n])

lemma show_nat_sign: "hd (show_nat n) \<notin> {CHR ''-'', CHR ''+'', CHR 0x27}"
proof
  assume h: "hd (show_nat n) \<in> {CHR ''-'', CHR ''+'', CHR 0x27}"
  have "list_all (\<lambda>c. 48 \<le> (of_char c :: nat) \<and> (of_char c :: nat) \<le> 57) (show_nat n)"
    using digits_show_nat [of n] by (simp add: digits_def split: if_splits)
  then have "48 \<le> (of_char (hd (show_nat n)) :: nat)" using show_nat_ne [of n] by (cases "show_nat n") auto
  with h show False by auto
qed

lemma Atoi_show_int: "Atoi (show_int (sint (v :: int64))) = Some v"
proof -
  have r: "- (2 ^ 63) \<le> sint v" "sint v < 2 ^ 63" using sint_range_size [of v] by (simp_all add: word_size)
  show ?thesis
  proof (cases "sint v < 0")
    case True
    then show ?thesis using r by (simp add: Atoi_def show_int_def Let_def show_nat_ne digits_show_nat)
  next
    case False
    then show ?thesis using r show_nat_sign [of "nat (sint v)"] by (auto simp: Atoi_def show_int_def Let_def show_nat_ne digits_show_nat)
  qed
qed

section \<open>Well-formed plans\<close>

text \<open>
  What running an operator relies on: filters and joins compare expressions of the type that their getter reads, a projection has a
  name for each expression, and an ordering a direction for each key; no operator is missing.
\<close>

definition getterType :: "getter \<Rightarrow> DBType" where
  "getterType g = (case g of intFilterGetter \<Rightarrow> IntType | stringFilterGetter \<Rightarrow> StringType)"

fun opOk :: "world \<Rightarrow> Operator \<Rightarrow> bool" where
  "opOk w NilOp = False"
| "opOk w (FileOp f) = True"
| "opOk w (FilterOp f c) =
     (Ftype (GetExprType w (leftExpr f)) = getterType (filterGetter f) \<and> Ftype (GetExprType w (rightExpr f)) = getterType (filterGetter f) \<and> opOk w c)"
| "opOk w (JoinOp j l r) =
     (Ftype (GetExprType w (leftField j)) = getterType (joinGetter j) \<and> Ftype (GetExprType w (rightField j)) = getterType (joinGetter j) \<and>
      opOk w l \<and> opOk w r)"
| "opOk w (ProjectOp p c) = (length (outputNames p) = length (selectFields p) \<and> opOk w c)"
| "opOk w (AggregatorOp a c) = (newAggState a \<noteq> [] \<and> opOk w c)"
| "opOk w (OrderByOp ob c) = (length (ascendings ob) = length (orderByExprs ob) \<and> orderByExprs ob \<noteq> [] \<and> opOk w c)"
| "opOk w (LimitOp e c) = opOk w c"
| "opOk w (InsertRowsOp i c) = opOk w c"
| "opOk w (DeleteRowsOp x c) = opOk w c"
| "opOk w (ValuesOp v) = True"

lemma opOk_descriptor: "opOk w op \<Longrightarrow> \<exists>d. opDescriptor w op = Ok d"
  by (induction op) (auto simp: projectDescriptor_def)

lemma opOk_alias: "opOk w op \<Longrightarrow> opOk w (aliasOp op alias)"
  by (induction op) auto

definition mapOk :: "world \<Rightarrow> planState \<Rightarrow> bool" where
  "mapOk w st \<longleftrightarrow> (\<forall>(k, n) \<in> set (fst st). opOk w (nodeOp n))"

lemma AList_update_set: "set (AList.update k v m) \<subseteq> insert (k, v) (set m)"
  by (induction m) auto

lemma AList_update_ne: "AList.update k v m \<noteq> []"
  by (induction m) auto

lemma mapOk_addNode: "mapOk w st \<Longrightarrow> opOk w op \<Longrightarrow> mapOk w (addNode (k, op, td) st)"
  using AList_update_set by (fastforce simp: mapOk_def addNode_def split: prod.splits)

lemma addNode_ne [simp]: "fst (addNode e st) \<noteq> []"
  by (auto simp: addNode_def AList_update_ne split: prod.splits)

lemma opOk_filter:
  "NewIntFilter w r op l = Ok flt \<or> NewStringFilter w r op l = Ok flt \<Longrightarrow> opOk w c \<Longrightarrow> opOk w (FilterOp flt c)"
  by (auto simp: NewIntFilter_def NewStringFilter_def newFilter_def getterType_def split: if_splits)

lemma fieldLoop_from: "fieldLoop tab fld cand fs node = Ok n \<Longrightarrow> n = node \<or> n = Some cand"
  by (induction fs arbitrary: node) (fastforce split: if_splits)+

lemma nodeLoop_from: "nodeLoop tab fld cands node = Ok n \<Longrightarrow> n = node \<or> n \<in> Some ` set cands"
  by (induction cands arbitrary: node) (fastforce split: if_splits dest: fieldLoop_from)+

lemma fieldToOp_from:
  "set (ord m) \<subseteq> set m \<Longrightarrow> fieldToOp ord tab fld m = Ok n \<Longrightarrow> \<exists>k. (k, n) \<in> set m"
  by (fastforce simp: fieldToOp_def split: option.splits if_splits dest!: map_of_SomeD nodeLoop_from)

lemma applyFilter_ok:
  assumes "\<And>m. set (ord m) = set m" and "mapOk w st" and "applyFilter w ord sc f st = Ok st'" and "fst st \<noteq> []"
  shows "mapOk w st' \<and> fst st' \<noteq> []"
proof -
  obtain m n where st: "st = (m, n)" by (cases st)
  obtain tab fld node l nl r nr d where
    "resolve sc (fieldExpr f) = Ok (tab, fld)" and node: "fieldToOp ord tab fld m = Ok node" and
    "generateExpr w ord (Some (nodeDesc node)) (Some m) (fieldExpr f) = Ok (l, nl)" and
    "generateExpr w ord (Some (nodeDesc node)) (Some m) (constExpr f) = Ok (r, nr)" and
    "opDescriptor w (nodeOp node) = Ok d"
    using assms(3) by (auto simp: applyFilter_def st)
  then have "st' = st \<or> (\<exists>flt. (NewIntFilter w r (filterPredOp f) l = Ok flt \<or> NewStringFilter w r (filterPredOp f) l = Ok flt) \<and>
      st' = addNode (TableQualifier (GetExprType w l), FilterOp flt (nodeOp node), setTableAlias d tab) st)"
    using assms(3) by (auto simp: applyFilter_def st Let_def split: DBType.splits)
  moreover have "opOk w (nodeOp node)" using fieldToOp_from [OF _ node] assms(1,2) by (auto simp: mapOk_def st)
  ultimately show ?thesis
    using assms(2,4) by (auto intro!: mapOk_addNode intro: opOk_filter simp del: opOk.simps)
qed

text \<open>A join that is applied: the nodes that it joins, and the table map that it leaves.\<close>

lemma applyJoin_result:
  assumes "applyJoin w ord sc j (m, n) = Ok st'"
  obtains lt lf n1 rt rf n2 jn d where
    "resolve sc (joinLeft j) = Ok (lt, lf)" and "fieldToOp ord lt lf m = Ok n1" and
    "resolve sc (joinRight j) = Ok (rt, rf)" and "fieldToOp ord rt rf m = Ok n2" and
    "Ftype (GetExprType w (leftField jn)) = getterType (joinGetter jn)" and "Ftype (GetExprType w (rightField jn)) = getterType (joinGetter jn)" and
    "opDescriptor w (JoinOp jn (nodeOp n1) (nodeOp n2)) = Ok d" and
    "let nn = \<lparr>nodeOp = JoinOp jn (nodeOp n1) (nodeOp n2), nodeDesc = d, nodeId = n\<rparr> in
     st' = (AList.update rt nn (AList.update lt nn
       (map (\<lambda>(key, node). (key, if nodeId node = nodeId n1 \<or> nodeId node = nodeId n2 then nn else node)) m)), Suc n)"
proof -
  obtain lt lf n1 rt rf n2 l nl r nr op d where
    r: "resolve sc (joinLeft j) = Ok (lt, lf)" "fieldToOp ord lt lf m = Ok n1" "resolve sc (joinRight j) = Ok (rt, rf)" "fieldToOp ord rt rf m = Ok n2" and
    e: "generateExpr w ord (Some (nodeDesc n1)) (Some m) (joinLeft j) = Ok (l, nl)"
    "generateExpr w ord (Some (nodeDesc n2)) (Some m) (joinRight j) = Ok (r, nr)" and
    op: "(case Ftype (GetExprType w l) of
                IntType \<Rightarrow> bind_go (NewIntJoin w l r JoinBufferSize) (\<lambda>jn. Ok (JoinOp jn (nodeOp n1) (nodeOp n2)))
              | StringType \<Rightarrow> bind_go (NewStringJoin w l r JoinBufferSize) (\<lambda>jn. Ok (JoinOp jn (nodeOp n1) (nodeOp n2)))
              | UnknownType \<Rightarrow> Ok NilOp) = Ok op" and d: "opDescriptor w op = Ok d"
    using assms by (auto simp: applyJoin_def)
  obtain jn where jn: "op = JoinOp jn (nodeOp n1) (nodeOp n2)" "Ftype (GetExprType w (leftField jn)) = getterType (joinGetter jn)"
    "Ftype (GetExprType w (rightField jn)) = getterType (joinGetter jn)"
    using op d by (auto simp: NewIntJoin_def NewStringJoin_def getterType_def split: DBType.splits if_splits)
  have "applyJoin w ord sc j (m, n) = (let nn = \<lparr>nodeOp = op, nodeDesc = d, nodeId = n\<rparr> in
     Ok (AList.update rt nn (AList.update lt nn
       (map (\<lambda>(key, node). (key, if nodeId node = nodeId n1 \<or> nodeId node = nodeId n2 then nn else node)) m)), Suc n))"
    using r e op d by (simp add: applyJoin_def Let_def del: bind_go_eq_Ok)
  with assms show thesis by (intro that [OF r jn(2,3) d [unfolded jn(1)]]) (simp add: Let_def jn(1))
qed

lemma applyJoin_ok:
  assumes "\<And>m. set (ord m) = set m" and "mapOk w st" and "applyJoin w ord sc j st = Ok st'"
  shows "mapOk w st' \<and> fst st' \<noteq> []"
proof -
  obtain m n where st: "st = (m, n)" by (cases st)
  from assms(3) [unfolded st] show ?thesis
  proof (rule applyJoin_result)
    fix lt lf n1 rt rf n2 jn d
    assume n1: "fieldToOp ord lt lf m = Ok n1" and n2: "fieldToOp ord rt rf m = Ok n2"
      and ty: "Ftype (GetExprType w (leftField jn)) = getterType (joinGetter jn)" "Ftype (GetExprType w (rightField jn)) = getterType (joinGetter jn)"
      and st': "let nn = \<lparr>nodeOp = JoinOp jn (nodeOp n1) (nodeOp n2), nodeDesc = d, nodeId = n\<rparr> in
        st' = (AList.update rt nn (AList.update lt nn
          (map (\<lambda>(key, node). (key, if nodeId node = nodeId n1 \<or> nodeId node = nodeId n2 then nn else node)) m)), Suc n)"
    let ?nn = "\<lparr>nodeOp = JoinOp jn (nodeOp n1) (nodeOp n2), nodeDesc = d, nodeId = n\<rparr>"
    let ?m = "map (\<lambda>(key, node). (key, if nodeId node = nodeId n1 \<or> nodeId node = nodeId n2 then ?nn else node)) m"
    have "opOk w (nodeOp n1)" "opOk w (nodeOp n2)" using fieldToOp_from [OF _ n1] fieldToOp_from [OF _ n2] assms(1,2) by (auto simp: mapOk_def st)
    then have op: "opOk w (JoinOp jn (nodeOp n1) (nodeOp n2))" using ty by simp
    then have up: "mapOk w (AList.update k ?nn m', i)" if "mapOk w (m', i)" for k m' i
      using that by (auto simp: mapOk_def simp del: opOk.simps dest!: set_mp [OF AList_update_set])
    have "mapOk w (?m, Suc n)" using assms(2) op by (auto simp: mapOk_def st simp del: opOk.simps)
    with st' show ?thesis by (simp add: up AList_update_ne Let_def)
  qed
qed

lemma allJoined_ok: "(\<And>m. set (ord m) = set m) \<Longrightarrow> mapOk w (m, n) \<Longrightarrow> m \<noteq> [] \<Longrightarrow> allJoined ord m = Ok op \<Longrightarrow> opOk w op"
proof -
  assume ord: "\<And>m. set (ord m) = set m" and m: "mapOk w (m, n)" "m \<noteq> []" and j: "allJoined ord m = Ok op"
  obtain k nd rest where o: "ord m = (k, nd) # rest" using ord [of m] m(2) by (cases "ord m") auto
  then have "(k, nd) \<in> set m" using ord [of m] by auto
  with m j o show ?thesis by (auto simp: allJoined_def mapOk_def split: if_splits)
qed

lemma planAggStates_ne:
  "planAggStates w ord sc m i ss = Ok sts \<Longrightarrow> \<exists>s \<in> set ss. exprType s = ExprAggr \<Longrightarrow> sts \<noteq> []"
  by (induction ss arbitrary: i sts) (auto split: if_splits)

lemma applyAggs_ok:
  assumes "opOk w op" and "\<forall>s \<in> set (planAggs plan). exprType s = ExprAggr" and a: "applyAggs w ord sc m plan op = Ok (op', sels)"
  shows "opOk w op'"
proof (cases "planAggs plan = []")
  case False
  then obtain sts where "planAggStates w ord sc m 0 (planAggs plan) = Ok sts" and op': "op' = AggregatorOp (NewAggregator sts) op \<or> (\<exists>gs. op' = AggregatorOp (NewGroupedAggregator sts gs) op)"
    using a by (auto simp: applyAggs_def split: if_splits)
  moreover have "\<exists>s \<in> set (planAggs plan). exprType s = ExprAggr" using False assms(2) by (cases "planAggs plan") auto
  ultimately have "sts \<noteq> []" using planAggStates_ne by blast
  with op' assms(1) show ?thesis by (auto simp: NewAggregator_def NewGroupedAggregator_def)
qed (use assms in \<open>simp add: applyAggs_def\<close>)

lemma applyProject_ok: "opOk w op \<Longrightarrow> applyProject w ord m dist sels op = Ok op' \<Longrightarrow> opOk w op'"
  by (auto simp: applyProject_def Let_def NewProjectOp_def split: if_splits)

lemma applyOrderBy_ok: "opOk w op \<Longrightarrow> applyOrderBy w ord m obys op = Ok op' \<Longrightarrow> opOk w op'"
  by (auto simp: applyOrderBy_def NewOrderBy_def split: if_splits dest!: map_go_length)

lemma applyLimit_ok: "opOk w op \<Longrightarrow> applyLimit w ord m lim op = Ok op' \<Longrightarrow> opOk w op'"
  by (auto simp: applyLimit_def split: option.splits)

lemma planOver_ok:
  assumes ord: "\<And>m. set (ord m) = set m" and st: "mapOk w st" "fst st \<noteq> []" and aggs: "\<forall>s \<in> set (planAggs plan). exprType s = ExprAggr"
    and plan: "planOver w ord sc plan st = Ok op"
  shows "opOk w op"
proof -
  obtain st1 m n cur aop sels pop oop where
    f: "fold_go (applyFilter w ord sc) (planFilters plan) st = Ok st1" and
    j: "fold_go (applyJoin w ord sc) (planJoins plan) st1 = Ok (m, n)" and
    c: "allJoined ord m = Ok cur" "applyAggs w ord sc m plan cur = Ok (aop, sels)"
    "applyProject w ord m (planDistinct plan) sels aop = Ok pop" "applyOrderBy w ord m (planOrderBy plan) pop = Ok oop"
    "applyLimit w ord m (planLimit plan) oop = Ok op"
    using plan by (auto simp: planOver_def)
  have "mapOk w st1 \<and> fst st1 \<noteq> []"
    by (rule fold_go_invariant [OF f]) (use st applyFilter_ok [OF ord] in blast)+
  moreover have "mapOk w (m, n) \<and> fst (m, n) \<noteq> []"
    by (rule fold_go_invariant [OF j]) (use calculation applyJoin_ok [OF ord] in blast)+
  ultimately show ?thesis
    using c allJoined_ok [OF ord] applyAggs_ok [OF _ aggs] applyProject_ok applyOrderBy_ok applyLimit_ok by (metis fst_conv)
qed

text \<open>
  The plans that \<^verbatim>\<open>parseStatement\<close> makes: at every level there is a table or a subquery, and \<^verbatim>\<open>aggs\<close> lists aggregates.
\<close>

fun planFormed :: "LogicalPlan \<Rightarrow> bool" where
  "planFormed (LogicalPlan fs js ss as ts qs gs os l d alias) \<longleftrightarrow>
     (ts \<noteq> [] \<or> qs \<noteq> []) \<and> (\<forall>s \<in> set as. exprType s = ExprAggr) \<and> (\<forall>q \<in> set qs. planFormed q)"

lemma fold_addNode_ok:
  "\<forall>(k, op, td) \<in> set es. opOk w op \<Longrightarrow> mapOk w st \<Longrightarrow> mapOk w (fold addNode es st) \<and> (es \<noteq> [] \<longrightarrow> fst (fold addNode es st) \<noteq> [])"
  by (induction es rule: rev_induct) (auto intro: mapOk_addNode)

lemma makePhysicalPlan_ok:
  assumes ord: "\<And>m. set (ord m) = set m"
  shows "planFormed plan \<Longrightarrow> makePhysicalPlan w ord c plan = Ok op \<Longrightarrow> opOk w op"
proof (induction plan arbitrary: op)
  case (LogicalPlan fs js ss ags ts qs gs obs l d al)
  let ?sub = "\<lambda>p. bind_go (makePhysicalPlan w ord c p) (\<lambda>op. bind_go (opDescriptor w op) (\<lambda>td.
    Ok (planAlias p, aliasOp op (planAlias p), setTableAlias td (planAlias p))))"
  obtain subs where subs: "map_go ?sub qs = Ok subs" and
    p: "planOver w ord (c, subFieldsOf c qs, ts) (LogicalPlan fs js ss ags ts qs gs obs l d al) (fold addNode (subs @ map tableEntry ts) ([], 0)) = Ok op"
    using LogicalPlan.prems(2) by auto
  have "\<forall>(k, p, td) \<in> set subs. opOk w p"
    using subs LogicalPlan.IH LogicalPlan.prems(1) opOk_alias
    by (fastforce simp: map_go_Ok_iff list_all2_conv_all_nth in_set_conv_nth)
  then have "\<forall>(k, p, td) \<in> set (subs @ map tableEntry ts). opOk w p" by (auto simp: tableEntry_def Let_def)
  moreover have "subs @ map tableEntry ts \<noteq> []" using LogicalPlan.prems(1) map_go_length [OF subs] by auto
  ultimately have "mapOk w (fold addNode (subs @ map tableEntry ts) ([], 0))" "fst (fold addNode (subs @ map tableEntry ts) ([], 0)) \<noteq> []"
    using fold_addNode_ok [of "subs @ map tableEntry ts" w "([], 0)"] by (simp_all add: mapOk_def del: fold_append set_append)
  from planOver_ok [OF ord this _ p] show ?case using LogicalPlan.prems(1) by simp
qed

text \<open>The trees that the grammar makes: no list of tables is empty.\<close>

fun fromFormed :: "sqlTableExpr \<Rightarrow> bool"
and selectFormed :: "sqlSelect \<Rightarrow> bool" where
  "fromFormed (SqlSubquery stmt as) \<longleftrightarrow> (case stmt of None \<Rightarrow> True | Some s \<Rightarrow> selectFormed s)"
| "fromFormed (SqlTable name as) \<longleftrightarrow> True"
| "fromFormed (SqlParenTable es) \<longleftrightarrow> es \<noteq> [] \<and> (\<forall>e \<in> set es. fromFormed e)"
| "fromFormed (SqlJoin l r ty on) \<longleftrightarrow> fromFormed l \<and> fromFormed r"
| "fromFormed SqlOtherTable \<longleftrightarrow> True"
| "selectFormed (SqlSelect from whr sels gbys obys lim dist) \<longleftrightarrow> from \<noteq> [] \<and> (\<forall>e \<in> set from. fromFormed e)"

lemma planFormed_alias [simp]: "planFormed (withAlias p alias) = planFormed p"
  by (cases p) simp

lemma extractAggs_type: "x \<in> set (extractAggs s) \<Longrightarrow> exprType x = ExprAggr"
  by (induction s) (auto split: SelectExprType.splits)

lemma appendFrom_formed:
  assumes "map_go (parseFrom c) es = Ok rs" and "es \<noteq> []"
    and "\<And>e ts qs js. e \<in> set es \<Longrightarrow> parseFrom c e = Ok (ts, qs, js) \<Longrightarrow> (ts \<noteq> [] \<or> qs \<noteq> []) \<and> (\<forall>q \<in> set qs. planFormed q)"
  shows "(fst (appendFrom rs) \<noteq> [] \<or> fst (snd (appendFrom rs)) \<noteq> []) \<and> (\<forall>q \<in> set (fst (snd (appendFrom rs))). planFormed q)"
proof -
  have rs: "list_all2 (\<lambda>e r. parseFrom c e = Ok r) es rs" using assms(1) by (simp add: map_go_Ok_iff)
  have each: "(fst r \<noteq> [] \<or> fst (snd r) \<noteq> []) \<and> (\<forall>q \<in> set (fst (snd r)). planFormed q)" if r: "r \<in> set rs" for r
  proof -
    obtain i where "i < length rs" "r = rs ! i" using r by (auto simp: in_set_conv_nth)
    then have "es ! i \<in> set es" "parseFrom c (es ! i) = Ok r" using rs by (auto simp: list_all2_conv_all_nth)
    then show ?thesis using assms(3) [of "es ! i" "fst r" "fst (snd r)" "snd (snd r)"] by simp
  qed
  obtain r where "r \<in> set rs" using rs assms(2) by (cases rs) auto
  with each show ?thesis by (fastforce simp: appendFrom_def)
qed

lemma parse_formed:
  "fromFormed t \<Longrightarrow> parseFrom c t = Ok (ts, qs, js) \<Longrightarrow> (ts \<noteq> [] \<or> qs \<noteq> []) \<and> (\<forall>q \<in> set qs. planFormed q)"
  "selectFormed s \<Longrightarrow> parseStatement c s = Ok plan \<Longrightarrow> planFormed plan"
proof (induction c t and c s arbitrary: ts qs js and plan rule: parseFrom_parseStatement.induct)
  case (3 c es)
  then obtain rs where "map_go (parseFrom c) es = Ok rs" "(ts, qs, js) = appendFrom rs" by auto
  with appendFrom_formed [of c es rs] 3 show ?case by (metis fromFormed.simps(3) fst_conv snd_conv)
next
  case (6 c tabs whr sels gbys obys lim dist)
  then obtain rs where rs: "map_go (parseFrom c) tabs = Ok rs" by auto
  with appendFrom_formed [of c tabs rs] 6 have
    "(fst (appendFrom rs) \<noteq> [] \<or> fst (snd (appendFrom rs)) \<noteq> []) \<and> (\<forall>q \<in> set (fst (snd (appendFrom rs))). planFormed q)"
    by (metis selectFormed.simps)
  with rs 6(3) show ?case by (cases "appendFrom rs") (auto dest: extractAggs_type)
qed (fastforce split: option.splits if_splits)+

lemma deleteFilter_ok: "opOk w op \<Longrightarrow> deleteFilter w ord sc m f op = Ok op' \<Longrightarrow> opOk w op'"
  by (auto simp: deleteFilter_def intro: opOk_filter simp del: opOk.simps split: DBType.split_asm) (metis DBType.exhaust)

lemma parseDelete_ok:
  assumes "parseDelete w ord c del = Ok op"
  shows "\<exists>f child. op = DeleteRowsOp (NewDeleteOp f) child \<and> opOk w child"
proof -
  obtain te where te: "delTableExprs del = [te]" using assms by (auto simp: parseDelete_def split: list.split_asm)
  then obtain tabs where "parseFrom c te = Ok (tabs, [], [])" using assms by (auto simp: parseDelete_def split: if_split_asm)
  then obtain t ts fs m op' where
    f: "fold_go (deleteFilter w ord (c, [], t # ts) m) fs (FileOp (tableFile t)) = Ok op'" and op: "op = DeleteRowsOp (NewDeleteOp (tableFile t)) op'"
    using assms te by (cases tabs) (auto simp: parseDelete_def Let_def split: if_split_asm)
  have "opOk w op'" by (rule fold_go_invariant [OF f]) (use deleteFilter_ok in auto)
  with op show ?thesis by blast
qed

fun stmtFormed :: "sqlStatement \<Rightarrow> bool" where
  "stmtFormed (SqlSelectStmt s) \<longleftrightarrow> selectFormed s"
| "stmtFormed (SqlInsertStmt i) \<longleftrightarrow> (case insRows i of SqlValues _ \<Rightarrow> True | SqlRowsOf s \<Rightarrow> selectFormed s | SqlOtherRows \<Rightarrow> True)"
| "stmtFormed _ \<longleftrightarrow> True"

text \<open>
  C17: Every operator that \<^verbatim>\<open>Parse\<close> returns for a query is well formed: in all its filters and joins the two expressions have the
  type that the getter reads, every projection has as many names as expressions, every ordering as many directions as
  keys, no operator of the tree is missing, and its descriptor exists; whatever order Go takes over its maps. The one exception is an
  INSERT whose rows are neither VALUES nor a plain SELECT, such as a UNION: for it \<^verbatim>\<open>parseInsert\<close> returns nil and no error, and so does
  \<^verbatim>\<open>Parse\<close>.
\<close>

theorem Parse_well_formed:
  assumes "\<And>m. set (ord m) = set m" and "sqlParse query = Ok stmt" and "stmtFormed stmt"
    and "Parse w ord sqlParse query cd = Ok (IteratorType, op, cd')"
  shows "cd' = cd \<and> (if \<exists>ins. stmt = SqlInsertStmt ins \<and> insRows ins = SqlOtherRows then op = NilOp
    else opOk w op \<and> (\<exists>d. opDescriptor w op = Ok d))"
proof -
  have "cd' = cd \<and> (if \<exists>ins. stmt = SqlInsertStmt ins \<and> insRows ins = SqlOtherRows then op = NilOp else opOk w op)"
  proof (cases stmt)
    case (SqlSelectStmt s)
    with assms show ?thesis by (auto simp: Parse_def dest!: parse_formed(2) makePhysicalPlan_ok [OF assms(1)])
  next
    case (SqlInsertStmt i)
    with assms(2-4) show ?thesis
      by (auto simp: Parse_def parseInsert_def split: sqlRows.splits if_splits dest!: parse_formed(2) makePhysicalPlan_ok [OF assms(1)])
  next
    case (SqlDeleteStmt x)
    with assms show ?thesis by (auto simp: Parse_def dest!: parseDelete_ok)
  next
    case (SqlDDLStmt ddl)
    with assms show ?thesis
      by (cases "(ddl, cd)" rule: processDDL.cases) (auto simp: Parse_def split: go_result.splits)
  qed (use assms in \<open>auto simp: Parse_def\<close>)
  then show ?thesis using opOk_descriptor by (auto split: if_splits)
qed

section \<open>An example\<close>

definition exSqlTable :: Table where
  "exSqlTable = \<lparr>tname = ''t'', tdesc = \<lparr>Fields = [\<lparr>Fname = ''a'', TableQualifier = [], Ftype = IntType\<rparr>, \<lparr>Fname = ''b'', TableQualifier = [], Ftype = StringType\<rparr>]\<rparr>\<rparr>"

definition exCat :: Catalog where
  "exCat = addIgnoring (''t'', tdesc exSqlTable) (newCatalog [])"

definition exSelect :: sqlSelect where
  "exSelect = SqlSelect [SqlTable ''t'' []] (Some (SqlComparison ''='' (SqlCol [] ''b'') (SqlVal [CHR 0x27, CHR ''x'', CHR 0x27])))
     [SqlAliased (SqlCol [] ''a'') []] [] [(SqlCol [] ''a'', ''asc'')] None []"

definition exPlan :: Operator where
  "exPlan =
     (let a = \<lparr>Fname = ''a'', TableQualifier = ''t'', Ftype = IntType\<rparr>; b = \<lparr>Fname = ''b'', TableQualifier = ''t'', Ftype = StringType\<rparr> in
      OrderByOp \<lparr>orderByExprs = [FieldExpr a], ascendings = [True]\<rparr>
        (ProjectOp \<lparr>selectFields = [FieldExpr a], outputNames = [''a''], isDistinct = False\<rparr>
          (FilterOp \<lparr>filterOp = OpEq, leftExpr = FieldExpr b, rightExpr = ConstExpr (StringField ''x'') StringType, filterGetter = stringFilterGetter\<rparr>
            (FileOp \<lparr>hfDesc = \<lparr>Fields = [a, b]\<rparr>, fromFile = ''t.dat''\<rparr>))))"

lemma exSelect_plan: "bind_go (parseStatement exCat exSelect) (makePhysicalPlan exWorld id exCat) = Ok exPlan"
  by code_simp

theorem Parse_well_formed_witness:
  "Parse exWorld id (\<lambda>_. Ok (SqlSelectStmt exSelect)) [] (exCat, \<lambda>_. []) = Ok (IteratorType, exPlan, exCat, \<lambda>_. []) \<and> opOk exWorld exPlan"
proof -
  obtain plan where "parseStatement exCat exSelect = Ok plan" "makePhysicalPlan exWorld id exCat plan = Ok exPlan"
    using exSelect_plan by auto
  then have "Parse exWorld id (\<lambda>_. Ok (SqlSelectStmt exSelect)) [] (exCat, \<lambda>_. []) = Ok (IteratorType, exPlan, exCat, \<lambda>_. [])"
    by (simp add: Parse_def)
  with Parse_well_formed [of id "\<lambda>_. Ok (SqlSelectStmt exSelect)" "[]" "SqlSelectStmt exSelect" exWorld] show ?thesis
    by (simp add: exSelect_def)
qed

end
