(* ===== verification/SelectPlans.thy ===== *)
theory SelectPlans
  imports PhysicalPlans
begin

text \<open>
  The plans of queries over one table: name resolution on its columns, the chain of filters that its conditions become, and
  the projection of its select list.
\<close>

section \<open>Columns\<close>

definition colIndex :: "TupleDesc \<Rightarrow> string \<Rightarrow> nat" where
  "colIndex d col = length (takeWhile (\<lambda>f. Fname f \<noteq> col) (Fields d))"

definition hasCol :: "TupleDesc \<Rightarrow> string \<Rightarrow> bool" where
  "hasCol d col \<longleftrightarrow> col \<in> Fname ` set (Fields d)"

definition colType :: "TupleDesc \<Rightarrow> string \<Rightarrow> DBType" where
  "colType d col = Ftype (Fields d ! colIndex d col)"

definition colField :: "TupleDesc \<Rightarrow> string \<Rightarrow> string \<Rightarrow> FieldType" where
  "colField d table col = \<lparr>Fname = col, TableQualifier = table, Ftype = colType d col\<rparr>"

lemma length_takeWhile_lt: "x \<in> set xs \<Longrightarrow> \<not> P x \<Longrightarrow> length (takeWhile P xs) < length xs"
  by (induction xs) auto

lemma filter_index: "filter ((=) i) [0..<n] = (if i < n then [i] else [])"
  by (induction n) auto

lemma colIndex_nth: "hasCol d col \<Longrightarrow> colIndex d col < length (Fields d) \<and> Fname (Fields d ! colIndex d col) = col"
proof -
  assume "hasCol d col"
  then obtain f where "f \<in> set (Fields d)" "Fname f = col" by (auto simp: hasCol_def)
  then have "length (takeWhile (\<lambda>f. Fname f \<noteq> col) (Fields d)) < length (Fields d)"
    using length_takeWhile_lt [of f "Fields d" "\<lambda>f. Fname f \<noteq> col"] by auto
  then show ?thesis using nth_length_takeWhile [of "\<lambda>f. Fname f \<noteq> col" "Fields d"] by (simp add: colIndex_def)
qed

lemma alias_simps [simp]:
  "length (Fields (setTableAlias d t)) = length (Fields d)"
  "map Fname (Fields (setTableAlias d t)) = map Fname (Fields d)"
  "setTableAlias (setTableAlias d t) t' = setTableAlias d t'"
  by (simp_all add: setTableAlias_def comp_def)

lemma alias_nth: "i < length (Fields d) \<Longrightarrow> Fields (setTableAlias d t) ! i = (Fields d ! i)\<lparr>TableQualifier := t\<rparr>"
  by (simp add: setTableAlias_def)

text \<open>A field that only one column matches.\<close>

lemma findFieldInTd_only:
  assumes "i < length (Fields d)" and "\<And>k. k < length (Fields d) \<Longrightarrow> fieldMatches f (Fields d ! k) \<longleftrightarrow> i = k"
  shows "findFieldInTd f d = (int i, None)"
proof -
  have "candidates f (Fields d) = filter ((=) i) [0..<length (Fields d)]" unfolding candidates_def using assms(2) by (intro filter_cong refl) simp
  then have "candidates f (Fields d) = [i]" using assms(1) by (simp add: filter_index)
  then show ?thesis by (auto simp: findFieldInTd_spec isAmbiguous_def bestCandidate_def sameTable_def)
qed

text \<open>With distinct names a field is found whatever its qualifier.\<close>

lemma findFieldInTd_distinct:
  assumes "distinct (map Fname (Fields d))" and "i < length (Fields d)" and "fieldMatches f (Fields d ! i)"
  shows "findFieldInTd f d = (int i, None)"
proof (rule findFieldInTd_only [OF assms(2)])
  show "fieldMatches f (Fields d ! k) \<longleftrightarrow> i = k" if "k < length (Fields d)" for k
    using assms that nth_eq_iff_index_eq [OF assms(1), of i k] by (auto simp: fieldMatches_def)
qed

section \<open>Name resolution on one table\<close>

definition tableNode :: "string \<Rightarrow> TupleDesc \<Rightarrow> LogicalTableNode" where
  "tableNode tab d = \<lparr>tableName = tab, tableAlias = [], tableFile = NewHeapFile (tableNameToFile tab) (TupleDesc_copy d)\<rparr>"

text \<open>
  A table of the catalog under a plain lower-case name, with distinct column names; a reference to a column of it, qualified
  or not.
\<close>

definition plain :: "string \<Rightarrow> bool" where
  "plain s \<longleftrightarrow> s \<noteq> [] \<and> ToLower s = s \<and> \<not> quoteChar (hd s)"

definition tableOk :: "Catalog \<Rightarrow> string \<Rightarrow> TupleDesc \<Rightarrow> bool" where
  "tableOk c tab d \<longleftrightarrow> catalog_ok c \<and> columns_ok c \<and> lookupTable tab c = Some d \<and> plain tab \<and> distinct (map Fname (Fields d))"

definition columnOk :: "string \<Rightarrow> TupleDesc \<Rightarrow> string \<times> string \<Rightarrow> bool" where
  "columnOk tab d qc \<longleftrightarrow> fst qc \<in> {[], tab} \<and> hasCol d (snd qc) \<and> plain (snd qc)"

lemma catalogLoop_one:
  "length (filter (\<lambda>t. tname t = tableName t2) ts) = 1 \<Longrightarrow> tableName t2 \<noteq> [] \<Longrightarrow> catalogLoop (List.product ts [t2]) [] = Ok (tableName t2)"
proof (induction ts)
  case (Cons t ts)
  have none: "filter (\<lambda>t. tname t = tableName t2) us = [] \<Longrightarrow> catalogLoop (List.product us [t2]) x = Ok x" for us x
    by (induction us) (auto split: if_splits)
  show ?case
  proof (cases "tname t = tableName t2")
    case True
    then show ?thesis using Cons.prems none [of ts] by simp
  next
    case False
    then show ?thesis using Cons by simp
  qed
qed simp

lemma filter_name_one:
  "distinct (map tname ts) \<Longrightarrow> t \<in> set ts \<Longrightarrow> filter (\<lambda>u. tname u = tname t) ts = [t]"
proof (induction ts)
  case (Cons u ts)
  show ?case
  proof (cases "u = t")
    case True
    then have "filter (\<lambda>u. tname u = tname t) ts = []" using Cons.prems(1) by (auto simp: filter_empty_conv image_iff)
    with True show ?thesis by simp
  next
    case False
    then have "tname u \<noteq> tname t" using Cons.prems by (auto simp: image_iff)
    with False Cons show ?thesis by simp
  qed
qed simp

lemma filter_col_one:
  "distinct (map Fname fs) \<Longrightarrow> col \<in> Fname ` set fs \<Longrightarrow> length (filter (\<lambda>f. Fname f = col) fs) = 1"
  by (induction fs) (auto simp: filter_empty_conv image_iff)

lemma tablesWith_filter: "filter (\<lambda>u. tname u = n) (tablesWith col ts) = tablesWith col (filter (\<lambda>u. tname u = n) ts)"
  by (induction ts) (auto simp: tablesWith_def filter_map comp_def)

lemma catalog_resolves:
  assumes "tableOk c tab d" and "hasCol d col"
  shows "checkNameInTablesOrSubqueries [] col (Some c) [] [tableNode tab d] = Ok tab"
proof -
  obtain t where t: "tableMap c tab = Some t" "tdesc t = d" using assms(1) by (auto simp: tableOk_def lookupTable_def)
  then have "List.find (\<lambda>t. tname t = tab) (catTables c) = Some t" using assms(1) by (auto simp: tableOk_def catalog_ok_def)
  then have n: "tname t = tab" "t \<in> set (catTables c)" by (auto simp: find_Some_iff)
  have "filter (\<lambda>u. tname u = tab) (findTablesWithColumn col c) = tablesWith col [t]"
    using assms(1) n filter_name_one [of "catTables c" t] by (simp add: findTablesWithColumn_def tableOk_def columns_ok_def catalog_ok_def tablesWith_filter)
  then have "length (filter (\<lambda>u. tname u = tableName (tableNode tab d)) (findTablesWithColumn col c)) = 1"
    using filter_col_one [of "Fields d" col] assms t(2) by (simp add: tablesWith_def tableNode_def tableOk_def hasCol_def)
  from catalogLoop_one [OF this] assms(1) show ?thesis
    by (simp add: checkNameInTablesOrSubqueries_def tableNode_def tableOk_def plain_def)
qed

lemma resolve_column:
  assumes "tableOk c tab d" and "columnOk tab d (q, col)"
  shows "getTableField (Some c) [] [tableNode tab d] (NewFieldSelectNode q col []) = Ok (tab, col)"
  using catalog_resolves [OF assms(1), of col] assms
  by (auto simp: NewFieldSelectNode_def columnOk_def checkNameInTablesOrSubqueries_def tableOk_def plain_def)

section \<open>Queries over one table\<close>

text \<open>A condition compares a column with a literal; an item of the select list is a column with an alias.\<close>

datatype condition = Cond (condCol: "string \<times> string") (condOp: string) (condLit: string)

datatype selectList = AllColumns | Items "((string \<times> string) \<times> string) list"

definition condExpr :: "condition \<Rightarrow> sqlExpr" where
  "condExpr cnd = SqlComparison (condOp cnd) (SqlCol (fst (condCol cnd)) (snd (condCol cnd))) (SqlVal (condLit cnd))"

fun whereOf :: "condition list \<Rightarrow> sqlExpr option" where
  "whereOf [] = None"
| "whereOf (cnd # cnds) = Some (foldl (\<lambda>e cnd'. SqlAnd e (condExpr cnd')) (condExpr cnd) cnds)"

definition itemExpr :: "(string \<times> string) \<times> string \<Rightarrow> sqlSelectExpr" where
  "itemExpr it = SqlAliased (SqlCol (fst (fst it)) (snd (fst it))) (snd it)"

fun selectsOf :: "selectList \<Rightarrow> sqlSelectExpr list" where
  "selectsOf AllColumns = [SqlStar []]"
| "selectsOf (Items its) = map itemExpr its"

definition selectFrom :: "string \<Rightarrow> condition list \<Rightarrow> selectList \<Rightarrow> string option \<Rightarrow> string \<Rightarrow> sqlSelect" where
  "selectFrom tab cnds sl lim dist = SqlSelect [SqlTable tab []] (whereOf cnds) (selectsOf sl) [] [] (map_option SqlVal lim) dist"

text \<open>The expression of a literal.\<close>

definition litExpr :: "string \<Rightarrow> Expr" where
  "litExpr lit = (case unquoteVal lit of
     Ok s \<Rightarrow> (case Atoi s of Some n \<Rightarrow> ConstExpr (IntField n) IntType | None \<Rightarrow> ConstExpr (StringField s) StringType)
   | _ \<Rightarrow> ConstExpr NilValue UnknownType)"

definition litType :: "string \<Rightarrow> DBType" where
  "litType lit = (case litExpr lit of ConstExpr v ty \<Rightarrow> ty | _ \<Rightarrow> UnknownType)"

definition sqlOperator :: "DBType \<Rightarrow> string \<Rightarrow> bool" where
  "sqlOperator ty op \<longleftrightarrow> op \<in> {''='', ''<>'', ''!='', ''<'', ''<='', ''>'', ''>=''} \<or> op = ''like'' \<and> ty = StringType"

definition condOk :: "string \<Rightarrow> TupleDesc \<Rightarrow> condition \<Rightarrow> bool" where
  "condOk tab d cnd \<longleftrightarrow> columnOk tab d (condCol cnd) \<and> litType (condLit cnd) = colType d (snd (condCol cnd)) \<and>
     colType d (snd (condCol cnd)) \<noteq> UnknownType \<and> sqlOperator (colType d (snd (condCol cnd))) (condOp cnd)"

definition litOk :: "string \<Rightarrow> bool" where
  "litOk lit \<longleftrightarrow> litType lit \<noteq> UnknownType"

fun selectOk :: "string \<Rightarrow> TupleDesc \<Rightarrow> selectList \<Rightarrow> bool" where
  "selectOk tab d AllColumns = True"
| "selectOk tab d (Items its) = (\<forall>it \<in> set its. columnOk tab d (fst it))"

text \<open>The operators they become.\<close>

definition condFilter :: "string \<Rightarrow> TupleDesc \<Rightarrow> condition \<Rightarrow> Filter" where
  "condFilter tab d cnd = newFilter (litExpr (condLit cnd)) (BoolOpMap_get (condOp cnd)) (FieldExpr (colField d tab (snd (condCol cnd))))
     (if colType d (snd (condCol cnd)) = IntType then intFilterGetter else stringFilterGetter)"

definition filterChain :: "string \<Rightarrow> TupleDesc \<Rightarrow> condition list \<Rightarrow> Operator \<Rightarrow> Operator" where
  "filterChain tab d cnds op = fold (\<lambda>cnd. FilterOp (condFilter tab d cnd)) cnds op"

definition itemName :: "(string \<times> string) \<times> string \<Rightarrow> string" where
  "itemName it = (if snd it \<noteq> [] then ToLower (snd it) else snd (fst it))"

definition itemProject :: "string \<Rightarrow> TupleDesc \<Rightarrow> ((string \<times> string) \<times> string) list \<Rightarrow> bool \<Rightarrow> Project" where
  "itemProject tab d its dist =
     \<lparr>selectFields = map (\<lambda>it. FieldExpr (colField d tab (snd (fst it)))) its, outputNames = map itemName its, isDistinct = dist\<rparr>"

fun projectOver :: "string \<Rightarrow> TupleDesc \<Rightarrow> selectList \<Rightarrow> bool \<Rightarrow> Operator \<Rightarrow> Operator" where
  "projectOver tab d AllColumns dist op = op"
| "projectOver tab d (Items its) dist op = ProjectOp (itemProject tab d its dist) op"

fun limitOver :: "string option \<Rightarrow> Operator \<Rightarrow> Operator" where
  "limitOver None op = op"
| "limitOver (Some lit) op = LimitOp (litExpr lit) op"

definition aliasedFile :: "string \<Rightarrow> TupleDesc \<Rightarrow> HeapFile" where
  "aliasedFile tab d = NewHeapFile (tableNameToFile tab) (setTableAlias d tab)"

definition selectPlan :: "string \<Rightarrow> TupleDesc \<Rightarrow> condition list \<Rightarrow> selectList \<Rightarrow> string option \<Rightarrow> bool \<Rightarrow> Operator" where
  "selectPlan tab d cnds sl lim dist =
     limitOver lim (projectOver tab d sl dist (filterChain tab d cnds (FileOp (aliasedFile tab d))))"

section \<open>Parsing them\<close>

lemma litType_value: "litType lit \<noteq> UnknownType \<Longrightarrow> \<exists>s. unquoteVal lit = Ok s"
  by (auto simp: litType_def litExpr_def split: go_result.splits)

definition condNode :: "condition \<Rightarrow> LogicalFilterNode" where
  "condNode cnd = \<lparr>fieldExpr = NewFieldSelectNode (fst (condCol cnd)) (snd (condCol cnd)) [],
     constExpr = NewConstSelectNode (case unquoteVal (condLit cnd) of Ok s \<Rightarrow> s | _ \<Rightarrow> []) [], filterPredOp = BoolOpMap_get (condOp cnd)\<rparr>"

lemma plain_col: "plain s \<Longrightarrow> unquoteCol (ToLower s) = s"
  by (simp add: plain_def unquoteCol_def)

lemma columnOk_names: "columnOk tab d (q, col) \<Longrightarrow> plain tab \<Longrightarrow> unquoteCol (ToLower q) = q \<and> unquoteCol (ToLower col) = col"
  by (auto simp: columnOk_def plain_col) (simp add: unquoteCol_def ToLower_def)

lemma parseExpr_column:
  "columnOk tab d (q, col) \<Longrightarrow> plain tab \<Longrightarrow> parseExpr (SqlCol q col) al = Ok (NewFieldSelectNode q col al)"
  using columnOk_names by simp

lemma parseWhere_column:
  assumes "tableOk c tab d" and "columnOk tab d (condCol cnd)" and "litOk (condLit cnd)"
  shows "parseWhere c [] [tableNode tab d] (condExpr cnd) = Ok ([condNode cnd], [])"
proof -
  obtain q col op lit where cnd: "cnd = Cond (q, col) op lit" by (cases cnd) auto
  obtain s where "unquoteVal lit = Ok s" using assms(3) litType_value [of lit] by (auto simp: litOk_def cnd)
  then show ?thesis
    using assms parseExpr_column [of tab d q col "[]"] resolve_column [OF assms(1), of q col]
    by (simp add: cnd condExpr_def comparison_def condNode_def tableOk_def NewConstSelectNode_def Let_def)
qed

lemma parseWhere_cond:
  "tableOk c tab d \<Longrightarrow> condOk tab d cnd \<Longrightarrow> parseWhere c [] [tableNode tab d] (condExpr cnd) = Ok ([condNode cnd], [])"
  using parseWhere_column by (simp add: condOk_def litOk_def)

lemma parseWhere_conds:
  assumes "tableOk c tab d" and "\<forall>cnd \<in> set cnds. condOk tab d cnd" and "parseWhere c [] [tableNode tab d] e = Ok (fs, [])"
  shows "parseWhere c [] [tableNode tab d] (foldl (\<lambda>e cnd. SqlAnd e (condExpr cnd)) e cnds) = Ok (fs @ map condNode cnds, [])"
  using assms(2,3)
proof (induction cnds arbitrary: e fs)
  case (Cons cnd cnds)
  have "parseWhere c [] [tableNode tab d] (SqlAnd e (condExpr cnd)) = Ok (fs @ [condNode cnd], [])"
    using Cons.prems parseWhere_cond [OF assms(1), of cnd] by (simp add: Let_def)
  from Cons.IH [OF _ this] Cons.prems(1) show ?case by simp
qed simp

lemma parseWhere_whereOf:
  assumes "tableOk c tab d" and "\<forall>cnd \<in> set cnds. condOk tab d cnd"
  shows "(case whereOf cnds of None \<Rightarrow> Ok ([], []) | Some e \<Rightarrow> parseWhere c [] [tableNode tab d] e) = Ok (map condNode cnds, [])"
proof (cases cnds)
  case (Cons cnd cnds')
  then show ?thesis using parseWhere_conds [OF assms(1) _ parseWhere_cond [OF assms(1)], of cnds' cnd] assms(2) by simp
qed simp

fun selectNodes :: "selectList \<Rightarrow> LogicalSelectNode list" where
  "selectNodes AllColumns = [NewStarSelectNode []]"
| "selectNodes (Items its) = map (\<lambda>it. NewFieldSelectNode (fst (fst it)) (snd (fst it)) (ToLower (snd it))) its"

definition litNode :: "string \<Rightarrow> LogicalSelectNode" where
  "litNode lit = NewConstSelectNode (case unquoteVal lit of Ok s \<Rightarrow> s | _ \<Rightarrow> []) []"

lemma parseSelects_nodes:
  assumes "selectOk tab d sl" and "plain tab"
  shows "parseSelects (selectsOf sl) = Ok (selectNodes sl)"
proof (cases sl)
  case AllColumns
  then show ?thesis by (simp add: ToLower_def)
next
  case (Items its)
  have "parseSelects (map itemExpr its) = Ok (selectNodes (Items its))" if "\<forall>it \<in> set its. columnOk tab d (fst it)"
    using that assms(2) columnOk_names by (induction its) (auto simp: itemExpr_def split: prod.splits)
  with Items assms(1) show ?thesis by simp
qed

lemma selectNodes_aggs: "concat (map extractAggs (selectNodes sl)) = []"
  by (cases sl) (auto simp: NewStarSelectNode_def NewFieldSelectNode_def)

definition logicalSelect :: "string \<Rightarrow> TupleDesc \<Rightarrow> condition list \<Rightarrow> selectList \<Rightarrow> string option \<Rightarrow> bool \<Rightarrow> LogicalPlan" where
  "logicalSelect tab d cnds sl lim dist =
     LogicalPlan (map condNode cnds) [] (selectNodes sl) [] [tableNode tab d] [] [] [] (map_option litNode lim) dist []"

lemma parseFrom_table:
  assumes "tableOk c tab d"
  shows "map_go (parseFrom c) [SqlTable tab []] = Ok [([tableNode tab d], [], [])]"
  using assms by (simp add: GetTable_lookup tableNode_def ToLower_def tableOk_def plain_def)

lemma parseStatement_select:
  assumes "tableOk c tab d" and "\<forall>cnd \<in> set cnds. condOk tab d cnd" and "selectOk tab d sl" and "\<forall>lit. lim = Some lit \<longrightarrow> litOk lit"
  shows "parseStatement c (selectFrom tab cnds sl lim dist) = Ok (logicalSelect tab d cnds sl lim (dist \<noteq> []))"
proof -
  have tab: "plain tab" using assms(1) by (simp add: tableOk_def)
  note fr = parseFrom_table [OF assms(1)]
  have lim: "parseExpr (SqlVal lit) [] = Ok (litNode lit)" if "lim = Some lit" for lit
    using assms(4) that litType_value [of lit] by (auto simp: litOk_def litNode_def)
  show ?thesis
    using parseWhere_whereOf [OF assms(1,2)] parseSelects_nodes [OF assms(3) tab] selectNodes_aggs [of sl] lim
    by (cases lim; cases "whereOf cnds")
      (simp_all add: selectFrom_def fr appendFrom_def subFieldsOf_def logicalSelect_def del: bind_go_eq_Ok map_go.simps(2) parseExpr.simps)
qed

section \<open>Planning them\<close>

lemma selectField_column:
  assumes "tableOk c tab d" and "columnOk tab d (q, col)"
  shows "selectField w ord (Some (setTableAlias d tab)) (Some m) q col None = Ok (colField d tab col)"
proof -
  let ?d = "setTableAlias d tab" and ?i = "colIndex d col" and ?f = "\<lparr>Fname = col, TableQualifier = q, Ftype = UnknownType\<rparr>"
  have i: "?i < length (Fields d)" "Fname (Fields d ! ?i) = col" using colIndex_nth assms(2) by (auto simp: columnOk_def)
  then have "findFieldInTd ?f ?d = (int ?i, None)"
    using findFieldInTd_distinct [of ?d ?i ?f] assms(1) by (simp add: alias_nth fieldMatches_def tableOk_def)
  with i show ?thesis by (simp add: selectField_def alias_nth colField_def colType_def)
qed

lemma generateExpr_column:
  assumes "tableOk c tab d" and "columnOk tab d (q, col)"
  shows "generateExpr w ord (Some (setTableAlias d tab)) (Some m) (NewFieldSelectNode q col al) =
    Ok (FieldExpr (colField d tab col), if al \<noteq> [] then al else col)"
  using selectField_column [OF assms] by (simp add: NewFieldSelectNode_def)

lemma generateExpr_lit:
  assumes "litOk lit"
  shows "generateExpr w ord inp m (litNode lit) = Ok (litExpr lit, case unquoteVal lit of Ok s \<Rightarrow> s | _ \<Rightarrow> [])"
proof -
  obtain s where "unquoteVal lit = Ok s" using litType_value assms by (auto simp: litOk_def)
  then show ?thesis by (auto simp: litNode_def NewConstSelectNode_def litExpr_def split: option.split)
qed

lemma GetExprType_field [simp]: "GetExprType w (FieldExpr f) = f"
  by (simp add: GetExprType_def)

lemma litExpr_type: "Ftype (GetExprType w (litExpr lit)) = litType lit"
  by (auto simp: litType_def litExpr_def GetExprType_def split: go_result.split option.split)

lemma applyFilter_cond:
  assumes "tableOk c tab d" and "condOk tab d cnd" and "opDescriptor w op = Ok (setTableAlias d tab)"
  shows "applyFilter w ord (c, [], [tableNode tab d]) (condNode cnd) ([(tab, \<lparr>nodeOp = op, nodeDesc = setTableAlias d tab, nodeId = i\<rparr>)], n) =
    Ok ([(tab, \<lparr>nodeOp = FilterOp (condFilter tab d cnd) op, nodeDesc = setTableAlias d tab, nodeId = n\<rparr>)], Suc n)"
proof -
  obtain q col bop lit where cnd: "cnd = Cond (q, col) bop lit" by (cases cnd) auto
  have col: "columnOk tab d (q, col)" and ty: "litType lit = colType d col" "colType d col \<noteq> UnknownType"
    using assms(2) by (auto simp: condOk_def cnd)
  then have lit: "litOk lit" by (simp add: litOk_def)
  have cn: "condNode (Cond (q, col) bop lit) = \<lparr>fieldExpr = NewFieldSelectNode q col [], constExpr = litNode lit, filterPredOp = BoolOpMap_get bop\<rparr>"
    by (simp add: condNode_def cnd litNode_def)
  show ?thesis
    using ty assms(3)
    by (cases "colType d col")
      (simp_all add: applyFilter_def cn resolve_def resolve_column [OF assms(1) col] fieldToOp_def generateExpr_column [OF assms(1) col] generateExpr_lit [OF lit]
        NewIntFilter_def NewStringFilter_def litExpr_type colField_def addNode_def condFilter_def cnd Let_def
        del: bind_go_eq_Ok)
qed

lemma filterChain_snoc: "filterChain tab d (cnds @ [cnd]) op = FilterOp (condFilter tab d cnd) (filterChain tab d cnds op)"
  by (simp add: filterChain_def)

lemma filterChain_descriptor: "opDescriptor w op = Ok dd \<Longrightarrow> opDescriptor w (filterChain tab d cnds op) = Ok dd"
  by (induction cnds rule: rev_induct) (simp_all add: filterChain_snoc filterDescriptor_def, simp add: filterChain_def)

lemma applyFilters_chain:
  assumes "tableOk c tab d" and "\<forall>cnd \<in> set cnds. condOk tab d cnd" and "opDescriptor w op = Ok (setTableAlias d tab)"
  shows "\<exists>i' n'. fold_go (applyFilter w ord (c, [], [tableNode tab d])) (map condNode cnds) ([(tab, \<lparr>nodeOp = op, nodeDesc = setTableAlias d tab, nodeId = i\<rparr>)], n) =
    Ok ([(tab, \<lparr>nodeOp = filterChain tab d cnds op, nodeDesc = setTableAlias d tab, nodeId = i'\<rparr>)], n')"
  using assms(2,3)
proof (induction cnds arbitrary: op i n)
  case (Cons cnd cnds)
  have "opDescriptor w (FilterOp (condFilter tab d cnd) op) = Ok (setTableAlias d tab)" using Cons.prems(2) by (simp add: filterDescriptor_def)
  from Cons.IH [OF _ this] Cons.prems applyFilter_cond [OF assms(1), of cnd w op ord i n] show ?case by (simp add: filterChain_def)
qed (simp add: filterChain_def)

lemma applyProject_over:
  assumes "tableOk c tab d" and "selectOk tab d sl" and "opDescriptor w op = Ok (setTableAlias d tab)"
  shows "applyProject w ord m dist (selectNodes sl) op = Ok (projectOver tab d sl dist op)"
proof (cases sl)
  case AllColumns
  then show ?thesis by (simp add: applyProject_def NewStarSelectNode_def)
next
  case (Items its)
  let ?e = "\<lambda>it. (FieldExpr (colField d tab (snd (fst it))), itemName it)"
  let ?n = "\<lambda>it. NewFieldSelectNode (fst (fst it)) (snd (fst it)) (ToLower (snd it))"
  have "generateOn w ord m op (?n it) = Ok (?e it)" if "it \<in> set its" for it
    using generateExpr_column [OF assms(1), of "fst (fst it)" "snd (fst it)"] that Items assms(2,3)
    by (auto simp: generateOn_def itemName_def ToLower_def)
  then have "map_go (generateOn w ord m op) (map ?n its) = Ok (map ?e its)"
    by (induction its) auto
  moreover have "filter (\<lambda>s. exprType s \<noteq> ExprStar) (map ?n its) = map ?n its"
    by (simp add: filter_map comp_def NewFieldSelectNode_def)
  moreover have "\<not> (\<exists>s \<in> set (map ?n its). exprType s = ExprStar \<and> lsField s = ''*'' \<and> funcOp s = None)"
    by (auto simp: NewFieldSelectNode_def)
  ultimately show ?thesis
    by (simp add: Items applyProject_def NewProjectOp_def itemProject_def comp_def del: bind_go_eq_Ok set_map)
qed

lemma projectOver_descriptor:
  "opDescriptor w op = Ok dd \<Longrightarrow> \<exists>dd. opDescriptor w (projectOver tab d sl dist op) = Ok dd"
  by (cases sl) (auto simp: projectDescriptor_def itemProject_def)

lemma applyLimit_over:
  assumes "\<forall>lit. lim = Some lit \<longrightarrow> litOk lit" and "opDescriptor w op = Ok dd"
  shows "applyLimit w ord m (map_option litNode lim) op = Ok (limitOver lim op)"
  using assms generateExpr_lit by (cases lim) (auto simp: applyLimit_def generateOn_def)

lemma aliasedFile_descriptor: "opDescriptor w (FileOp (aliasedFile tab d)) = Ok (setTableAlias d tab)"
  by (simp add: aliasedFile_def NewHeapFile_def)

lemma startState:
  "fold addNode [tableEntry (tableNode tab d)] ([], 0) =
    ([(tab, \<lparr>nodeOp = FileOp (aliasedFile tab d), nodeDesc = setTableAlias d tab, nodeId = 0\<rparr>)], Suc 0)"
  by (simp add: tableEntry_def tableNode_def addNode_def aliasedFile_def NewHeapFile_def TupleDesc_copy_def setTableAlias_def)

lemma makePhysicalPlan_select:
  assumes ok: "tableOk c tab d" "\<forall>cnd \<in> set cnds. condOk tab d cnd" "selectOk tab d sl" "\<forall>lit. lim = Some lit \<longrightarrow> litOk lit"
    and ord: "\<And>e. ord [e] = [e]"
  shows "makePhysicalPlan w ord c (logicalSelect tab d cnds sl lim dist) = Ok (selectPlan tab d cnds sl lim dist)"
proof -
  let ?f = "FileOp (aliasedFile tab d)"
  note d = aliasedFile_descriptor [of w tab d]
  note st = startState [of tab d]
  obtain i n where f: "fold_go (applyFilter w ord (c, [], [tableNode tab d])) (map condNode cnds)
      ([(tab, \<lparr>nodeOp = ?f, nodeDesc = setTableAlias d tab, nodeId = 0\<rparr>)], Suc 0) =
    Ok ([(tab, \<lparr>nodeOp = filterChain tab d cnds ?f, nodeDesc = setTableAlias d tab, nodeId = i\<rparr>)], n)"
    using applyFilters_chain [OF ok(1,2) d] by blast
  note ch = filterChain_descriptor [OF d, of tab d cnds]
  obtain dd where p: "opDescriptor w (projectOver tab d sl dist (filterChain tab d cnds ?f)) = Ok dd"
    using projectOver_descriptor [OF ch] by blast
  show ?thesis
    using st applyProject_over [OF ok(1,3) ch, of ord] applyLimit_over [OF ok(4) p, of ord]
    by (simp add: logicalSelect_def planOver_def subFieldsOf_def f allJoined_def ord applyAggs_def applyOrderBy_def selectPlan_def
        del: bind_go_eq_Ok)
qed

text \<open>
  A SELECT of columns, or of all of them, from one table with a conjunction of comparisons of columns with literals of their
  types and an optional limit parses, and is planned as a scan of the table's file, a filter for each of the conditions, in order, that
  compares the column with the literal, a projection to the columns under their names or aliases, and the limit.
\<close>

theorem select_is_planned:
  assumes "tableOk c tab d" and "\<forall>cnd \<in> set cnds. condOk tab d cnd" and "selectOk tab d sl" and "\<forall>lit. lim = Some lit \<longrightarrow> litOk lit"
    and "\<And>e. ord [e] = [e]" and "sqlParse query = Ok (SqlSelectStmt (selectFrom tab cnds sl lim dist))"
  shows "Parse w ord sqlParse query (c, dk) = Ok (IteratorType, selectPlan tab d cnds sl lim (dist \<noteq> []), c, dk)"
  using parseStatement_select [OF assms(1-4)] makePhysicalPlan_select [where ord = ord, OF assms(1-5)] assms(6)
  by (simp add: Parse_def)

section \<open>The plan of an example\<close>

lemma exCat_ok: "tableOk exCat ''t'' (tdesc exSqlTable)"
proof -
  have new: "catalog_ok (newCatalog [])" "columns_ok (newCatalog [])" by (simp_all add: newCatalog_def catalog_ok_def columns_ok_def tablesWith_def)
  have add: "addTable ''t'' (tdesc exSqlTable) (newCatalog []) = Ok exCat" by (simp add: exCat_def addIgnoring_def addTable_eq newCatalog_def)
  have "lookupTable ''t'' exCat = Some (tdesc exSqlTable)" by (simp add: exCat_def addIgnoring_def addTable_eq lookupTable_def newCatalog_def)
  moreover have dist: "distinct (map Fname (Fields (tdesc exSqlTable)))" by (simp add: exSqlTable_def)
  ultimately show ?thesis
    using catalog_ok_add [OF new(1) add] columns_ok_add [OF new(2) add]
    by (simp add: tableOk_def plain_def exTable_def ToLower_def lowerChar_def quoteChar_def)
qed

definition exCond :: condition where
  "exCond = Cond (''t'', ''b'') ''='' [CHR 0x27, CHR ''x'', CHR 0x27]"

lemma exCond_ok: "condOk ''t'' (tdesc exSqlTable) exCond"
  by code_simp

theorem select_is_planned_witness:
  "Parse exWorld id (\<lambda>_. Ok (SqlSelectStmt (selectFrom ''t'' [exCond] (Items [(([], ''a''), ''K'')]) None ''distinct ''))) [] (exCat, \<lambda>_. []) =
    Ok (IteratorType, ProjectOp \<lparr>selectFields = [FieldExpr \<lparr>Fname = ''a'', TableQualifier = ''t'', Ftype = IntType\<rparr>], outputNames = [''k''], isDistinct = True\<rparr>
      (FilterOp \<lparr>filterOp = OpEq, leftExpr = FieldExpr \<lparr>Fname = ''b'', TableQualifier = ''t'', Ftype = StringType\<rparr>,
          rightExpr = ConstExpr (StringField ''x'') StringType, filterGetter = stringFilterGetter\<rparr>
        (FileOp (aliasedFile ''t'' (tdesc exSqlTable)))), exCat, \<lambda>_. [])"
proof -
  have sel: "selectOk ''t'' (tdesc exSqlTable) (Items [(([], ''a''), ''K'')])" by code_simp
  have plan: "selectPlan ''t'' (tdesc exSqlTable) [exCond] (Items [(([], ''a''), ''K'')]) None True =
    ProjectOp \<lparr>selectFields = [FieldExpr \<lparr>Fname = ''a'', TableQualifier = ''t'', Ftype = IntType\<rparr>], outputNames = [''k''], isDistinct = True\<rparr>
      (FilterOp \<lparr>filterOp = OpEq, leftExpr = FieldExpr \<lparr>Fname = ''b'', TableQualifier = ''t'', Ftype = StringType\<rparr>,
          rightExpr = ConstExpr (StringField ''x'') StringType, filterGetter = stringFilterGetter\<rparr>
        (FileOp (aliasedFile ''t'' (tdesc exSqlTable))))" by code_simp
  show ?thesis
    using select_is_planned [of exCat "''t''" "tdesc exSqlTable" "[exCond]" "Items [(([], ''a''), ''K'')]" None id
        "\<lambda>_. Ok (SqlSelectStmt (selectFrom ''t'' [exCond] (Items [(([], ''a''), ''K'')]) None ''distinct ''))" "[]" "''distinct ''" exWorld "\<lambda>_. []",
        OF exCat_ok _ sel] exCond_ok plan by simp
qed

theorem where_keeps_supported_witness:
  "parseWhere exCat [] [tableNode ''t'' (tdesc exSqlTable)] (SqlAnd SqlOtherExpr (condExpr exCond)) = Ok ([condNode exCond], [])"
proof -
  have c: "parseWhere exCat [] [tableNode ''t'' (tdesc exSqlTable)] (condExpr exCond) = Ok ([condNode exCond], [])"
    by (rule parseWhere_cond [OF exCat_ok exCond_ok])
  have "conjuncts (SqlAnd SqlOtherExpr (condExpr exCond)) = [SqlOtherExpr, condExpr exCond]" by (simp add: condExpr_def)
  with where_keeps_supported [of SqlOtherExpr "condExpr exCond" exCat "[]" "[tableNode ''t'' (tdesc exSqlTable)]"] c show ?thesis
    by (auto simp: supported_def conditionOf_def)
qed

end
