(* ===== verification/Statements.thy ===== *)
theory Statements
  imports SelectPlans
begin

text \<open>
  Statements that create and fill tables: what \<^verbatim>\<open>CREATE TABLE\<close> leaves for the queries that follow it, which rows \<^verbatim>\<open>INSERT\<close> has, and
  two kinds of queries whose plans are not what they say.
\<close>

section \<open>Creating a table\<close>

definition columnType :: "string \<Rightarrow> DBType option" where
  "columnType ty = (if ty = ''int'' then Some IntType else if ty \<in> {''string'', ''text'', ''varchar''} then Some StringType else None)"

definition columnsDesc :: "(string \<times> string) list \<Rightarrow> TupleDesc" where
  "columnsDesc cols = \<lparr>Fields = map (\<lambda>(name, ty). \<lparr>Fname = name, TableQualifier = [], Ftype = the (columnType ty)\<rparr>) cols\<rparr>"

lemma columnFields:
  "map_go columnField cols = (if \<forall>col \<in> set cols. columnType (snd col) \<noteq> None then Ok (Fields (columnsDesc cols)) else Err (GoDBError ParseError))"
  by (induction cols) (auto simp: columnField_def columnType_def columnsDesc_def split: prod.splits)

lemma create_table:
  assumes "lookupTable name c = None" and "\<forall>col \<in> set cols. columnType (snd col) \<noteq> None"
  shows "processDDL (SqlCreate name (Some cols)) (c, dk) = Ok (CreateTableQueryType, addIgnoring (name, columnsDesc cols) c, dk)"
proof -
  have "map_go columnField cols = Ok (Fields (columnsDesc cols))" using columnFields [of cols] assms(2) by simp
  with assms show ?thesis by (cases "columnsDesc cols") (simp add: GetTable_lookup)
qed

lemma addIgnoring_lookup:
  assumes "lookupTable name c = None"
  shows "lookupTable n (addIgnoring (name, d) c) = (if n = name then Some d else lookupTable n c)"
  using assms by (auto simp: addIgnoring_def addTable_eq lookupTable_def)

lemma addIgnoring_ok:
  assumes "catalog_ok c" and "columns_ok c"
  shows "catalog_ok (addIgnoring (name, d) c)" and "columns_ok (addIgnoring (name, d) c)"
proof -
  show "catalog_ok (addIgnoring (name, d) c)" by (rule catalogs.add_ok [OF assms(1)])
  show "columns_ok (addIgnoring (name, d) c)" using assms(2) columns_ok_add by (auto simp: addIgnoring_def split: go_result.split)
qed

text \<open>
  After \<^verbatim>\<open>CREATE TABLE\<close> with a new lower-case name and columns of known types, a \<^verbatim>\<open>SELECT *\<close> from the table is planned as the scan
  of the file of that name with the declared columns, in order and with their types; the catalog stays well formed, and a
  second \<^verbatim>\<open>CREATE TABLE\<close> of the name is refused.
\<close>

theorem create_then_select:
  assumes "catalog_ok c" and "columns_ok c" and "lookupTable name c = None" and "plain name"
    and "\<forall>col \<in> set cols. columnType (snd col) \<noteq> None" and "distinct (map fst cols)" and "\<And>e. ord [e] = [e]"
    and "sqlParse create = Ok (SqlDDLStmt (SqlCreate name (Some cols)))" and "sqlParse query = Ok (SqlSelectStmt (selectFrom name [] AllColumns None []))"
  shows "\<exists>c'. Parse w ord sqlParse create (c, dk) = Ok (CreateTableQueryType, NilOp, c', dk) \<and> catalog_ok c' \<and> columns_ok c' \<and>
    Parse w ord sqlParse query (c', dk) = Ok (IteratorType,
      FileOp (NewHeapFile (tableNameToFile name) (setTableAlias (columnsDesc cols) name)), c', dk) \<and>
    Parse w ord sqlParse create (c', dk) = Err (GoDBError ParseError)"
proof -
  let ?d = "columnsDesc cols"
  let ?c = "addIgnoring (name, ?d) c"
  have look: "lookupTable name ?c = Some ?d" using addIgnoring_lookup [OF assms(3)] by simp
  have "Parse w ord sqlParse create (c, dk) = Ok (CreateTableQueryType, NilOp, ?c, dk)"
    using create_table [OF assms(3,5)] assms(8) by (simp add: Parse_def)
  moreover have "Parse w ord sqlParse create (?c, dk) = Err (GoDBError ParseError)" using look assms(8) by (simp add: Parse_def GetTable_lookup)
  moreover have "tableOk ?c name ?d"
    using addIgnoring_ok [OF assms(1,2)] look assms(4,6) by (simp add: tableOk_def columnsDesc_def comp_def case_prod_unfold)
  then have "Parse w ord sqlParse query (?c, dk) = Ok (IteratorType, selectPlan name ?d [] AllColumns None False, ?c, dk)"
    using parseStatement_select [of ?c name ?d "[]" AllColumns None "[]"] makePhysicalPlan_select [of ?c name ?d "[]" AllColumns None ord w False] assms(7,9)
    by (simp add: Parse_def)
  ultimately show ?thesis using addIgnoring_ok [OF assms(1,2)] by (auto simp: selectPlan_def filterChain_def aliasedFile_def)
qed

text \<open>
  A table created under a name with an upper-case letter cannot be read: \<^verbatim>\<open>CREATE TABLE\<close> keeps the name as it is written, and
  every table of a \<^verbatim>\<open>FROM\<close> clause is looked up in lower case, so that a query on it fails with a missing table, while
  \<^verbatim>\<open>INSERT\<close> finds it.
\<close>

theorem mixed_case_unreadable:
  assumes "lookupTable name c = None" and "lookupTable (ToLower name) c = None" and "ToLower name \<noteq> name"
    and "processDDL (SqlCreate name (Some cols)) (c, dk) = Ok (ty, c', dk')"
  shows "parseFrom c' (SqlTable name al) = Err (GoDBError NoSuchTableError) \<and> (\<exists>f. GetTable name c' = Ok f)"
proof -
  have "\<forall>col \<in> set cols. columnType (snd col) \<noteq> None" using assms(1,4) columnFields [of cols] by (auto simp: GetTable_lookup split: if_splits)
  then have "c' = addIgnoring (name, columnsDesc cols) c" using create_table [OF assms(1)] assms(4) by auto
  with addIgnoring_lookup [OF assms(1), of _ "columnsDesc cols"] assms(2,3) show ?thesis by (simp add: GetTable_lookup)
qed

section \<open>Inserting literals\<close>

lemma generate_literals:
  assumes "\<forall>row \<in> set rs. \<forall>lit \<in> set row. litOk lit"
  shows "map_go (map_go (\<lambda>e. bind_go (parseExpr e []) (\<lambda>expr. bind_go (generateExpr w ord None None expr) (\<lambda>(exprOp, _). Ok exprOp))))
    (map (map SqlVal) rs) = Ok (map (map litExpr) rs)"
proof -
  let ?g = "\<lambda>e. bind_go (parseExpr e []) (\<lambda>expr. bind_go (generateExpr w ord None None expr) (\<lambda>(exprOp, _). Ok exprOp))"
  have "?g (SqlVal lit) = Ok (litExpr lit)" if "litOk lit" for lit
    using litType_value [of lit] that generateExpr_lit [OF that, of w ord None None] by (auto simp: litOk_def litNode_def)
  then have row: "map_go ?g (map SqlVal row) = Ok (map litExpr row)" if "\<forall>lit \<in> set row. litOk lit" for row
    using that by (induction row) (auto simp del: parseExpr.simps)
  show ?thesis using assms row by (induction rs) auto
qed

definition insertInto :: "string \<Rightarrow> string list list \<Rightarrow> sqlInsert" where
  "insertInto tab rs = \<lparr>insColumns = None, insTable = tab, insRows = SqlValues (map (map SqlVal) rs)\<rparr>"

text \<open>
  C18: An \<^verbatim>\<open>INSERT\<close> of rows of literals into a table of the catalog is planned as the insertion, into the file of the table, of exactly
  the rows of the values of the literals, in order.
\<close>

theorem insert_is_planned:
  assumes "lookupTable tab c = Some d" and "\<forall>row \<in> set rs. \<forall>lit \<in> set row. litOk lit" and "sqlParse query = Ok (SqlInsertStmt (insertInto tab rs))"
  shows "Parse w ord sqlParse query (c, dk) =
    Ok (IteratorType, InsertRowsOp (NewInsertOp (NewHeapFile (tableNameToFile tab) d)) (ValuesOp (NewValueOp w (map (map litExpr) rs))), c, dk)"
  using generate_literals [OF assms(2), of w ord] assms(1,3)
  by (cases d) (simp add: Parse_def parseInsert_def insertInto_def GetTable_lookup TupleDesc_copy_def del: bind_go_eq_Ok parseExpr.simps)

section \<open>Quoted numbers\<close>

definition quoted :: "string \<Rightarrow> string" where
  "quoted s = [CHR 0x27] @ s @ [CHR 0x27]"

lemma litExpr_quoted: "litExpr (quoted (show_int (sint v))) = ConstExpr (IntField v) IntType"
  by (simp add: litExpr_def quoted_def unquoteVal_def inner_def Atoi_show_int)

lemma applyFilter_mismatch:
  assumes "tableOk c tab d" and "columnOk tab d (condCol cnd)" and "colType d (snd (condCol cnd)) = StringType" and "litType (condLit cnd) = IntType"
    and "opDescriptor w op = Ok (setTableAlias d tab)"
  shows "applyFilter w ord (c, [], [tableNode tab d]) (condNode cnd) ([(tab, \<lparr>nodeOp = op, nodeDesc = setTableAlias d tab, nodeId = i\<rparr>)], n) =
    Err (GoDBError IncompatibleTypesError)"
proof -
  obtain q col bop lit where cnd: "cnd = Cond (q, col) bop lit" by (cases cnd) auto
  have col: "columnOk tab d (q, col)" and lit: "litOk lit" using assms(2,4) by (auto simp: cnd litOk_def)
  have cn: "condNode (Cond (q, col) bop lit) = \<lparr>fieldExpr = NewFieldSelectNode q col [], constExpr = litNode lit, filterPredOp = BoolOpMap_get bop\<rparr>"
    by (simp add: condNode_def litNode_def)
  show ?thesis
    using assms(3-5)
    by (simp add: applyFilter_def cn resolve_def resolve_column [OF assms(1) col] fieldToOp_def generateExpr_column [OF assms(1) col]
        generateExpr_lit [OF lit] NewStringFilter_def litExpr_type colField_def cnd Let_def)
qed

text \<open>
  A string that looks like a number cannot be compared with a column of strings: the quotes of a literal are removed before its type is
  decided, so that a condition like \<^verbatim>\<open>name = '42'\<close> is refused with incompatible types.
\<close>

theorem quoted_number_refused:
  assumes "tableOk c tab d" and "columnOk tab d (q, col)" and "colType d col = StringType" and "\<And>e. ord [e] = [e]"
    and "sqlParse query = Ok (SqlSelectStmt (selectFrom tab [Cond (q, col) op (quoted (show_int (sint (v :: int64))))] AllColumns None []))"
  shows "Parse w ord sqlParse query (c, dk) = Err (GoDBError IncompatibleTypesError)"
proof -
  let ?cnd = "Cond (q, col) op (quoted (show_int (sint v)))"
  have lit: "litType (condLit ?cnd) = IntType" using litExpr_quoted [of v] by (simp add: litType_def)
  note fr = parseFrom_table [OF assms(1)]
  have wh: "parseWhere c [] [tableNode tab d] (condExpr ?cnd) = Ok ([condNode ?cnd], [])"
    using parseWhere_column [OF assms(1), of ?cnd] assms(2) lit by (simp add: litOk_def)
  have plan: "parseStatement c (selectFrom tab [?cnd] AllColumns None []) = Ok (logicalSelect tab d [?cnd] AllColumns None False)"
    by (simp add: selectFrom_def fr wh appendFrom_def subFieldsOf_def logicalSelect_def ToLower_def NewStarSelectNode_def
        del: bind_go_eq_Ok map_go.simps(2))
  let ?f = "FileOp (aliasedFile tab d)"
  have "makePhysicalPlan w ord c (logicalSelect tab d [?cnd] AllColumns None False) = Err (GoDBError IncompatibleTypesError)"
    using applyFilter_mismatch [OF assms(1), of ?cnd w ?f ord 0 "Suc 0"] assms(2,3) lit aliasedFile_descriptor [of w tab d] startState [of tab d]
    by (simp add: logicalSelect_def planOver_def subFieldsOf_def)
  with plan assms(5) show ?thesis by (simp add: Parse_def)
qed

section \<open>Several join conditions\<close>

text \<open>
  A second join condition on two tables that are already joined does not filter the join: after the first condition both names
  stand for the join of the two tables, and the second one joins that operator with itself, so that its rows pair every row of
  the join with every other one that matches.
\<close>

theorem second_condition_joins_again:
  assumes "resolve sc (joinLeft j1) = Ok (lt, f1)" and "resolve sc (joinRight j1) = Ok (rt, g1)"
    and "resolve sc (joinLeft j2) = Ok (lt, f2)" and "resolve sc (joinRight j2) = Ok (rt, g2)"
    and "applyJoin w ord sc j1 st = Ok st1" and "applyJoin w ord sc j2 st1 = Ok st2"
  shows "\<exists>n1 n2 jn. map_of (fst st1) lt = Some n1 \<and> map_of (fst st1) rt = Some n1 \<and>
    map_of (fst st2) lt = Some n2 \<and> map_of (fst st2) rt = Some n2 \<and> nodeOp n2 = JoinOp jn (nodeOp n1) (nodeOp n1)"
proof -
  have both: "\<exists>nn. map_of (fst st') lt = Some nn \<and> map_of (fst st') rt = Some nn"
    if "applyJoin w ord sc j (m, n) = Ok st'" "resolve sc (joinLeft j) = Ok (lt, f)" "resolve sc (joinRight j) = Ok (rt, g)" for j f g m n st'
    using that(1) by (rule applyJoin_result) (use that(2,3) in \<open>auto simp: Let_def\<close>)
  obtain n1 where n1: "map_of (fst st1) lt = Some n1" "map_of (fst st1) rt = Some n1"
    using both [of j1 "fst st" "snd st" st1] assms(1,2,5) by auto
  have "applyJoin w ord sc j2 (fst st1, snd st1) = Ok st2" using assms(6) by simp
  then show ?thesis
    by (rule applyJoin_result) (use assms(3,4) n1 in \<open>auto simp: Let_def fieldToOp_def\<close>)
qed

section \<open>The statements on an example\<close>

lemma newCatalog_ok: "catalog_ok (newCatalog root)" "columns_ok (newCatalog root)" "lookupTable n (newCatalog root) = None"
  by (simp_all add: newCatalog_def catalog_ok_def columns_ok_def tablesWith_def lookupTable_def)

definition exCols :: "(string \<times> string) list" where
  "exCols = [(''a'', ''int''), (''b'', ''varchar'')]"

definition exScript :: "string \<Rightarrow> sqlStatement result" where
  "exScript q = (if q = ''create'' then Ok (SqlDDLStmt (SqlCreate ''t'' (Some exCols)))
     else Ok (SqlSelectStmt (selectFrom ''t'' [] AllColumns None [])))"

theorem create_then_select_witness:
  "\<exists>c'. Parse exWorld id exScript ''create'' (newCatalog [], \<lambda>_. []) = Ok (CreateTableQueryType, NilOp, c', \<lambda>_. []) \<and>
    Parse exWorld id exScript ''select'' (c', \<lambda>_. []) = Ok (IteratorType,
      FileOp (NewHeapFile ''t.dat'' \<lparr>Fields = [\<lparr>Fname = ''a'', TableQualifier = ''t'', Ftype = IntType\<rparr>, \<lparr>Fname = ''b'', TableQualifier = ''t'', Ftype = StringType\<rparr>]\<rparr>),
      c', \<lambda>_. [])"
proof -
  have cols: "\<forall>col \<in> set exCols. columnType (snd col) \<noteq> None" "distinct (map fst exCols)" "plain ''t''" by code_simp+
  have d: "setTableAlias (columnsDesc exCols) ''t'' =
      \<lparr>Fields = [\<lparr>Fname = ''a'', TableQualifier = ''t'', Ftype = IntType\<rparr>, \<lparr>Fname = ''b'', TableQualifier = ''t'', Ftype = StringType\<rparr>]\<rparr>"
    by code_simp
  from create_then_select [OF newCatalog_ok cols(3,1,2), of id exScript "''create''" "''select''" exWorld "[]" "\<lambda>_. []"] show ?thesis
    by (auto simp: exScript_def d tableNameToFile_def)
qed

theorem mixed_case_unreadable_witness:
  "\<exists>c'. processDDL (SqlCreate ''T'' (Some exCols)) (newCatalog [], \<lambda>_. []) = Ok (CreateTableQueryType, c', \<lambda>_. []) \<and>
    parseFrom c' (SqlTable ''T'' []) = Err (GoDBError NoSuchTableError)"
proof -
  have cols: "\<forall>col \<in> set exCols. columnType (snd col) \<noteq> None" "ToLower ''T'' \<noteq> ''T''" by code_simp+
  note c = create_table [OF newCatalog_ok(3) cols(1), of "''T''" "[]" "\<lambda>_. []"]
  with mixed_case_unreadable [OF newCatalog_ok(3,3) cols(2) c, of "[]"] show ?thesis by blast
qed

theorem insert_is_planned_witness:
  "Parse exWorld id (\<lambda>_. Ok (SqlInsertStmt (insertInto ''t'' [[quoted ''x''], [quoted ''y'']]))) [] (exCat, \<lambda>_. []) =
    Ok (IteratorType, InsertRowsOp (NewInsertOp (NewHeapFile ''t.dat'' (tdesc exSqlTable)))
      (ValuesOp (NewValueOp exWorld [[ConstExpr (StringField ''x'') StringType], [ConstExpr (StringField ''y'') StringType]])), exCat, \<lambda>_. [])"
proof -
  have lits: "\<forall>row \<in> set [[quoted ''x''], [quoted ''y'']]. \<forall>lit \<in> set row. litOk lit"
    "litExpr (quoted ''x'') = ConstExpr (StringField ''x'') StringType" "litExpr (quoted ''y'') = ConstExpr (StringField ''y'') StringType" by code_simp+
  have "lookupTable ''t'' exCat = Some (tdesc exSqlTable)" using exCat_ok by (simp add: tableOk_def)
  from insert_is_planned [OF this lits(1), of "\<lambda>_. Ok (SqlInsertStmt (insertInto ''t'' [[quoted ''x''], [quoted ''y'']]))" "[]"] show ?thesis
    by (simp add: lits(2,3) tableNameToFile_def)
qed

theorem quoted_number_refused_witness:
  "Parse exWorld id (\<lambda>_. Ok (SqlSelectStmt (selectFrom ''t'' [Cond ([], ''b'') ''='' (quoted ''42'')] AllColumns None []))) [] (exCat, \<lambda>_. []) =
    Err (GoDBError IncompatibleTypesError)"
proof -
  have col: "columnOk ''t'' (tdesc exSqlTable) ([], ''b'')" "colType (tdesc exSqlTable) ''b'' = StringType" by code_simp+
  have s: "show_int 42 = ''42''" by code_simp
  from quoted_number_refused [OF exCat_ok col, of id "\<lambda>_. Ok (SqlSelectStmt (selectFrom ''t'' [Cond ([], ''b'') ''='' (quoted ''42'')] AllColumns None []))"
      "[]" "''=''" 42 exWorld "\<lambda>_. []"] show ?thesis by (simp add: s)
qed

definition exScope :: scope where
  "exScope = (addIgnoring (''u'', tdesc exSqlTable) exCat, [], [tableNode ''t'' (tdesc exSqlTable), tableNode ''u'' (tdesc exSqlTable)])"

definition exStart :: planState where
  "exStart = fold addNode (map tableEntry (snd (snd exScope))) ([], 0)"

definition exOn :: "string \<Rightarrow> LogicalJoinNode" where
  "exOn col = \<lparr>joinLeft = NewFieldSelectNode ''t'' col [], joinRight = NewFieldSelectNode ''u'' col [], joinPredOp = OpEq\<rparr>"

definition isOk :: "'a result \<Rightarrow> bool" where
  "isOk r \<longleftrightarrow> (case r of Ok _ \<Rightarrow> True | _ \<Rightarrow> False)"

theorem second_condition_joins_again_witness:
  "\<exists>st1 st2 n1 n2 jn. applyJoin exWorld id exScope (exOn ''a'') exStart = Ok st1 \<and> applyJoin exWorld id exScope (exOn ''b'') st1 = Ok st2 \<and>
    map_of (fst st1) ''t'' = Some n1 \<and> map_of (fst st2) ''t'' = Some n2 \<and> nodeOp n2 = JoinOp jn (nodeOp n1) (nodeOp n1)"
proof -
  have "isOk (bind_go (applyJoin exWorld id exScope (exOn ''a'') exStart) (applyJoin exWorld id exScope (exOn ''b'')))" by code_simp
  then obtain st1 st2 where st: "applyJoin exWorld id exScope (exOn ''a'') exStart = Ok st1" "applyJoin exWorld id exScope (exOn ''b'') st1 = Ok st2"
    by (auto simp: isOk_def split: go_result.splits)
  have r: "resolve exScope (joinLeft (exOn ''a'')) = Ok (''t'', ''a'')" "resolve exScope (joinRight (exOn ''a'')) = Ok (''u'', ''a'')"
    "resolve exScope (joinLeft (exOn ''b'')) = Ok (''t'', ''b'')" "resolve exScope (joinRight (exOn ''b'')) = Ok (''u'', ''b'')" by code_simp+
  from second_condition_joins_again [OF r st] st show ?thesis by blast
qed

end
