(* ===== verification/Execution.thy ===== *)
theory Execution
  imports PhysicalPlans
begin

text \<open>
  Running an operator tree. \<^verbatim>\<open>Operator\<close> is an interface: \<^verbatim>\<open>Iterator(tid)\<close> of a tree calls that of its children, and the closure it returns
  calls theirs. \<open>opOpen\<close> and \<open>opNext\<close> are these two calls for every operator, composed of the models of the single operators; the
  state that the closures of a tree capture is a tree of the same shape, and every closure may be nil.

  The main theorem says what a tree over tables returns: the rows that its operators denote.
\<close>

section \<open>The closures of a tree\<close>

datatype 'h opState =
    ScanState nat nat
  | FilterState "'h opState option"
  | JoinState "Tuple option" "'h opState option" "'h opState option"
  | ProjectState "'h opState option" "'h list"
  | AggregateState "'h opState" "('h aggKey \<times> AggState option list) list" "Tuple list" finalIter
  | SortState "Tuple list" nat
  | LimitState "'h opState option" int
  | ModifyState "'h opState option" int64
  | ValueState nat

text \<open>
  What the operators need of their surroundings: the world of expressions, the matcher of \<^verbatim>\<open>LIKE\<close>, the hash of a tuple, the sorting of
  long slices, and the transaction.
\<close>

record 'h runtime =
  rtWorld :: world
  rtRegexp :: "string \<Rightarrow> string \<Rightarrow> bool"
  rtKey :: "Tuple \<Rightarrow> 'h"
  rtSort :: "(Tuple \<Rightarrow> Tuple \<Rightarrow> bool result) \<Rightarrow> Tuple list \<Rightarrow> Tuple list result"
  rtTid :: TransactionID

text \<open>The captured state of an operator, seen as a state of the tree.\<close>

definition through :: "('t \<Rightarrow> DB \<times> 'h opState) \<Rightarrow> ('a option result \<times> 't) option \<Rightarrow> ('a option result \<times> DB \<times> 'h opState) option" where
  "through emb r = map_option (\<lambda>(res, t). (res, emb t)) r"

definition onOpen :: "('s \<Rightarrow> 't) \<Rightarrow> ('s option result \<times> 'd) option \<Rightarrow> ('t option result \<times> 'd) option" where
  "onOpen emb r = map_option (\<lambda>(res, d). (bind_go res (\<lambda>s. Ok (map_option emb s)), d)) r"

text \<open>Opening an operator that captures the closure of its child, whatever it is: \<^verbatim>\<open>ite, _ := child.Iterator(tid)\<close>.\<close>

definition capture :: "('h opState option \<Rightarrow> 'h opState) \<Rightarrow> (DB, 'h opState) opener \<Rightarrow> (DB, 'h opState) opener" where
  "capture emb copen db = map_option (\<lambda>(res, db'). (bind_go res (\<lambda>so. Ok (Some (emb so))), db')) (openOrNil copen db)"


fun opOpen :: "'h runtime \<Rightarrow> Operator \<Rightarrow> (DB, 'h opState) opener"
and opNext :: "'h runtime \<Rightarrow> Operator \<Rightarrow> (DB \<times> 'h opState, Tuple) iter" where
  "opOpen rt NilOp = (\<lambda>db. Some (Panic NilDereference, db))"
| "opOpen rt (FileOp f) = (\<lambda>db. onOpen (\<lambda>(i, j). ScanState i j) (scanOpen f db))"
| "opOpen rt (FilterOp f c) = (\<lambda>db.
     map_option (\<lambda>(res, db'). (bind_go res (\<lambda>so. Ok (Some (FilterState so))), db')) (opOpen rt c db))"
| "opOpen rt (JoinOp j l r) = (\<lambda>db.
     onOpen (\<lambda>js. JoinState (leftTuple js) (leftIte js) (rightIte js)) (joinOpen (opOpen rt l) (opNext rt l) (opOpen rt r) db))"
| "opOpen rt (ProjectOp p c) = capture (\<lambda>so. ProjectState so []) (opOpen rt c)"
| "opOpen rt (AggregatorOp a c) = (\<lambda>db.
     map_option (\<lambda>(res, db'). (bind_go (aggOpen a res) (\<lambda>cl.
       Ok (Some (AggregateState (aggChild cl) (aggMap cl) (groupByList cl) (finalizedIter cl)))), db')) (opOpen rt c db))"
| "opOpen rt (OrderByOp ob c) = (\<lambda>db.
     (case openOrNil (opOpen rt c) db of
        None \<Rightarrow> None
      | Some (Err e, db1) \<Rightarrow> Some (Err e, db1)
      | Some (Panic x, db1) \<Rightarrow> Some (Panic x, db1)
      | Some (Ok so, db1) \<Rightarrow>
          map_option (\<lambda>(res, db2, so'). (bind_go res (\<lambda>(ts, n). Ok (Some (SortState ts n))), db2))
            (orderByOpen (rtSort rt) (rtWorld rt) ob (call (opNext rt c)) (db1, so))))"
| "opOpen rt (LimitOp e c) = capture (\<lambda>so. LimitState so 0) (opOpen rt c)"
| "opOpen rt (InsertRowsOp i c) = capture (\<lambda>so. ModifyState so 0) (opOpen rt c)"
| "opOpen rt (DeleteRowsOp x c) = capture (\<lambda>so. ModifyState so 0) (opOpen rt c)"
| "opOpen rt (ValuesOp v) = (\<lambda>db. Some (Ok (Some (ValueState 0)), db))"
| "opNext rt NilOp = (\<lambda>(db, st). Some (Panic NilDereference, db, st))"
| "opNext rt (FileOp f) = (\<lambda>(db, st).
     (case st of ScanState i j \<Rightarrow> through (\<lambda>(db, i, j). (db, ScanState i j)) (scanNext f (rtTid rt) (db, i, j)) | _ \<Rightarrow> None))"
| "opNext rt (FilterOp f c) = (\<lambda>(db, st).
     (case st of
        FilterState so \<Rightarrow> through (\<lambda>(db, so). (db, FilterState so)) (filterNext (rtWorld rt) (rtRegexp rt) f (call (opNext rt c)) (db, so))
      | _ \<Rightarrow> None))"
| "opNext rt (JoinOp j l r) = (\<lambda>(db, st).
     (case st of
        JoinState lt ls rs \<Rightarrow>
          through (\<lambda>(db, js). (db, JoinState (leftTuple js) (leftIte js) (rightIte js)))
            (joinNext (rtWorld rt) j (opNext rt l) (opOpen rt r) (opNext rt r) (db, \<lparr>leftTuple = lt, leftIte = ls, rightIte = rs\<rparr>))
      | _ \<Rightarrow> None))"
| "opNext rt (ProjectOp p c) = (\<lambda>(db, st).
     (case st of
        ProjectState so seen \<Rightarrow>
          through (\<lambda>((db, so), seen). (db, ProjectState so seen))
            (projectNext (rtWorld rt) (rtKey rt) p (call (opNext rt c)) ((db, so), seen))
      | _ \<Rightarrow> None))"
| "opNext rt (AggregatorOp a c) = (\<lambda>(db, st).
     (case st of
        AggregateState s m gs fi \<Rightarrow>
          through (\<lambda>cl. (fst (aggChild cl), AggregateState (snd (aggChild cl)) (aggMap cl) (groupByList cl) (finalizedIter cl)))
            (aggNext (rtWorld rt) (rtKey rt) a (opNext rt c) \<lparr>aggChild = (db, s), aggMap = m, groupByList = gs, finalizedIter = fi\<rparr>)
      | _ \<Rightarrow> None))"
| "opNext rt (OrderByOp ob c) = (\<lambda>(db, st).
     (case st of SortState ts n \<Rightarrow> through (\<lambda>(ts, n). (db, SortState ts n)) (sliceNext (ts, n)) | _ \<Rightarrow> None))"
| "opNext rt (LimitOp e c) = (\<lambda>(db, st).
     (case st of
        LimitState so n \<Rightarrow>
          through (\<lambda>((db, so), n). (db, LimitState so n)) (limitNext (rtWorld rt) e (call (opNext rt c)) ((db, so), n))
      | _ \<Rightarrow> None))"
| "opNext rt (InsertRowsOp i c) = (\<lambda>(db, st).
     (case st of
        ModifyState so n \<Rightarrow>
          through (\<lambda>((db, so), n). (db, ModifyState so n)) (insertNext i (rtTid rt) (call (opNext rt c)) ((db, so), n))
      | _ \<Rightarrow> None))"
| "opNext rt (DeleteRowsOp x c) = (\<lambda>(db, st).
     (case st of
        ModifyState so n \<Rightarrow>
          through (\<lambda>((db, so), n). (db, ModifyState so n)) (deleteNext x (rtTid rt) (call (opNext rt c)) ((db, so), n))
      | _ \<Rightarrow> None))"
| "opNext rt (ValuesOp v) = (\<lambda>(db, st).
     (case st of ValueState n \<Rightarrow> through (\<lambda>n. (db, ValueState n)) (valueNext (rtWorld rt) v n) | _ \<Rightarrow> None))"

section \<open>What a tree denotes\<close>

text \<open>
  The group rows and the result rows of an aggregation over the tuples \<open>ts\<close>, from the states after all the tuples of a group.
\<close>

definition groupTuple :: "world \<Rightarrow> Aggregator \<Rightarrow> Tuple \<Rightarrow> Tuple" where
  "groupTuple w a t = (case extractGroupByKeyTuple w a t of Ok g \<Rightarrow> g | _ \<Rightarrow> t)"

definition finished :: "world \<Rightarrow> Aggregator \<Rightarrow> Tuple option \<Rightarrow> Tuple list \<Rightarrow> Tuple option result" where
  "finished w a g us = finalizeAll g (map (\<lambda>as. Some (partialAgg w us as)) (newAggState a))"

definition aggRows :: "world \<Rightarrow> (Tuple \<Rightarrow> 'h) \<Rightarrow> Aggregator \<Rightarrow> Tuple list \<Rightarrow> Tuple list" where
  "aggRows w key a ts =
     (if groupByFields a = None then (case finished w a None ts of Ok (Some t) \<Rightarrow> [t] | _ \<Rightarrow> [])
      else map (\<lambda>g. case finished w a (Some g) (groupOf key (groupTuple w a) (key g) ts) of Ok (Some t) \<Rightarrow> t | _ \<Rightarrow> g)
        (firstBy key [] (map (groupTuple w a) ts)))"

fun opRows :: "'h runtime \<Rightarrow> (HeapFile \<Rightarrow> Tuple list) \<Rightarrow> Operator \<Rightarrow> Tuple list" where
  "opRows rt scan (FileOp f) = scan f"
| "opRows rt scan (FilterOp f c) = filter (keeps (rtWorld rt) (rtRegexp rt) f) (opRows rt scan c)"
| "opRows rt scan (JoinOp j l r) = joinResult (rtWorld rt) j (opRows rt scan l) (opRows rt scan r)"
| "opRows rt scan (ProjectOp p c) = projectResult (rtWorld rt) (rtKey rt) p [] (opRows rt scan c)"
| "opRows rt scan (AggregatorOp a c) = aggRows (rtWorld rt) (rtKey rt) a (opRows rt scan c)"
| "opRows rt scan (OrderByOp ob c) =
     (case sort_Sort (rtSort rt) (multiLess (lessFuncs (rtWorld rt) ob)) (opRows rt scan c) of Ok ys \<Rightarrow> ys | _ \<Rightarrow> [])"
| "opRows rt scan (LimitOp e c) = take (limitCount (rtWorld rt) e) (opRows rt scan c)"
| "opRows rt scan (ValuesOp v) = map (valueTuple (rtWorld rt) v) (valueExprs v)"
| "opRows rt scan _ = []"

text \<open>The aggregates of the tuples, or of each group of them, can be computed.\<close>

definition aggReady :: "world \<Rightarrow> (Tuple \<Rightarrow> 'h) \<Rightarrow> Aggregator \<Rightarrow> Tuple list \<Rightarrow> bool" where
  "aggReady w key a ts \<longleftrightarrow>
     (if groupByFields a = None then newAggState a \<noteq> [] \<and> (\<forall>as \<in> set (newAggState a). \<exists>r. aggregate w ts as = Ok r)
      else \<forall>t \<in> set ts. (\<exists>g. extractGroupByKeyTuple w a t = Ok g) \<and>
        (\<forall>as \<in> set (newAggState a). \<exists>r. aggregate w (groupOf key (groupTuple w a) (key (groupTuple w a t)) ts) as = Ok r))"

text \<open>
  The tuples of a join are made by appending the fields of the right tuple to those of the left one, and \<^verbatim>\<open>append\<close> may put those of several
  joined tuples of the same left tuple into the same array. A tuple is then only good until the next call; the operators that pass tuples on,
  or read their fields at once, are not affected, but sorting keeps the tuples of its child.
\<close>

fun sharesArrays :: "Operator \<Rightarrow> bool" where
  "sharesArrays (JoinOp j l r) = True"
| "sharesArrays (FilterOp f c) = sharesArrays c"
| "sharesArrays (OrderByOp ob c) = sharesArrays c"
| "sharesArrays (LimitOp e c) = sharesArrays c"
| "sharesArrays _ = False"

text \<open>
  What running a tree needs: its expressions evaluate on the rows they meet, both inputs of a join have a row, and no join is sorted
  before a projection or an aggregation.
\<close>

fun opReady :: "'h runtime \<Rightarrow> (HeapFile \<Rightarrow> Tuple list) \<Rightarrow> (HeapFile \<Rightarrow> bool) \<Rightarrow> Operator \<Rightarrow> bool" where
  "opReady rt scan known (FileOp f) \<longleftrightarrow> known f"
| "opReady rt scan known (FilterOp f c) \<longleftrightarrow>
     opReady rt scan known c \<and> (\<forall>t \<in> set (opRows rt scan c). \<exists>b. filterPred (rtWorld rt) (rtRegexp rt) f t = Ok b)"
| "opReady rt scan known (JoinOp j l r) \<longleftrightarrow>
     opReady rt scan known l \<and> opReady rt scan known r \<and> opRows rt scan l \<noteq> [] \<and> opRows rt scan r \<noteq> [] \<and>
     (\<forall>t \<in> set (opRows rt scan l). evaluates (rtWorld rt) (leftField j) t) \<and>
     (\<forall>t \<in> set (opRows rt scan r). evaluates (rtWorld rt) (rightField j) t)"
| "opReady rt scan known (ProjectOp p c) \<longleftrightarrow>
     opReady rt scan known c \<and> (\<forall>t \<in> set (opRows rt scan c). \<exists>t'. projectTuple (rtWorld rt) p t = Ok t')"
| "opReady rt scan known (AggregatorOp a c) \<longleftrightarrow>
     opReady rt scan known c \<and> aggReady (rtWorld rt) (rtKey rt) a (opRows rt scan c)"
| "opReady rt scan known (OrderByOp ob c) \<longleftrightarrow>
     opReady rt scan known c \<and> \<not> sharesArrays c \<and> (\<exists>ys. sort_Sort (rtSort rt) (multiLess (lessFuncs (rtWorld rt) ob)) (opRows rt scan c) = Ok ys)"
| "opReady rt scan known (LimitOp e c) \<longleftrightarrow> opReady rt scan known c \<and> (\<exists>n. limitValue (rtWorld rt) e = Ok n)"
| "opReady rt scan known (ValuesOp v) \<longleftrightarrow> (\<forall>es \<in> set (valueExprs v). \<exists>vs. map_go (\<lambda>e. EvalExpr (rtWorld rt) e None) es = Ok vs)"
| "opReady rt scan known _ \<longleftrightarrow> False"

section \<open>Each operator on a child that advances\<close>

text \<open>
  \<open>L s xs\<close> says that the closure has the elements \<open>xs\<close> left in state \<open>s\<close>; \<open>advances\<close> is that every call returns the first of
  them, or nil when there are none, and leaves a state with the others. A relation \<open>L\<close> allows that the state at the end still changes.
\<close>

definition advances :: "('s, 'a) iter \<Rightarrow> ('s \<Rightarrow> 'a list \<Rightarrow> bool) \<Rightarrow> bool" where
  "advances nxt L \<longleftrightarrow> (\<forall>s xs. L s xs \<longrightarrow> (\<exists>s'. nxt s = Some (Ok (case xs of [] \<Rightarrow> None | x # _ \<Rightarrow> Some x), s') \<and> L s' (tl xs)))"

lemma advancesI:
  assumes "\<And>s. L s [] \<Longrightarrow> \<exists>s'. nxt s = Some (Ok None, s') \<and> L s' []"
    and "\<And>s x xs. L s (x # xs) \<Longrightarrow> \<exists>s'. nxt s = Some (Ok (Some x), s') \<and> L s' xs"
  shows "advances nxt L"
  using assms unfolding advances_def by (metis list.exhaust list.sel(2,3) list.simps(4,5))

lemma advances_Nil: "advances nxt L \<Longrightarrow> L s [] \<Longrightarrow> \<exists>s'. nxt s = Some (Ok None, s') \<and> L s' []"
  unfolding advances_def by (metis list.sel(2) list.simps(4))

lemma advances_Cons: "advances nxt L \<Longrightarrow> L s (x # xs) \<Longrightarrow> \<exists>s'. nxt s = Some (Ok (Some x), s') \<and> L s' xs"
  unfolding advances_def by (metis list.sel(3) list.simps(5))

lemma advances_yields: "advances nxt L \<Longrightarrow> L s xs \<Longrightarrow> \<exists>s'. yields nxt s xs s' \<and> L s' []"
proof (induction xs arbitrary: s)
  case Nil
  then show ?case using advances_Nil by fastforce
next
  case (Cons x xs)
  then show ?case using advances_Cons [OF Cons.prems] by (metis yields.yields_Cons)
qed

lemma advances_call: "advances nxt L \<Longrightarrow> advances (call nxt) (\<lambda>(d, so) xs. \<exists>s. so = Some s \<and> L (d, s) xs)"
  by (rule advancesI) (fastforce simp: call_def dest: advances_Nil advances_Cons)+

text \<open>A closure on an embedded state.\<close>

lemma advances_through:
  assumes "advances nxt L" and "\<And>s. nxt' (emb s) = through emb (nxt s)"
  shows "advances nxt' (\<lambda>t xs. \<exists>s. t = emb s \<and> L s xs)"
  by (rule advancesI) (use assms in \<open>fastforce simp: through_def dest: advances_Nil advances_Cons\<close>)+

lemma advances_filter:
  assumes "advances ite L"
  shows "advances (filterNext w rx f ite)
    (\<lambda>s ys. \<exists>xs. L s xs \<and> (\<forall>t \<in> set xs. \<exists>b. filterPred w rx f t = Ok b) \<and> ys = filter (keeps w rx f) xs)"
  unfolding advances_def
proof (intro allI impI, elim exE conjE)
  fix s ys xs
  let ?L = "\<lambda>s ys. \<exists>xs. L s xs \<and> (\<forall>t \<in> set xs. \<exists>b. filterPred w rx f t = Ok b) \<and> ys = filter (keeps w rx f) xs"
  assume "L s xs" and "\<forall>t \<in> set xs. \<exists>b. filterPred w rx f t = Ok b" and "ys = filter (keeps w rx f) xs"
  then show "\<exists>s'. filterNext w rx f ite s = Some (Ok (case ys of [] \<Rightarrow> None | y # _ \<Rightarrow> Some y), s') \<and> ?L s' (tl ys)"
  proof (induction xs arbitrary: s)
    case Nil
    then show ?case using advances_Nil [OF assms, of s] by (force simp: filterNext_def)
  next
    case (Cons t xs)
    obtain s1 where s1: "ite s = Some (Ok (Some t), s1)" "L s1 xs" using advances_Cons [OF assms Cons.prems(1)] by blast
    obtain b where b: "filterPred w rx f t = Ok b" using Cons.prems(2) by auto
    obtain c s2 where s2: "ite s1 = Some (Ok c, s2)" using assms s1(2) unfolding advances_def by metis
    show ?case
    proof (cases b)
      case True
      with b s1 Cons.prems show ?thesis by (auto simp: filterNext_def filterLoop_hit keeps_def)
    next
      case False
      with b s1 s2 have "filterNext w rx f ite s = filterNext w rx f ite s1" by (simp add: filterNext_def filterLoop_skip)
      then show ?thesis using Cons.IH [OF s1(2)] Cons.prems False b by (auto simp: keeps_def)
    qed
  qed
qed

lemma advances_project:
  assumes "advances ite L"
  shows "advances (projectNext w key p ite)
    (\<lambda>(s, seen) ys. \<exists>xs. L s xs \<and> (\<forall>t \<in> set xs. \<exists>t'. projectTuple w p t = Ok t') \<and> ys = projectResult w key p seen xs)"
    (is "advances ?n ?L")
  unfolding advances_def
proof (intro allI impI, clarify)
  fix s seen xs
  assume "L s xs" and "\<forall>t \<in> set xs. \<exists>t'. projectTuple w p t = Ok t'"
  then show "\<exists>st. ?n (s, seen) = Some (Ok (case projectResult w key p seen xs of [] \<Rightarrow> None | y # _ \<Rightarrow> Some y), st) \<and> ?L st (tl (projectResult w key p seen xs))"
  proof (induction xs arbitrary: s)
    case Nil
    then show ?case using advances_Nil [OF assms, of s] by (force simp: projectNext_def projectResult_def)
  next
    case (Cons t xs)
    obtain s1 where s1: "ite s = Some (Ok (Some t), s1)" "L s1 xs" using advances_Cons [OF assms Cons.prems(1)] by blast
    obtain t' where t': "projectTuple w p t = Ok t'" using Cons.prems(2) by auto
    then have pj: "projected w p t = t'" by (simp add: projected_def)
    obtain c s2 where s2: "ite s1 = Some (Ok c, s2)" using assms s1(2) unfolding advances_def by metis
    show ?case
    proof (cases "isDistinct p \<and> key t' \<in> set seen")
      case True
      then have "?n (s, seen) = ?n (s1, seen)" using s1(1) s2 t' by (simp add: projectNext_def, subst projectLoopOp.simps) simp
      moreover have "projectResult w key p seen (t # xs) = projectResult w key p seen xs" using True pj by (simp add: projectResult_def)
      ultimately show ?thesis using Cons.IH [OF s1(2)] Cons.prems(2) by simp
    next
      case False
      let ?seen = "if isDistinct p then key t' # seen else seen"
      have "?n (s, seen) = Some (Ok (Some t'), s1, ?seen)"
        using False t' s1(1) by (cases "isDistinct p"; simp add: projectNext_def, subst projectLoopOp.simps) simp_all
      moreover have "projectResult w key p seen (t # xs) = t' # projectResult w key p ?seen xs" using False pj by (simp add: projectResult_def)
      ultimately show ?thesis using s1(2) Cons.prems(2) by (intro exI [of _ "(s1, ?seen)"]) auto
    qed
  qed
qed

lemma advances_limit:
  assumes "advances ite L" and "limitValue w lim = Ok n"
  shows "advances (limitNext w lim ite) (\<lambda>(s, c) ys. \<exists>xs. L s xs \<and> ys = take (nat (n - c)) xs)"
  unfolding advances_def
proof (intro allI impI, clarify)
  fix s c xs
  assume L: "L s xs"
  show "\<exists>st. limitNext w lim ite (s, c) = Some (Ok (case take (nat (n - c)) xs of [] \<Rightarrow> None | y # _ \<Rightarrow> Some y), st) \<and>
      (case st of (s, c) \<Rightarrow> \<lambda>ys. \<exists>xs. L s xs \<and> ys = take (nat (n - c)) xs) (tl (take (nat (n - c)) xs))"
  proof (cases "c \<ge> n")
    case True
    with L assms(2) show ?thesis by (auto simp: limitNext_def)
  next
    case False
    then have n: "nat (n - c) = Suc (nat (n - (c + 1)))" by simp
    show ?thesis
      using False n assms(2) L advances_Nil [OF assms(1), of s] advances_Cons [OF assms(1), of s] by (cases xs) (fastforce simp: limitNext_def)+
  qed
qed

lemma advances_values:
  assumes "\<forall>es \<in> set (valueExprs v). \<exists>vs. map_go (\<lambda>e. EvalExpr w e None) es = Ok vs"
  shows "advances (valueNext w v) (\<lambda>i ys. ys = map (valueTuple w v) (drop i (valueExprs v)))"
proof (rule advancesI)
  fix i y ys
  assume *: "y # ys = map (valueTuple w v) (drop i (valueExprs v))"
  then have i: "i < length (valueExprs v)" by (metis drop_all list.discI list.simps(8) not_le)
  then obtain vs where "map_go (\<lambda>e. EvalExpr w e None) (valueExprs v ! i) = Ok vs" using assms nth_mem by blast
  then show "\<exists>i'. valueNext w v i = Some (Ok (Some y), i') \<and> ys = map (valueTuple w v) (drop i' (valueExprs v))"
    using i * by (auto simp: valueNext_def valueTuple_def Cons_nth_drop_Suc [symmetric])
qed (auto simp: valueNext_def)

lemma advances_slice: "advances sliceNext (\<lambda>(ts, i) ys. ys = drop i ts)"
proof (rule advancesI; clarify)
  fix ts i and y :: Tuple and ys
  assume *: "y # ys = drop i ts"
  then have "i < length ts" by (metis drop_all list.discI not_le)
  then show "\<exists>s'. sliceNext (ts, i) = Some (Ok (Some y), s') \<and> (case s' of (ts, i) \<Rightarrow> \<lambda>ys. ys = drop i ts) ys"
    using * by (auto simp: sliceNext_def Cons_nth_drop_Suc [symmetric])
qed (auto simp: sliceNext_def)


text \<open>The aggregation without groups reads its child in its first call.\<close>

lemma aggLoop_over: "advances ite L \<Longrightarrow> L (aggChild c) [] \<Longrightarrow> \<exists>s. aggLoop w key a ite c = Some (Ok (), c\<lparr>aggChild := s\<rparr>) \<and> L s []"
  using advances_Nil [of ite L "aggChild c"] by (subst aggLoop.simps) auto

inductive totalsLeft :: "world \<Rightarrow> Aggregator \<Rightarrow> ('s \<Rightarrow> Tuple list \<Rightarrow> bool) \<Rightarrow> Tuple list \<Rightarrow> Tuple \<Rightarrow> ('s, 'h) aggClosure \<Rightarrow> Tuple list \<Rightarrow> bool"
  for w a L ts t where
  unread: "L s ts \<Longrightarrow> totalsLeft w a L ts t \<lparr>aggChild = s, aggMap = ungrouped w a [], groupByList = [], finalizedIter = NoIter\<rparr> [t]"
| returned: "L s [] \<Longrightarrow> totalsLeft w a L ts t \<lparr>aggChild = s, aggMap = m, groupByList = gs, finalizedIter = NilIter\<rparr> []"

lemma advances_totals:
  assumes "advances ite L" and "groupByFields a = None" and "\<forall>as \<in> set (newAggState a). \<exists>b. addAll w ts (Copy as) = Ok b"
    and "finished w a None ts = Ok (Some t)"
  shows "advances (aggNext w key a ite) (totalsLeft w a L ts t)"
proof (rule advancesI; erule totalsLeft.cases; clarsimp)
  fix s
  assume "L s ts"
  then obtain s' where s': "yields ite s ts s'" "L s' []" using advances_yields [OF assms(1)] by blast
  have "aggLoop w key a ite \<lparr>aggChild = s, aggMap = ungrouped w a [], groupByList = [], finalizedIter = NoIter\<rparr> =
      Some (Ok (), \<lparr>aggChild = s', aggMap = ungrouped w a ts, groupByList = [], finalizedIter = NoIter\<rparr>)"
    using aggLoop_ungrouped [OF s'(1) assms(2), of w "[]"] assms(3) by simp
  with s'(2) assms(2,4) show "\<exists>c. aggNext w key a ite \<lparr>aggChild = s, aggMap = ungrouped w a [], groupByList = [], finalizedIter = NoIter\<rparr> = Some (Ok (Some t), c) \<and> totalsLeft w a L ts t c []"
    by (auto simp: aggNext_def finished_def ungrouped_def intro: totalsLeft.returned)
next
  fix s gs and m :: "('b aggKey \<times> AggState option list) list"
  assume L: "L s []"
  let ?c = "\<lparr>aggChild = s, aggMap = m, groupByList = gs, finalizedIter = NilIter\<rparr>"
  from L aggLoop_over [OF assms(1), of ?c w key a] show "\<exists>c. aggNext w key a ite ?c = Some (Ok None, c) \<and> totalsLeft w a L ts t c []"
    by (auto simp: aggNext_def intro: totalsLeft.returned)
qed

inductive groupsLeft :: "world \<Rightarrow> (Tuple \<Rightarrow> 'h) \<Rightarrow> Aggregator \<Rightarrow> ('s \<Rightarrow> Tuple list \<Rightarrow> bool) \<Rightarrow> Tuple list \<Rightarrow> (Tuple \<Rightarrow> Tuple) \<Rightarrow>
    ('s, 'h) aggClosure \<Rightarrow> Tuple list \<Rightarrow> bool"
  for w key a L ts row where
  unread: "L s ts \<Longrightarrow> groupsLeft w key a L ts row \<lparr>aggChild = s, aggMap = [], groupByList = [], finalizedIter = NoIter\<rparr>
    (map row (firstBy key [] (map (groupTuple w a) ts)))"
| grouping: "L (aggChild c) [] \<Longrightarrow> grouped w key (groupTuple w a) a ts c \<Longrightarrow> finalizedIter c = GroupIter i \<Longrightarrow> i \<le> length (groupByList c) \<Longrightarrow>
    groupsLeft w key a L ts row c (map row (drop i (groupByList c)))"

lemma finalizedNext_step:
  assumes "L (aggChild c) []" and g: "grouped w key (groupTuple w a) a ts c" and "i \<le> length (groupByList c)"
    and row: "\<And>g. g \<in> groupTuple w a ` set ts \<Longrightarrow> finished w a (Some g) (groupOf key (groupTuple w a) (key g) ts) = Ok (Some (row g))"
  shows "\<exists>c'. finalizedNext key i c = (Ok (case map row (drop i (groupByList c)) of [] \<Rightarrow> None | r # _ \<Rightarrow> Some r), c') \<and>
    groupsLeft w key a L ts row c' (tl (map row (drop i (groupByList c))))"
proof (cases "i = length (groupByList c)")
  case True
  have "grouped w key (groupTuple w a) a ts (c\<lparr>finalizedIter := GroupIter i\<rparr>)" using g by (simp add: grouped_def)
  then show ?thesis using groupsLeft.grouping [of L "c\<lparr>finalizedIter := GroupIter i\<rparr>" w key a ts i row] assms(1) True by (simp add: finalizedNext_def)
next
  case False
  then have i: "i < length (groupByList c)" using assms(3) by simp
  let ?g = "groupByList c ! i"
  have "?g \<in> set (firstBy key [] (map (groupTuple w a) ts))" using g i by (simp add: grouped_def)
  then have mem: "?g \<in> groupTuple w a ` set ts" using firstBy_subset [of key "[]" "map (groupTuple w a) ts"] by auto
  then have m: "map_of (aggMap c) (HashKey (key ?g)) =
      Some (map (\<lambda>as. Some (partialAgg w (groupOf key (groupTuple w a) (key ?g) ts) as)) (newAggState a))"
    using g by (auto simp: grouped_def)
  have "grouped w key (groupTuple w a) a ts (c\<lparr>finalizedIter := GroupIter (Suc i)\<rparr>)" using g by (simp add: grouped_def)
  then show ?thesis
    using groupsLeft.grouping [of L "c\<lparr>finalizedIter := GroupIter (Suc i)\<rparr>" w key a ts "Suc i" row] assms(1) i m row [OF mem]
    by (simp add: finalizedNext_def Let_def finished_def Cons_nth_drop_Suc [symmetric])
qed

lemma advances_groups:
  assumes adv: "advances ite L" and "groupByFields a \<noteq> None" and ex: "\<forall>t \<in> set ts. extractGroupByKeyTuple w a t = Ok (groupTuple w a t)"
    and add: "\<forall>h. \<forall>as \<in> set (newAggState a). \<exists>b. addAll w (groupOf key (groupTuple w a) h ts) (Copy as) = Ok b"
    and row: "\<And>g. g \<in> groupTuple w a ` set ts \<Longrightarrow> finished w a (Some g) (groupOf key (groupTuple w a) (key g) ts) = Ok (Some (row g))"
  shows "advances (aggNext w key a ite) (groupsLeft w key a L ts row)"
  unfolding advances_def
proof (intro allI impI, erule groupsLeft.cases; hypsubst)
  fix c ys i
  assume c: "L (aggChild c) []" "grouped w key (groupTuple w a) a ts c" "finalizedIter c = GroupIter i" "i \<le> length (groupByList c)"
  obtain s where s: "aggLoop w key a ite c = Some (Ok (), c\<lparr>aggChild := s\<rparr>)" "L s []" using aggLoop_over [OF adv c(1)] by blast
  have "grouped w key (groupTuple w a) a ts (c\<lparr>aggChild := s\<rparr>)" using c(2) by (simp add: grouped_def)
  from finalizedNext_step [of L, OF _ this _ row, of i] s c(3,4)
  show "\<exists>c'. aggNext w key a ite c = Some (Ok (case map row (drop i (groupByList c)) of [] \<Rightarrow> None | y # _ \<Rightarrow> Some y), c') \<and>
      groupsLeft w key a L ts row c' (tl (map row (drop i (groupByList c))))"
    by (auto simp: aggNext_def)
next
  fix s
  assume L: "L s ts"
  let ?c = "\<lparr>aggChild = s, aggMap = [], groupByList = [], finalizedIter = NoIter\<rparr>"
  let ?rows = "map row (firstBy key [] (map (groupTuple w a) ts))"
  from advances_yields [OF adv L] obtain s' where s': "yields ite s ts s'" "L s' []" by blast
  have "grouped w key (groupTuple w a) a [] ?c" by (simp add: grouped_def)
  from aggLoop_grouped [OF s'(1) assms(2) ex _ this] add obtain c where
    c: "aggLoop w key a ite ?c = Some (Ok (), c)" "grouped w key (groupTuple w a) a ts c" "aggChild c = s'" "finalizedIter c = NoIter" by auto
  have g: "grouped w key (groupTuple w a) a ts (c\<lparr>finalizedIter := GroupIter 0\<rparr>)" using c(2) by (simp add: grouped_def)
  have "groupByList c = firstBy key [] (map (groupTuple w a) ts)" using c(2) by (simp add: grouped_def)
  with finalizedNext_step [of L, OF _ g _ row, of 0] s'(2) c assms(2)
  show "\<exists>c'. aggNext w key a ite ?c = Some (Ok (case ?rows of [] \<Rightarrow> None | y # _ \<Rightarrow> Some y), c') \<and> groupsLeft w key a L ts row c' (tl ?rows)"
    by (auto simp: aggNext_def)
qed


lemma finished_total:
  assumes "\<forall>as \<in> set (newAggState a). \<exists>r. aggregate w us as = Ok r" and "g = None \<longrightarrow> newAggState a \<noteq> []"
  shows "\<exists>t. finished w a g us = Ok (Some t)"
proof -
  obtain ft where "\<forall>as \<in> set (newAggState a). Finalize (partialAgg w us as) = Ok (ft as)" using assms(1) partialAgg_done by metis
  then show ?thesis
    using finalizeAll_None [of "newAggState a" "partialAgg w us" ft] finalizeAll_Some [of "newAggState a" "partialAgg w us" ft] assms(2)
    unfolding finished_def by (cases g) auto
qed

text \<open>An aggregation that is ready returns its rows.\<close>

definition aggLeft :: "world \<Rightarrow> (Tuple \<Rightarrow> 'h) \<Rightarrow> Aggregator \<Rightarrow> Tuple list \<Rightarrow> ('s \<Rightarrow> Tuple list \<Rightarrow> bool) \<Rightarrow> ('s, 'h) aggClosure \<Rightarrow> Tuple list \<Rightarrow> bool" where
  "aggLeft w key a ts L =
     (if groupByFields a = None then totalsLeft w a L ts (hd (aggRows w key a ts))
      else groupsLeft w key a L ts (\<lambda>g. case finished w a (Some g) (groupOf key (groupTuple w a) (key g) ts) of Ok (Some t) \<Rightarrow> t | _ \<Rightarrow> g))"

lemma advances_aggregate:
  assumes "advances ite L" and "aggReady w key a ts"
  shows "advances (aggNext w key a ite) (aggLeft w key a ts L)"
proof (cases "groupByFields a = None")
  case True
  with assms(2) have r: "\<forall>as \<in> set (newAggState a). \<exists>r. aggregate w ts as = Ok r" "newAggState a \<noteq> []" by (auto simp: aggReady_def)
  then obtain t where t: "finished w a None ts = Ok (Some t)" using finished_total [of a w ts None] by auto
  then have "hd (aggRows w key a ts) = t" using True by (simp add: aggRows_def)
  moreover have "\<forall>as \<in> set (newAggState a). \<exists>b. addAll w ts (Copy as) = Ok b" using r aggregate_addAll by blast
  ultimately show ?thesis using advances_totals [OF assms(1) True _ t] True by (simp add: aggLeft_def)
next
  case False
  let ?g = "groupTuple w a" and ?of = "\<lambda>g. groupOf key (groupTuple w a) (key g) ts"
  have ex: "\<forall>t \<in> set ts. extractGroupByKeyTuple w a t = Ok (?g t)" using assms(2) False by (auto simp: aggReady_def groupTuple_def)
  have ag: "\<forall>as \<in> set (newAggState a). \<exists>r. aggregate w (?of g) as = Ok r" if "g \<in> ?g ` set ts" for g
    using assms(2) False that by (auto simp: aggReady_def)
  have row: "finished w a (Some g) (?of g) = Ok (Some (case finished w a (Some g) (?of g) of Ok (Some t) \<Rightarrow> t | _ \<Rightarrow> g))" if "g \<in> ?g ` set ts" for g
    using finished_total [OF ag [OF that], of "Some g"] by auto
  have "\<forall>h. \<forall>as \<in> set (newAggState a). \<exists>b. addAll w (groupOf key ?g h ts) (Copy as) = Ok b"
  proof (intro allI ballI)
    fix h as assume "as \<in> set (newAggState a)"
    then show "\<exists>b. addAll w (groupOf key ?g h ts) (Copy as) = Ok b"
    proof (cases "h \<in> key ` ?g ` set ts")
      case True
      then obtain g where "g \<in> ?g ` set ts" "h = key g" by blast
      with ag [of g] \<open>as \<in> _\<close> show ?thesis using aggregate_addAll by metis
    next
      case False
      then have "groupOf key ?g h ts = []" by (auto simp: groupOf_def filter_empty_conv)
      then show ?thesis by simp
    qed
  qed
  then show ?thesis
    unfolding aggLeft_def if_not_P [OF False]
    by (rule advances_groups [OF assms(1) False ex]) (rule row)
qed

lemma aggOpen_rows:
  assumes "aggReady w key a ts" and "L s ts"
  shows "\<exists>c. aggOpen a (Ok (Some s)) = Ok c \<and> aggLeft w key a ts L c (aggRows w key a ts)"
proof (cases "groupByFields a = None")
  case True
  with assms(1) finished_total [of a w ts None] obtain t where "finished w a None ts = Ok (Some t)" by (auto simp: aggReady_def)
  then have "aggRows w key a ts = [t]" using True by (simp add: aggRows_def)
  with True totalsLeft.unread [of L s ts w a t] assms(2) show ?thesis by (simp add: aggOpen_def aggLeft_def ungrouped_def)
next
  case False
  then show ?thesis
    using groupsLeft.unread [of L, OF assms(2), of w key a] unfolding aggOpen_def aggLeft_def aggRows_def if_not_P [OF False] by simp
qed


section \<open>Trees of operators\<close>

text \<open>
  An operator that can be opened on any storage with the invariant \<open>I\<close> and then returns the rows \<open>ts\<close>, whatever other operators do
  in between that keeps \<open>I\<close>.
\<close>

definition runs :: "('d \<Rightarrow> bool) \<Rightarrow> ('d, 's) opener \<Rightarrow> ('d \<times> 's, Tuple) iter \<Rightarrow> Tuple list \<Rightarrow> bool" where
  "runs I op_open nxt ts \<longleftrightarrow> (\<exists>left. (\<forall>d. I d \<longrightarrow> (\<exists>d' s. op_open d = Some (Ok (Some s), d') \<and> I d' \<and> left s ts)) \<and>
     advances nxt (\<lambda>(d, s) xs. I d \<and> left s xs))"

lemma runsI:
  assumes "\<And>d. I d \<Longrightarrow> \<exists>d' s. op_open d = Some (Ok (Some s), d') \<and> I d' \<and> left s ts"
    and "advances nxt L" and "\<And>d s xs. L (d, s) xs \<longleftrightarrow> I d \<and> left s xs"
  shows "runs I op_open nxt ts"
proof -
  have "L = (\<lambda>(d, s) xs. I d \<and> left s xs)" using assms(3) by (auto simp: fun_eq_iff)
  with assms(1,2) show ?thesis by (auto simp: runs_def)
qed

lemma runsE:
  assumes "runs I op_open nxt ts"
  obtains left where "\<forall>d. I d \<longrightarrow> (\<exists>d' s. op_open d = Some (Ok (Some s), d') \<and> I d' \<and> left s ts)"
    and "advances nxt (\<lambda>(d, s) xs. I d \<and> left s xs)"
  using assms unfolding runs_def by blast

lemma runs_stable: "runs I op_open nxt ts \<longleftrightarrow> (\<exists>left. stable_operator I (\<lambda>_. ()) nxt (\<lambda>_. left) op_open (\<lambda>_. ts))"
proof
  assume "runs I op_open nxt ts"
  then obtain left where *: "\<forall>d. I d \<longrightarrow> (\<exists>d' s. op_open d = Some (Ok (Some s), d') \<and> I d' \<and> left s ts)"
    "advances nxt (\<lambda>(d, s) xs. I d \<and> left s xs)" by (rule runsE)
  have "stable_operator I (\<lambda>_. ()) nxt (\<lambda>_. left) op_open (\<lambda>_. ts)"
    using * by unfold_locales (fastforce simp: advances_def)+
  then show "\<exists>left. stable_operator I (\<lambda>_. ()) nxt (\<lambda>_. left) op_open (\<lambda>_. ts)" by (rule exI [of _ left])
next
  assume "\<exists>left. stable_operator I (\<lambda>_. ()) nxt (\<lambda>_. left) op_open (\<lambda>_. ts)"
  then obtain left where h: "stable_operator I (\<lambda>_. ()) nxt (\<lambda>_. left) op_open (\<lambda>_. ts)" ..
  note step = stable_child.step [OF stable_operator.axioms(1) [OF h]]
  show "runs I op_open nxt ts"
    by (rule runsI [of I op_open left ts nxt "\<lambda>(d, s) xs. I d \<and> left s xs"])
      (use stable_operator.open_all [OF h] step in \<open>fastforce simp: advances_def\<close>)+
qed

lemma runs_yields:
  assumes "runs I op_open nxt ts" and "I d"
  shows "\<exists>s d1 d2 s'. op_open d = Some (Ok (Some s), d1) \<and> yields nxt (d1, s) ts (d2, s') \<and> I d2"
proof -
  obtain left where h: "\<forall>d. I d \<longrightarrow> (\<exists>d' s. op_open d = Some (Ok (Some s), d') \<and> I d' \<and> left s ts)"
    "advances nxt (\<lambda>(d, s) xs. I d \<and> left s xs)" using assms(1) by (rule runsE)
  obtain d1 s where 1: "op_open d = Some (Ok (Some s), d1)" "I d1" "left s ts" using h(1) assms(2) by blast
  with advances_yields [OF h(2), of "(d1, s)" ts] show ?thesis by auto
qed

text \<open>The operators, one by one.\<close>

lemma runs_file:
  "runs (\<lambda>db. sharing files (rtTid rt) db \<and> viewOf files db = v) (opOpen rt (FileOp (files s))) (opNext rt (FileOp (files s))) (scanTuples (files s) v)"
proof -
  let ?I = "\<lambda>db. sharing files (rtTid rt) db \<and> viewOf files db = v"
  have "advances (scanNext (files s) (rtTid rt)) (\<lambda>(db, st) xs. ?I db \<and> scanRest (files s) v st = xs)"
    unfolding advances_def using scan_op.step [of files "rtTid rt" _ s] by fastforce
  from advances_through [OF this, of "opNext rt (FileOp (files s))" "\<lambda>(db, i, j). (db, ScanState i j)"]
  have "advances (opNext rt (FileOp (files s)))
      (\<lambda>t xs. \<exists>st. t = (case st of (db, i, j) \<Rightarrow> (db, ScanState i j)) \<and> (case st of (db, st) \<Rightarrow> \<lambda>xs. ?I db \<and> scanRest (files s) v st = xs) xs)"
    by (simp add: split_def)
  then show ?thesis
    by (rule runsI [where left = "\<lambda>st xs. \<exists>i j. st = ScanState i j \<and> scanRest (files s) v (i, j) = xs", rotated])
      (auto simp: onOpen_def scanOpen_def scanRest_0)
qed

text \<open>An operator with one child whose closure it captures, beside a variable of its own.\<close>

lemma runs_over:
  assumes child: "runs I copen cnext ts" and "Q ts"
    and opens: "\<And>d d' s. copen d = Some (Ok (Some s), d') \<Longrightarrow> oopen d = Some (Ok (Some (emb (Some s) start)), d')"
    and adv: "\<And>L. advances (call cnext) L \<Longrightarrow> advances nxt (\<lambda>((d, so), x) ys. \<exists>xs. L (d, so) xs \<and> Q xs \<and> ys = F x xs)"
    and next_eq: "\<And>d so x. onext (d, emb so x) = through (\<lambda>((d, so), x). (d, emb so x)) (nxt ((d, so), x))"
  shows "runs I oopen onext (F start ts)"
proof -
  obtain left where h: "\<forall>d. I d \<longrightarrow> (\<exists>d' s. copen d = Some (Ok (Some s), d') \<and> I d' \<and> left s ts)"
    "advances cnext (\<lambda>(d, s) xs. I d \<and> left s xs)" using child by (rule runsE)
  have a: "advances onext (\<lambda>t ys. \<exists>st. t = (case st of ((d, so), x) \<Rightarrow> (d, emb so x)) \<and>
      (case st of ((d, so), x) \<Rightarrow> \<lambda>ys. \<exists>xs. (\<exists>s. so = Some s \<and> I d \<and> left s xs) \<and> Q xs \<and> ys = F x xs) ys)"
    by (rule advances_through [where nxt = nxt]) (use adv [OF advances_call [OF h(2)]] next_eq in \<open>auto simp: split_def\<close>)
  show ?thesis
  proof (rule runsI [OF _ a])
    fix d assume "I d"
    then obtain d' s where "copen d = Some (Ok (Some s), d')" "I d'" "left s ts" using h(1) by blast
    then show "\<exists>d' st. oopen d = Some (Ok (Some st), d') \<and> I d' \<and> (\<exists>s x xs. st = emb (Some s) x \<and> left s xs \<and> Q xs \<and> F start ts = F x xs)"
      using opens assms(2) by blast
  qed force
qed

lemma runs_filter:
  assumes "runs I (opOpen rt c) (opNext rt c) ts" and "\<forall>t \<in> set ts. \<exists>b. filterPred (rtWorld rt) (rtRegexp rt) f t = Ok b"
  shows "runs I (opOpen rt (FilterOp f c)) (opNext rt (FilterOp f c)) (filter (keeps (rtWorld rt) (rtRegexp rt) f) ts)"
proof -
  let ?nxt = "\<lambda>(s, _ :: unit). map_option (\<lambda>(r, s). (r, s, ())) (filterNext (rtWorld rt) (rtRegexp rt) f (call (opNext rt c)) s)"
  show ?thesis
  proof (rule runs_over [OF assms(1), where emb = "\<lambda>so _. FilterState so" and Q = "\<lambda>xs. \<forall>t \<in> set xs. \<exists>b. filterPred (rtWorld rt) (rtRegexp rt) f t = Ok b" and start = "()" and F = "\<lambda>_. filter (keeps (rtWorld rt) (rtRegexp rt) f)" and nxt = ?nxt])
    fix L assume "advances (call (opNext rt c)) L"
    from advances_filter [OF this, of "rtWorld rt" "rtRegexp rt" f]
    show "advances ?nxt (\<lambda>((d, so), x) ys. \<exists>xs. L (d, so) xs \<and> (\<forall>t \<in> set xs. \<exists>b. filterPred (rtWorld rt) (rtRegexp rt) f t = Ok b) \<and>
        ys = filter (keeps (rtWorld rt) (rtRegexp rt) f) xs)"
      unfolding advances_def by fastforce
  qed (use assms(2) in \<open>auto simp: through_def split_def option.map_comp comp_def\<close>)
qed

lemma runs_project:
  assumes "runs I (opOpen rt c) (opNext rt c) ts" and "\<forall>t \<in> set ts. \<exists>t'. projectTuple (rtWorld rt) p t = Ok t'"
  shows "runs I (opOpen rt (ProjectOp p c)) (opNext rt (ProjectOp p c)) (projectResult (rtWorld rt) (rtKey rt) p [] ts)"
  by (rule runs_over [OF assms(1), where emb = ProjectState and start = "[]" and F = "projectResult (rtWorld rt) (rtKey rt) p"
      and Q = "\<lambda>xs. \<forall>t \<in> set xs. \<exists>t'. projectTuple (rtWorld rt) p t = Ok t'" and nxt = "projectNext (rtWorld rt) (rtKey rt) p (call (opNext rt c))"])
    (use assms(2) in \<open>auto simp: capture_def openOrNil_def case_prod_unfold dest: advances_project\<close>)

lemma runs_limit:
  assumes "runs I (opOpen rt c) (opNext rt c) ts" and "limitValue (rtWorld rt) e = Ok n"
  shows "runs I (opOpen rt (LimitOp e c)) (opNext rt (LimitOp e c)) (take (limitCount (rtWorld rt) e) ts)"
proof -
  have "runs I (opOpen rt (LimitOp e c)) (opNext rt (LimitOp e c)) (take (nat (n - 0)) ts)"
    by (rule runs_over [OF assms(1), where emb = LimitState and nxt = "limitNext (rtWorld rt) e (call (opNext rt c))" and Q = "\<lambda>_. True" and start = 0
        and F = "\<lambda>c. take (nat (n - c))"])
      (auto simp: capture_def openOrNil_def case_prod_unfold dest: advances_limit [OF _ assms(2)])
  then show ?thesis using assms(2) by (simp add: limitCount_def)
qed

lemma runs_values:
  assumes "\<forall>es \<in> set (valueExprs v). \<exists>vs. map_go (\<lambda>e. EvalExpr (rtWorld rt) e None) es = Ok vs"
  shows "runs I (opOpen rt (ValuesOp v)) (opNext rt (ValuesOp v)) (map (valueTuple (rtWorld rt) v) (valueExprs v))"
proof -
  let ?L = "\<lambda>(d, n) xs. I d \<and> xs = map (valueTuple (rtWorld rt) v) (drop n (valueExprs v))"
  have "advances (\<lambda>(d, n). map_option (\<lambda>(r, n). (r, d, n)) (valueNext (rtWorld rt) v n)) ?L"
    using advances_values [OF assms] unfolding advances_def by fastforce
  from advances_through [OF this, of "opNext rt (ValuesOp v)" "\<lambda>(d, n). (d, ValueState n)"]
  have "advances (opNext rt (ValuesOp v)) (\<lambda>t xs. \<exists>s. t = (case s of (d, n) \<Rightarrow> (d, ValueState n)) \<and> ?L s xs)"
    by (simp add: through_def option.map_comp comp_def split_def)
  then show ?thesis
    by (rule runsI [where left = "\<lambda>st xs. \<exists>n. st = ValueState n \<and> xs = map (valueTuple (rtWorld rt) v) (drop n (valueExprs v))", rotated]) auto
qed


lemma opNext_join:
  "opNext rt (JoinOp j l r) (case s of (d, js) \<Rightarrow> (d, JoinState (leftTuple js) (leftIte js) (rightIte js))) =
   through (\<lambda>(d, js). (d, JoinState (leftTuple js) (leftIte js) (rightIte js))) (joinNext (rtWorld rt) j (opNext rt l) (opOpen rt r) (opNext rt r) s)"
  by (cases s; cases "snd s") simp

lemma opNext_aggregate:
  "opNext rt (AggregatorOp a c) (fst (aggChild cl), AggregateState (snd (aggChild cl)) (aggMap cl) (groupByList cl) (finalizedIter cl)) =
   through (\<lambda>cl. (fst (aggChild cl), AggregateState (snd (aggChild cl)) (aggMap cl) (groupByList cl) (finalizedIter cl)))
     (aggNext (rtWorld rt) (rtKey rt) a (opNext rt c) cl)"
  by (cases cl) simp

lemma runs_join:
  assumes l: "runs I (opOpen rt l) (opNext rt l) lts" and r: "runs I (opOpen rt r) (opNext rt r) rts" and "lts \<noteq> []" and "rts \<noteq> []"
    and "\<forall>t \<in> set lts. evaluates (rtWorld rt) (leftField j) t" and "\<forall>t \<in> set rts. evaluates (rtWorld rt) (rightField j) t"
  shows "runs I (opOpen rt (JoinOp j l r)) (opNext rt (JoinOp j l r)) (joinResult (rtWorld rt) j lts rts)"
proof -
  obtain ll where ll: "stable_operator I (\<lambda>_. ()) (opNext rt l) (\<lambda>_. ll) (opOpen rt l) (\<lambda>_. lts)" using l unfolding runs_stable by blast
  obtain rl where rl: "stable_operator I (\<lambda>_. ()) (opNext rt r) (\<lambda>_. rl) (opOpen rt r) (\<lambda>_. rts)" using r unfolding runs_stable by blast
  let ?nxt = "joinNext (rtWorld rt) j (opNext rt l) (opOpen rt r) (opNext rt r)" and ?left = "pairsLeft (joins (rtWorld rt) j) ll rl lts rts"
  have "stable_operator I (\<lambda>_. ()) ?nxt (\<lambda>_. ?left) (joinOpen (opOpen rt l) (opNext rt l) (opOpen rt r)) (\<lambda>_. joinResult (rtWorld rt) j lts rts)"
    by (rule join_inputs.join_stable [OF join_inputs.intro [OF ll rl]]) (use assms(3-6) in \<open>auto simp: evaluates_def\<close>)
  note h = this
  have "advances ?nxt (\<lambda>(d, js) xs. I d \<and> ?left js xs)"
    using stable_child.step [OF stable_operator.axioms(1) [OF h]] unfolding advances_def by fastforce
  from advances_through [OF this opNext_join]
  show ?thesis
    by (rule runsI [where left = "\<lambda>st xs. \<exists>js. st = JoinState (leftTuple js) (leftIte js) (rightIte js) \<and> ?left js xs", rotated])
      (use stable_operator.open_all [OF h] in \<open>fastforce simp: onOpen_def\<close>)+
qed

lemma runs_order:
  assumes "runs I (opOpen rt c) (opNext rt c) ts" and "sort_Sort (rtSort rt) (multiLess (lessFuncs (rtWorld rt) ob)) ts = Ok ys"
  shows "runs I (opOpen rt (OrderByOp ob c)) (opNext rt (OrderByOp ob c)) ys"
proof -
  obtain left where h: "\<forall>d. I d \<longrightarrow> (\<exists>d' s. opOpen rt c d = Some (Ok (Some s), d') \<and> I d' \<and> left s ts)"
    "advances (opNext rt c) (\<lambda>(d, s) xs. I d \<and> left s xs)" using assms(1) by (rule runsE)
  let ?L = "\<lambda>(d, tsi) xs. I d \<and> xs = drop (snd tsi) (fst tsi)"
  have "advances (\<lambda>(d, tsi). map_option (\<lambda>(r, tsi). (r, d, tsi)) (sliceNext tsi)) ?L"
    using advances_slice unfolding advances_def by fastforce
  from advances_through [OF this, of "opNext rt (OrderByOp ob c)" "\<lambda>(d, ts, n). (d, SortState ts n)"]
  have a: "advances (opNext rt (OrderByOp ob c)) (\<lambda>t xs. \<exists>s. t = (case s of (d, ts, n) \<Rightarrow> (d, SortState ts n)) \<and> ?L s xs)"
    by (simp add: through_def option.map_comp comp_def split_def)
  show ?thesis
  proof (rule runsI [OF _ a])
    fix d assume "I d"
    then obtain d1 s where 1: "opOpen rt c d = Some (Ok (Some s), d1)" "I d1" "left s ts" using h(1) by blast
    from advances_yields [OF advances_call [OF h(2)], of "(d1, Some s)" ts] 1 obtain d2 so where
      "yields (call (opNext rt c)) (d1, Some s) ts (d2, so)" "I d2" by auto
    from collect_yields [OF this(1)] this(2) 1 assms(2)
    show "\<exists>d' st. opOpen rt (OrderByOp ob c) d = Some (Ok (Some st), d') \<and> I d' \<and> (\<exists>ts n. st = SortState ts n \<and> ys = drop n ts)"
      by (auto simp: openOrNil_def orderByOpen_def)
  qed auto
qed

text \<open>What an aggregation has left depends on the state of its child only through what that has left.\<close>

lemma groupsLeft_child:
  assumes "groupsLeft w key a L ts row c ys" and "\<And>us. L (aggChild c) us \<Longrightarrow> L s us"
  shows "groupsLeft w key a L ts row (c\<lparr>aggChild := s\<rparr>) ys"
  using assms(1)
proof cases
  case (unread s')
  then show ?thesis using groupsLeft.unread [of L s ts w key a row] assms(2) by simp
next
  case (grouping i)
  have "grouped w key (groupTuple w a) a ts (c\<lparr>aggChild := s\<rparr>)" using grouping(3) by (simp add: grouped_def)
  then show ?thesis using groupsLeft.grouping [of L "c\<lparr>aggChild := s\<rparr>" w key a ts i row] grouping assms(2) by simp
qed

lemma aggLeft_child:
  assumes "aggLeft w key a ts L c ys" and "\<And>us. L (aggChild c) us \<Longrightarrow> L s us"
  shows "aggLeft w key a ts L (c\<lparr>aggChild := s\<rparr>) ys"
  using assms groupsLeft_child [of w key a L ts] 
  by (auto simp: aggLeft_def elim!: totalsLeft.cases intro!: totalsLeft.intros split: if_splits)

lemma aggLeft_reads: "aggLeft w key a ts L c ys \<Longrightarrow> \<exists>us. L (aggChild c) us"
  by (auto simp: aggLeft_def elim!: totalsLeft.cases groupsLeft.cases split: if_splits)

lemma runs_aggregate:
  assumes "runs I (opOpen rt c) (opNext rt c) ts" and "aggReady (rtWorld rt) (rtKey rt) a ts"
  shows "runs I (opOpen rt (AggregatorOp a c)) (opNext rt (AggregatorOp a c)) (aggRows (rtWorld rt) (rtKey rt) a ts)"
proof -
  obtain left where h: "\<forall>d. I d \<longrightarrow> (\<exists>d' s. opOpen rt c d = Some (Ok (Some s), d') \<and> I d' \<and> left s ts)"
    "advances (opNext rt c) (\<lambda>(d, s) xs. I d \<and> left s xs)" using assms(1) by (rule runsE)
  let ?emb = "\<lambda>cl. AggregateState (snd (aggChild cl)) (aggMap cl) (groupByList cl) (finalizedIter cl)"
  let ?L = "aggLeft (rtWorld rt) (rtKey rt) a ts (\<lambda>(d, s) xs. I d \<and> left s xs)"
  show ?thesis
  proof (rule runsI [OF _ advances_through [OF advances_aggregate [OF h(2) assms(2)] opNext_aggregate]])
    fix d assume "I d"
    then obtain d1 s where 1: "opOpen rt c d = Some (Ok (Some s), d1)" "I d1" "left s ts" using h(1) by blast
    from aggOpen_rows [OF assms(2), of "\<lambda>(d, s) xs. I d \<and> left s xs" "(d1, s)"] 1(2,3)
    obtain cl where cl: "aggOpen a (Ok (Some (d1, s))) = Ok cl" "?L cl (aggRows (rtWorld rt) (rtKey rt) a ts)" by auto
    then have "aggOpen a (Ok (Some s)) = Ok \<lparr>aggChild = s, aggMap = aggMap cl, groupByList = groupByList cl, finalizedIter = finalizedIter cl\<rparr>"
      and "aggChild cl = (d1, s)" by (auto simp: aggOpen_def)
    with 1(1) have "opOpen rt (AggregatorOp a c) d = Some (Ok (Some (?emb cl)), d1)" by simp
    with 1(2) cl(2) show "\<exists>d' st. opOpen rt (AggregatorOp a c) d = Some (Ok (Some st), d') \<and> I d' \<and>
        (\<exists>cl. st = ?emb cl \<and> ?L cl (aggRows (rtWorld rt) (rtKey rt) a ts))" by blast
  next
    fix d st xs
    show "(\<exists>cl. (d, st) = (fst (aggChild cl), ?emb cl) \<and> ?L cl xs) \<longleftrightarrow> I d \<and> (\<exists>cl. st = ?emb cl \<and> ?L cl xs)"
    proof
      assume "I d \<and> (\<exists>cl. st = ?emb cl \<and> ?L cl xs)"
      then obtain cl where cl: "I d" "st = ?emb cl" "?L cl xs" by blast
      then have "?L (cl\<lparr>aggChild := (d, snd (aggChild cl))\<rparr>) xs" by (intro aggLeft_child) auto
      with cl(2) show "\<exists>cl. (d, st) = (fst (aggChild cl), ?emb cl) \<and> ?L cl xs"
        by (intro exI [of _ "cl\<lparr>aggChild := (d, snd (aggChild cl))\<rparr>"]) simp
    qed (use aggLeft_reads in fastforce)
  qed
qed

text \<open>Every tree that is ready returns the rows it denotes.\<close>

lemma tree_runs:
  assumes "opReady rt (\<lambda>f. scanTuples f v) (\<lambda>f. files (fromFile f) = f) op"
  shows "runs (\<lambda>db. sharing files (rtTid rt) db \<and> viewOf files db = v) (opOpen rt op) (opNext rt op) (opRows rt (\<lambda>f. scanTuples f v) op)"
  using assms
proof (induction op)
  case (FileOp f)
  then show ?case using runs_file [of files rt v "fromFile f"] by simp
next
  case (FilterOp f c)
  then show ?case by (auto intro: runs_filter simp del: opOpen.simps opNext.simps)
next
  case (JoinOp j l r)
  then show ?case by (auto intro!: runs_join simp del: opOpen.simps opNext.simps)
next
  case (ProjectOp p c)
  then show ?case by (auto intro: runs_project simp del: opOpen.simps opNext.simps)
next
  case (AggregatorOp a c)
  then show ?case by (auto intro: runs_aggregate simp del: opOpen.simps opNext.simps)
next
  case (OrderByOp ob c)
  then show ?case by (auto intro: runs_order simp del: opOpen.simps opNext.simps)
next
  case (LimitOp e c)
  then show ?case by (auto intro: runs_limit simp del: opOpen.simps opNext.simps)
next
  case (ValuesOp v)
  then show ?case by (auto intro: runs_values simp del: opOpen.simps opNext.simps)
qed simp_all

end
