(* ===== verification/SelectRuns.thy ===== *)
theory SelectRuns
  imports Statements Execution
begin

text \<open>
  Running the plans: what a SELECT over one table returns, and what becomes of a row that a VALUES list has inserted.
\<close>

section \<open>Running a plan\<close>


section \<open>The tuples of a scan\<close>

lemma visible_page:
  assumes "sharing files tid db" and "visible files db (pageKey (files s) n) = Some p"
  shows "page_of (files s) p"
proof -
  have ok: "db_ok files db" and f: "files (fromFile (files s)) = files s"
    using assms(1) sharing_file by (auto simp: sharing_def scan_ready_def)
  then have d: "disk_ok files (disk db)" by (simp add: db_ok_def)
  have "page_at files (pageKey (files s) n) p"
  proof (cases "map_of (pages db) (pageKey (files s) n)")
    case (Some r)
    with pool_page_at(6) [OF ok f Some] assms(2) show ?thesis by (simp add: visible_def)
  next
    case None
    then have l: "load_page files (disk db) (pageKey (files s) n) = Some p" using assms(2) by (simp add: visible_def)
    then have "n < NumPages (files s) (disk db)" using load_page_NumPages [OF l] f by (simp add: pageKey_def)
    with d l show ?thesis unfolding disk_ok_def pageKey_def by (metis (no_types, lifting) option.inject)
  qed
  then show ?thesis using f by (simp add: page_at_def pageKey_def)
qed

lemma scanTuples_fit:
  assumes "sharing files tid db" and "t \<in> set (scanTuples (files s) (viewOf files db))"
  shows "tupleFits (hfDesc (files s)) t"
proof -
  obtain n p where "visible files db (pageKey (files s) n) = Some p" and t: "t \<in> set (somes (tuples p))"
    using assms(2) by (auto simp: scanTuples_def pageTuples_def viewOf_def split: option.splits)
  with visible_page [OF assms(1)] have "page_of (files s) p" by blast
  then have "page_fits p" "pgDesc p = hfDesc (files s)" by (simp_all add: page_of_def)
  with t show ?thesis by (simp add: page_fits_def)
qed

section \<open>A column of a tuple\<close>

lemma field_value:
  "findFieldInTd f (Desc t) = (int i, None) \<Longrightarrow> i < length (Fields (Desc t)) \<Longrightarrow> i < length (TFields t) \<Longrightarrow>
    EvalExpr w (FieldExpr f) (Some t) = Ok (TFields t ! i)"
  by (simp add: project_def Let_def)

lemma column_value:
  assumes "Desc t = setTableAlias d tab" and "length (TFields t) = length (Fields d)" and "distinct (map Fname (Fields d))" and "hasCol d col"
  shows "EvalExpr w (FieldExpr (colField d q col)) (Some t) = Ok (TFields t ! colIndex d col)"
proof -
  let ?i = "colIndex d col"
  have i: "?i < length (Fields d)" "Fname (Fields d ! ?i) = col" using colIndex_nth [OF assms(4)] by auto
  then have "fieldMatches (colField d q col) (Fields (setTableAlias d tab) ! ?i)"
    by (simp add: alias_nth fieldMatches_def colField_def colType_def)
  then have "findFieldInTd (colField d q col) (Desc t) = (int ?i, None)"
    using findFieldInTd_distinct [of "setTableAlias d tab" ?i] assms(1,3) i(1) by simp
  from field_value [OF this] show ?thesis using assms(1,2) i(1) by (simp del: EvalExpr.simps)
qed

text \<open>The rows of a table with the columns \<open>d\<close>.\<close>

definition rowOf :: "TupleDesc \<Rightarrow> DBValue list \<Rightarrow> bool" where
  "rowOf d row \<longleftrightarrow> list_all2 (\<lambda>f v. valueFits (Ftype f) v) (Fields d) row"

lemma rowOf_value:
  assumes "rowOf d row" and "hasCol d col"
  shows "(case colType d col of IntType \<Rightarrow> \<exists>n. row ! colIndex d col = IntField n | StringType \<Rightarrow> \<exists>s. row ! colIndex d col = StringField s | UnknownType \<Rightarrow> False)"
proof -
  have "valueFits (colType d col) (row ! colIndex d col)"
    using assms colIndex_nth [OF assms(2)] by (auto simp: rowOf_def colType_def list_all2_conv_all_nth)
  then show ?thesis by (cases "(colType d col, row ! colIndex d col)" rule: valueFits.cases) auto
qed


section \<open>What a SELECT means\<close>

definition litValue :: "string \<Rightarrow> DBValue" where
  "litValue lit = (case litExpr lit of ConstExpr v ty \<Rightarrow> v | _ \<Rightarrow> NilValue)"

text \<open>What the comparisons of SQL mean; a pattern of \<^verbatim>\<open>LIKE\<close> with metacharacters of regular expressions is up to the matcher \<open>rx\<close>.\<close>

definition ordHolds :: "string \<Rightarrow> 'a :: linorder \<Rightarrow> 'a \<Rightarrow> bool" where
  "ordHolds op a b =
     (if op = ''='' then a = b else if op = ''<>'' \<or> op = ''!='' then a \<noteq> b
      else if op = ''<'' then a < b else if op = ''<='' then a \<le> b
      else if op = ''>'' then a > b else op = ''>='' \<and> a \<ge> b)"

fun sqlHolds :: "(string \<Rightarrow> string \<Rightarrow> bool) \<Rightarrow> string \<Rightarrow> DBValue \<Rightarrow> DBValue \<Rightarrow> bool" where
  "sqlHolds rx op (IntField a) (IntField b) = ordHolds op (sint a) (sint b)"
| "sqlHolds rx op (StringField a) (StringField b) =
     (if op = ''like'' then if list_all is_plain b then like b a else likeString rx a b else ordHolds op a b)"
| "sqlHolds rx op _ _ = False"

lemma sqlHolds_int: "sqlOperator IntType op \<Longrightarrow> evalPred_int64 a b (BoolOpMap_get op) = sqlHolds rx op (IntField a) (IntField b)"
  unfolding sqlOperator_def evalPred_int64_def BoolOpMap_get_def BoolOpMap_def
  by (elim disjE conjE insertE emptyE) (auto simp: ordHolds_def le_less dest: signed_word_eqI)

lemma sqlHolds_string: "sqlOperator StringType op \<Longrightarrow> evalPred_string rx a b (BoolOpMap_get op) = sqlHolds rx op (StringField a) (StringField b)"
  unfolding sqlOperator_def evalPred_string_def BoolOpMap_get_def BoolOpMap_def
  by (elim disjE conjE insertE emptyE) (auto simp: ordHolds_def likeString_plain le_less)

text \<open>A row satisfies a condition.\<close>

definition satisfies :: "(string \<Rightarrow> string \<Rightarrow> bool) \<Rightarrow> TupleDesc \<Rightarrow> condition \<Rightarrow> DBValue list \<Rightarrow> bool" where
  "satisfies rx d cnd row = sqlHolds rx (condOp cnd) (row ! colIndex d (snd (condCol cnd))) (litValue (condLit cnd))"

text \<open>The select list on the rows, in their order, the first of equal rows under DISTINCT, and the limit.\<close>

fun selected :: "TupleDesc \<Rightarrow> selectList \<Rightarrow> bool \<Rightarrow> DBValue list list \<Rightarrow> DBValue list list" where
  "selected d AllColumns dist rws = rws"
| "selected d (Items its) dist rws =
     (let out = map (\<lambda>row. map (\<lambda>it. row ! colIndex d (snd (fst it))) its) rws in if dist then firstBy id [] out else out)"

fun limited :: "string option \<Rightarrow> 'a list \<Rightarrow> 'a list" where
  "limited None rws = rws"
| "limited (Some lit) rws = (case litValue lit of IntField n \<Rightarrow> take (nat (sint n)) rws | _ \<Rightarrow> [])"

definition selectRows :: "(string \<Rightarrow> string \<Rightarrow> bool) \<Rightarrow> TupleDesc \<Rightarrow> condition list \<Rightarrow> selectList \<Rightarrow> string option \<Rightarrow> bool \<Rightarrow>
    DBValue list list \<Rightarrow> DBValue list list" where
  "selectRows rx d cnds sl lim dist rws = limited lim (selected d sl dist (filter (\<lambda>row. \<forall>cnd \<in> set cnds. satisfies rx d cnd row) rws))"

lemma litExpr_cases:
  "litType lit = IntType \<Longrightarrow> \<exists>n. litExpr lit = ConstExpr (IntField n) IntType"
  "litType lit = StringType \<Longrightarrow> \<exists>s. litExpr lit = ConstExpr (StringField s) StringType"
  by (auto simp: litType_def litExpr_def split: go_result.splits option.splits)

text \<open>A tuple of the table: its descriptor and its values.\<close>

definition tupleOf :: "string \<Rightarrow> TupleDesc \<Rightarrow> Tuple \<Rightarrow> bool" where
  "tupleOf tab d t \<longleftrightarrow> Desc t = setTableAlias d tab \<and> rowOf d (TFields t)"

lemma tupleOf_length: "tupleOf tab d t \<Longrightarrow> length (TFields t) = length (Fields d)"
  by (simp add: tupleOf_def rowOf_def) (metis list_all2_lengthD)

lemma tupleOf_column:
  "tupleOf tab d t \<Longrightarrow> distinct (map Fname (Fields d)) \<Longrightarrow> hasCol d col \<Longrightarrow>
    evalOrNil w (FieldExpr (colField d q col)) (Some t) = Ok (TFields t ! colIndex d col)"
  using column_value [of t d tab col w q] list_all2_lengthD [of _ "Fields d" "TFields t"]
  unfolding evalOrNil_def tupleOf_def rowOf_def by (metis go_result.simps(10))

lemma condFilter_pred:
  assumes "tupleOf tab d t" and "distinct (map Fname (Fields d))" and "condOk tab d cnd"
  shows "filterPred w rx (condFilter tab d cnd) t = Ok (satisfies rx d cnd (TFields t))"
proof -
  let ?col = "snd (condCol cnd)"
  have c: "hasCol d ?col" "litType (condLit cnd) = colType d ?col" "colType d ?col \<noteq> UnknownType" "sqlOperator (colType d ?col) (condOp cnd)"
    using assms(3) by (auto simp: condOk_def columnOk_def)
  have e: "evalOrNil w (FieldExpr (colField d tab ?col)) (Some t) = Ok (TFields t ! colIndex d ?col)"
    by (rule tupleOf_column [OF assms(1,2) c(1)])
  have v: "case colType d ?col of IntType \<Rightarrow> \<exists>n. TFields t ! colIndex d ?col = IntField n | StringType \<Rightarrow> \<exists>s. TFields t ! colIndex d ?col = StringField s | UnknownType \<Rightarrow> False"
    using rowOf_value [OF _ c(1)] assms(1) by (simp add: tupleOf_def)
  have k: "evalOrNil w (ConstExpr x ty) u = Ok x" for x ty u by (simp add: evalOrNil_def)
  show ?thesis
  proof (cases "colType d ?col")
    case IntType
    then obtain n m where "TFields t ! colIndex d ?col = IntField n" "litExpr (condLit cnd) = ConstExpr (IntField m) IntType"
      using v litExpr_cases(1) [of "condLit cnd"] c(2) by auto
    with e IntType c(4) sqlHolds_int [of _ n m] show ?thesis
      by (simp add: filterPred_def condFilter_def newFilter_def satisfies_def litValue_def k del: sqlHolds.simps)
  next
    case StringType
    then obtain n m where "TFields t ! colIndex d ?col = StringField n" "litExpr (condLit cnd) = ConstExpr (StringField m) StringType"
      using v litExpr_cases(2) [of "condLit cnd"] c(2) by auto
    with e StringType c(4) sqlHolds_string [of _ rx n m] show ?thesis
      by (simp add: filterPred_def condFilter_def newFilter_def satisfies_def litValue_def k del: sqlHolds.simps)
  qed (use c(3) in simp)
qed

text \<open>The columns of the results, and a tuple of a projection.\<close>

fun selectDesc :: "string \<Rightarrow> TupleDesc \<Rightarrow> selectList \<Rightarrow> TupleDesc" where
  "selectDesc tab d AllColumns = setTableAlias d tab"
| "selectDesc tab d (Items its) = \<lparr>Fields = map (\<lambda>it. (colField d tab (snd (fst it)))\<lparr>Fname := itemName it\<rparr>) its\<rparr>"

definition rowTuple :: "TupleDesc \<Rightarrow> DBValue list \<Rightarrow> Tuple" where
  "rowTuple d row = \<lparr>Desc = d, TFields = row, Rid = None\<rparr>"

lemma rowTuple_fields [simp]: "TFields (rowTuple d row) = row"
  by (simp add: rowTuple_def)

lemma named_fields:
  "map (\<lambda>(e, name). (GetExprType w e)\<lparr>Fname := name\<rparr>) (zip (map (\<lambda>it. FieldExpr (f it)) its) (map g its)) = map (\<lambda>it. (f it)\<lparr>Fname := g it\<rparr>) its"
  by (induction its) (simp_all add: GetExprType_def)

lemma itemProject_tuple:
  assumes "distinct (map Fname (Fields d))" and "\<forall>it \<in> set its. columnOk tab d (fst it)"
    and "tupleOf tab d t"
  shows "projectTuple w (itemProject tab d its dist) t =
    Ok (rowTuple (selectDesc tab d (Items its)) (map (\<lambda>it. TFields t ! colIndex d (snd (fst it))) its))"
proof -
  let ?p = "itemProject tab d its dist"
  have "projectDescriptor w ?p = Ok (selectDesc tab d (Items its))" by (simp add: projectDescriptor_def itemProject_def named_fields)
  moreover have "map_go (\<lambda>e. evalOrNil w e (Some t)) (selectFields ?p) = Ok (map (\<lambda>it. TFields t ! colIndex d (snd (fst it))) its)"
    using tupleOf_column [OF assms(3,1)] assms(2) by (auto simp: itemProject_def map_go_Ok_iff list_all2_conv_all_nth columnOk_def)
  ultimately show ?thesis by (simp add: projectTuple_def rowTuple_def)
qed


lemma chain_rows:
  assumes "distinct (map Fname (Fields d))" and "\<forall>cnd \<in> set cnds. condOk tab d cnd"
    and "opReady rt scan known op" and "\<forall>t \<in> set (opRows rt scan op). tupleOf tab d t"
  shows "opReady rt scan known (filterChain tab d cnds op) \<and> opRows rt scan (filterChain tab d cnds op) =
    filter (\<lambda>t. \<forall>cnd \<in> set cnds. satisfies (rtRegexp rt) d cnd (TFields t)) (opRows rt scan op)"
  using assms(2-4)
proof (induction cnds arbitrary: op)
  case Nil
  then show ?case by (simp add: filterChain_def)
next
  case (Cons cnd cnds)
  let ?op = "FilterOp (condFilter tab d cnd) op"
  have p: "\<forall>t \<in> set (opRows rt scan op). filterPred (rtWorld rt) (rtRegexp rt) (condFilter tab d cnd) t = Ok (satisfies (rtRegexp rt) d cnd (TFields t))"
    using condFilter_pred [OF _ assms(1)] Cons.prems(1,3) by auto
  then have rws: "opRows rt scan ?op = filter (\<lambda>t. satisfies (rtRegexp rt) d cnd (TFields t)) (opRows rt scan op)"
    by (auto simp: keeps_def intro!: filter_cong)
  have "opReady rt scan known ?op" using Cons.prems(2) p by auto
  from Cons.IH [OF _ this] Cons.prems(1,3) have "opReady rt scan known (filterChain tab d cnds ?op) \<and> opRows rt scan (filterChain tab d cnds ?op) =
      filter (\<lambda>t. \<forall>cnd \<in> set cnds. satisfies (rtRegexp rt) d cnd (TFields t)) (opRows rt scan ?op)" unfolding rws by simp
  then show ?case unfolding rws by (auto simp: filterChain_def intro!: filter_cong)
qed

lemma firstBy_map:
  "inj_on h (set seen \<union> g ` set xs) \<Longrightarrow> \<forall>x \<in> set xs. key x = h (g x) \<Longrightarrow> map g (firstBy key (map h seen) xs) = firstBy id seen (map g xs)"
proof (induction xs arbitrary: seen)
  case (Cons x xs)
  have "h (g x) \<in> h ` set seen \<longleftrightarrow> g x \<in> set seen" by (rule inj_on_image_mem_iff [OF Cons.prems(1)]) auto
  moreover have "inj_on h (set seen \<union> g ` set xs)" "inj_on h (set (g x # seen) \<union> g ` set xs)"
    using Cons.prems(1) by (auto intro: inj_on_subset)
  ultimately show ?case using Cons.IH [of seen] Cons.IH [of "g x # seen"] Cons.prems(2) by simp
qed simp

text \<open>The hash of tuples with the descriptor \<open>d\<close> tells the rows of a set apart.\<close>

definition tellsApart :: "(Tuple \<Rightarrow> 'h) \<Rightarrow> TupleDesc \<Rightarrow> DBValue list set \<Rightarrow> bool" where
  "tellsApart key d rws \<longleftrightarrow> inj_on (\<lambda>row. key (rowTuple d row)) rws"

lemma project_denotes:
  assumes "isDistinct p \<longrightarrow> tellsApart (rtKey rt) desc (row ` set (opRows rt scan op))" and "opReady rt scan known op"
    and p: "\<forall>t \<in> set (opRows rt scan op). projectTuple (rtWorld rt) p t = Ok (rowTuple desc (row t))"
  shows "opReady rt scan known (ProjectOp p op) \<and> map TFields (opRows rt scan (ProjectOp p op)) =
    (let out = map row (opRows rt scan op) in if isDistinct p then firstBy id [] out else out)"
proof -
  let ?ts = "opRows rt scan op" and ?h = "\<lambda>r. rtKey rt (rowTuple desc r)" and ?t = "\<lambda>t. rowTuple desc (row t)"
  have "map TFields (firstBy (rtKey rt) [] (map ?t ?ts)) = firstBy id [] (map row ?ts)" if "isDistinct p"
    using firstBy_map [of ?h "[]" TFields "map ?t ?ts" "rtKey rt"] assms(1) that by (simp add: comp_def image_image tellsApart_def)
  moreover have pr: "map (projected (rtWorld rt) p) ?ts = map ?t ?ts" using p by (auto simp: projected_def)
  moreover have "\<forall>t \<in> set ?ts. \<exists>t'. projectTuple (rtWorld rt) p t = Ok t'" using p by blast
  ultimately show ?thesis using assms(2) by (simp add: projectResult_def Let_def comp_def pr del: map_eq_conv)
qed

lemma project_rows:
  assumes "distinct (map Fname (Fields d))" and "selectOk tab d sl"
    and key: "dist \<longrightarrow> tellsApart (rtKey rt) (selectDesc tab d sl) (set (selected d sl False (map TFields (opRows rt scan op))))"
    and "opReady rt scan known op" and tup: "\<forall>t \<in> set (opRows rt scan op). tupleOf tab d t"
  shows "opReady rt scan known (projectOver tab d sl dist op) \<and>
    map TFields (opRows rt scan (projectOver tab d sl dist op)) = selected d sl dist (map TFields (opRows rt scan op))"
proof (cases sl)
  case AllColumns
  then show ?thesis using assms(4) by simp
next
  case (Items its)
  let ?row = "\<lambda>t. map (\<lambda>it. TFields t ! colIndex d (snd (fst it))) its" and ?d = "selectDesc tab d (Items its)"
  have "\<forall>t \<in> set (opRows rt scan op). projectTuple (rtWorld rt) (itemProject tab d its dist) t = Ok (rowTuple ?d (?row t))"
    using itemProject_tuple [OF assms(1), of its tab] assms(2) tup Items by simp
  moreover have "isDistinct (itemProject tab d its dist) \<longrightarrow> tellsApart (rtKey rt) ?d (?row ` set (opRows rt scan op))"
    using key Items by (simp add: itemProject_def image_image)
  from project_denotes [OF this assms(4)] calculation Items show ?thesis by (simp add: itemProject_def Let_def comp_def)
qed

lemma limit_rows:
  assumes "\<forall>lit. lim = Some lit \<longrightarrow> litType lit = IntType" and "opReady rt scan known op"
  shows "opReady rt scan known (limitOver lim op) \<and> opRows rt scan (limitOver lim op) = limited lim (opRows rt scan op)"
proof (cases lim)
  case (Some lit)
  then obtain n where "litExpr lit = ConstExpr (IntField n) IntType" using litExpr_cases(1) assms(1) by blast
  then show ?thesis using Some assms(2) by (simp add: limitCount_def limitValue_def evalOrNil_def litValue_def)
qed (use assms(2) in simp)

lemma map_limited: "map f (limited lim xs) = limited lim (map f xs)"
  by (cases lim) (auto simp: take_map split: DBValue.split)


section \<open>Running a SELECT\<close>

text \<open>A pool whose pages are as reading them from disk gives them.\<close>

definition asRead :: "(string \<Rightarrow> HeapFile) \<Rightarrow> DB \<Rightarrow> bool" where
  "asRead files db \<longleftrightarrow> (\<forall>k r. map_of (pages db) k = Some r \<longrightarrow> load_page files (disk db) k = Some (objs db ! r))"

text \<open>A pool that no transaction has written to.\<close>

definition clean :: "DB \<Rightarrow> bool" where
  "clean db \<longleftrightarrow> (\<forall>k r. map_of (pages db) k = Some r \<longrightarrow> \<not> dirty (objs db ! r))"

lemma asRead_sharing:
  assumes "scan_ready files tid db" and "asRead files db"
  shows "sharing files tid db" and "clean db"
proof -
  have ok: "db_ok files db" using assms(1) by (simp add: scan_ready_def)
  have "compact (objs db ! r) = objs db ! r" if r: "map_of (pages db) k = Some r" for k r
  proof -
    let ?f = "files (FileName k)"
    have load: "load_page files (disk db) k = Some (objs db ! r)" using assms(2) r by (simp add: asRead_def)
    have "HPageNo k < NumPages ?f (disk db)" using load_page_NumPages [OF load] by simp
    moreover have "disk_ok files (disk db)" using ok by (simp add: db_ok_def)
    moreover have "k = \<lparr>FileName = FileName k, HPageNo = HPageNo k\<rparr>" by simp
    ultimately show ?thesis using load unfolding disk_ok_def by (metis (no_types, lifting) option.inject)
  qed
  moreover from this have "\<not> dirty (objs db ! r)" if "map_of (pages db) k = Some r" for k r
    using that by (metis compact_def heapPage.select_convs(7) heapPage.surjective heapPage.update_convs(7))
  ultimately show "sharing files tid db" and "clean db" using assms(1) by (auto simp: sharing_def dense_def clean_def)
qed

lemma compact_described:
  assumes "compact p = p" and "t \<in> set (somes (tuples p))"
  shows "Desc t = pgDesc p"
proof -
  have "t \<in> set (rereadAll (pgDesc p) (pageNo p) (somes (tuples p)))" using assms somes_compact [of p] by simp
  then show ?thesis by (auto simp: rereadAll_def reread_def)
qed

lemma scanTuples_described:
  assumes "sharing files tid db" and "clean db" and "t \<in> set (scanTuples (files s) (viewOf files db))"
  shows "Desc t = hfDesc (files s)"
proof -
  have ok: "db_ok files db" "dense db" and f: "files (fromFile (files s)) = files s"
    using assms(1) sharing_file by (auto simp: sharing_def scan_ready_def)
  obtain n p where v: "visible files db (pageKey (files s) n) = Some p" and t: "t \<in> set (somes (tuples p))"
    using assms(3) by (auto simp: scanTuples_def pageTuples_def viewOf_def split: option.splits)
  have load: "load_page files (disk db) (pageKey (files s) n) = Some p"
  proof (cases "map_of (pages db) (pageKey (files s) n)")
    case (Some r)
    with v dense_load [OF ok Some] assms(2) show ?thesis by (auto simp: visible_def clean_def)
  qed (use v in \<open>simp add: visible_def\<close>)
  then have "n < NumPages (files s) (disk db)" using load_page_NumPages [OF load] f by (simp add: pageKey_def)
  then have "compact p = p" using ok(1) load unfolding db_ok_def disk_ok_def pageKey_def by (metis (no_types, lifting) option.inject)
  with compact_described [OF _ t] visible_page [OF assms(1) v] show ?thesis by (simp add: page_of_def)
qed

lemma aliasedFile_simps: "fromFile (aliasedFile tab d) = tableNameToFile tab" "hfDesc (aliasedFile tab d) = setTableAlias d tab"
  by (simp_all add: aliasedFile_def NewHeapFile_def)

lemma select_parses:
  assumes "tableOk c tab d" and "\<forall>cnd \<in> set cnds. condOk tab d cnd" and "selectOk tab d sl" and "\<forall>lit. lim = Some lit \<longrightarrow> litType lit = IntType"
    and "\<And>e. ord [e] = [e]" and "sqlParse query = Ok (SqlSelectStmt (selectFrom tab cnds sl lim dist))"
  shows "Parse w ord sqlParse query (c, dk) = Ok (IteratorType, selectPlan tab d cnds sl lim (dist \<noteq> []), c, dk)"
proof -
  have "\<forall>lit. lim = Some lit \<longrightarrow> litOk lit" using assms(4) by (simp add: litOk_def)
  from parseStatement_select [OF assms(1-3) this] makePhysicalPlan_select [where ord = ord, OF assms(1-3) this assms(5)] assms(6)
  show ?thesis by (simp add: Parse_def)
qed

lemma table_tuples:
  assumes "sharing files tid db" and "clean db" and "files (tableNameToFile tab) = aliasedFile tab d" and "t \<in> set (scanTuples (aliasedFile tab d) (viewOf files db))"
  shows "tupleOf tab d t"
  using assms(4) scanTuples_fit [OF assms(1), of t "tableNameToFile tab"] scanTuples_described [OF assms(1,2), of t "tableNameToFile tab"]
  by (simp add: assms(3) aliasedFile_simps tupleOf_def rowOf_def tupleFits_def setTableAlias_def list_all2_map1)

text \<open>The conditions leave the rows that satisfy them.\<close>

lemma where_rows:
  assumes "tableOk c tab d" and "\<forall>cnd \<in> set cnds. condOk tab d cnd"
    and "files (tableNameToFile tab) = aliasedFile tab d" and "sharing files (rtTid rt) db" and "clean db"
  shows "opReady rt (\<lambda>f. scanTuples f (viewOf files db)) (\<lambda>f. files (fromFile f) = f) (filterChain tab d cnds (FileOp (aliasedFile tab d)))"
    and "\<forall>t \<in> set (opRows rt (\<lambda>f. scanTuples f (viewOf files db)) (filterChain tab d cnds (FileOp (aliasedFile tab d)))). tupleOf tab d t"
    and "map TFields (opRows rt (\<lambda>f. scanTuples f (viewOf files db)) (filterChain tab d cnds (FileOp (aliasedFile tab d)))) =
      filter (\<lambda>row. \<forall>cnd \<in> set cnds. satisfies (rtRegexp rt) d cnd row) (table_rows files db (aliasedFile tab d))"
proof -
  let ?scan = "\<lambda>f. scanTuples f (viewOf files db)" and ?known = "\<lambda>f. files (fromFile f) = f" and ?f = "aliasedFile tab d"
  have f: "files (fromFile ?f) = ?f" using assms(3) by (simp add: aliasedFile_simps)
  have d: "distinct (map Fname (Fields d))" using assms(1) by (simp add: tableOk_def)
  have tup: "tupleOf tab d t" if "t \<in> set (?scan ?f)" for t by (rule table_tuples [OF assms(4,5,3) that])
  note chain = chain_rows [OF d assms(2), where op = "FileOp ?f" and scan = ?scan and known = ?known and rt = rt]
  show "opReady rt ?scan ?known (filterChain tab d cnds (FileOp ?f))"
    "\<forall>t \<in> set (opRows rt ?scan (filterChain tab d cnds (FileOp ?f))). tupleOf tab d t"
    using chain tup f by simp_all
  have "map TFields (?scan ?f) = table_rows files db ?f" by (rule scanTuples_rows)
  then show "map TFields (opRows rt ?scan (filterChain tab d cnds (FileOp ?f))) =
      filter (\<lambda>row. \<forall>cnd \<in> set cnds. satisfies (rtRegexp rt) d cnd row) (table_rows files db ?f)"
    using chain tup f by (simp add: filter_map comp_def flip: \<open>map TFields (?scan ?f) = _\<close>)
qed

lemma select_runs:
  assumes "tableOk c tab d" and "\<forall>cnd \<in> set cnds. condOk tab d cnd" and "selectOk tab d sl" and "\<forall>lit. lim = Some lit \<longrightarrow> litType lit = IntType"
    and "files (tableNameToFile tab) = aliasedFile tab d" and "sharing files (rtTid rt) db" and "clean db" and "dist \<longrightarrow> tellsApart (rtKey rt) (selectDesc tab d sl)
      (set (selected d sl False (filter (\<lambda>row. \<forall>cnd \<in> set cnds. satisfies (rtRegexp rt) d cnd row) (table_rows files db (aliasedFile tab d)))))"
  shows "\<exists>s db1 ts db2 s'. opOpen rt (selectPlan tab d cnds sl lim dist) db = Some (Ok (Some s), db1) \<and>
    yields (opNext rt (selectPlan tab d cnds sl lim dist)) (db1, s) ts (db2, s') \<and> sharing files (rtTid rt) db2 \<and> viewOf files db2 = viewOf files db \<and>
    map TFields ts = selectRows (rtRegexp rt) d cnds sl lim dist (table_rows files db (aliasedFile tab d))"
proof -
  let ?scan = "\<lambda>f. scanTuples f (viewOf files db)" and ?known = "\<lambda>f. files (fromFile f) = f" and ?f = "aliasedFile tab d"
  have d: "distinct (map Fname (Fields d))" using assms(1) by (simp add: tableOk_def)
  note wh = where_rows [OF assms(1,2,5-7)]
  note proj = project_rows [OF d assms(3) _ wh(1,2), where dist = dist, unfolded wh(3), OF assms(8)]
  note lim = limit_rows [OF assms(4) conjunct1 [OF proj]]
  have "map TFields (opRows rt ?scan (selectPlan tab d cnds sl lim dist)) =
      selectRows (rtRegexp rt) d cnds sl lim dist (table_rows files db ?f)"
    using lim proj wh(3) by (simp add: selectPlan_def selectRows_def map_limited)
  moreover have "opReady rt ?scan ?known (selectPlan tab d cnds sl lim dist)" using lim by (simp add: selectPlan_def)
  note runs_yields [OF tree_runs [OF this], of db]
  ultimately show ?thesis using assms(6) by metis
qed

text \<open>
  C10: a SELECT over one table, from its text to its rows. A query of columns, or of all of them, with a conjunction of comparisons of
  columns with literals of their types (by \<^verbatim>\<open>=\<close>, \<^verbatim>\<open><>\<close>, \<^verbatim>\<open><\<close>, \<^verbatim>\<open><=\<close>, \<^verbatim>\<open>>\<close>, \<^verbatim>\<open>>=\<close>, and \<^verbatim>\<open>LIKE\<close> for strings) and an optional limit
  parses, its plan opens, and the closure returns the rows that SQL defines: the rows of the table that satisfy all the conditions, in
  the order of the scan, restricted to the selected columns, without repetitions under DISTINCT with a select list, at most as many as
  the limit. No other transaction is in the way, the pool has room, and its pages are as reading them from disk under the name of
  the table gives them, so that no row inserted from a VALUES list is among them (see \<open>inserted_row_panics\<close>); under DISTINCT the hash tells the
  rows apart that are selected.
\<close>

theorem select_executes:
  assumes "tableOk c tab d" and "\<forall>cnd \<in> set cnds. condOk tab d cnd" and "selectOk tab d sl" and "\<forall>lit. lim = Some lit \<longrightarrow> litType lit = IntType"
    and "\<And>e. ord [e] = [e]" and "sqlParse query = Ok (SqlSelectStmt (selectFrom tab cnds sl lim dist))"
    and "files (tableNameToFile tab) = aliasedFile tab d" and "scan_ready files (rtTid rt) db" and "asRead files db" and "dist \<noteq> [] \<longrightarrow> tellsApart (rtKey rt) (selectDesc tab d sl)
      (set (selected d sl False (filter (\<lambda>row. \<forall>cnd \<in> set cnds. satisfies (rtRegexp rt) d cnd row) (table_rows files db (aliasedFile tab d)))))"
  shows "\<exists>plan s db1 ts db2 s'. Parse w ord sqlParse query (c, dk) = Ok (IteratorType, plan, c, dk) \<and>
    opOpen rt plan db = Some (Ok (Some s), db1) \<and> yields (opNext rt plan) (db1, s) ts (db2, s') \<and> viewOf files db2 = viewOf files db \<and>
    map TFields ts = selectRows (rtRegexp rt) d cnds sl lim (dist \<noteq> []) (table_rows files db (aliasedFile tab d))"
proof -
  have "Parse w ord sqlParse query (c, dk) = Ok (IteratorType, selectPlan tab d cnds sl lim (dist \<noteq> []), c, dk)"
    by (rule select_parses [OF assms(1-4)]) (rule assms(5), rule assms(6))
  moreover note db = asRead_sharing [OF assms(8,9)]
  from select_runs [OF assms(1-4,7) db assms(10)] obtain s db1 ts db2 s' where
    "opOpen rt (selectPlan tab d cnds sl lim (dist \<noteq> [])) db = Some (Ok (Some s), db1)"
    "yields (opNext rt (selectPlan tab d cnds sl lim (dist \<noteq> []))) (db1, s) ts (db2, s')" "viewOf files db2 = viewOf files db"
    "map TFields ts = selectRows (rtRegexp rt) d cnds sl lim (dist \<noteq> []) (table_rows files db (aliasedFile tab d))" by blast
  ultimately show ?thesis by blast
qed

section \<open>Rows of a VALUES list\<close>

text \<open>A closure that returns the elements \<open>xs\<close> and then panics.\<close>

inductive panics :: "('s, 'a) iter \<Rightarrow> 's \<Rightarrow> 'a list \<Rightarrow> go_panic \<Rightarrow> bool" for nxt where
  panics_now: "nxt s = Some (Panic x, s') \<Longrightarrow> panics nxt s [] x"
| panics_later: "nxt s = Some (Ok (Some y), s') \<Longrightarrow> panics nxt s' ys x \<Longrightarrow> panics nxt s (y # ys) x"

lemma panics_through:
  assumes "panics nxt s ys x" and "\<And>s. nxt' (emb s) = through emb (nxt s)"
  shows "panics nxt' (emb s) ys x"
  using assms(1) by induction (use assms(2) in \<open>auto simp: through_def intro: panics.intros\<close>)

lemma panics_project:
  assumes "advances ite L" and "L s xs" and "\<not> isDistinct p" and "\<forall>t \<in> set xs. projectTuple w p t = Panic x \<or> (\<exists>t'. projectTuple w p t = Ok t')"
    and "\<exists>t \<in> set xs. projectTuple w p t = Panic x"
  shows "\<exists>ys. panics (projectNext w key p ite) (s, seen) ys x"
  using assms(2,4,5)
proof (induction xs arbitrary: s)
  case (Cons t xs)
  obtain s1 where s1: "ite s = Some (Ok (Some t), s1)" "L s1 xs" using advances_Cons [OF assms(1) Cons.prems(1)] by blast
  show ?case
  proof (cases "projectTuple w p t")
    case (Ok t')
    then have "projectNext w key p ite (s, seen) = Some (Ok (Some t'), s1, seen)"
      using s1(1) assms(3) by (simp add: projectNext_def, subst projectLoopOp.simps) simp
    moreover obtain ys where "panics (projectNext w key p ite) (s1, seen) ys x" using Cons.IH [OF s1(2)] Cons.prems(2,3) Ok by auto
    ultimately show ?thesis by (blast intro: panics_later)
  next
    case (Panic y)
    then have "projectNext w key p ite (s, seen) = Some (Panic y, s1, seen)"
      using s1(1) by (simp add: projectNext_def, subst projectLoopOp.simps) simp
    then show ?thesis using Cons.prems(2) Panic by (intro exI [of _ "[]"] panics_now) auto
  next
    case (Err e)
    then show ?thesis using Cons.prems(2) by auto
  qed
qed simp

text \<open>A column that the tuple's own descriptor does not have: the projected tuple has no field at the index 0.\<close>

lemma column_panics:
  assumes "Fname f \<notin> Fname ` set (Fields (Desc t))"
  shows "EvalExpr w (FieldExpr f) (Some t) = Panic IndexOutOfRange"
proof -
  have "candidates f (Fields (Desc t)) = []" using assms by (auto simp: candidates_def filter_empty_conv fieldMatches_def) (metis imageI nth_mem)+
  then have "fst (findFieldInTd f (Desc t)) = -1" by (simp add: findFieldInTd_spec isAmbiguous_def)
  then show ?thesis by (simp add: project_def Let_def)
qed

lemma column_no_error: "EvalExpr w (FieldExpr f) (Some t) = Panic IndexOutOfRange \<or> (\<exists>v. EvalExpr w (FieldExpr f) (Some t) = Ok v)"
  by (auto simp: project_def Let_def split: list.split)

lemma insertTuple_described:
  assumes "insertTuple f t tid db = Some (Ok t', db')"
  shows "Desc t' = Desc t"
proof -
  have page: "page_insertTuple p t = Ok (rid, p', t') \<Longrightarrow> Desc t' = Desc t" for p rid p'
    by (auto simp: page_insertTuple_def Let_def split: if_splits option.splits)
  have loop: "insertLoop f t tid is db = Some (Ok (Some t'), db') \<Longrightarrow> Desc t' = Desc t" for "is" db
    by (induction "is" arbitrary: db) (use page in \<open>auto split: option.splits go_result.splits prod.splits\<close>)
  from assms show ?thesis
    by (cases rule: insertTuple_cases) (use loop page in \<open>auto elim!: appendTuple_cases\<close>)
qed

lemma stored_scanned:
  assumes "stored_at db f t"
  shows "t \<in> set (scanTuples f (viewOf files db))"
proof -
  obtain n s r where *: "n < NumPages f (disk db)" "map_of (pages db) (pageKey f n) = Some r" "s < length (tuples (objs db ! r))"
    "tuples (objs db ! r) ! s = Some t" using assms by (auto simp: stored_at_def)
  then have "t \<in> set (somes (pageTuples (viewOf files db) f n))"
    by (auto simp: pageTuples_def viewOf_def visible_def in_set_somes) (metis nth_mem)
  with *(1) show ?thesis by (auto simp: scanTuples_def viewOf_def intro!: bexI [of _ n])
qed

text \<open>Storing a tuple makes its page dirty, so that it stays in the pool.\<close>

lemma dense_setObj: "dense db \<Longrightarrow> dirty p \<Longrightarrow> r < length (objs db) \<Longrightarrow> dense (setObj r p db)"
  by (auto simp: dense_def setObj_def nth_list_update)


lemma store_dense:
  assumes ok: "db_ok files db" and f: "files (fromFile f) = f" and "dense db" and get: "GetPage f n tid WritePerm db = Some (Ok r, db1)"
    and ins: "page_insertTuple (objs db1 ! r) t = Ok (rid, p, t')"
  shows "dense (setObj r p db1)"
proof -
  have "db_ok files db1" "map_of (pages db1) (pageKey f n) = Some r" using GetPage_Ok [OF ok f get] by auto
  note at = pool_page_at [OF this(1) f this(2)]
  show ?thesis using dense_setObj GetPage_visible(1) [OF ok f get assms(3)] page_insertTuple_Ok(8) [OF at(1) ins] at(7) by blast
qed

lemma insertLoop_dense:
  assumes "db_ok files db" and f: "files (fromFile f) = f" and "insertLoop f t tid is db = Some (Ok x, db')" and "dense db"
  shows "dense db'"
  using assms(1,3,4)
proof (induction "is" arbitrary: db)
  case (Cons i "is")
  from Cons.prems(2) obtain r db1 where get: "GetPage f i tid WritePerm db = Some (Ok r, db1)"
    by (auto split: option.splits go_result.splits)
  have 1: "db_ok files db1" "dense db1" using GetPage_got(1) [OF Cons.prems(1) f get] GetPage_visible(1) [OF Cons.prems(1) f get Cons.prems(3)] by auto
  show ?case
  proof (cases "page_insertTuple (objs db1 ! r) t")
    case (Ok y)
    then obtain rid p t' where "page_insertTuple (objs db1 ! r) t = Ok (rid, p, t')" "db' = setObj r p db1"
      using Cons.prems(2) get by (auto split: prod.splits)
    then show ?thesis using store_dense [OF Cons.prems(1) f Cons.prems(3) get] by blast
  next
    case (Err e)
    then show ?thesis using Cons.IH [OF 1(1) _ 1(2)] Cons.prems(2) get by simp
  next
    case (Panic z)
    then show ?thesis using Cons.prems(2) get by simp
  qed
qed simp

lemma insertTuple_dense:
  assumes ok: "db_ok files db" and f: "files (fromFile f) = f" and fits: "tupleFits (hfDesc f) t"
    and ins: "insertTuple f t tid db = Some (Ok t', db')" and d: "dense db"
  shows "dense db'"
  using ins
proof (cases rule: insertTuple_cases)
  case (Stored t1)
  then show ?thesis using insertLoop_dense [OF ok f _ d] by blast
next
  case (Appended db1)
  have 1: "dense db1" "db_ok files db1" using insertLoop_dense [OF ok f Appended(1) d] insertLoop_spec [OF ok f fits Appended(1)] by auto
  from appendTuple_cases [OF Appended(2)] obtain page page' dk r db2 where page: "newHeapPage (hfDesc f) (NumPages f (disk db1)) f = Ok page"
    and fl: "flushPage f page (disk db1) = Ok (page', dk)"
    and get: "GetPage f (NumPages f (disk db)) tid WritePerm (db1\<lparr>disk := dk\<rparr>) = Some (Ok r, db2)"
    and ends: "(\<exists>rid p. page_insertTuple (objs db2 ! r) t = Ok (rid, p, t') \<and> db' = setObj r p db2) \<or>
       (\<exists>e. page_insertTuple (objs db2 ! r) t = Err e \<and> t' = t \<and> db' = db2)" by metis
  have ext: "db_ok files (db1\<lparr>disk := dk\<rparr>)" "dense (db1\<lparr>disk := dk\<rparr>)"
    using db_ok_extend [OF 1(2) f refl page fl] 1(1) by (auto simp: dense_def)
  from ends show ?thesis using store_dense [OF ext(1) f ext(2) get] GetPage_visible(1) [OF ext(1) f get ext(2)] by blast
qed auto

lemma insertTuple_sharing:
  assumes "sharing files tid db" and f: "files (fromFile f) = f" and fits: "tupleFits (hfDesc f) t" and "0 < numSlotsFor (hfDesc f)"
    and "alone tid WritePerm db" and K: "roomy K db" "\<forall>i \<le> NumPages f (disk db). pageKey f i \<in> K"
  shows "\<exists>t' db'. insertTuple f t tid db = Some (Ok t', db') \<and> sharing files tid db' \<and> Desc t' = Desc t \<and>
    t' \<in> set (scanTuples f (viewOf files db'))"
proof -
  have ok: "db_ok files db" "has_room db" "dense db" using assms(1) by (auto simp: sharing_def scan_ready_def)
  have "0 < tupleSize (hfDesc f)" using assms(4) by (simp add: numSlotsFor_def) (metis div_by_0 gr_zeroI less_irrefl)
  from insertTuple_total [OF ok(1) f fits this ok(2) assms(5)] obtain t' db' where
    ins: "insertTuple f t tid db = Some (Ok t', db')" "alone tid WritePerm db'" by blast
  have ok': "db_ok files db'" "stored_at db' f t'" using insertTuple_Ok [OF ok(1) f fits assms(4) ins(1)] by auto
  have "roomy K db'" using insertTuple_frame [OF ok(1) f fits ins(1) K] by blast
  then have "sharing files tid db'"
    using ok' ins(2) roomy_room alone_WritePerm insertTuple_dense [OF ok(1) f fits ins(1) ok(3)] by (auto simp: sharing_def scan_ready_def)
  then show ?thesis using ins(1) insertTuple_described stored_scanned [OF ok'(2)] by blast
qed


lemma project_panics:
  assumes "sharing files (rtTid rt) db" and f: "files (fromFile f) = f" and "t \<in> set (scanTuples f (viewOf files db))"
    and "Fname fld \<notin> Fname ` set (Fields (Desc t))" and p: "selectFields p = [FieldExpr fld]" "length (outputNames p) = 1" "\<not> isDistinct p"
  shows "\<exists>s db1 ys. opOpen rt (ProjectOp p (FileOp f)) db = Some (Ok (Some s), db1) \<and> panics (opNext rt (ProjectOp p (FileOp f))) (db1, s) ys IndexOutOfRange"
proof -
  let ?v = "viewOf files db" and ?c = "FileOp f" and ?w = "rtWorld rt"
  let ?I = "\<lambda>db'. sharing files (rtTid rt) db' \<and> viewOf files db' = ?v"
  have "runs ?I (opOpen rt ?c) (opNext rt ?c) (scanTuples f ?v)" using runs_file [of files rt ?v "fromFile f"] f by simp
  then obtain left where h: "\<forall>d. ?I d \<longrightarrow> (\<exists>d' s. opOpen rt ?c d = Some (Ok (Some s), d') \<and> ?I d' \<and> left s (scanTuples f ?v))"
    "advances (opNext rt ?c) (\<lambda>(d, s) xs. ?I d \<and> left s xs)" by (rule runsE)
  obtain db1 s where 1: "opOpen rt ?c db = Some (Ok (Some s), db1)" "?I db1" "left s (scanTuples f ?v)" using h(1) assms(1) by blast
  obtain desc where d: "projectDescriptor ?w p = Ok desc" using p(1,2) by (simp add: projectDescriptor_def)
  have tup: "projectTuple ?w p u = (case EvalExpr ?w (FieldExpr fld) (Some u) of Ok v \<Rightarrow> Ok \<lparr>Desc = desc, TFields = [v], Rid = None\<rparr>
      | Err e \<Rightarrow> Ok \<lparr>Desc = desc, TFields = [NilValue], Rid = None\<rparr> | Panic x \<Rightarrow> Panic x)" for u
    using p(1) d by (simp add: projectTuple_def evalOrNil_def del: EvalExpr.simps bind_go_eq_Ok split: go_result.split)
  have "\<exists>ys. panics (projectNext ?w (rtKey rt) p (call (opNext rt ?c))) ((db1, Some s), []) ys IndexOutOfRange"
  proof (rule panics_project [OF advances_call [OF h(2)] _ p(3)])
    show "(case (db1, Some s) of (d, so) \<Rightarrow> \<lambda>xs. \<exists>s. so = Some s \<and> (case (d, s) of (d, s) \<Rightarrow> \<lambda>xs. ?I d \<and> left s xs) xs) (scanTuples f ?v)"
      using 1 by simp
    show "\<forall>u \<in> set (scanTuples f ?v). projectTuple ?w p u = Panic IndexOutOfRange \<or> (\<exists>t'. projectTuple ?w p u = Ok t')"
      using column_no_error [of ?w fld] unfolding tup by (metis go_result.simps(10,12))
    show "\<exists>u \<in> set (scanTuples f ?v). projectTuple ?w p u = Panic IndexOutOfRange"
      using column_panics [OF assms(4), of ?w] assms(3) unfolding tup by (intro bexI [of _ t]) (simp_all del: EvalExpr.simps)
  qed
  then obtain ys where "panics (projectNext ?w (rtKey rt) p (call (opNext rt ?c))) ((db1, Some s), []) ys IndexOutOfRange" ..
  from panics_through [OF this, of "opNext rt (ProjectOp p ?c)" "\<lambda>((db, so), seen). (db, ProjectState so seen)"]
  have "panics (opNext rt (ProjectOp p ?c)) (db1, ProjectState (Some s) []) ys IndexOutOfRange" by (simp add: split_def)
  then show ?thesis using 1(1) by (auto simp: capture_def openOrNil_def)
qed

text \<open>
  C19: a transaction cannot read the rows it has inserted by their columns. A row of a VALUES list keeps the descriptor of its
  literals, whose fields are all named \<^verbatim>\<open>const\<close>, when it is stored in a page; a SELECT of a column of the table in the same transaction
  parses and its plan opens, but the closure panics with an index out of range when it comes to the row.
\<close>

theorem inserted_row_panics:
  assumes "tableOk c tab d" and "columnOk tab d (q, col)" and "col \<noteq> ''const''" and "\<And>e. ord [e] = [e]"
    and "sqlParse query = Ok (SqlSelectStmt (selectFrom tab [] (Items [((q, col), al)]) None []))"
    and "files (tableNameToFile tab) = aliasedFile tab d" and "sharing files (rtTid rt) db" and "alone (rtTid rt) WritePerm db"
    and "roomy K db" and "\<forall>i \<le> NumPages (aliasedFile tab d) (disk db). pageKey (aliasedFile tab d) i \<in> K" and "0 < numSlotsFor (setTableAlias d tab)"
    and "\<forall>e \<in> set es. \<exists>v ty. e = ConstExpr v ty" and "tupleFits (setTableAlias d tab) (valueTuple w (NewValueOp w [es]) es)"
  shows "\<exists>t' db' plan s db1 ys. insertTuple (aliasedFile tab d) (valueTuple w (NewValueOp w [es]) es) (rtTid rt) db = Some (Ok t', db') \<and>
    Parse w ord sqlParse query (c, dk) = Ok (IteratorType, plan, c, dk) \<and>
    opOpen rt plan db' = Some (Ok (Some s), db1) \<and> panics (opNext rt plan) (db1, s) ys IndexOutOfRange"
proof -
  let ?f = "aliasedFile tab d" and ?t = "valueTuple w (NewValueOp w [es]) es" and ?p = "itemProject tab d [((q, col), al)] False"
  have f: "files (fromFile ?f) = ?f" "hfDesc ?f = setTableAlias d tab" using assms(6) by (simp_all add: aliasedFile_simps)
  obtain t' db' where ins: "insertTuple ?f ?t (rtTid rt) db = Some (Ok t', db')" "sharing files (rtTid rt) db'" "Desc t' = Desc ?t"
    "t' \<in> set (scanTuples ?f (viewOf files db'))"
    using insertTuple_sharing [OF assms(7) f(1) _ _ assms(8,9,10), of ?t] assms(11,13) f(2) by auto
  have "Fname (GetExprType w e) = ''const''" if "e \<in> set es" for e using assms(12) that by (auto simp: GetExprType_def)
  then have "Fname ` set (Fields (Desc t')) \<subseteq> {''const''}" using ins(3) by (auto simp: valueTuple_def NewValueOp_def)
  then have "Fname (colField d tab col) \<notin> Fname ` set (Fields (Desc t'))" using assms(3) by (auto simp: colField_def)
  from project_panics [OF ins(2) f(1) ins(4) this, of ?p]
  obtain s db1 ys where "opOpen rt (ProjectOp ?p (FileOp ?f)) db' = Some (Ok (Some s), db1)"
    "panics (opNext rt (ProjectOp ?p (FileOp ?f))) (db1, s) ys IndexOutOfRange" by (auto simp: itemProject_def)
  moreover have sl: "\<forall>cnd \<in> set []. condOk tab d cnd" "selectOk tab d (Items [((q, col), al)])" "\<forall>lit. None = Some lit \<longrightarrow> litOk lit"
    using assms(2) by simp_all
  from parseStatement_select [OF assms(1) sl] makePhysicalPlan_select [where ord = ord, OF assms(1) sl assms(4)] assms(5)
  have "Parse w ord sqlParse query (c, dk) = Ok (IteratorType, ProjectOp ?p (FileOp ?f), c, dk)"
    by (simp add: Parse_def selectPlan_def filterChain_def)
  ultimately show ?thesis using ins(1) by blast
qed


section \<open>Running plans on an example\<close>

definition exRuntime :: "TransactionID \<Rightarrow> DBValue list runtime" where
  "exRuntime tid = \<lparr>rtWorld = exWorld, rtRegexp = \<lambda>_ _. False, rtKey = TFields, rtSort = \<lambda>_ ts. Ok ts, rtTid = tid\<rparr>"

definition exColumns :: TupleDesc where
  "exColumns = \<lparr>Fields = [\<lparr>Fname = ''a'', TableQualifier = [], Ftype = IntType\<rparr>]\<rparr>"

definition exCat1 :: Catalog where
  "exCat1 = addIgnoring (''t'', exColumns) (newCatalog [])"

lemma exCat1_ok: "tableOk exCat1 ''t'' exColumns" "aliasedFile ''t'' exColumns = exFile" "exFiles (tableNameToFile ''t'') = exFile"
proof -
  have new: "catalog_ok (newCatalog [])" "columns_ok (newCatalog [])" by (simp_all add: newCatalog_def catalog_ok_def columns_ok_def tablesWith_def)
  have add: "addTable ''t'' exColumns (newCatalog []) = Ok exCat1" by (simp add: exCat1_def addIgnoring_def addTable_eq newCatalog_def)
  have "lookupTable ''t'' exCat1 = Some exColumns" by (simp add: exCat1_def addIgnoring_def addTable_eq lookupTable_def newCatalog_def)
  then show "tableOk exCat1 ''t'' exColumns"
    using catalog_ok_add [OF new(1) add] columns_ok_add [OF new(2) add]
    by (simp add: tableOk_def plain_def exColumns_def ToLower_def lowerChar_def quoteChar_def)
  show "aliasedFile ''t'' exColumns = exFile" "exFiles (tableNameToFile ''t'') = exFile"
    by (simp_all add: aliasedFile_def exFile_def exFiles_def tableNameToFile_def setTableAlias_def exColumns_def exDesc_def)
qed

lemma exDB3_ready: "scan_ready exFiles tid exDB3" "asRead exFiles exDB3"
  using exDB3_ok by (simp_all add: scan_ready_def asRead_def) (simp add: exDB3_def NewBufferPool_def)

lemmas exDB3_sharing = asRead_sharing [OF exDB3_ready]

lemma exFile_col: "hasCol exColumns ''a''" "colType exColumns ''a'' = IntType" "colIndex exColumns ''a'' = 0" "plain ''a''"
  by code_simp+

definition exLess :: condition where
  "exLess = Cond ([], ''a'') ''>'' (quoted (show_int (sint (3 :: int64))))"

lemma exLess_ok: "condOk ''t'' exColumns exLess" "satisfies rx exColumns exLess [IntField 5]"
proof -
  have lit: "litExpr (condLit exLess) = ConstExpr (IntField 3) IntType" unfolding exLess_def condition.sel by (rule litExpr_quoted)
  have eqs: "condCol exLess = ([], ''a'')" "condOp exLess = ''>''" by (simp_all add: exLess_def)
  show "condOk ''t'' exColumns exLess" by (simp add: condOk_def columnOk_def eqs exFile_col litType_def lit sqlOperator_def)
  show "satisfies rx exColumns exLess [IntField 5]"
    by (simp add: satisfies_def litValue_def lit eqs exFile_col ordHolds_def)
qed

theorem select_executes_witness:
  "\<exists>plan s db1 ts db2 s'. Parse exWorld id (\<lambda>_. Ok (SqlSelectStmt (selectFrom ''t'' [exLess] (Items [(([], ''a''), [])]) None ''distinct ''))) [] (exCat1, \<lambda>_. []) =
      Ok (IteratorType, plan, exCat1, \<lambda>_. []) \<and>
    opOpen (exRuntime 2) plan exDB3 = Some (Ok (Some s), db1) \<and> yields (opNext (exRuntime 2) plan) (db1, s) ts (db2, s') \<and>
    map TFields ts = [[IntField 5]]"
proof -
  have sl: "selectOk ''t'' exColumns (Items [(([], ''a''), [])])" by (simp add: columnOk_def exFile_col)
  have f: "exFiles (tableNameToFile ''t'') = aliasedFile ''t'' exColumns" using exCat1_ok by simp
  have key: "tellsApart (rtKey (exRuntime 2)) dd rws" for dd rws by (simp add: tellsApart_def exRuntime_def)
  from select_executes [where cnds = "[exLess]" and ord = id and lim = None and dist = "''distinct ''" and w = exWorld and dk = "\<lambda>_. []" and query = "[]" and
      sqlParse = "\<lambda>_. Ok (SqlSelectStmt (selectFrom ''t'' [exLess] (Items [(([], ''a''), [])]) None ''distinct ''))" and rt = "exRuntime 2",
      OF exCat1_ok(1) _ sl _ _ _ f exDB3_ready, OF _ _ _ _ impI, OF _ _ _ _ key]
  show ?thesis using exLess_ok exDB3_ok(5) by (simp add: selectRows_def exCat1_ok(2) exFile_col) metis
qed

theorem inserted_row_panics_witness:
  "\<exists>t' db' plan s db1 ys. insertTuple exFile (valueTuple exWorld (NewValueOp exWorld [[ConstExpr (IntField 7) IntType]]) [ConstExpr (IntField 7) IntType]) 1 exDB0 =
      Some (Ok t', db') \<and>
    Parse exWorld id (\<lambda>_. Ok (SqlSelectStmt (selectFrom ''t'' [] (Items [(([], ''a''), [])]) None []))) [] (exCat1, \<lambda>_. []) =
      Ok (IteratorType, plan, exCat1, \<lambda>_. []) \<and>
    opOpen (exRuntime 1) plan db' = Some (Ok (Some s), db1) \<and> panics (opNext (exRuntime 1) plan) (db1, s) ys IndexOutOfRange"
proof -
  let ?es = "[ConstExpr (IntField 7) IntType]"
  have col: "columnOk ''t'' exColumns ([], ''a'')" by (simp add: columnOk_def exFile_col)
  have f: "exFiles (tableNameToFile ''t'') = aliasedFile ''t'' exColumns" using exCat1_ok by simp
  have sh: "sharing exFiles (rtTid (exRuntime 1)) exDB0" "alone (rtTid (exRuntime 1)) WritePerm exDB0"
    using exDB0_ok by (simp_all add: sharing_def scan_ready_def dense_def) (simp add: exDB0_def NewBufferPool_def)
  have K: "roomy {pageKey exFile 0} exDB0" "\<forall>i \<le> NumPages exFile (disk exDB0). pageKey exFile i \<in> {pageKey exFile 0}"
    by (simp_all add: roomy_def exDB0_def NewBufferPool_def NumPages_def)
  have al: "setTableAlias exColumns ''t'' = exDesc" by (simp add: setTableAlias_def exColumns_def exDesc_def)
  have fits: "tupleFits (setTableAlias exColumns ''t'') (valueTuple exWorld (NewValueOp exWorld [?es]) ?es)"
    unfolding al by (simp add: tupleFits_def valueTuple_def exDesc_def)
  from inserted_row_panics [where ord = id and w = exWorld and dk = "\<lambda>_. []" and query = "[]" and al = "[]" and es = ?es and K = "{pageKey exFile 0}" and
      sqlParse = "\<lambda>_. Ok (SqlSelectStmt (selectFrom ''t'' [] (Items [(([], ''a''), [])]) None []))", OF exCat1_ok(1) col _ _ _ f sh _ _ _ _ fits]
  show ?thesis using K by (simp add: exCat1_ok(2) al exRuntime_def)
qed


end
