(* ===== verification/Transactions.thy ===== *)
theory Transactions
  imports Examples
begin

text \<open>
  Interleaved transactions. The operations of several transactions run one after the other in any order
  on the shared database; each is a critical section of \<^verbatim>\<open>buffer_pool.go\<close> or the change of one page by
  the holder of its write lock. A history lists what the operations read and wrote.

  The first part is independent of the database: a contract that strict locking has to meet, and the
  proof that under it every history is equivalent to the serial history of the transactions that
  committed, in the order of their commits. The second part shows that buffer pool, lock table and heap
  pages meet the contract, and the third that the operations of heap files are made of such steps.
\<close>

section \<open>Histories\<close>

datatype ('k, 'v) access = ReadOf 'k 'v | WriteOf 'k 'v

datatype ('t, 'k, 'v) event = Access 't "('k, 'v) access" | Commit 't | Abort 't | Silent

text \<open>Running accesses one after the other on a store; a read has to find the value that it saw.\<close>

fun replay :: "('k \<Rightarrow> 'v) \<Rightarrow> ('k, 'v) access list \<Rightarrow> ('k \<Rightarrow> 'v) option" where
  "replay m [] = Some m"
| "replay m (ReadOf k v # as) = (if m k = v then replay m as else None)"
| "replay m (WriteOf k v # as) = replay (m(k := v)) as"

text \<open>The accesses of the transactions under way, and those of the committed ones in commit order.\<close>

type_synonym ('t, 'k, 'v) history = "('t \<Rightarrow> ('k, 'v) access list) \<times> ('k, 'v) access list"

fun extendHistory :: "('t, 'k, 'v) event \<Rightarrow> ('t, 'k, 'v) history \<Rightarrow> ('t, 'k, 'v) history" where
  "extendHistory (Access t a) (active, serial) = (active(t := active t @ [a]), serial)"
| "extendHistory (Commit t) (active, serial) = (active(t := []), serial @ active t)"
| "extendHistory (Abort t) (active, serial) = (active(t := []), serial)"
| "extendHistory Silent h = h"

definition historyOf :: "('t, 'k, 'v) event list \<Rightarrow> ('t, 'k, 'v) history" where
  "historyOf es = fold extendHistory es (\<lambda>_. [], [])"

abbreviation openAccesses :: "('t, 'k, 'v) event list \<Rightarrow> 't \<Rightarrow> ('k, 'v) access list" where
  "openAccesses es \<equiv> fst (historyOf es)"

abbreviation serialHistory :: "('t, 'k, 'v) event list \<Rightarrow> ('k, 'v) access list" where
  "serialHistory es \<equiv> snd (historyOf es)"

fun keyOf :: "('k, 'v) access \<Rightarrow> 'k" where
  "keyOf (ReadOf k v) = k"
| "keyOf (WriteOf k v) = k"

inductive runs :: "('s \<Rightarrow> 'e \<Rightarrow> 's \<Rightarrow> bool) \<Rightarrow> 's \<Rightarrow> 'e list \<Rightarrow> 's \<Rightarrow> bool" for step where
  runs_Nil: "runs step s [] s"
| runs_snoc: "runs step s es s' \<Longrightarrow> step s' e s'' \<Longrightarrow> runs step s (es @ [e]) s''"

lemma runs_single: "step s e s' \<Longrightarrow> runs step s [e] s'"
  using runs_snoc [OF runs_Nil] by fastforce

lemma runs_append: "runs step s' es' s'' \<Longrightarrow> runs step s es s' \<Longrightarrow> runs step s (es @ es') s''"
  by (induction rule: runs.induct) (auto intro: runs_snoc simp flip: append_assoc)

lemma historyOf_Nil [simp]: "historyOf [] = (\<lambda>_. [], [])"
  by (simp add: historyOf_def)

lemma historyOf_snoc [simp]: "historyOf (es @ [e]) = extendHistory e (historyOf es)"
  by (simp add: historyOf_def)

lemma replay_append: "replay m (as @ bs) = Option.bind (replay m as) (\<lambda>m'. replay m' bs)"
  by (induction m as rule: replay.induct) (auto simp: fun_upd_def)

text \<open>A change of the store outside the keys that are accessed goes through.\<close>

lemma replay_elsewhere:
  assumes "replay m as = Some n" and "keyOf ` set as \<subseteq> A" and "\<And>k. k \<in> A \<Longrightarrow> m' k = m k"
  shows "replay m' as = Some (\<lambda>k. if k \<in> A then n k else m' k)"
  using assms
proof (induction m as arbitrary: m' rule: replay.induct)
  case (3 m k v as)
  then have "replay (m'(k := v)) as = Some (\<lambda>x. if x \<in> A then n x else (m'(k := v)) x)" by (intro "3.IH") (auto simp: fun_upd_def)
  moreover have "(\<lambda>x. if x \<in> A then n x else (m'(k := v)) x) = (\<lambda>x. if x \<in> A then n x else m' x)"
    using 3 by auto
  ultimately show ?case by simp
qed (auto split: if_splits)

section \<open>Strict locking\<close>

text \<open>
  The contract: \<open>cm\<close> is the committed and \<open>cur\<close> the current value of a key; \<open>lck\<close> and \<open>wlck\<close> say which
  transactions hold a lock, and a lock for writing, on it. Locks are only released by commit and abort.
\<close>

locale strict_locking =
  fixes inv :: "'s \<Rightarrow> bool" and step :: "'s \<Rightarrow> ('t, 'k, 'v) event \<Rightarrow> 's \<Rightarrow> bool"
    and cm cur :: "'s \<Rightarrow> 'k \<Rightarrow> 'v" and lck wlck :: "'s \<Rightarrow> 't \<Rightarrow> 'k \<Rightarrow> bool"
  assumes step_inv: "inv s \<Longrightarrow> step s e s' \<Longrightarrow> inv s'"
    and read_step: "inv s \<Longrightarrow> step s (Access t (ReadOf k v)) s' \<Longrightarrow>
      v = cur s k \<and> cm s' = cm s \<and> cur s' = cur s \<and> lck s' = (lck s)(t := (lck s t)(k := True)) \<and> (\<forall>t'. t' \<noteq> t \<longrightarrow> wlck s' t' = wlck s t')"
    and write_step: "inv s \<Longrightarrow> step s (Access t (WriteOf k v)) s' \<Longrightarrow>
      cm s' = cm s \<and> cur s' = (cur s)(k := v) \<and> lck s' = (lck s)(t := (lck s t)(k := True)) \<and> wlck s' t k"
    and commit_step: "inv s \<Longrightarrow> step s (Commit t) s' \<Longrightarrow>
      cm s' = (\<lambda>k. if lck s t k then cur s k else cm s k) \<and> cur s' = cur s \<and> lck s' = (lck s)(t := \<lambda>_. False)"
    and abort_step: "inv s \<Longrightarrow> step s (Abort t) s' \<Longrightarrow>
      cm s' = cm s \<and> cur s' = (\<lambda>k. if wlck s t k then cm s k else cur s k) \<and> lck s' = (lck s)(t := \<lambda>_. False)"
    and silent_step: "inv s \<Longrightarrow> step s Silent s' \<Longrightarrow> cm s' = cm s \<and> cur s' = cur s \<and> lck s' = lck s"
    and exclusive: "inv s \<Longrightarrow> wlck s t k \<Longrightarrow> lck s t' k \<Longrightarrow> t' = t"
    and owned: "inv s \<Longrightarrow> cur s k \<noteq> cm s k \<Longrightarrow> \<exists>t. wlck s t k"
    and wlck_lck: "inv s \<Longrightarrow> wlck s t k \<Longrightarrow> lck s t k"
begin

text \<open>What a transaction sees: the current values of the keys it has locked, the committed ones elsewhere.\<close>

definition view :: "'s \<Rightarrow> 't \<Rightarrow> 'k \<Rightarrow> 'v" where
  "view s t = (\<lambda>k. if lck s t k then cur s k else cm s k)"

definition serialised :: "('k \<Rightarrow> 'v) \<Rightarrow> 's \<Rightarrow> ('t, 'k, 'v) history \<Rightarrow> bool" where
  "serialised m s h \<longleftrightarrow> replay m (snd h) = Some (cm s) \<and>
     (\<forall>t. replay (cm s) (fst h t) = Some (view s t) \<and> keyOf ` set (fst h t) \<subseteq> {k. lck s t k})"

lemma lock_free_current: "inv s \<Longrightarrow> (\<And>t. \<not> wlck s t k) \<Longrightarrow> cur s k = cm s k"
  using owned by blast

lemma access_view:
  assumes "inv s" and "step s (Access t a) s'" and "serialised m s (active, serial)"
  shows "cm s' = cm s" and "keyOf a \<in> {k. lck s' t k}" and "lck s t k \<Longrightarrow> lck s' t k"
    and "replay (view s t) [a] = Some (view s' t)" and "t' \<noteq> t \<Longrightarrow> view s' t' = view s t' \<and> lck s' t' = lck s t'"
proof -
  have i': "inv s'" using step_inv [OF assms(1,2)] .
  have all: "cm s' = cm s \<and> keyOf a \<in> {k. lck s' t k} \<and> (lck s t k \<longrightarrow> lck s' t k) \<and>
    replay (view s t) [a] = Some (view s' t) \<and> (t' \<noteq> t \<longrightarrow> view s' t' = view s t' \<and> lck s' t' = lck s t')"
  proof (cases a)
    case (ReadOf x v)
    note r = read_step [OF assms(1) assms(2) [unfolded ReadOf]]
    have "cur s x = cm s x" if "\<not> lck s t x"
    proof (rule lock_free_current [OF assms(1)])
      fix t'
      show "\<not> wlck s t' x"
      proof
        assume w: "wlck s t' x"
        then have "t' \<noteq> t" using that wlck_lck [OF assms(1)] by blast
        then have "wlck s' t' x" "lck s' t x" using r w by auto
        then show False using exclusive [OF i'] \<open>t' \<noteq> t\<close> by blast
      qed
    qed
    then show ?thesis using r by (auto simp: ReadOf view_def fun_eq_iff)
  next
    case (WriteOf x v)
    note r = write_step [OF assms(1) assms(2) [unfolded WriteOf]]
    have "\<not> lck s t' x" if "t' \<noteq> t" for t'
      using exclusive [OF i', of t x t'] r that by auto
    then show ?thesis using r by (auto simp: WriteOf view_def fun_eq_iff)
  qed
  then show "cm s' = cm s" and "keyOf a \<in> {k. lck s' t k}" and "lck s t k \<Longrightarrow> lck s' t k"
    and "replay (view s t) [a] = Some (view s' t)" and "t' \<noteq> t \<Longrightarrow> view s' t' = view s t' \<and> lck s' t' = lck s t'"
    by auto
qed

lemma serialised_step:
  assumes "inv s" and "step s e s'" and "serialised m s h"
  shows "serialised m s' (extendHistory e h)"
proof (cases h)
  case (Pair active serial)
  have ser: "replay m serial = Some (cm s)" and op: "replay (cm s) (active t) = Some (view s t)"
    and keys: "keyOf ` set (active t) \<subseteq> {k. lck s t k}" for t
    using assms(3) by (auto simp: serialised_def Pair)
  show ?thesis
  proof (cases e)
    case (Access t a)
    note v = access_view [OF assms(1) assms(2) [unfolded Access] assms(3) [unfolded Pair]]
    show ?thesis
      using ser op keys v by (auto simp: serialised_def Pair Access replay_append)
  next
    case (Commit t)
    note c = commit_step [OF assms(1) assms(2) [unfolded Commit]]
    have cm: "cm s' = view s t" using c by (simp add: view_def)
    have other: "replay (cm s') (active t') = Some (view s' t')" if "t' \<noteq> t" for t'
    proof -
      have "cm s' k = cm s k" if "lck s t' k" for k
        using c that \<open>t' \<noteq> t\<close> owned [OF assms(1), of k] exclusive [OF assms(1)] by (metis (full_types))
      then have "replay (cm s') (active t') = Some (\<lambda>k. if k \<in> {k. lck s t' k} then view s t' k else cm s' k)"
        by (intro replay_elsewhere [OF op keys]) auto
      then show ?thesis using c that by (auto simp: view_def elim!: back_subst [of "\<lambda>v. replay _ _ = Some v"])
    qed
    show ?thesis using ser op keys c cm other by (auto simp: serialised_def Pair Commit replay_append view_def)
  next
    case (Abort t)
    note c = abort_step [OF assms(1) assms(2) [unfolded Abort]]
    have "view s' t' = view s t'" if "t' \<noteq> t" for t'
      using c that exclusive [OF assms(1)] by (auto simp: view_def fun_eq_iff)
    then show ?thesis using ser op keys c by (auto simp: serialised_def Pair Abort view_def)
  next
    case Silent
    with silent_step [OF assms(1)] assms(2) have "cm s' = cm s" "cur s' = cur s" "lck s' = lck s" by blast+
    moreover from this have "view s' = view s" by (simp add: view_def fun_eq_iff)
    ultimately show ?thesis using assms(3) Silent by (simp add: serialised_def)
  qed
qed

lemma runs_serialised:
  assumes "runs step s es s'" and "inv s" and "\<And>t k. \<not> lck s t k"
  shows "inv s'" and "serialised (cm s) s' (historyOf es)"
proof -
  have "inv s' \<and> serialised (cm s) s' (historyOf es)"
    using assms
  proof (induction rule: runs.induct)
    case (runs_Nil s)
    then show ?case by (simp add: serialised_def view_def)
  next
    case (runs_snoc s es s' e s'')
    then show ?case using step_inv serialised_step by (simp, blast)
  qed
  then show "inv s'" and "serialised (cm s) s' (historyOf es)" by auto
qed

end

section \<open>The database as a store with strict locks\<close>

text \<open>
  One step of a transaction on the shared database, with the event it leaves in the history: a call of
  \<^verbatim>\<open>GetPage\<close> that returns a page, fails, or aborts the transaction to prevent a deadlock; an insertion into
  or a deletion from a page that the transaction has locked for writing and that is in the pool; the empty
  page that \<^verbatim>\<open>HeapFile.insertTuple\<close> appends to the file, outside every transaction; commit; abort.
  These are the calls of \<^verbatim>\<open>GetPage\<close> that find their lock free, on pages of the pool; the theory \<open>Waiting\<close> adds the calls
  that sleep, which go on later with the page that they found before.
\<close>

inductive pageStep ::
  "(string \<Rightarrow> HeapFile) \<Rightarrow> DB \<Rightarrow> (TransactionID, heapHash, DBValue list list) event \<Rightarrow> DB \<Rightarrow> bool" for files where
  PageRead: "files (fromFile f) = f \<Longrightarrow> GetPage f n tid p db = Some (Ok r, db') \<Longrightarrow>
    pageStep files db (Access tid (ReadOf (pageKey f n) (rows (objs db' ! r)))) db'"
| PageError: "files (fromFile f) = f \<Longrightarrow> GetPage f n tid p db = Some (Err e, db') \<Longrightarrow>
    e \<noteq> PlainError ''transaction is aborted'' \<Longrightarrow> pageStep files db Silent db'"
| Deadlock: "files (fromFile f) = f \<Longrightarrow> GetPage f n tid p db = Some (Err (PlainError ''transaction is aborted''), db') \<Longrightarrow>
    pageStep files db (Abort tid) db'"
| PageInsert: "map_of (locksOf (mapPageLocksByTid db) tid) k = Some l \<Longrightarrow> perm l = WritePerm \<Longrightarrow>
    map_of (pages db) k = Some (lockPage l) \<Longrightarrow> tupleFits (hfDesc (files (FileName k))) t \<Longrightarrow>
    page_insertTuple (objs db ! lockPage l) t = Ok (rid, p', t') \<Longrightarrow>
    pageStep files db (Access tid (WriteOf k (rows p'))) (setObj (lockPage l) p' db)"
| PageDelete: "map_of (locksOf (mapPageLocksByTid db) tid) k = Some l \<Longrightarrow> perm l = WritePerm \<Longrightarrow>
    map_of (pages db) k = Some (lockPage l) \<Longrightarrow> page_deleteTuple (objs db ! lockPage l) rid = Ok p' \<Longrightarrow>
    pageStep files db (Access tid (WriteOf k (rows p'))) (setObj (lockPage l) p' db)"
| NewPage: "files (fromFile f) = f \<Longrightarrow> newHeapPage (hfDesc f) (NumPages f (disk db)) f = Ok page \<Longrightarrow>
    flushPage f page (disk db) = Ok (page', d) \<Longrightarrow> pageStep files db Silent (db\<lparr>disk := d\<rparr>)"
| Committed: "CommitTransaction tid db = Ok db' \<Longrightarrow> pageStep files db (Commit tid) db'"
| Undone: "AbortTransaction tid db = db' \<Longrightarrow> pageStep files db (Abort tid) db'"

inductive_cases pageStep_readE: "pageStep files db (Access t (ReadOf k v)) db'"
inductive_cases pageStep_writeE: "pageStep files db (Access t (WriteOf k v)) db'"
inductive_cases pageStep_commitE: "pageStep files db (Commit t) db'"
inductive_cases pageStep_abortE: "pageStep files db (Abort t) db'"
inductive_cases pageStep_silentE: "pageStep files db Silent db'"

text \<open>The committed and the current rows of a page; a page that does not exist yet has none.\<close>

definition stored :: "(string \<Rightarrow> HeapFile) \<Rightarrow> DB \<Rightarrow> heapHash \<Rightarrow> DBValue list list" where
  "stored files db k = (case committed files db k of None \<Rightarrow> [] | Some rs \<Rightarrow> rs)"

definition shown :: "(string \<Rightarrow> HeapFile) \<Rightarrow> DB \<Rightarrow> heapHash \<Rightarrow> DBValue list list" where
  "shown files db k = (case current files db k of None \<Rightarrow> [] | Some rs \<Rightarrow> rs)"

lemma stored_cong: "committed files db' = committed files db \<Longrightarrow> stored files db' = stored files db"
  by (simp add: stored_def fun_eq_iff)

lemma shown_cong: "current files db' = current files db \<Longrightarrow> shown files db' = shown files db"
  by (simp add: shown_def fun_eq_iff)

lemma locked_cong:
  "mapPageLocksByTid db' = mapPageLocksByTid db \<Longrightarrow> locked db' = locked db"
  "mapPageLocksByTid db' = mapPageLocksByTid db \<Longrightarrow> write_locked db' = write_locked db"
  by (simp_all add: locked_def write_locked_def fun_eq_iff)

lemma locked_released:
  "(\<And>t. locksOf (mapPageLocksByTid db') t = (if t = tid then [] else locksOf (mapPageLocksByTid db) t)) \<Longrightarrow>
   locked db' = (locked db)(tid := \<lambda>_. False)"
  by (auto simp: locked_def fun_eq_iff)

lemma GetPage_locked:
  assumes "db_ok files db" and "files (fromFile f) = f" and "GetPage f n tid p db = Some (Ok r, db')"
  shows "locked db' = (locked db)(tid := (locked db tid)(pageKey f n := True))"
    and "t \<noteq> tid \<Longrightarrow> write_locked db' t = write_locked db t"
proof -
  have "mapPageLocksByTid db' = mapPageLocksByTid (saveMapAndUpgradeLock n (pageKey f n) r tid p db)"
    by (rule GetPage_cases [OF assms]) auto
  then show "locked db' = (locked db)(tid := (locked db tid)(pageKey f n := True))"
    and "t \<noteq> tid \<Longrightarrow> write_locked db' t = write_locked db t"
    by (auto simp: saveMap_table locked_def write_locked_def fun_eq_iff split: if_splits)
qed

text \<open>The contract, law by law.\<close>

lemma read_law:
  assumes "db_ok files db" and "pageStep files db (Access tid (ReadOf k v)) db'"
  shows "db_ok files db'" and "v = shown files db k" and "stored files db' = stored files db" and "shown files db' = shown files db"
    and "locked db' = (locked db)(tid := (locked db tid)(k := True))" and "t \<noteq> tid \<Longrightarrow> write_locked db' t = write_locked db t"
proof -
  from assms(2) obtain f n p r where f: "files (fromFile f) = f" and get: "GetPage f n tid p db = Some (Ok r, db')"
    and k: "k = pageKey f n" and v: "v = rows (objs db' ! r)" by (auto elim: pageStep_readE)
  note g = GetPage_Ok [OF assms(1) f get]
  then show "db_ok files db'" and "v = shown files db k" and "stored files db' = stored files db" and "shown files db' = shown files db"
    by (auto simp: k v shown_def stored_def)
  show "locked db' = (locked db)(tid := (locked db tid)(k := True))" and "t \<noteq> tid \<Longrightarrow> write_locked db' t = write_locked db t"
    using GetPage_locked [OF assms(1) f get] by (simp_all add: k)
qed

lemma modified_page:
  assumes "db_ok files db" and "map_of (pages db) k = Some r"
    and "page_insertTuple (objs db ! r) t = Ok (rid, p, t') \<and> tupleFits (hfDesc (files (FileName k))) t \<or>
      page_deleteTuple (objs db ! r) rid' = Ok p"
  shows "page_at files k p" and "dirty p"
proof -
  have at: "page_at files k (objs db ! r)" using pool_okD(2) [OF _ assms(2)] assms(1) by (auto simp: db_ok_def)
  then have ok: "page_ok (objs db ! r)" "page_fits (objs db ! r)" "pgDesc (objs db ! r) = hfDesc (files (FileName k))"
    by (auto simp: page_at_def page_of_def)
  have "page_at files k p \<and> dirty p"
    using assms(3)
  proof (elim disjE conjE)
    assume ins: "page_insertTuple (objs db ! r) t = Ok (rid, p, t')" and fits: "tupleFits (hfDesc (files (FileName k))) t"
    note i = page_insertTuple_Ok [OF ok(1) ins]
    have "page_fits p" using page_fits_insert [OF ok(1,2) _ ins] fits ok(3) by simp
    then show ?thesis using page_at_same [OF at i(1)] i(8-11) by simp
  next
    assume del: "page_deleteTuple (objs db ! r) rid' = Ok p"
    have "pgDesc p = pgDesc (objs db ! r) \<and> pgFile p = pgFile (objs db ! r) \<and> pageNo p = pageNo (objs db ! r) \<and> dirty p"
      using del by (auto simp: page_deleteTuple_def setDirty_def split: option.splits if_splits)
    then show ?thesis
      using page_at_same [OF at page_ok_delete [OF ok(1) del] page_fits_delete [OF ok(1,2) del]] by simp
  qed
  then show "page_at files k p" and "dirty p" by auto
qed

lemma write_law:
  assumes "db_ok files db" and "pageStep files db (Access tid (WriteOf k v)) db'"
  shows "db_ok files db'" and "stored files db' = stored files db" and "shown files db' = (shown files db)(k := v)"
    and "locked db' = (locked db)(tid := (locked db tid)(k := True))" and "write_locked db' tid k"
proof -
  from assms(2) obtain l t rid rid' t' p where l: "map_of (locksOf (mapPageLocksByTid db) tid) k = Some l" "perm l = WritePerm"
    and r: "map_of (pages db) k = Some (lockPage l)" and v: "v = rows p" and db': "db' = setObj (lockPage l) p db"
    and m: "page_insertTuple (objs db ! lockPage l) t = Ok (rid, p, t') \<and> tupleFits (hfDesc (files (FileName k))) t \<or>
      page_deleteTuple (objs db ! lockPage l) rid' = Ok p"
    by (elim pageStep_writeE) blast+
  note pg = modified_page [OF assms(1) r m]
  note d = db_ok_modify [OF assms(1) r l refl pg]
  show "db_ok files db'" and "stored files db' = stored files db" and "shown files db' = (shown files db)(k := v)"
    using d by (auto simp: db' setObj_def stored_def shown_def v fun_eq_iff)
  have same: "mapPageLocksByTid db' = mapPageLocksByTid db" by (simp add: db' setObj_def)
  show "locked db' = (locked db)(tid := (locked db tid)(k := True))" and "write_locked db' tid k"
    using l locked_cong [OF same] by (auto simp: locked_def write_locked_def fun_eq_iff)
qed

lemma commit_law:
  assumes "db_ok files db" and "pageStep files db (Commit tid) db'"
  shows "db_ok files db'" and "stored files db' = (\<lambda>k. if locked db tid k then shown files db k else stored files db k)"
    and "shown files db' = shown files db" and "locked db' = (locked db)(tid := \<lambda>_. False)"
  using CommitTransaction_spec [OF assms(1), of tid] assms(2)
  by (auto elim!: pageStep_commitE simp: stored_def shown_def fun_eq_iff locked_def)

lemma deadlock_clears:
  assumes "db_ok files db" and "files (fromFile f) = f"
    and "GetPage f n tid p db = Some (Err (PlainError ''transaction is aborted''), db')"
  shows "\<exists>db1. db' = clearMap tid db1 \<and> db_ok files db1 \<and> committed files db1 = committed files db \<and>
      current files db1 = current files db \<and> mapPageLocksByTid db1 = mapPageLocksByTid db"
proof (rule GetPage_cases [OF assms])
  assume "fetchPage f n db = (Err (PlainError ''transaction is aborted''), db')"
  then show ?thesis using fetchPage_not_aborted [OF assms(1,2)] by simp
next
  fix r db1 db2
  assume a: "fetchPage f n db = (Ok r, db1)" "db_ok files db2" "db2 = db1\<lparr>waitTidLocks := waitTidLocks db2\<rparr>" "db' = clearMap tid db2"
  note spec = fetchPage_spec [OF assms(1,2) a(1)]
  obtain w where w: "db2 = db1\<lparr>waitTidLocks := w\<rparr>" using a(3) by blast
  have "committed files db2 = committed files db" "current files db2 = current files db" "mapPageLocksByTid db2 = mapPageLocksByTid db"
    using spec views_cong [of db2 db1 files] views_cong(1) [of db1 db files] by (simp_all add: w same_but_pool_def)
  with a(2,4) show ?thesis by blast
qed simp

lemma clear_law:
  assumes "db_ok files db1" "committed files db1 = committed files db" "current files db1 = current files db"
    "mapPageLocksByTid db1 = mapPageLocksByTid db"
  shows "db_ok files (clearMap tid db1)" and "stored files (clearMap tid db1) = stored files db"
    and "shown files (clearMap tid db1) = (\<lambda>k. if write_locked db tid k then stored files db k else shown files db k)"
    and "locked (clearMap tid db1) = (locked db)(tid := \<lambda>_. False)"
  using db_ok_clearMap [OF assms(1), of tid] views_clearMap [OF assms(1), of tid] assms(2,3) locked_cong [OF assms(4)]
    locked_released [of "clearMap tid db1" tid db] assms(4)
  by (auto simp: stored_def shown_def fun_eq_iff)

lemma abort_law:
  assumes "db_ok files db" and "pageStep files db (Abort tid) db'"
  shows "db_ok files db'" and "stored files db' = stored files db"
    and "shown files db' = (\<lambda>k. if write_locked db tid k then stored files db k else shown files db k)"
    and "locked db' = (locked db)(tid := \<lambda>_. False)"
proof -
  have "\<exists>db1. db' = clearMap tid db1 \<and> db_ok files db1 \<and> committed files db1 = committed files db \<and>
      current files db1 = current files db \<and> mapPageLocksByTid db1 = mapPageLocksByTid db"
    using assms(2) deadlock_clears [OF assms(1)] assms(1) by (auto elim!: pageStep_abortE simp: AbortTransaction_def)
  then obtain db1 where "db' = clearMap tid db1" "db_ok files db1" "committed files db1 = committed files db"
      "current files db1 = current files db" "mapPageLocksByTid db1 = mapPageLocksByTid db" by blast
  note c = clear_law [OF this(2-), of tid, folded this(1)]
  show "db_ok files db'" and "stored files db' = stored files db"
    and "shown files db' = (\<lambda>k. if write_locked db tid k then stored files db k else shown files db k)"
    and "locked db' = (locked db)(tid := \<lambda>_. False)" by (rule c)+
qed

lemma silent_law:
  assumes "db_ok files db" and "pageStep files db Silent db'"
  shows "db_ok files db'" and "stored files db' = stored files db" and "shown files db' = shown files db" and "locked db' = locked db"
proof -
  have "db_ok files db' \<and> stored files db' = stored files db \<and> shown files db' = shown files db \<and> locked db' = locked db"
  proof -
    from assms(2) consider (1) f n tid p e where "files (fromFile f) = f" "GetPage f n tid p db = Some (Err e, db')"
        "e \<noteq> PlainError ''transaction is aborted''"
      | (2) f page page' d where "db' = db\<lparr>disk := d\<rparr>" "files (fromFile f) = f"
        "newHeapPage (hfDesc f) (NumPages f (disk db)) f = Ok page" "flushPage f page (disk db) = Ok (page', d)"
      by (auto elim: pageStep_silentE)
    then show ?thesis
    proof cases
      case 1
      then show ?thesis
        using GetPage_Err [OF assms(1) 1(1,2)] stored_cong [of files db' db] shown_cong [of files db' db] locked_cong(1) [of db' db] by auto
    next
      case 2
      note ext = db_ok_extend [OF assms(1) 2(2) refl 2(3,4)]
      have "committed files db (pageKey f (NumPages f (disk db))) = None"
        using ext(4) by (auto simp: current_def split: option.splits)
      then show ?thesis using ext 2(1) locked_cong(1) [of db' db] by (auto simp: stored_def shown_def fun_eq_iff)
    qed
  qed
  then show "db_ok files db'" and "stored files db' = stored files db" and "shown files db' = shown files db" and "locked db' = locked db"
    by auto
qed

interpretation database: strict_locking "db_ok files" "pageStep files" "stored files" "shown files" locked write_locked
proof unfold_locales
  fix db db' t k v
  assume ok: "db_ok files db" and s: "pageStep files db (Access t (ReadOf k v)) db'"
  note r = read_law [OF ok s]
  show "v = shown files db k \<and> stored files db' = stored files db \<and> shown files db' = shown files db \<and>
      locked db' = (locked db)(t := (locked db t)(k := True)) \<and> (\<forall>t'. t' \<noteq> t \<longrightarrow> write_locked db' t' = write_locked db t')"
    by (intro conjI allI impI r)
next
  fix db db' t k v
  assume "db_ok files db" and "pageStep files db (Access t (WriteOf k v)) db'"
  note r = write_law [OF this]
  show "stored files db' = stored files db \<and> shown files db' = (shown files db)(k := v) \<and>
      locked db' = (locked db)(t := (locked db t)(k := True)) \<and> write_locked db' t k"
    by (intro conjI r)
next
  fix db db' t
  assume "db_ok files db" and "pageStep files db (Commit t) db'"
  note r = commit_law [OF this]
  show "stored files db' = (\<lambda>k. if locked db t k then shown files db k else stored files db k) \<and>
      shown files db' = shown files db \<and> locked db' = (locked db)(t := \<lambda>_. False)"
    by (intro conjI r)
next
  fix db db' t
  assume "db_ok files db" and "pageStep files db (Abort t) db'"
  note r = abort_law [OF this]
  show "stored files db' = stored files db \<and>
      shown files db' = (\<lambda>k. if write_locked db t k then stored files db k else shown files db k) \<and>
      locked db' = (locked db)(t := \<lambda>_. False)"
    by (intro conjI r)
next
  fix db db'
  assume "db_ok files db" and "pageStep files db Silent db'"
  note r = silent_law [OF this]
  show "stored files db' = stored files db \<and> shown files db' = shown files db \<and> locked db' = locked db"
    by (intro conjI r)
next
  fix db e db'
  assume ok: "db_ok files db" and s: "pageStep files db e db'"
  show "db_ok files db'"
  proof (cases e)
    case (Access t a)
    then show ?thesis
      using read_law(1) [OF ok] write_law(1) [OF ok] s by (cases a) simp_all
  next
    case (Commit t)
    then show ?thesis using commit_law(1) [OF ok] s by blast
  next
    case (Abort t)
    then show ?thesis using abort_law(1) [OF ok] s by blast
  next
    case Silent
    then show ?thesis using silent_law(1) [OF ok] s by blast
  qed
next
  fix db t k t'
  assume ok: "db_ok files db" and w: "write_locked db t k" and l: "locked db t' k"
  then obtain l l' where "map_of (locksOf (mapPageLocksByTid db) t) k = Some l" "perm l = WritePerm"
    "map_of (locksOf (mapPageLocksByTid db) t') k = Some l'" unfolding write_locked_def locked_def by blast
  with same_key_readers(1) [OF ok, of t t' k l l'] show "t' = t" by (cases "t' = t") simp_all
next
  fix db k
  assume ok: "db_ok files db" and differ: "shown files db k \<noteq> stored files db k"
  then have "current files db k \<noteq> committed files db k" by (auto simp: shown_def stored_def)
  from uncommitted_locked [OF ok this] show "\<exists>t. write_locked db t k" unfolding write_locked_def by blast
next
  fix db t k
  assume "write_locked db t k"
  then show "locked db t k" by (auto simp: locked_def write_locked_def)
qed

section \<open>Heap file operations as steps\<close>

text \<open>The events of one call by a transaction: its accesses, pages appended to the file, or its abort at the end.\<close>

definition accessesOf :: "TransactionID \<Rightarrow> (TransactionID, 'k, 'v) event list \<Rightarrow> bool" where
  "accessesOf tid es \<longleftrightarrow> (\<forall>e \<in> set es. e = Silent \<or> (\<exists>a. e = Access tid a))"

definition callOf :: "TransactionID \<Rightarrow> (TransactionID, 'k, 'v) event list \<Rightarrow> bool" where
  "callOf tid es \<longleftrightarrow> accessesOf tid es \<or> (\<exists>as. es = as @ [Abort tid] \<and> accessesOf tid as)"

lemma accessesOf_simps [simp]:
  "accessesOf tid []" "accessesOf tid [Access tid a]" "accessesOf tid [Silent]"
  "accessesOf tid (es @ es') \<longleftrightarrow> accessesOf tid es \<and> accessesOf tid es'"
  by (auto simp: accessesOf_def)

lemma callOf_simps [simp]: "callOf tid []" "callOf tid [Abort tid]" "callOf tid [Silent]" "callOf tid [Access tid a]"
  by (simp_all add: callOf_def)

lemma callOf_append: "accessesOf tid es \<Longrightarrow> callOf tid es' \<Longrightarrow> callOf tid (es @ es')"
  by (auto simp: callOf_def)

text \<open>\<open>calls\<close>, and \<open>touches\<close> when nothing is aborted: a run of steps of this transaction leads from \<open>db\<close> to \<open>db'\<close>.\<close>

definition calls :: "(string \<Rightarrow> HeapFile) \<Rightarrow> TransactionID \<Rightarrow> DB \<Rightarrow> DB \<Rightarrow> bool" where
  "calls files tid db db' \<longleftrightarrow> (\<exists>es. runs (pageStep files) db es db' \<and> callOf tid es)"

definition touches :: "(string \<Rightarrow> HeapFile) \<Rightarrow> TransactionID \<Rightarrow> DB \<Rightarrow> DB \<Rightarrow> bool" where
  "touches files tid db db' \<longleftrightarrow> (\<exists>es. runs (pageStep files) db es db' \<and> accessesOf tid es)"

lemma touches_refl [simp]: "touches files tid db db"
  unfolding touches_def by (rule exI [of _ "[]"]) (simp add: runs_Nil)

lemma touches_trans: "touches files tid db db1 \<Longrightarrow> touches files tid db1 db2 \<Longrightarrow> touches files tid db db2"
  unfolding touches_def by (elim exE conjE) (rule exI, rule conjI, rule runs_append, assumption+, simp)

lemma touches_calls: "touches files tid db db1 \<Longrightarrow> calls files tid db1 db2 \<Longrightarrow> calls files tid db db2"
  unfolding touches_def calls_def
  by (elim exE conjE) (rule exI, rule conjI, rule runs_append, assumption+, rule callOf_append)

lemma calls_refl [simp]: "calls files tid db db"
  unfolding calls_def by (rule exI [of _ "[]"]) (simp add: runs_Nil)

lemma touches_is_call: "touches files tid db db' \<Longrightarrow> calls files tid db db'"
  using touches_calls [OF _ calls_refl] by blast

lemma touches_step: "pageStep files db e db' \<Longrightarrow> accessesOf tid [e] \<Longrightarrow> touches files tid db db'"
  unfolding touches_def by (rule exI, rule conjI, rule runs_single)

lemma calls_step: "pageStep files db e db' \<Longrightarrow> callOf tid [e] \<Longrightarrow> calls files tid db db'"
  unfolding calls_def by (rule exI, rule conjI, rule runs_single)

lemma GetPage_touches:
  assumes "files (fromFile f) = f" and "GetPage f n tid p db = Some (Ok r, db')"
  shows "touches files tid db db'"
  using touches_step [OF PageRead [where files = files, OF assms]] by simp

lemma GetPage_calls:
  assumes "files (fromFile f) = f" and "GetPage f n tid p db = Some (Err e, db')"
  shows "calls files tid db db'"
  using calls_step [OF PageError [where files = files, OF assms]] calls_step [OF Deadlock [where files = files, OF assms(1)]] assms(2)
  by (cases "e = PlainError ''transaction is aborted''") simp_all

lemma page_write_touches:
  assumes "db_ok files db" and "files (fromFile f) = f" and "GetPage f n tid WritePerm db = Some (Ok r, db1)"
    and "page_insertTuple (objs db1 ! r) t = Ok (rid, p, t') \<and> tupleFits (hfDesc f) t \<or> page_deleteTuple (objs db1 ! r) rid' = Ok p"
  shows "touches files tid db (setObj r p db1)"
proof -
  note g = GetPage_Ok [OF assms(1-3)]
  then obtain l where l: "map_of (locksOf (mapPageLocksByTid db1) tid) (pageKey f n) = Some l" "perm l = WritePerm"
    "map_of (pages db1) (pageKey f n) = Some (lockPage l)" and r: "lockPage l = r" by auto
  have k: "files (FileName (pageKey f n)) = f" using assms(2) by (simp add: pageKey_def)
  have "touches files tid db1 (setObj r p db1)"
    using assms(4)
  proof (elim disjE conjE)
    assume "page_insertTuple (objs db1 ! r) t = Ok (rid, p, t')" and "tupleFits (hfDesc f) t"
    then have "pageStep files db1 (Access tid (WriteOf (pageKey f n) (rows p))) (setObj (lockPage l) p db1)"
      using l by (intro PageInsert) (simp_all add: r k)
    from touches_step [OF this] show ?thesis by (simp add: r)
  next
    assume "page_deleteTuple (objs db1 ! r) rid' = Ok p"
    then have "pageStep files db1 (Access tid (WriteOf (pageKey f n) (rows p))) (setObj (lockPage l) p db1)"
      using l by (intro PageDelete) (simp_all add: r)
    from touches_step [OF this] show ?thesis by (simp add: r)
  qed
  then show ?thesis using touches_trans [OF GetPage_touches [where files = files, OF assms(2,3)]] by simp
qed

lemma insertLoop_touches:
  assumes "db_ok files db" and f: "files (fromFile f) = f" and fits: "tupleFits (hfDesc f) t"
    and "insertLoop f t tid is db = Some (Ok x, db')"
  shows "touches files tid db db'"
  using assms(1,4)
proof (induction "is" arbitrary: db)
  case (Cons i "is")
  from Cons.prems(2) obtain r db1 where get: "GetPage f i tid WritePerm db = Some (Ok r, db1)"
    by (auto split: option.splits go_result.splits)
  show ?case
  proof (cases "page_insertTuple (objs db1 ! r) t")
    case (Ok y)
    then obtain rid p t' where y: "page_insertTuple (objs db1 ! r) t = Ok (rid, p, t')" by (cases y) auto
    then have "db' = setObj r p db1" using Cons.prems(2) get by simp
    then show ?thesis using page_write_touches [OF Cons.prems(1) f get disjI1 [OF conjI [OF y fits]]] by simp
  next
    case (Err e)
    have "db_ok files db1" using GetPage_Ok [OF Cons.prems(1) f get] by simp
    with Cons.IH Cons.prems(2) Err get have "touches files tid db1 db'" by simp
    then show ?thesis using touches_trans [OF GetPage_touches [where files = files, OF f get]] by simp
  qed (use Cons.prems(2) get in simp)
qed simp

lemma insertLoop_calls:
  assumes "db_ok files db" and f: "files (fromFile f) = f" and fits: "tupleFits (hfDesc f) t"
    and "insertLoop f t tid is db = Some (Err e, db')"
  shows "calls files tid db db'"
  using assms(1,4)
proof (induction "is" arbitrary: db)
  case (Cons i "is")
  show ?case
  proof (cases "GetPage f i tid WritePerm db")
    case (Some x)
    obtain res db1 where x: "x = (res, db1)" by (cases x)
    show ?thesis
    proof (cases res)
      case (Ok r)
      then have get: "GetPage f i tid WritePerm db = Some (Ok r, db1)" using Some x by simp
      have "db_ok files db1" using GetPage_Ok [OF Cons.prems(1) f get] by simp
      with Cons.IH Cons.prems(2) get have "calls files tid db1 db'" by (auto split: go_result.splits)
      then show ?thesis using touches_calls [OF GetPage_touches [where files = files, OF f get]] by simp
    next
      case (Err e')
      with Some x Cons.prems(2) GetPage_calls [where files = files, OF f, of i tid WritePerm db e' db1] show ?thesis by simp
    qed (use Some x Cons.prems(2) in simp)
  qed (use Cons.prems(2) in simp)
qed simp

lemma appendTuple_touches:
  assumes "db_ok files db" and "files (fromFile f) = f" and "n = NumPages f (disk db)"
    and "tupleFits (hfDesc f) t" and "appendTuple f t tid n db = Some (Ok t', db')"
  shows "touches files tid db db'"
  using assms(5)
proof (cases rule: appendTuple_cases)
  case (1 page page' d r db1)
  let ?db = "db\<lparr>disk := d\<rparr>"
  have ok: "db_ok files ?db" using db_ok_extend(1) [OF assms(1,2) refl 1(1,2)] .
  have "touches files tid ?db db'"
    using 1(4)
  proof (elim disjE exE conjE)
    fix rid p
    assume "page_insertTuple (objs db1 ! r) t = Ok (rid, p, t')" and "db' = setObj r p db1"
    then show ?thesis using page_write_touches [OF ok assms(2) 1(3)] assms(4) by blast
  next
    assume "db' = db1"
    then show ?thesis using GetPage_touches [where files = files, OF assms(2) 1(3)] by simp
  qed
  then show ?thesis using touches_trans [OF touches_step [OF NewPage [where files = files, OF assms(2) 1(1,2)]]] by simp
qed

lemma appendTuple_calls:
  assumes "files (fromFile f) = f" and "n = NumPages f (disk db)" and "appendTuple f t tid n db = Some (Err e, db')"
  shows "calls files tid db db'"
proof -
  from assms(3) consider (Nothing) "db' = db"
    | (Fetch) page page' d where "newHeapPage (hfDesc f) (NumPages f (disk db)) f = Ok page" "flushPage f page (disk db) = Ok (page', d)"
        "GetPage f n tid WritePerm (db\<lparr>disk := d\<rparr>) = Some (Err e, db')"
    by (auto simp: appendTuple_def split: go_result.splits option.splits)
  then show ?thesis
  proof cases
    case Fetch
    have "calls files tid (db\<lparr>disk := d\<rparr>) db'" using GetPage_calls [where files = files, OF assms(1) Fetch(3)] .
    then show ?thesis using touches_calls [OF touches_step [OF NewPage [where files = files, OF assms(1) Fetch(1,2)]]] by simp
  qed simp
qed

lemma insertTuple_touches:
  assumes "db_ok files db" and "files (fromFile f) = f" and "tupleFits (hfDesc f) t"
    and "insertTuple f t tid db = Some (Ok t', db')"
  shows "touches files tid db db'"
  using assms(4)
proof (cases rule: insertTuple_cases)
  case (Appended db1)
  have ok: "db_ok files db1" "NumPages f (disk db) = NumPages f (disk db1)"
    using insertLoop_spec [OF assms(1-3) Appended(1)] by simp_all
  have "touches files tid db1 db'" using appendTuple_touches [where files = files, OF ok(1) assms(2) ok(2) assms(3) Appended(2)] .
  then show ?thesis by (rule touches_trans [OF insertLoop_touches [OF assms(1-3) Appended(1)]])
qed (use insertLoop_touches [OF assms(1-3)] in auto)

lemma insertTuple_calls:
  assumes "db_ok files db" and "files (fromFile f) = f" and "tupleFits (hfDesc f) t"
    and "insertTuple f t tid db = Some (res, db')" and "\<forall>x. res \<noteq> Panic x"
  shows "calls files tid db db'"
proof (cases res)
  case (Ok t')
  then show ?thesis using touches_is_call [OF insertTuple_touches [OF assms(1-3)]] assms(4) by simp
next
  case (Err e)
  show ?thesis
    using assms(4) unfolding Err
  proof (cases rule: insertTuple_cases)
    case (Appended db1)
    have "NumPages f (disk db) = NumPages f (disk db1)" using insertLoop_spec [OF assms(1-3) Appended(1)] by simp
    from appendTuple_calls [where files = files, OF assms(2) this Appended(2)]
    show ?thesis by (rule touches_calls [OF insertLoop_touches [OF assms(1-3) Appended(1)]])
  qed (use insertLoop_calls [OF assms(1-3)] in auto)
qed (use assms(5) in simp)

lemma deleteTuple_calls:
  assumes "db_ok files db" and "files (fromFile f) = f"
    and "deleteTuple f t tid db = Some (res, db')" and "\<forall>x. res \<noteq> Panic x"
  shows "calls files tid db db'"
proof (cases "Rid t")
  case (Some rid)
  show ?thesis
  proof (cases "GetPage f (PageNo rid) tid WritePerm db")
    case (Some z)
    obtain g db1 where z: "z = (g, db1)" by (cases z)
    show ?thesis
    proof (cases g)
      case (Ok r)
      then have get: "GetPage f (PageNo rid) tid WritePerm db = Some (Ok r, db1)" using Some z by simp
      show ?thesis
      proof (cases "page_deleteTuple (objs db1 ! r) (Rid t)")
        case (Ok p)
        then have "db' = setObj r p db1" using assms(3) get \<open>Rid t = Some rid\<close> by (simp add: deleteTuple_def)
        then show ?thesis using touches_is_call [OF page_write_touches [OF assms(1,2) get disjI2 [OF Ok]]] by simp
      next
        case (Err e)
        then have "db' = db1" using assms(3) get \<open>Rid t = Some rid\<close> by (simp add: deleteTuple_def)
        then show ?thesis using touches_is_call [OF GetPage_touches [where files = files, OF assms(2) get]] by simp
      qed (use assms(3,4) get \<open>Rid t = Some rid\<close> in \<open>auto simp: deleteTuple_def\<close>)
    next
      case (Err e)
      then show ?thesis using GetPage_calls [where files = files, OF assms(2), of "PageNo rid" tid WritePerm db e db1] Some z assms(3) \<open>Rid t = Some rid\<close>
        by (simp add: deleteTuple_def)
    qed (use Some z assms(3,4) \<open>Rid t = Some rid\<close> in \<open>auto simp: deleteTuple_def\<close>)
  qed (use assms(3) \<open>Rid t = Some rid\<close> in \<open>simp add: deleteTuple_def\<close>)
qed (use assms(3) in \<open>simp add: deleteTuple_def\<close>)

lemma scanLoop_calls:
  assumes "db_ok files db" and f: "files (fromFile f) = f" and "scanLoop f tid m i j db = Some (res, db', i', j')" and "\<forall>x. res \<noteq> Panic x"
  shows "calls files tid db db'"
  using assms(1,3)
proof (induction m arbitrary: i j db)
  case (Suc m)
  show ?case
  proof (cases "GetPage f i tid ReadPerm db")
    case (Some z)
    obtain g db1 where z: "z = (g, db1)" by (cases z)
    show ?thesis
    proof (cases g)
      case (Ok r)
      then have get: "GetPage f i tid ReadPerm db = Some (Ok r, db1)" using Some z by simp
      have "db_ok files db1" using GetPage_Ok [OF Suc.prems(1) f get] by simp
      then have "calls files tid db1 db'" using Suc.IH [of db1 "Suc i" 0] Suc.prems(2) get
        by (auto split: go_result.splits if_splits)
      then show ?thesis by (rule touches_calls [OF GetPage_touches [where files = files, OF f get]])
    next
      case (Err e)
      then show ?thesis using GetPage_calls [where files = files, OF f, of i tid ReadPerm db e db1] Some z Suc.prems(2) by simp
    qed (use Some z Suc.prems(2) assms(4) in auto)
  qed (use Suc.prems(2) in simp)
qed simp

text \<open>
  C28: the operations of heap files refine page steps. A call of the table iterator, of \<^verbatim>\<open>insertTuple\<close> with a tuple that fits the table, or of
  \<^verbatim>\<open>deleteTuple\<close> that neither panics nor has to wait for a lock is a sequence of page accesses of its transaction,
  pages appended to the file and, when a deadlock was met, the abort of that transaction; no access of
  another transaction is among them. A call that has to wait goes on with the page that it found before, and is not such a
  sequence in general: see \<open>waiter_commits_aborted_rows\<close>.
\<close>

theorem heap_file_refines_steps:
  assumes "db_ok files db" and "files (fromFile f) = f"
  shows "(\<forall>res i' j'. scanNext f tid (db, i, j) = Some (res, db', i', j') \<and> (\<forall>x. res \<noteq> Panic x) \<longrightarrow> calls files tid db db') \<and>
    (\<forall>res. tupleFits (hfDesc f) t \<and> insertTuple f t tid db = Some (res, db') \<and> (\<forall>x. res \<noteq> Panic x) \<longrightarrow> calls files tid db db') \<and>
    (\<forall>res. deleteTuple f t tid db = Some (res, db') \<and> (\<forall>x. res \<noteq> Panic x) \<longrightarrow> calls files tid db db')"
  using scanLoop_calls [OF assms] insertTuple_calls [OF assms] deleteTuple_calls [OF assms]
  by (auto simp: scanNext_def)

theorem heap_file_refines_steps_witness:
  "calls exFiles 1 exDB0 exDB1"
  using heap_file_refines_steps [OF exDB0_ok(1) exFile_simps(1), of 1 0 0 exDB1 exRow] exDB1_ins exFile_simps(2,3) by auto

lemma exDB1_touches: "touches exFiles 1 exDB0 exDB1"
  using insertTuple_touches [OF exDB0_ok(1) exFile_simps(1) _ exDB1_ins] by simp

lemma exDB0_locks: "\<not> locked exDB0 t k"
  by (simp add: locked_def exDB0_def NewBufferPool_def)

section \<open>Waiting for a page that is then undone\<close>

lemma lockRound_sleeps:
  assumes "table_ok (mapPageLocksByTid db)" and "waitsFor (waitTidLocks db) = {}" and "blockers (mapPageLocksByTid db) n tid p \<noteq> {}"
  shows "lockRound n k r tid p db = (Sleeps, snd (isConflicted n tid p db))"
proof -
  let ?B = "blockers (mapPageLocksByTid db) n tid p" and ?w = "waitTidLocks (snd (isConflicted n tid p db))"
  note spec = isConflicted_spec [OF assms(1), of n tid p]
  have "waitsFor ?w = {tid} \<times> ?B" using spec(2) assms(2) by (auto simp: waitsFor_def split: if_splits)
  moreover have "tid \<notin> ?B" by (simp add: blockers_def)
  moreover have "(a, b) \<in> ({tid} \<times> ?B)\<^sup>+ \<Longrightarrow> a = tid \<and> b \<in> ?B" for a b by (induction rule: trancl_induct) auto
  ultimately have "\<not> fst (deadLockPrevent ?w tid (waitsOf ?w tid) [])" unfolding deadLockPrevent_iff by auto
  then show ?thesis using spec(1) assms(3) by (auto simp: lockRound_def waitWhenConflict_def split: prod.split bool.split)
qed

text \<open>
  C29: rows of an aborted transaction become durable. \<^verbatim>\<open>GetPage\<close> looks the page up before it waits for the
  lock. When the transaction that has the page locked for writing, and has changed it, aborts in the
  meantime, the waiting transaction gets its lock and goes on with the page object of the aborted one, which is no
  longer in the pool: it reads rows that the database does not hold, and its commit writes them to disk.
\<close>

theorem waiter_commits_aborted_rows:
  assumes "db_ok files db" and "map_of (pages db) k = Some r" and "dirty (objs db ! r)"
    and "blockers (mapPageLocksByTid db) (HPageNo k) tid p = {t}" and "write_locked db t k"
    and "locksOf (mapPageLocksByTid db) tid = []" and "lockRound (HPageNo k) k r tid p db = (Sleeps, db1)"
  shows "\<exists>db2 db3. current files (AbortTransaction t db1) k = committed files db k \<and>
    lockRound (HPageNo k) k r tid p (AbortTransaction t db1) = (Granted, db2) \<and>
    rows (objs db2 ! r) = rows (objs db ! r) \<and>
    CommitTransaction tid db2 = Ok db3 \<and> committed files db3 k = Some (rows (objs db ! r))"
proof -
  let ?ab = "AbortTransaction t db1"
  have ok1: "db_ok files db1" and w: "db1 = db\<lparr>waitTidLocks := waitTidLocks db1\<rparr>"
    by (rule lockRound_cases [OF assms(1,2,7)]; simp)+
  obtain ws where db1: "db1 = db\<lparr>waitTidLocks := ws\<rparr>" using w by blast
  have views: "committed files db1 = committed files db" "current files db1 = current files db" "write_locked db1 = write_locked db"
    using views_cong [of db1 db files] locked_cong(2) [of db1 db] by (simp_all add: db1)
  have cur: "current files ?ab k = committed files db k"
    using views_clearMap(2) [OF ok1, of t] assms(5) views by (simp add: AbortTransaction_def)
  have tid: "t \<noteq> tid" using assms(4) by (auto simp: blockers_def)
  have abl: "locksOf (mapPageLocksByTid ?ab) t' = (if t' = t then [] else locksOf (mapPageLocksByTid db) t')" for t'
    by (simp add: AbortTransaction_def db1)
  have tab: "table_ok (mapPageLocksByTid ?ab)" using db_ok_clearMap [OF ok1] by (simp add: AbortTransaction_def db_ok_def)
  have "blockers (mapPageLocksByTid ?ab) (HPageNo k) tid p = {}"
    using assms(4) abl by (auto simp: blockers_def holds_def split: if_splits)
  then have free: "\<not> fst (isConflicted (HPageNo k) tid p ?ab)" using isConflicted_spec(1) [OF tab] by simp
  define db2 where "db2 = deleteWaitTidLocks tid (saveMapAndUpgradeLock (HPageNo k) k r tid p (snd (isConflicted (HPageNo k) tid p ?ab)))"
  have granted: "lockRound (HPageNo k) k r tid p ?ab = (Granted, db2)"
    using free by (auto simp: lockRound_def db2_def split: prod.split bool.split)
  have o: "objs db2 = objs db" "disk db2 = disk db"
    by (simp_all add: db2_def saveMapAndUpgradeLock_def AbortTransaction_def db1 Let_def)
  have own: "locksOf (mapPageLocksByTid db2) tid = [(k, \<lparr>lockPage = r, lockPageNo = HPageNo k, perm = p, lockKey = k\<rparr>)]"
    using abl tid assms(6) by (simp add: db2_def saveMap_table)
  have at: "page_at files k (objs db2 ! r)" using pool_okD(2) [OF _ assms(2)] assms(1) o by (auto simp: db_ok_def)
  define db3 where "db3 = deleteWaitTidLocks tid ((flushed files k r db2)\<lparr>mapPageLocksByTid := AList.delete tid (mapPageLocksByTid db2)\<rparr>)"
  have "CommitTransaction tid db2 = Ok db3"
    using flushObj_flushed [OF at] assms(3) o
    by (simp add: CommitTransaction_def own isDirty_def db3_def flushed_def)
  moreover have "load_page files (disk db3) k = Some (compact (objs db2 ! r))"
    using disk.load_save_same [OF at] by (simp add: db3_def flushed_def)
  ultimately show ?thesis using cur granted o by (auto simp: committed_def)
qed

text \<open>The example: transaction 2 asks for the page on which transaction 1 has inserted a row.\<close>

definition exWaiting :: DB where
  "exWaiting = exDB1\<lparr>waitTidLocks := []\<rparr>"

lemma exWaiting_ok: "db_ok exFiles exWaiting" "locksOf (mapPageLocksByTid exWaiting) 2 = []"
proof -
  show "db_ok exFiles exWaiting" unfolding exWaiting_def by (rule db_ok_waits [OF exDB1_ok(1)]) simp
  have "\<not> holds (mapPageLocksByTid exDB1) 2 l" for l using exDB1_alone by (auto simp: alone_def blockers_def) (metis numeral_One numeral_eq_iff semiring_norm(83) One_nat_def)
  then show "locksOf (mapPageLocksByTid exWaiting) 2 = []" by (cases "locksOf (mapPageLocksByTid exDB1) 2") (auto simp: exWaiting_def holds_def)
qed

lemma exWaiting_uncommitted: "\<exists>k. current exFiles exWaiting k \<noteq> committed exFiles exWaiting k"
proof -
  have v: "current exFiles exWaiting = current exFiles exDB1" "committed exFiles exWaiting = committed exFiles exDB1"
    using views_cong [of exWaiting exDB1 exFiles] by (simp_all add: exWaiting_def)
  have "tupleFits (hfDesc exFile) exRow" "0 < numSlotsFor (hfDesc exFile)" by simp_all
  then have "\<forall>k. committed exFiles exDB1 k = committed exFiles exDB0 k \<or> committed exFiles exDB1 k = Some []"
    using insertTuple_Ok [OF exDB0_ok(1) exFile_simps(1) _ _ exDB1_ins] by blast
  moreover have "committed exFiles exDB0 k = None" for k
    using load_page_NumPages [of exFiles "disk exDB0" k]
    by (cases "load_page exFiles (disk exDB0) k") (simp_all add: committed_def NumPages_def exDB0_def NewBufferPool_def)
  ultimately have c: "committed exFiles exDB1 k \<in> {None, Some []}" for k by auto
  have "[IntField 5] \<in> set (table_rows exFiles exDB1 exFile)" by (simp add: exDB1_ok(4))
  then obtain n where n: "[IntField 5] \<in> set (case current exFiles exDB1 (pageKey exFile n) of None \<Rightarrow> [] | Some rs \<Rightarrow> rs)"
    unfolding table_rows_def by auto
  then obtain rs where "current exFiles exDB1 (pageKey exFile n) = Some rs" "rs \<noteq> []"
    by (cases "current exFiles exDB1 (pageKey exFile n)") fastforce+
  with c [of "pageKey exFile n"] show ?thesis unfolding v by (intro exI [of _ "pageKey exFile n"]) auto
qed

theorem waiter_commits_aborted_rows_witness:
  "\<exists>k r db1 db2 db3. lockRound (HPageNo k) k r 2 ReadPerm exWaiting = (Sleeps, db1) \<and>
     lockRound (HPageNo k) k r 2 ReadPerm (AbortTransaction 1 db1) = (Granted, db2) \<and>
     CommitTransaction 2 db2 = Ok db3 \<and>
     committed exFiles db3 k \<noteq> current exFiles (AbortTransaction 1 db1) k"
proof -
  obtain k where k: "current exFiles exWaiting k \<noteq> committed exFiles exWaiting k" using exWaiting_uncommitted by blast
  from uncommitted_locked [OF exWaiting_ok(1) k] obtain t l r where
    l: "map_of (locksOf (mapPageLocksByTid exWaiting) t) k = Some l" "perm l = WritePerm" "lockPage l = r"
    and r: "map_of (pages exWaiting) k = Some r" "dirty (objs exWaiting ! r)" by blast
  have tab: "table_ok (mapPageLocksByTid exWaiting)" using exWaiting_ok(1) by (simp add: db_ok_def)
  have one: "t' = 1" if "holds (mapPageLocksByTid exWaiting) t' l'" for t' l'
    using that exDB1_alone by (auto simp: exWaiting_def alone_def blockers_def)
  have t: "t = 1" using one map_of_holds [OF l(1)] by blast
  have no: "lockPageNo l = HPageNo k" using map_of_key [OF tab l(1)] by simp
  have b: "blockers (mapPageLocksByTid exWaiting) (HPageNo k) 2 ReadPerm = {1}"
    using one map_of_holds [OF l(1)] l(2) no t by (fastforce simp: blockers_def)
  have wl: "write_locked exWaiting 1 k" using l t by (auto simp: write_locked_def)
  have sl: "lockRound (HPageNo k) k r 2 ReadPerm exWaiting = (Sleeps, snd (isConflicted (HPageNo k) 2 ReadPerm exWaiting))"
    using b by (intro lockRound_sleeps [OF tab]) (simp_all add: exWaiting_def waitsFor_def waitsOf_def)
  have "current exFiles exWaiting k = Some (rows (objs exWaiting ! r))" using r(1) by (simp add: current_def)
  with waiter_commits_aborted_rows [OF exWaiting_ok(1) r b wl exWaiting_ok(2) sl] sl k show ?thesis by metis
qed

end
