(* ===== verification/CsvLoading.thy ===== *)
theory CsvLoading
  imports Transactions Modifications Catalogs
begin

text \<open>
  \<^verbatim>\<open>LoadFromCSV\<close> of \<^verbatim>\<open>godb/heap_file.go\<close>, \<^verbatim>\<open>godb/lab1_query.go\<close> and \<^verbatim>\<open>ImportCatalogFromCSVs\<close> of
  \<^verbatim>\<open>godb/catalog.go\<close>: loading text files into tables. The contents of the text file is a parameter, and so is
  \<open>pf\<close>, the conversion \<^verbatim>\<open>int(strconv.ParseFloat(s, 64))\<close> with \<open>None\<close> for a parse error. The counter of
  \<^verbatim>\<open>NewTID\<close> is part of the state.
\<close>

section \<open>One line\<close>

definition csvFields :: "string \<Rightarrow> bool \<Rightarrow> string \<Rightarrow> string list result" where
  "csvFields sep skipLastField text =
     (let cells = Split text sep in
      if skipLastField then (if cells = [] then Panic SliceBounds else Ok (butlast cells)) else Ok cells)"

text \<open>The \<^verbatim>\<open>switch\<close> has no case for other types: such a field is left out.\<close>

definition csvValue :: "(string \<Rightarrow> int64 option) \<Rightarrow> FieldType \<Rightarrow> string \<Rightarrow> DBValue list result" where
  "csvValue pf ft field =
     (case Ftype ft of
        IntType \<Rightarrow> (case pf (TrimSpace field) of
            None \<Rightarrow> Err (GoDBError TypeMismatchError)
          | Some v \<Rightarrow> Ok [IntField v])
      | StringType \<Rightarrow> Ok [StringField (take StringLength field)]
      | UnknownType \<Rightarrow> Ok [])"

definition csvTuple :: "(string \<Rightarrow> int64 option) \<Rightarrow> TupleDesc \<Rightarrow> string list \<Rightarrow> Tuple result" where
  "csvTuple pf desc cells =
     bind_go (map_go (\<lambda>(ft, field). csvValue pf ft field) (zip (Fields desc) cells)) (\<lambda>vs.
       Ok \<lparr>Desc = desc, TFields = concat vs, Rid = None\<rparr>)"

section \<open>The loader\<close>

text \<open>
  The loop that writes the dirty pages of the file before the commit. It stops at an error of \<^verbatim>\<open>GetPage\<close>;
  an error of \<^verbatim>\<open>flushPage\<close> is ignored and the page marked clean.
\<close>

definition flushDirty :: "HeapFile \<Rightarrow> page_ref \<Rightarrow> DB \<Rightarrow> DB result" where
  "flushDirty f r db =
     (if isDirty (objs db ! r) then
        (case flushPage f (objs db ! r) (disk db) of
           Ok (p, d) \<Rightarrow> Ok (setObj r (setDirty p False) (db\<lparr>disk := d\<rparr>))
         | Err e \<Rightarrow> Ok (setObj r (setDirty (objs db ! r) False) db)
         | Panic x \<Rightarrow> Panic x)
      else Ok db)"

partial_function (option) flushFileLoop :: "HeapFile \<Rightarrow> TransactionID \<Rightarrow> nat \<Rightarrow> DB \<Rightarrow> (unit result \<times> DB) option" where
  "flushFileLoop f tid j db =
     (if j < NumPages f (disk db) then
        (case GetPage f j tid ReadPerm db of
           None \<Rightarrow> None
         | Some (Err e, db1) \<Rightarrow> Some (Ok (), db1)
         | Some (Panic x, db1) \<Rightarrow> Some (Panic x, db1)
         | Some (Ok r, db1) \<Rightarrow> (case flushDirty f r db1 of
             Ok db2 \<Rightarrow> flushFileLoop f tid (Suc j) db2
           | Err e \<Rightarrow> Some (Err e, db1)
           | Panic x \<Rightarrow> Some (Panic x, db1)))
      else Some (Ok (), db))"

text \<open>Inserting one tuple in a transaction of its own; the error of \<^verbatim>\<open>insertTuple\<close> is ignored.\<close>

definition loadTuple :: "HeapFile \<Rightarrow> Tuple \<Rightarrow> TransactionID \<Rightarrow> DB \<Rightarrow> (unit result \<times> DB) option" where
  "loadTuple f t tid db =
     (case insertTuple f t tid (BeginTransaction tid db) of
        None \<Rightarrow> None
      | Some (Panic x, db1) \<Rightarrow> Some (Panic x, db1)
      | Some (_, db1) \<Rightarrow> (case flushFileLoop f tid 0 db1 of
          None \<Rightarrow> None
        | Some (Ok _, db2) \<Rightarrow> (case CommitTransaction tid db2 of
            Ok db3 \<Rightarrow> Some (Ok (), db3)
          | Err e \<Rightarrow> Some (Err e, db2)
          | Panic x \<Rightarrow> Some (Panic x, db2))
        | Some (Err e, db2) \<Rightarrow> Some (Err e, db2)
        | Some (Panic x, db2) \<Rightarrow> Some (Panic x, db2)))"

text \<open>The loop over the lines, with the number of the line before and the counter of transactions.\<close>

fun loadLoop ::
  "HeapFile \<Rightarrow> (string \<Rightarrow> int64 option) \<Rightarrow> bool \<Rightarrow> string \<Rightarrow> bool \<Rightarrow> nat \<Rightarrow> string list \<Rightarrow> nat \<times> DB \<Rightarrow> (unit result \<times> nat \<times> DB) option" where
  "loadLoop f pf hasHeader sep skip cnt [] (nextTid, db) = Some (Ok (), nextTid, db)"
| "loadLoop f pf hasHeader sep skip cnt (text # rest) (nextTid, db) =
     (case csvFields sep skip text of
        Err e \<Rightarrow> Some (Err e, nextTid, db)
      | Panic x \<Rightarrow> Some (Panic x, nextTid, db)
      | Ok cells \<Rightarrow>
          if Fields (Descriptor f) = [] \<or> length cells \<noteq> length (Fields (Descriptor f)) then
            Some (Err (GoDBError MalformedDataError), nextTid, db)
          else if cnt = 0 \<and> hasHeader then loadLoop f pf hasHeader sep skip (Suc cnt) rest (nextTid, db)
          else (case csvTuple pf (Descriptor f) cells of
             Err e \<Rightarrow> Some (Err e, nextTid, db)
           | Panic x \<Rightarrow> Some (Panic x, nextTid, db)
           | Ok t \<Rightarrow> (case NewTID nextTid of (tid, nextTid') \<Rightarrow>
               (case loadTuple f t tid db of
                  None \<Rightarrow> None
                | Some (Ok _, db') \<Rightarrow> loadLoop f pf hasHeader sep skip (Suc cnt) rest (nextTid', db')
                | Some (Err e, db') \<Rightarrow> Some (Err e, nextTid', db')
                | Some (Panic x, db') \<Rightarrow> Some (Panic x, nextTid', db')))))"

definition LoadFromCSV ::
  "HeapFile \<Rightarrow> (string \<Rightarrow> int64 option) \<Rightarrow> string \<Rightarrow> bool \<Rightarrow> string \<Rightarrow> bool \<Rightarrow> nat \<times> DB \<Rightarrow> (unit result \<times> nat \<times> DB) option" where
  "LoadFromCSV f pf text hasHeader sep skip st = loadLoop f pf hasHeader sep skip 0 (scanLines text) st"

section \<open>Loading one tuple\<close>

text \<open>No transaction holds a lock; then every page in the pool is clean.\<close>

definition quiet :: "DB \<Rightarrow> bool" where
  "quiet db \<longleftrightarrow> 0 < numPages db \<and> (\<forall>t l. \<not> holds (mapPageLocksByTid db) t l)"

lemma quiet_alone: "quiet db \<Longrightarrow> alone tid p db"
  by (simp add: quiet_def alone_def blockers_def)

lemma quiet_room:
  assumes "db_ok files db" and "quiet db"
  shows "has_room db"
proof (cases "pages db")
  case Nil
  then show ?thesis using assms(2) by (simp add: quiet_def has_room_def)
next
  case (Cons e es)
  obtain k r where e: "e = (k, r)" by (cases e)
  then have r: "map_of (pages db) k = Some r" by (simp add: Cons)
  have "pool_ok files db" using assms(1) by (simp add: db_ok_def)
  from pool_okD(5) [OF this r] assms(2) map_of_holds have "\<not> dirty (objs db ! r)" unfolding quiet_def by blast
  then show ?thesis by (auto simp: has_room_def Cons e)
qed

lemma GetPage_alone:
  assumes ok: "db_ok files db" and f: "files (fromFile f) = f" and "alone tid p db"
  shows "(\<exists>r db'. GetPage f n tid p db = Some (Ok r, db')) \<or> (\<exists>e db'. GetPage f n tid p db = Some (Err e, db') \<and> fetchPage f n db = (Err e, db'))"
proof -
  obtain res db1 where fetch: "fetchPage f n db = (res, db1)" by (cases "fetchPage f n db")
  note spec = fetchPage_spec [OF ok f fetch]
  show ?thesis
  proof (cases res)
    case (Ok r)
    have m: "mapPageLocksByTid db1 = mapPageLocksByTid db" "table_ok (mapPageLocksByTid db1)"
      using spec(1,2) by (auto simp: same_but_pool_def db_ok_def)
    have "\<not> fst (isConflicted n tid p db1)" using isConflicted_spec(1) [OF m(2)] assms(3) m(1) by (simp add: alone_def)
    then have "\<exists>db2. lockRound n (pageKey f n) r tid p db1 = (Granted, db2)" by (auto simp: lockRound_def split: prod.split bool.split)
    then show ?thesis using handle_eq [OF m(2)] by (auto simp: GetPage_def fetch Ok)
  next
    case (Err e)
    then show ?thesis by (simp add: GetPage_def fetch)
  next
    case (Panic x)
    then show ?thesis using GetPage_no_panic [OF ok f, of n tid p x db1] fetch by (simp add: GetPage_def)
  qed
qed

lemma flushDirty_spec:
  assumes "db_ok files db" and "files (fromFile f) = f" and "map_of (pages db) (pageKey f n) = Some r"
  shows "\<exists>db'. flushDirty f r db = Ok db' \<and> db_ok files db' \<and> current files db' = current files db \<and>
    mapPageLocksByTid db' = mapPageLocksByTid db \<and> numPages db' = numPages db"
proof (cases "dirty (objs db ! r)")
  case True
  note at = pool_page_at [OF assms]
  from flushObj_flushed [OF at(6)] at(4) obtain d where
    fl: "flushPage f (objs db ! r) (disk db) = Ok (setDirty (objs db ! r) False, d)" and d: "d = save_page files (disk db) (pageKey f n) (objs db ! r)"
    using assms(2) by (auto simp: flushObj_def flushed_def flushPage_def save_page_def pageKey_def)
  have "flushDirty f r db = Ok (flushed files (pageKey f n) r db)"
    using True fl by (simp add: flushDirty_def isDirty_def setObj_def flushed_def d setDirty_def)
  then show ?thesis using db_ok_flushed [OF assms(1,3)] by (simp add: flushed_def)
qed (use assms(1) in \<open>simp add: flushDirty_def isDirty_def\<close>)

lemma flushFileLoop_spec:
  assumes "db_ok files db" and f: "files (fromFile f) = f" and "alone tid WritePerm db"
  shows "\<exists>db'. flushFileLoop f tid j db = Some (Ok (), db') \<and> db_ok files db' \<and> current files db' = current files db \<and>
    alone tid WritePerm db' \<and> numPages db' = numPages db"
  using assms(1,3)
proof (induction "NumPages f (disk db) - j" arbitrary: j db)
  case 0
  then show ?case by (simp add: flushFileLoop.simps [of f tid j db])
next
  case (Suc m)
  then have j: "j < NumPages f (disk db)" by simp
  note unf = flushFileLoop.simps [of f tid j db]
  from GetPage_alone [OF Suc.prems(1) f alone_WritePerm [OF Suc.prems(2)], of j] show ?case
  proof (elim disjE exE conjE)
    fix r db1
    assume get: "GetPage f j tid ReadPerm db = Some (Ok r, db1)"
    note g = GetPage_Ok [OF Suc.prems(1) f get]
    have al: "alone tid WritePerm db1" using GetPage_frame(1) [OF Suc.prems(1) f get] Suc.prems(2) by simp
    have np: "numPages db1 = numPages db" by (rule GetPage_cases [OF Suc.prems(1) f get]) auto
    from g have ok1: "db_ok files db1" and r: "map_of (pages db1) (pageKey f j) = Some r" by auto
    from flushDirty_spec [OF ok1 f r] obtain db2 where fl: "flushDirty f r db1 = Ok db2" and ok2: "db_ok files db2"
      and c: "current files db2 = current files db1" and l: "mapPageLocksByTid db2 = mapPageLocksByTid db1" and n2: "numPages db2 = numPages db1" by blast
    have cur: "current files db2 = current files db" using c g by simp
    have "NumPages f (disk db2) = NumPages f (disk db)"
      using NumPages_current [OF ok2 f] NumPages_current [OF Suc.prems(1) f] cur by (metis nat_neq_iff)
    then have m: "m = NumPages f (disk db2) - Suc j" using Suc.hyps(2) by simp
    have "alone tid WritePerm db2" using al l by (simp add: alone_def)
    from Suc.hyps(1) [OF m ok2 this] show ?thesis unfolding unf using j get fl cur n2 np by simp
  next
    fix e db1
    assume get: "GetPage f j tid ReadPerm db = Some (Err e, db1)" and fetch: "fetchPage f j db = (Err e, db1)"
    note spec = fetchPage_spec [OF Suc.prems(1) f fetch]
    then show ?thesis unfolding unf using j get Suc.prems(2) by (simp add: same_but_pool_def alone_def)
  qed
qed

lemma insertLoop_numPages:
  assumes "db_ok files db" and f: "files (fromFile f) = f" and "insertLoop f t tid is db = Some (Ok x, db')"
  shows "numPages db' = numPages db"
  using assms(1,3)
proof (induction "is" arbitrary: db)
  case (Cons i "is")
  from Cons.prems(2) obtain r db1 where get: "GetPage f i tid WritePerm db = Some (Ok r, db1)"
    by (auto split: option.splits go_result.splits)
  have np: "numPages db1 = numPages db" by (rule GetPage_cases [OF Cons.prems(1) f get]) auto
  have "db_ok files db1" using GetPage_Ok [OF Cons.prems(1) f get] by simp
  then show ?case using Cons.IH [of db1] Cons.prems(2) get np by (auto simp: setObj_def split: go_result.splits)
qed simp

lemma insertTuple_numPages:
  assumes "db_ok files db" and f: "files (fromFile f) = f" and fits: "tupleFits (hfDesc f) t" and "insertTuple f t tid db = Some (Ok t', db')"
  shows "numPages db' = numPages db"
  using assms(4)
proof (cases rule: insertTuple_cases)
  case (Appended db1)
  have "db_ok files db1" using insertLoop_spec [OF assms(1-3) Appended(1)] by simp
  note np = insertLoop_numPages [OF assms(1,2) Appended(1)]
  from Appended(2) show ?thesis
  proof (cases rule: appendTuple_cases)
    fix page page' d r db2
    assume a: "newHeapPage (hfDesc f) (NumPages f (disk db1)) f = Ok page" "flushPage f page (disk db1) = Ok (page', d)"
      "GetPage f (NumPages f (disk db)) tid WritePerm (db1\<lparr>disk := d\<rparr>) = Some (Ok r, db2)"
      "(\<exists>rid p. page_insertTuple (objs db2 ! r) t = Ok (rid, p, t') \<and> db' = setObj r p db2) \<or>
       (\<exists>e. page_insertTuple (objs db2 ! r) t = Err e \<and> t' = t \<and> db' = db2)"
    have "numPages db2 = numPages db1"
      by (rule GetPage_cases [OF db_ok_extend(1) [OF \<open>db_ok files db1\<close> f refl a(1,2)] f a(3)]) auto
    then show ?thesis using a(4) np by (auto simp: setObj_def)
  qed
qed (use insertLoop_numPages [OF assms(1,2)] in auto)

lemma loadTuple_spec:
  assumes ok: "db_ok files db" and f: "files (fromFile f) = f" and "quiet db" and fits: "tupleFits (hfDesc f) t"
    and slots: "0 < numSlotsFor (hfDesc f)" and size: "0 < tupleSize (hfDesc f)"
  shows "\<exists>db'. loadTuple f t tid db = Some (Ok (), db') \<and> db_ok files db' \<and> quiet db' \<and>
    mset (table_rows files db' f) = add_mset (TFields t) (mset (table_rows files db f)) \<and>
    (\<forall>g. files (fromFile g) = g \<and> fromFile g \<noteq> fromFile f \<longrightarrow> table_rows files db' g = table_rows files db g)"
proof -
  obtain t' db1 where ins: "insertTuple f t tid db = Some (Ok t', db1)" and al: "alone tid WritePerm db1"
    using insertTuple_total [OF ok f fits size quiet_room [OF ok assms(3)] quiet_alone [OF assms(3)]] by blast
  note i = insertTuple_Ok [OF ok f fits slots ins]
  obtain db2 where fl: "flushFileLoop f tid 0 db1 = Some (Ok (), db2)" and ok2: "db_ok files db2"
    and c2: "current files db2 = current files db1" and al2: "alone tid WritePerm db2" and np: "numPages db2 = numPages db1"
    using flushFileLoop_spec [OF conjunct1 [OF i] f al, of 0] by blast
  obtain db3 where cm: "CommitTransaction tid db2 = Ok db3" and ok3: "db_ok files db3" and c3: "current files db3 = current files db2"
    and l3: "mapPageLocksByTid db3 = AList.delete tid (mapPageLocksByTid db2)" and np3: "numPages db3 = numPages db2"
    using CommitTransaction_spec [OF ok2, of tid] by blast
  have rows: "table_rows files db3 g = table_rows files db1 g" if "files (fromFile g) = g" for g
    using table_rows_current [OF conjunct1 [OF i] ok3 that] c2 c3 by simp
  have "quiet db3"
    using al2 insertTuple_numPages [OF ok f fits ins] np np3 assms(3)
    by (auto simp: quiet_def l3 holds_def alone_def blockers_def split: if_splits)
  with ins fl cm ok3 i rows f show ?thesis by (auto simp: loadTuple_def BeginTransaction_def)
qed

section \<open>Loading a file\<close>

text \<open>The row that a line stands for, or the error with which the loader refuses it.\<close>

definition csvRow :: "(string \<Rightarrow> int64 option) \<Rightarrow> TupleDesc \<Rightarrow> string \<Rightarrow> bool \<Rightarrow> string \<Rightarrow> Tuple result" where
  "csvRow pf desc sep skip ln =
     bind_go (csvFields sep skip ln) (\<lambda>cells.
       if Fields desc = [] \<or> length cells \<noteq> length (Fields desc) then Err (GoDBError MalformedDataError)
       else csvTuple pf desc cells)"

text \<open>The columns can be stored: types are known, and a page has room for a row.\<close>

definition loadable :: "HeapFile \<Rightarrow> bool" where
  "loadable f \<longleftrightarrow> (\<forall>ft \<in> set (Fields (hfDesc f)). Ftype ft \<noteq> UnknownType) \<and> 0 < numSlotsFor (hfDesc f) \<and> 0 < tupleSize (hfDesc f)"

lemma set_splitOn: "x \<in> set (splitOn sep acc s) \<Longrightarrow> set x \<subseteq> set acc \<union> set s"
proof (induction sep acc s rule: splitOn.induct)
  case (1 sep acc s)
  have sub: "set (drop (length sep) s) \<subseteq> set s" "s \<noteq> [] \<Longrightarrow> set (tl s) \<subseteq> set s" "s \<noteq> [] \<Longrightarrow> hd s \<in> set s"
    by (auto dest: in_set_dropD list.set_sel(2))
  show ?case
    using "1.prems" "1.IH" sub by (subst (asm) splitOn.simps) (fastforce split: if_splits)
qed

lemma set_Split: "x \<in> set (Split s sep) \<Longrightarrow> set x \<subseteq> set s"
  using set_splitOn [of x sep "[]" s] by (auto simp: Split_def split: if_splits)

lemma csvValues_fit:
  assumes "list_all2 (\<lambda>(ft, cell) vs. csvValue pf ft cell = Ok vs) (zip fts cells) vss" and "length cells = length fts"
    and "\<forall>ft \<in> set fts. Ftype ft \<noteq> UnknownType" and "\<forall>c \<in> set cells. nul \<notin> set c"
  shows "list_all2 (\<lambda>f v. valueFits (Ftype f) v) fts (concat vss)"
  using assms
proof (induction fts arbitrary: cells vss)
  case (Cons ft fts)
  then obtain c cs vs vss' where c: "cells = c # cs" "vss = vs # vss'" by (cases cells) (auto simp: list_all2_Cons1)
  have "take StringLength c = [] \<or> last (take StringLength c) \<in> set c"
    using in_set_takeD [of "last (take StringLength c)" StringLength c] last_in_set [of "take StringLength c"] by blast
  then have "valueFits StringType (StringField (take StringLength c))"
    using Cons.prems(4) by (auto simp: c)
  then have "\<exists>v. vs = [v] \<and> valueFits (Ftype ft) v"
    using Cons.prems(1,3) by (cases "Ftype ft") (auto simp: c csvValue_def split: option.splits)
  moreover have "list_all2 (\<lambda>f v. valueFits (Ftype f) v) fts (concat vss')" using Cons.prems by (intro Cons.IH [of cs]) (auto simp: c)
  ultimately show ?case by (auto simp: c)
qed auto

lemma csvRow_fits:
  assumes "csvRow pf (hfDesc f) sep skip ln = Ok t" and "loadable f" and "nul \<notin> set ln"
  shows "tupleFits (hfDesc f) t"
proof -
  from assms(1) obtain cells vss where cells: "csvFields sep skip ln = Ok cells" "length cells = length (Fields (hfDesc f))"
    and v: "map_go (\<lambda>(ft, cell). csvValue pf ft cell) (zip (Fields (hfDesc f)) cells) = Ok vss" and t: "TFields t = concat vss"
    by (auto simp: csvRow_def csvTuple_def split: if_splits)
  have "nul \<notin> set c" if "c \<in> set cells" for c
    using cells(1) that set_Split [of c ln sep] assms(3) by (auto simp: csvFields_def Let_def split: if_splits dest: in_set_butlastD)
  with csvValues_fit [of pf "Fields (hfDesc f)" cells vss] v cells(2) assms(2) show ?thesis
    by (simp add: tupleFits_def t loadable_def map_go_Ok_iff case_prod_unfold)
qed

definition rowOf :: "(string \<Rightarrow> int64 option) \<Rightarrow> TupleDesc \<Rightarrow> string \<Rightarrow> bool \<Rightarrow> string \<Rightarrow> Tuple" where
  "rowOf pf desc sep skip ln = (case csvRow pf desc sep skip ln of Ok t \<Rightarrow> t | _ \<Rightarrow> \<lparr>Desc = desc, TFields = [], Rid = None\<rparr>)"

text \<open>Lines that are rows are loaded one after the other, whatever comes after them.\<close>

lemma loadLoop_rows:
  assumes "db_ok files db" and f: "files (fromFile f) = f" and "quiet db" and ld: "loadable f"
    and "\<forall>ln \<in> set data. nul \<notin> set ln \<and> (\<exists>t. csvRow pf (hfDesc f) sep skip ln = Ok t)" and "hasHeader \<longrightarrow> 0 < cnt"
  shows "\<exists>db'. (\<forall>rest. loadLoop f pf hasHeader sep skip cnt (data @ rest) (n, db) =
      loadLoop f pf hasHeader sep skip (cnt + length data) rest (n + length data, db')) \<and> db_ok files db' \<and> quiet db' \<and>
    mset (table_rows files db' f) = mset (table_rows files db f) + mset (map (\<lambda>l. TFields (rowOf pf (hfDesc f) sep skip l)) data) \<and>
    (\<forall>g. files (fromFile g) = g \<and> fromFile g \<noteq> fromFile f \<longrightarrow> table_rows files db' g = table_rows files db g)"
  using assms(1,3,5,6)
proof (induction data arbitrary: db n cnt)
  case Nil
  then show ?case by auto
next
  case (Cons ln data)
  then obtain t where t: "csvRow pf (hfDesc f) sep skip ln = Ok t" and z: "nul \<notin> set ln" by auto
  have fits: "tupleFits (hfDesc f) t" using csvRow_fits [OF t ld z] .
  have ld': "0 < numSlotsFor (hfDesc f)" "0 < tupleSize (hfDesc f)" using ld by (auto simp: loadable_def)
  obtain db1 where l: "loadTuple f t n db = Some (Ok (), db1)" "db_ok files db1" "quiet db1"
    "mset (table_rows files db1 f) = add_mset (TFields t) (mset (table_rows files db f))"
    "\<forall>g. files (fromFile g) = g \<and> fromFile g \<noteq> fromFile f \<longrightarrow> table_rows files db1 g = table_rows files db g"
    using loadTuple_spec [OF Cons.prems(1) f Cons.prems(2) fits ld', of n] by blast
  obtain cells where cells: "csvFields sep skip ln = Ok cells" "Fields (hfDesc f) \<noteq> []" "length cells = length (Fields (hfDesc f))"
    "csvTuple pf (hfDesc f) cells = Ok t" using t by (auto simp: csvRow_def split: if_splits)
  have step: "loadLoop f pf hasHeader sep skip cnt (ln # xs) (n, db) = loadLoop f pf hasHeader sep skip (Suc cnt) xs (Suc n, db1)" for xs
    using cells l(1) Cons.prems(4) by (auto simp: Descriptor_def NewTID_def)
  have "\<forall>ln \<in> set data. nul \<notin> set ln \<and> (\<exists>t. csvRow pf (hfDesc f) sep skip ln = Ok t)" using Cons.prems(3) by simp
  from Cons.IH [OF l(2,3) this, of "Suc cnt" "Suc n"] obtain db' where
    ih: "\<forall>rest. loadLoop f pf hasHeader sep skip (Suc cnt) (data @ rest) (Suc n, db1) =
      loadLoop f pf hasHeader sep skip (Suc cnt + length data) rest (Suc n + length data, db')" "db_ok files db'" "quiet db'"
    "mset (table_rows files db' f) = mset (table_rows files db1 f) + mset (map (\<lambda>l. TFields (rowOf pf (hfDesc f) sep skip l)) data)"
    "\<forall>g. files (fromFile g) = g \<and> fromFile g \<noteq> fromFile f \<longrightarrow> table_rows files db' g = table_rows files db1 g" by auto
  have "TFields (rowOf pf (hfDesc f) sep skip ln) = TFields t" by (simp add: rowOf_def t)
  with ih l(4,5) step show ?case by (intro exI [of _ db']) auto
qed

text \<open>
  C36: loading a CSV file. When no transaction holds a lock, every field of the table has a type and a page has at least one slot for a
  tuple, and the lines of the file after the header are rows of the table without NUL characters, \<^verbatim>\<open>LoadFromCSV\<close> adds exactly their rows,
  one transaction for each, leaves every other table alone, and returns with no lock held and everything committed. When a line
  is not a row, it returns the error of that line, and the rows of the lines before it stay in the table. No line of the file may
  have 64 KB or more, since the scanner stops there and the loader does not look at its error.
\<close>

theorem LoadFromCSV_loads:
  assumes "db_ok files db" and "files (fromFile f) = f" and "quiet db" and "loadable f"
    and "\<forall>ln \<in> set (Split csv [newline]). length ln < 65536"
    and "textLines csv = hdr @ data @ rest" and "length hdr = (if hasHeader then 1 else 0)"
    and "\<forall>ln \<in> set hdr. \<exists>cells. csvFields sep skip ln = Ok cells \<and> length cells = length (Fields (hfDesc f)) \<and> cells \<noteq> []"
    and "\<forall>ln \<in> set data. nul \<notin> set ln \<and> (\<exists>t. csvRow pf (hfDesc f) sep skip ln = Ok t)"
    and "rest = [] \<and> err = None \<or> (\<exists>ln more e. rest = ln # more \<and> csvRow pf (hfDesc f) sep skip ln = Err e \<and> err = Some e)"
  shows "\<exists>db'. LoadFromCSV f pf csv hasHeader sep skip (n, db) =
      Some (case err of None \<Rightarrow> Ok () | Some e \<Rightarrow> Err e, n + length data, db') \<and> db_ok files db' \<and> quiet db' \<and>
    current files db' = committed files db' \<and>
    mset (table_rows files db' f) = mset (table_rows files db f) + mset (map (\<lambda>l. TFields (rowOf pf (hfDesc f) sep skip l)) data) \<and>
    (\<forall>g. files (fromFile g) = g \<and> fromFile g \<noteq> fromFile f \<longrightarrow> table_rows files db' g = table_rows files db g)"
proof -
  have lines: "scanLines csv = hdr @ data @ rest" using scanLines_all [OF assms(5)] assms(6) by simp
  let ?cnt = "if hasHeader then 1 else 0 :: nat"
  have start: "LoadFromCSV f pf csv hasHeader sep skip (n, db) = loadLoop f pf hasHeader sep skip ?cnt (data @ rest) (n, db)"
  proof (cases hasHeader)
    case True
    then obtain h where "hdr = [h]" using assms(7) by (cases hdr) auto
    then show ?thesis using lines assms(8) True by (auto simp: LoadFromCSV_def Descriptor_def)
  qed (use lines assms(7) in \<open>simp add: LoadFromCSV_def\<close>)
  obtain db' where l: "\<forall>rest. loadLoop f pf hasHeader sep skip ?cnt (data @ rest) (n, db) =
      loadLoop f pf hasHeader sep skip (?cnt + length data) rest (n + length data, db')" and ok: "db_ok files db'" "quiet db'"
    and rows: "mset (table_rows files db' f) = mset (table_rows files db f) + mset (map (\<lambda>l. TFields (rowOf pf (hfDesc f) sep skip l)) data)"
      "\<forall>g. files (fromFile g) = g \<and> fromFile g \<noteq> fromFile f \<longrightarrow> table_rows files db' g = table_rows files db g"
    using loadLoop_rows [OF assms(1-4) assms(9), of hasHeader ?cnt n] by auto
  have "current files db' = committed files db'"
    using no_locks_current [OF ok(1)] ok(2) map_of_holds unfolding quiet_def write_locked_def by blast
  moreover have "loadLoop f pf hasHeader sep skip (?cnt + length data) rest (n + length data, db') =
      Some (case err of None \<Rightarrow> Ok () | Some e \<Rightarrow> Err e, n + length data, db')"
    using assms(10)
  proof (elim disjE exE conjE)
    fix ln more e
    assume r: "rest = ln # more" "csvRow pf (hfDesc f) sep skip ln = Err e" "err = Some e"
    have h: "\<not> (?cnt + length data = 0 \<and> hasHeader)" by simp
    from r(2) consider (Cells) "csvFields sep skip ln = Err e"
      | (Row) cells where "csvFields sep skip ln = Ok cells"
          "(if Fields (hfDesc f) = [] \<or> length cells \<noteq> length (Fields (hfDesc f)) then Err (GoDBError MalformedDataError) else csvTuple pf (hfDesc f) cells) = Err e"
      by (auto simp: csvRow_def bind_go_eq_Err)
    then show ?thesis
    proof cases
      case Row
      then show ?thesis using r(1,3) h by (cases "Fields (hfDesc f) = [] \<or> length cells \<noteq> length (Fields (hfDesc f))") (auto simp: Descriptor_def)
    qed (simp add: r(1,3))
  qed simp
  ultimately show ?thesis using start l ok rows by (intro exI [of _ db']) simp
qed

section \<open>The sum of a column\<close>

text \<open>
  \<^verbatim>\<open>computeFieldSum\<close> loads the file into a new table and adds up the field over a scan. The errors of the
  iterator and of \<^verbatim>\<open>findFieldInTd\<close> are dropped; \<^verbatim>\<open>log.Fatalf\<close> ends the program.
\<close>

definition intAt :: "Tuple \<Rightarrow> int \<Rightarrow> int64 result" where
  "intAt t idx =
     (if idx < 0 \<or> idx \<ge> int (length (TFields t)) then Panic IndexOutOfRange
      else (case TFields t ! nat idx of IntField v \<Rightarrow> Ok v | _ \<Rightarrow> Panic TypeAssertion))"

partial_function (option) sumLoop ::
  "('s, Tuple) iter \<Rightarrow> int \<Rightarrow> Tuple option result \<Rightarrow> 's \<Rightarrow> int64 \<Rightarrow> (int64 result \<times> 's) option" where
  "sumLoop ite idx tuple s counter =
     (case tupleOrNil tuple of
        Err e \<Rightarrow> Some (Err e, s)
      | Panic x \<Rightarrow> Some (Panic x, s)
      | Ok None \<Rightarrow> Some (Ok counter, s)
      | Ok (Some t) \<Rightarrow> (case intAt t idx of
          Err e \<Rightarrow> Some (Err e, s)
        | Panic x \<Rightarrow> Some (Panic x, s)
        | Ok v \<Rightarrow> (case ite s of
            None \<Rightarrow> None
          | Some (tuple', s') \<Rightarrow> sumLoop ite idx tuple' s' (counter + v))))"

definition computeFieldSum ::
  "(string \<Rightarrow> int64 option) \<Rightarrow> string option \<Rightarrow> TupleDesc \<Rightarrow> string \<Rightarrow> nat \<times> Disk \<Rightarrow> (int64 result \<times> nat \<times> DB) option" where
  "computeFieldSum pf csv td sumField st =
     (case st of (nextTid, d) \<Rightarrow>
      let newFileName = ''test-csv.dat'';
          db = NewBufferPool 5 (d(newFileName := []));
          heapFile = NewHeapFile newFileName td
      in (case csv of
         None \<Rightarrow> Some (Panic FatalExit, nextTid, db)
       | Some file \<Rightarrow> (case LoadFromCSV heapFile pf file True '','' False (nextTid, db) of
           None \<Rightarrow> None
         | Some (Err e, n, db1) \<Rightarrow> Some (Panic FatalExit, n, db1)
         | Some (Panic x, n, db1) \<Rightarrow> Some (Panic x, n, db1)
         | Some (Ok _, n, db1) \<Rightarrow>
             (case NewTID n of (tid, n') \<Rightarrow>
              let idx = fst (findFieldInTd \<lparr>Fname = sumField, TableQualifier = [], Ftype = IntType\<rparr> (hfDesc heapFile)) in
              (case scanNext heapFile tid (scanStart db1) of
                 None \<Rightarrow> None
               | Some (tuple, s) \<Rightarrow> (case sumLoop (scanNext heapFile tid) idx tuple s 0 of
                   None \<Rightarrow> None
                 | Some (res, db2, _) \<Rightarrow> Some (res, n', db2)))))))"

fun intOf :: "DBValue \<Rightarrow> int64" where
  "intOf (IntField v) = v"
| "intOf _ = 0"

lemma sumLoop_yields:
  assumes "yields ite s ts s'" and "\<forall>t \<in> set ts. intAt t idx = Ok (intOf (TFields t ! nat idx))"
  shows "\<exists>tuple s1. ite s = Some (tuple, s1) \<and>
    sumLoop ite idx tuple s1 c = Some (Ok (c + sum_list (map (\<lambda>t. intOf (TFields t ! nat idx)) ts)), s')"
  using assms
proof (induction arbitrary: c rule: yields.induct)
  case (yields_Nil s s')
  then show ?case by (simp add: sumLoop.simps [of ite idx "Ok None" s' c] tupleOrNil_def)
next
  case (yields_Cons s x s1 xs s2)
  let ?v = "intOf (TFields x ! nat idx)"
  from yields_Cons.IH [of "c + ?v"] yields_Cons.prems obtain tuple s3 where n: "ite s1 = Some (tuple, s3)"
    "sumLoop ite idx tuple s3 (c + ?v) = Some (Ok (c + ?v + sum_list (map (\<lambda>t. intOf (TFields t ! nat idx)) xs)), s2)" by auto
  have "intAt x idx = Ok ?v" using yields_Cons.prems by simp
  with n yields_Cons.hyps(1) show ?case
    by (auto simp: sumLoop.simps [of ite idx "Ok (Some x)" s1 c] tupleOrNil_def add.assoc)
qed

lemma tupleFits_intAt:
  assumes "tupleFits desc t" and "findFieldInTd \<lparr>Fname = a, TableQualifier = q, Ftype = IntType\<rparr> desc = (idx, None)"
  shows "intAt t idx = Ok (intOf (TFields t ! nat idx))"
proof -
  note i = findFieldInTd_index [OF assms(2)]
  then have ty: "Ftype (Fields desc ! nat idx) = IntType" by (simp add: fieldMatches_def)
  have l: "list_all2 (\<lambda>f v. valueFits (Ftype f) v) (Fields desc) (TFields t)" using assms(1) by (simp add: tupleFits_def)
  then have "valueFits IntType (TFields t ! nat idx)" "length (TFields t) = length (Fields desc)"
    using list_all2_nthD [OF l i(2)] ty list_all2_lengthD [OF l] by auto
  then show ?thesis using i(1,2) by (cases "TFields t ! nat idx") (auto simp: intAt_def)
qed

text \<open>
  \<^verbatim>\<open>computeFieldSum\<close> on a CSV file whose first line is a header and whose other lines are rows
  returns the sum, in 64-bit arithmetic, of the values of the integer column that \<^verbatim>\<open>findFieldInTd\<close> finds.
\<close>

theorem computeFieldSum_sums:
  assumes "disk_ok files (d(''test-csv.dat'' := []))" and "files ''test-csv.dat'' = NewHeapFile ''test-csv.dat'' td"
    and "loadable (NewHeapFile ''test-csv.dat'' td)"
    and "scanLines csv = h # data" and "length (Split h '','') = length (Fields td)"
    and "\<forall>ln \<in> set data. nul \<notin> set ln \<and> (\<exists>t. csvRow pf td '','' False ln = Ok t)"
    and "findFieldInTd \<lparr>Fname = sumField, TableQualifier = [], Ftype = IntType\<rparr> td = (idx, None)"
  shows "\<exists>db. computeFieldSum pf (Some csv) td sumField (n, d) =
    Some (Ok (sum_list (map (\<lambda>ln. intOf (TFields (rowOf pf td '','' False ln) ! nat idx)) data)), n + length data + 1, db)"
proof -
  let ?f = "NewHeapFile ''test-csv.dat'' td" and ?db = "NewBufferPool 5 (d(''test-csv.dat'' := []))"
  let ?row = "\<lambda>ln. TFields (rowOf pf td '','' False ln)" and ?val = "\<lambda>vs. intOf (vs ! nat idx)"
  have f: "files (fromFile ?f) = ?f" "hfDesc ?f = td" using assms(2) by (simp_all add: NewHeapFile_def)
  have ok: "db_ok files ?db" "quiet ?db"
    using assms(1) by (simp_all add: db_ok_def NewBufferPool_def pool_ok_def locks_ok_def table_ok_def locks_compatible_def waits_ok_def holds_def quiet_def)
  have empty: "table_rows files ?db ?f = []" by (simp add: table_rows_def NumPages_def NewBufferPool_def NewHeapFile_def)
  have rows: "\<forall>ln \<in> set data. nul \<notin> set ln \<and> (\<exists>t. csvRow pf (hfDesc ?f) '','' False ln = Ok t)" using assms(6) f(2) by simp
  have ne: "Fields td \<noteq> []" using findFieldInTd_index(2) [OF assms(7)] by auto
  then have hl: "LoadFromCSV ?f pf csv True '','' False (n, ?db) = loadLoop ?f pf True '','' False (Suc 0) (data @ []) (n, ?db)"
    using assms(4,5) f(2) by (simp add: LoadFromCSV_def csvFields_def Descriptor_def)
  obtain db1 where l: "\<forall>rest. loadLoop ?f pf True '','' False (Suc 0) (data @ rest) (n, ?db) =
      loadLoop ?f pf True '','' False (Suc 0 + length data) rest (n + length data, db1)"
    and ok1: "db_ok files db1" "quiet db1" and r1: "mset (table_rows files db1 ?f) = mset (map ?row data)"
    using loadLoop_rows [OF ok(1) f(1) ok(2) assms(3) rows, of True "Suc 0" n] unfolding empty f(2) by auto
  have load: "LoadFromCSV ?f pf csv True '','' False (n, ?db) = Some (Ok (), n + length data, db1)"
    using spec [OF l, of "[]"] unfolding hl by simp
  have "scan_ready files (n + length data) db1"
    using ok1 quiet_room [OF ok1] quiet_alone [OF ok1(2)] by (simp add: scan_ready_def)
  then obtain ts s where y: "yields (scanNext ?f (n + length data)) (scanStart db1) ts s" and ts: "map TFields ts = table_rows files db1 ?f"
    using scan_all [of files ?f, OF f(1)] by blast
  have "intAt t idx = Ok (?val (TFields t))" if "t \<in> set ts" for t
  proof -
    have "TFields t \<in> set (table_rows files db1 ?f)" using that by (simp flip: ts)
    then have "TFields t \<in># mset (map ?row data)" unfolding r1 [symmetric] by simp
    then obtain ln where ln: "ln \<in> set data" "TFields t = ?row ln" by auto
    then obtain t' where "csvRow pf (hfDesc ?f) '','' False ln = Ok t'" "nul \<notin> set ln" using rows by blast
    then have "tupleFits td (rowOf pf td '','' False ln)" using csvRow_fits [OF _ assms(3)] f(2) by (auto simp: rowOf_def)
    then have "tupleFits td t" using ln(2) by (simp add: tupleFits_def)
    then show ?thesis using tupleFits_intAt assms(7) by blast
  qed
  then obtain tuple s1 where sum: "scanNext ?f (n + length data) (scanStart db1) = Some (tuple, s1)"
    "sumLoop (scanNext ?f (n + length data)) idx tuple s1 0 = Some (Ok (0 + sum_list (map (\<lambda>t. ?val (TFields t)) ts)), s)"
    using sumLoop_yields [OF y, of idx 0] by blast
  have "sum_list (map (\<lambda>t. ?val (TFields t)) ts) = sum_mset (image_mset ?val (mset (map TFields ts)))"
    by (simp add: sum_mset_sum_list [symmetric] image_mset.compositionality o_def)
  also have "\<dots> = sum_list (map (\<lambda>ln. ?val (?row ln)) data)"
    by (simp add: ts r1 sum_mset_sum_list [symmetric] image_mset.compositionality o_def)
  finally show ?thesis
    using load sum assms(7) f(2) by (cases s) (simp add: computeFieldSum_def NewTID_def)
qed

section \<open>Importing a catalog\<close>

fun importLoop ::
  "(string \<Rightarrow> int64 option) \<Rightarrow> textFiles \<Rightarrow> string \<Rightarrow> string \<Rightarrow> string \<Rightarrow> Table list \<Rightarrow> nat \<times> DB \<Rightarrow> (unit result \<times> nat \<times> DB) option" where
  "importLoop pf tf root tableSuffix sep [] (n, db) = Some (Ok (), n, db)"
| "importLoop pf tf root tableSuffix sep (t # ts) (n, db) =
     (case tf (root @ ''/'' @ tname t @ ''.'' @ tableSuffix) of
        None \<Rightarrow> Some (Err (PlainError ''open''), n, db)
      | Some csv \<Rightarrow>
          (case LoadFromCSV (NewHeapFile (tableNameToFile (tname t)) (TupleDesc_copy (tdesc t))) pf csv False sep True (n, db) of
             None \<Rightarrow> None
           | Some (Ok _, n', db') \<Rightarrow> importLoop pf tf root tableSuffix sep ts (n', db')
           | Some (Err e, n', db') \<Rightarrow> Some (Err e, n', db')
           | Some (Panic x, n', db') \<Rightarrow> Some (Panic x, n', db')))"

definition ImportCatalogFromCSVs ::
  "(string \<Rightarrow> int64 option) \<Rightarrow> textFiles \<Rightarrow> string \<Rightarrow> string \<Rightarrow> string \<Rightarrow> string \<Rightarrow> nat \<times> DB \<Rightarrow> (unit result \<times> nat \<times> DB) option" where
  "ImportCatalogFromCSVs pf tf catalogFile root tableSuffix sep st =
     (case NewCatalogFromFile catalogFile root tf of
        Err e \<Rightarrow> Some (Err e, st)
      | Panic x \<Rightarrow> Some (Panic x, st)
      | Ok c \<Rightarrow> importLoop pf tf root tableSuffix sep (catTables c) st)"

section \<open>The theorems on an example\<close>

definition exCsv :: string where
  "exCsv = ''a'' @ [newline] @ ''5'' @ [newline] @ '' 7'' @ [newline]"

definition exFloat :: "string \<Rightarrow> int64 option" where
  "exFloat s = (if s = ''5'' then Some 5 else if s = ''7'' then Some 7 else None)"

lemma exCsv_lines: "scanLines exCsv = [''a'', ''5'', '' 7'']" and exCsv_short: "\<forall>ln \<in> set (Split exCsv [newline]). length ln < 65536"
proof -
  show "scanLines exCsv = [''a'', ''5'', '' 7'']"
    using scanLines_concat [of "[''a'', ''5'', '' 7'']"] by (simp add: exCsv_def newline_def)
  have "Split exCsv [newline] = [''a'', ''5'', '' 7'', []]"
    using Split_lines [of "[''a'', ''5'', '' 7'']"] by (simp add: exCsv_def newline_def)
  then show "\<forall>ln \<in> set (Split exCsv [newline]). length ln < 65536" by simp
qed

lemma exCsv_rows:
  "csvRow exFloat exDesc '','' False ''5'' = Ok \<lparr>Desc = exDesc, TFields = [IntField 5], Rid = None\<rparr>"
  "csvRow exFloat exDesc '','' False '' 7'' = Ok \<lparr>Desc = exDesc, TFields = [IntField 7], Rid = None\<rparr>"
  "csvFields '','' False ''a'' = Ok [''a'']" "length (Split ''a'' '','') = length (Fields exDesc)"
  by (simp_all add: csvRow_def csvFields_def csvTuple_def csvValue_def Split_last exDesc_def exFloat_def TrimSpace_def trimBy_def isSpace_def)

lemma exLoad_file: "loadable (NewHeapFile ''test-csv.dat'' exDesc)" "hfDesc (NewHeapFile s exDesc) = exDesc"
    "exFiles (fromFile (NewHeapFile s exDesc)) = NewHeapFile s exDesc"
  by (simp_all add: loadable_def NewHeapFile_def exFiles_def) (simp add: exDesc_def)

lemma exDB0_quiet: "quiet exDB0"
  by (simp add: quiet_def exDB0_def NewBufferPool_def holds_def)

theorem LoadFromCSV_loads_witness:
  "\<exists>db. LoadFromCSV (NewHeapFile ''test-csv.dat'' exDesc) exFloat exCsv True '','' False (0, exDB0) = Some (Ok (), 2, db) \<and>
     mset (table_rows exFiles db (NewHeapFile ''test-csv.dat'' exDesc)) = {#[IntField 5], [IntField 7]#}"
proof -
  let ?f = "NewHeapFile ''test-csv.dat'' exDesc"
  have lns: "textLines exCsv = [''a''] @ [''5'', '' 7''] @ []" using exCsv_lines scanLines_all [OF exCsv_short] by simp
  have h: "length [''a''] = (if True then 1 else 0)" by simp
  have hc: "\<forall>ln \<in> set [''a'']. \<exists>cells. csvFields '','' False ln = Ok cells \<and> length cells = length (Fields (hfDesc ?f)) \<and> cells \<noteq> []"
    by (simp add: exCsv_rows(3) exLoad_file(2)) (simp add: exDesc_def)
  have d: "\<forall>ln \<in> set [''5'', '' 7'']. nul \<notin> set ln \<and> (\<exists>t. csvRow exFloat (hfDesc ?f) '','' False ln = Ok t)"
    by (simp add: exCsv_rows(1,2) exLoad_file(2))
  have e: "[] = [] \<and> None = None \<or> (\<exists>ln more e. [] = ln # more \<and> csvRow exFloat (hfDesc ?f) '','' False ln = Err e \<and> None = Some e)" by simp
  have "table_rows exFiles exDB0 ?f = []" by (simp add: table_rows_def NumPages_def exDB0_def NewBufferPool_def)
  with LoadFromCSV_loads [OF exDB0_ok(1) exLoad_file(3) exDB0_quiet exLoad_file(1) exCsv_short lns h hc d e, of 0]
  show ?thesis by (auto simp: exLoad_file(2) rowOf_def exCsv_rows(1,2) numeral_2_eq_2)
qed

theorem computeFieldSum_sums_witness:
  "\<exists>db. computeFieldSum exFloat (Some exCsv) exDesc ''a'' (0, \<lambda>_. []) = Some (Ok 12, 3, db)"
proof -
  have dk: "disk_ok exFiles ((\<lambda>_. [])(''test-csv.dat'' := []))"
    using exDB0_ok(1) by (simp add: db_ok_def exDB0_def NewBufferPool_def fun_upd_idem)
  have d: "\<forall>ln \<in> set [''5'', '' 7'']. nul \<notin> set ln \<and> (\<exists>t. csvRow exFloat exDesc '','' False ln = Ok t)"
    by (simp add: exCsv_rows(1,2))
  have i: "findFieldInTd \<lparr>Fname = ''a'', TableQualifier = [], Ftype = IntType\<rparr> exDesc = (0, None)" by code_simp
  from computeFieldSum_sums [OF dk _ exLoad_file(1) exCsv_lines exCsv_rows(4) d i, of 0]
  show ?thesis by (simp add: rowOf_def exCsv_rows(1,2) exFiles_def numeral_3_eq_3)
qed

end
