(* ===== verification/Shells.thy ===== *)
theory Shells
  imports SelectRuns CsvLoading
begin

text \<open>
  The command shell, \<^verbatim>\<open>main.go\<close>: a loop that reads lines, collects them to statements, runs statements in the current transaction
  or in one of their own, and changes the catalog. Reading lines and printing are not modelled; a line is an argument of a step, and what
  is printed is a list of outputs.
\<close>

section \<open>The state of the shell\<close>

text \<open>
  The local variables of \<^verbatim>\<open>main\<close>, with the counter of transaction identifiers, the pool and the disk. The catalog and the transaction
  are pointers that may be nil.
\<close>

record Shell =
  shDB :: DB
  nextTid :: nat
  shCatalog :: "Catalog option"
  catName :: string
  catPath :: string
  shQuery :: string
  autocommit :: bool
  shTid :: "TransactionID option"
  aligned :: bool
  shFiles :: textFiles

text \<open>
  The surroundings: the operators' (\<open>envRuntime\<close>, of which the shell sets the transaction), the SQL parser, the order of map
  iteration, \<^verbatim>\<open>strconv.ParseFloat\<close>, the paths under which files can be created, and whether the user has interrupted a query after its
  \<open>n\<close>-th result, and the text of an error.
\<close>

record 'h shellEnv =
  envRuntime :: "'h runtime"
  envOrd :: "planMap \<Rightarrow> planMap"
  envSql :: "string \<Rightarrow> sqlStatement result"
  envFloat :: "string \<Rightarrow> int64 option"
  envCreatable :: "string \<Rightarrow> bool"
  envAlarm :: "nat \<Rightarrow> bool"
  envText :: "GoError \<Rightarrow> string"

datatype shellOutput =
    CatalogOut string
  | LoadedOut string
  | CatalogFailed GoError
  | NameExpected
  | FunctionsOut string
  | AlignedOut bool
  | HelpOut
  | ErrorOut GoError
  | LoadOut
  | InvalidQuery GoError
  | MarkOut string
  | PlanOut string
  | HeaderOut string
  | RowOut string
  | AbortingOut
  | ResultsOut nat
  | CannotStart
  | CannotAbort
  | CannotCommit
  | BeginOut
  | AbortOut
  | CommitOut
  | CreateOut
  | DropOut

text \<open>What a step leaves: its outputs and the state, or a panic, which ends the program; \<open>None\<close> when it does not return.\<close>

type_synonym shellResult = "(shellOutput list \<times> Shell) result option"

definition said :: "shellOutput list \<Rightarrow> Shell \<Rightarrow> shellResult" where
  "said out sh = Some (Ok (out, sh))"

text \<open>A call that returns no error, or whose error ends the program.\<close>

definition orCrash :: "'a result \<Rightarrow> ('a \<Rightarrow> 'b result option) \<Rightarrow> 'b result option" where
  "orCrash r k = (case r of Ok x \<Rightarrow> k x | Err e \<Rightarrow> Some (Err e) | Panic x \<Rightarrow> Some (Panic x))"

section \<open>Printing results\<close>

text \<open>
  The loop over the closure of a plan. It ends when the closure returns nil or an error, or when the user interrupts it after a
  tuple, which is returned as \<open>True\<close>.
\<close>

partial_function (option) resultLoop ::
  "(DB \<times> 's, Tuple) iter \<Rightarrow> bool \<Rightarrow> (nat \<Rightarrow> bool) \<Rightarrow> nat \<Rightarrow> shellOutput list \<Rightarrow> DB \<times> 's \<Rightarrow> (bool \<times> nat \<times> shellOutput list \<times> DB) result option" where
  "resultLoop iter al alarm nresults out st =
     (case iter st of
        None \<Rightarrow> None
      | Some (Panic x, db, s) \<Rightarrow> Some (Panic x)
      | Some (Err e, db, s) \<Rightarrow> Some (Ok (False, nresults, out @ [ErrorOut e], db))
      | Some (Ok None, db, s) \<Rightarrow> Some (Ok (False, nresults, out, db))
      | Some (Ok (Some tup), db, s) \<Rightarrow>
          (case PrettyPrintString tup al of
             Panic x \<Rightarrow> Some (Panic x)
           | Err e \<Rightarrow> Some (Err e)
           | Ok row \<Rightarrow>
               if alarm (Suc nresults) then Some (Ok (True, Suc nresults, out @ [RowOut row, AbortingOut], db))
               else resultLoop iter al alarm (Suc nresults) (out @ [RowOut row]) (db, s)))"

text \<open>
  A statement with a plan. In autocommit mode it has a transaction of its own, which is committed at the end of the results; an error
  of \<^verbatim>\<open>Iterator\<close> and an interrupt skip the commit.
\<close>

definition beginOwn :: "Shell \<Rightarrow> Shell" where
  "beginOwn sh =
     (if autocommit sh then
        (let (t, n) = NewTID (nextTid sh) in sh\<lparr>shTid := Some t, nextTid := n, shDB := BeginTransaction t (shDB sh)\<rparr>)
      else sh)"

definition runPlan :: "'h shellEnv \<Rightarrow> Operator \<Rightarrow> Shell \<Rightarrow> shellResult" where
  "runPlan env plan sh0 =
     (let sh = beginOwn sh0 in
      case shTid sh of
        None \<Rightarrow> Some (Panic NilDereference)
      | Some tid \<Rightarrow>
          let rt = (envRuntime env)\<lparr>rtTid := tid\<rparr> in
          (case opOpen rt plan (shDB sh) of
             None \<Rightarrow> None
           | Some (Panic x, db) \<Rightarrow> Some (Panic x)
           | Some (Err e, db) \<Rightarrow> said [ErrorOut e] (sh\<lparr>shDB := db\<rparr>)
           | Some (Ok st, db) \<Rightarrow>
               orCrash (bind_go (opDescriptor (rtWorld rt) plan) (\<lambda>d. HeaderString d (aligned sh))) (\<lambda>header.
                 (case resultLoop (call (opNext rt plan)) (aligned sh) (envAlarm env) 0 [HeaderOut header] (db, st) of
                    None \<Rightarrow> None
                  | Some r \<Rightarrow> orCrash r (\<lambda>(interrupted, n, out, db').
                      orCrash (if autocommit sh \<and> \<not> interrupted then CommitTransaction tid db' else Ok db') (\<lambda>db''.
                        said (out @ [ResultsOut n]) (sh\<lparr>shDB := db''\<rparr>)))))))"

section \<open>Statements\<close>

text \<open>
  \<^verbatim>\<open>Parse\<close> with a nil catalog: the first access to the catalog panics. A FROM clause is read from the left and either reaches a
  table or is refused before.
\<close>

fun nilFrom :: "sqlTableExpr \<Rightarrow> unit result" where
  "nilFrom (SqlSubquery None as) = Err (GoDBError ParseError)"
| "nilFrom (SqlSubquery (Some (SqlSelect (t # ts) whr sels gbys obys lim dist)) as) = nilFrom t"
| "nilFrom (SqlParenTable (t # ts)) = nilFrom t"
| "nilFrom (SqlJoin l r joinType on) = nilFrom l"
| "nilFrom SqlOtherTable = Err (GoDBError ParseError)"
| "nilFrom _ = Panic NilDereference"

fun nilParse :: "sqlStatement \<Rightarrow> (QueryType \<times> Operator) result" where
  "nilParse (SqlSelectStmt (SqlSelect (t # ts) whr sels gbys obys lim dist)) = bind_go (nilFrom t) (\<lambda>_. Panic NilDereference)"
| "nilParse (SqlInsertStmt ins) = (if insColumns ins \<noteq> None then Err (GoDBError ParseError) else Panic NilDereference)"
| "nilParse (SqlDeleteStmt del) =
     (case delTableExprs del of
        [] \<Rightarrow> Panic IndexOutOfRange
      | [te] \<Rightarrow> bind_go (nilFrom te) (\<lambda>_. Panic NilDereference)
      | _ \<Rightarrow> Err (GoDBError ParseError))"
| "nilParse SqlBegin = Ok (BeginXactionType, NilOp)"
| "nilParse SqlCommit = Ok (CommitXactionType, NilOp)"
| "nilParse SqlRollback = Ok (AbortXactionType, NilOp)"
| "nilParse (SqlDDLStmt SqlOtherDDL) = Err (GoDBError ParseError)"
| "nilParse SqlOtherStmt = Err (GoDBError ParseError)"
| "nilParse _ = Panic NilDereference"

text \<open>\<^verbatim>\<open>godb.Parse(c, query)\<close>, which changes catalog and disk.\<close>

definition shellParse :: "'h shellEnv \<Rightarrow> string \<Rightarrow> Shell \<Rightarrow> (QueryType \<times> Operator \<times> Shell) result" where
  "shellParse env q sh =
     (case shCatalog sh of
        Some c \<Rightarrow> bind_go (Parse (rtWorld (envRuntime env)) (envOrd env) (envSql env) q (c, disk (shDB sh))) (\<lambda>(ty, plan, c', dk).
          Ok (ty, plan, sh\<lparr>shCatalog := Some c', shDB := (shDB sh)\<lparr>disk := dk\<rparr>\<rparr>))
      | None \<Rightarrow> bind_go (envSql env q) (\<lambda>stmt. bind_go (nilParse stmt) (\<lambda>(ty, plan). Ok (ty, plan, sh))))"

text \<open>After a change of the catalog the file it came from is written.\<close>

definition saveCatalog :: "'h shellEnv \<Rightarrow> shellOutput \<Rightarrow> Shell \<Rightarrow> shellResult" where
  "saveCatalog env out sh =
     (case shCatalog sh of
        None \<Rightarrow> Some (Panic NilDereference)
      | Some c \<Rightarrow> (case SaveToFile (envCreatable env) (catName sh) (catPath sh) c (shFiles sh) of
          Ok tf \<Rightarrow> said [out] (sh\<lparr>shFiles := tf\<rparr>)
        | Err e \<Rightarrow> said [out, ErrorOut e] sh
        | Panic x \<Rightarrow> Some (Panic x)))"

definition beginXaction :: "Shell \<Rightarrow> shellResult" where
  "beginXaction sh =
     (if \<not> autocommit sh then said [CannotStart] sh
      else let (t, n) = NewTID (nextTid sh) in
        said [BeginOut] (sh\<lparr>shTid := Some t, nextTid := n, shDB := BeginTransaction t (shDB sh), autocommit := False\<rparr>))"

definition abortXaction :: "Shell \<Rightarrow> shellResult" where
  "abortXaction sh =
     (if autocommit sh then said [CannotAbort] sh
      else case shTid sh of
        None \<Rightarrow> Some (Panic NilDereference)
      | Some t \<Rightarrow> said [AbortOut] (sh\<lparr>shDB := AbortTransaction t (shDB sh), autocommit := True\<rparr>))"

definition commitXaction :: "Shell \<Rightarrow> shellResult" where
  "commitXaction sh =
     (if autocommit sh then said [CannotCommit] sh
      else case shTid sh of
        None \<Rightarrow> Some (Panic NilDereference)
      | Some t \<Rightarrow> orCrash (CommitTransaction t (shDB sh)) (\<lambda>db. said [CommitOut] (sh\<lparr>shDB := db, autocommit := True\<rparr>)))"

definition runQuery :: "'h shellEnv \<Rightarrow> QueryType \<Rightarrow> Operator \<Rightarrow> bool \<Rightarrow> Shell \<Rightarrow> shellResult" where
  "runQuery env ty plan explain sh =
     (case ty of
        IteratorType \<Rightarrow>
          if explain then orCrash (PrintPhysicalPlan plan []) (\<lambda>s. said [PlanOut s] sh) else runPlan env plan sh
      | BeginXactionType \<Rightarrow> beginXaction sh
      | AbortXactionType \<Rightarrow> abortXaction sh
      | CommitXactionType \<Rightarrow> commitXaction sh
      | CreateTableQueryType \<Rightarrow> saveCatalog env CreateOut sh
      | DropTableQueryType \<Rightarrow> saveCatalog env DropOut sh
      | UnknownQueryType \<Rightarrow> said [] sh)"

definition explained :: "string \<Rightarrow> string \<times> bool" where
  "explained q =
     (if take 7 (ToLower q) = ''explain'' then (joinWith '' '' (tl (Split q '' '')), True) else (q, False))"

text \<open>
  The mark under a syntax error: spaces up to the position that the message of the parser ends with. A message that ends with the word
  itself is sliced past its end, and a negative number makes \<^verbatim>\<open>strings.Repeat\<close> panic.
\<close>

definition positionMark :: "string \<Rightarrow> string option result" where
  "positionMark errStr =
     (case LastIndex errStr ''position'' of
        None \<Rightarrow> Ok None
      | Some p \<Rightarrow>
          if length errStr < p + 9 then Panic SliceBounds
          else
            let rest = drop (p + 9) errStr; posStr = (case Index rest '' '' of None \<Rightarrow> rest | Some n \<Rightarrow> take n rest) in
            (case Atoi posStr of
               None \<Rightarrow> Ok None
             | Some pos \<Rightarrow> if sint pos < 0 then Panic NegativeCount else Ok (Some (replicate (nat (sint pos)) (CHR '' '') @ ''^''))))"

definition invalidQuery :: "'h shellEnv \<Rightarrow> GoError \<Rightarrow> Shell \<Rightarrow> shellResult" where
  "invalidQuery env e sh = orCrash (positionMark (envText env e)) (\<lambda>mark.
     said ((case mark of None \<Rightarrow> [] | Some m \<Rightarrow> [MarkOut m]) @ [InvalidQuery e]) sh)"

text \<open>A line that ends a statement.\<close>

definition runStatement :: "'h shellEnv \<Rightarrow> string \<Rightarrow> Shell \<Rightarrow> shellResult" where
  "runStatement env q0 sh =
     (case explained q0 of (q, explain) \<Rightarrow>
      (case shellParse env q sh of
         Panic x \<Rightarrow> Some (Panic x)
       | Err e \<Rightarrow> invalidQuery env e (sh\<lparr>shQuery := []\<rparr>)
       | Ok (ty, plan, sh') \<Rightarrow> runQuery env ty plan explain (sh'\<lparr>shQuery := []\<rparr>)))"

section \<open>Commands\<close>

definition changeCatalog :: "string \<Rightarrow> Shell \<Rightarrow> shellResult" where
  "changeCatalog rest sh =
     (let pathAr = Split rest ''/''; name = last pathAr; path = joinWith ''/'' (butlast pathAr) in
      case NewCatalogFromFile name path (shFiles sh) of
        Ok c \<Rightarrow> said [LoadedOut (path @ ''/'' @ name), CatalogOut (CatalogString c)]
          (sh\<lparr>catName := name, catPath := path, shCatalog := Some c, shQuery := []\<rparr>)
      | Err e \<Rightarrow> said [CatalogFailed e] (sh\<lparr>catName := name, catPath := path, shCatalog := None\<rparr>)
      | Panic x \<Rightarrow> Some (Panic x))"

definition loadCommand :: "'h shellEnv \<Rightarrow> string list \<Rightarrow> Shell \<Rightarrow> shellResult" where
  "loadCommand env splits sh =
     (if length splits < 3 then Some (Panic IndexOutOfRange)
      else
        let table = splits ! 1; path = splits ! 2;
            sep = (if length splits > 3 then splits ! 3 else '','');
            hasHeader = (if length splits > 4 then splits ! 4 \<noteq> ''false'' else True)
        in (case shCatalog sh of
              None \<Rightarrow> Some (Panic NilDereference)
            | Some c \<Rightarrow> (case GetTable table c of
                Panic x \<Rightarrow> Some (Panic x)
              | Err e \<Rightarrow> said [ErrorOut e] sh
              | Ok hf \<Rightarrow> (case shFiles sh path of
                  None \<Rightarrow> said [ErrorOut (PlainError ''open'')] sh
                | Some csv \<Rightarrow> (case LoadFromCSV hf (envFloat env) csv hasHeader sep False (nextTid sh, shDB sh) of
                    None \<Rightarrow> None
                  | Some (Panic x, n, db) \<Rightarrow> Some (Panic x)
                  | Some (Err e, n, db) \<Rightarrow> said [ErrorOut e] (sh\<lparr>nextTid := n, shDB := db\<rparr>)
                  | Some (Ok _, n, db) \<Rightarrow> said [LoadOut] (sh\<lparr>nextTid := n, shDB := db, shQuery := []\<rparr>))))))"

definition shellCommand :: "'h shellEnv \<Rightarrow> string \<Rightarrow> Shell \<Rightarrow> shellResult" where
  "shellCommand env line sh =
     (if length line < 2 then Some (Panic IndexOutOfRange)
      else if line ! 1 = CHR ''d'' then
        (case shCatalog sh of
           None \<Rightarrow> Some (Panic NilDereference)
         | Some c \<Rightarrow> said [CatalogOut (CatalogString c)] (sh\<lparr>shQuery := []\<rparr>))
      else if line ! 1 = CHR ''c'' then
        (if length line > 3 then changeCatalog (drop 3 line) sh else said [NameExpected] (sh\<lparr>shQuery := []\<rparr>))
      else if line ! 1 = CHR ''f'' then
        said [FunctionsOut (ListOfFunctions (rtWorld (envRuntime env)))] (sh\<lparr>shQuery := []\<rparr>)
      else if line ! 1 = CHR ''a'' then
        said [AlignedOut (\<not> aligned sh)] (sh\<lparr>aligned := \<not> aligned sh, shQuery := []\<rparr>)
      else if line ! 1 = CHR ''?'' \<or> line ! 1 = CHR ''h'' then said [HelpOut] (sh\<lparr>shQuery := []\<rparr>)
      else if line ! 1 = CHR ''l'' then loadCommand env (Split line '' '') sh
      else said [] (sh\<lparr>shQuery := []\<rparr>))"

section \<open>The loop\<close>

text \<open>One round on the line that was read.\<close>

definition shellLine :: "'h shellEnv \<Rightarrow> string \<Rightarrow> Shell \<Rightarrow> shellResult" where
  "shellLine env input sh =
     (let line = TrimSpace input in
      if line = [] then said [] sh
      else if hd line = CHR 0x5C then shellCommand env line sh
      else if last line \<noteq> CHR '';'' then said [] (sh\<lparr>shQuery := shQuery sh @ '' '' @ line\<rparr>)
      else runStatement env (TrimSpace (shQuery sh @ '' '' @ butlast line)) sh)"

text \<open>The start: a pool of 10000 pages, and the catalog of the working directory.\<close>

definition shellStart :: "textFiles \<Rightarrow> Disk \<Rightarrow> Shell result" where
  "shellStart tf dk =
     bind_go (NewCatalogFromFile ''catalog.txt'' ''godb'' tf) (\<lambda>c.
       Ok \<lparr>shDB = NewBufferPool 10000 dk, nextTid = 0, shCatalog = Some c, catName = ''catalog.txt'', catPath = ''godb'', shQuery = [],
         autocommit = True, shTid = None, aligned = True, shFiles = tf\<rparr>)"

text \<open>A session: the lines it reads, as long as no call hangs or panics, and what they print.\<close>

inductive session :: "'h shellEnv \<Rightarrow> Shell \<Rightarrow> string list \<Rightarrow> shellOutput list \<Rightarrow> Shell \<Rightarrow> bool" for env where
  session_Nil: "session env sh [] [] sh"
| session_Cons: "shellLine env line sh = Some (Ok (out, sh')) \<Longrightarrow> session env sh' lines outs sh'' \<Longrightarrow>
    session env sh (line # lines) (out @ outs) sh''"

inductive_simps session_Nil_iff [simp]: "session env sh [] outs sh'"
inductive_simps session_Cons_iff: "session env sh (line # lines) outs sh'"

section \<open>Transactions of a session\<close>

text \<open>An open transaction exists, and its identifier was drawn from the counter.\<close>

definition shell_ok :: "Shell \<Rightarrow> bool" where
  "shell_ok sh \<longleftrightarrow> (\<not> autocommit sh \<longrightarrow> shTid sh \<noteq> None) \<and> (\<forall>t. shTid sh = Some t \<longrightarrow> t < nextTid sh)"

text \<open>From \<open>sh\<close> to \<open>sh'\<close> the open transaction stays, and any other one is new.\<close>

definition goesOn :: "Shell \<Rightarrow> Shell \<Rightarrow> bool" where
  "goesOn sh sh' \<longleftrightarrow> nextTid sh \<le> nextTid sh' \<and> (\<forall>t. shTid sh' = Some t \<longrightarrow> t < nextTid sh') \<and>
     (shTid sh' = shTid sh \<or> autocommit sh \<and> (\<exists>t. shTid sh' = Some t \<and> nextTid sh \<le> t))"

lemma orCrash_Ok: "orCrash r k = Some (Ok x) \<longleftrightarrow> (\<exists>y. r = Ok y \<and> k y = Some (Ok x))"
  by (cases r) (auto simp: orCrash_def)

lemma said_Ok: "said out sh = Some (Ok (out', sh')) \<longleftrightarrow> out' = out \<and> sh' = sh"
  by (auto simp: said_def)

lemma goesOn_cong: "shell_ok sh \<Longrightarrow> nextTid sh' = nextTid sh \<Longrightarrow> shTid sh' = shTid sh \<Longrightarrow> goesOn sh sh'"
  by (auto simp: goesOn_def shell_ok_def)

lemma runPlan_goesOn:
  assumes "shell_ok sh" and "runPlan env plan sh = Some (Ok (out, sh'))"
  shows "goesOn sh sh' \<and> autocommit sh' = autocommit sh"
proof -
  have b: "goesOn sh (beginOwn sh)" "autocommit (beginOwn sh) = autocommit sh"
    using assms(1) by (auto simp: beginOwn_def NewTID_def goesOn_def shell_ok_def Let_def)
  obtain db where "sh' = (beginOwn sh)\<lparr>shDB := db\<rparr>"
    using assms(2) by (auto simp: runPlan_def Let_def orCrash_Ok said_Ok split: option.splits go_result.splits prod.splits)
  with b show ?thesis by (simp add: goesOn_def)
qed

lemma loadLoop_counter: "loadLoop f pf h sep skip cnt lines (n, db) = Some (r, n', db') \<Longrightarrow> n \<le> n'"
proof (induction lines arbitrary: cnt n db)
  case (Cons l lines)
  then show ?case by (auto simp: NewTID_def split: go_result.splits if_splits option.splits) (metis Suc_leD)+
qed simp


lemma runQuery_goesOn:
  assumes "shell_ok sh" and "runQuery env ty plan explain sh = Some (Ok (out, sh'))"
  shows "goesOn sh sh' \<and> shell_ok sh'"
proof (cases ty)
  case IteratorType
  show ?thesis
  proof (cases explain)
    case True
    with assms IteratorType show ?thesis by (auto simp: runQuery_def orCrash_Ok said_Ok goesOn_cong)
  next
    case False
    with assms IteratorType have "runPlan env plan sh = Some (Ok (out, sh'))" by (simp add: runQuery_def)
    with runPlan_goesOn [OF assms(1)] have "goesOn sh sh'" "autocommit sh' = autocommit sh" by auto
    with assms(1) show ?thesis by (auto simp: goesOn_def shell_ok_def)
  qed
next
  case BeginXactionType
  with assms show ?thesis by (auto simp: runQuery_def beginXaction_def said_Ok NewTID_def goesOn_def shell_ok_def split: if_splits)
next
  case AbortXactionType
  with assms show ?thesis by (auto simp: runQuery_def abortXaction_def said_Ok goesOn_def shell_ok_def split: if_splits option.splits)
next
  case CommitXactionType
  with assms show ?thesis by (auto simp: runQuery_def commitXaction_def said_Ok orCrash_Ok goesOn_def shell_ok_def split: if_splits option.splits)
next
  case CreateTableQueryType
  with assms show ?thesis by (auto simp: runQuery_def saveCatalog_def said_Ok goesOn_def shell_ok_def split: option.splits go_result.splits)
next
  case DropTableQueryType
  with assms show ?thesis by (auto simp: runQuery_def saveCatalog_def said_Ok goesOn_def shell_ok_def split: option.splits go_result.splits)
next
  case UnknownQueryType
  with assms show ?thesis by (auto simp: runQuery_def said_Ok goesOn_def shell_ok_def)
qed

lemma shellParse_frame:
  assumes "shellParse env q sh = Ok (ty, plan, sh')"
  shows "nextTid sh' = nextTid sh" "shTid sh' = shTid sh" "autocommit sh' = autocommit sh" "aligned sh' = aligned sh"
  using assms by (auto simp: shellParse_def split: option.splits)

lemma runStatement_goesOn:
  assumes "shell_ok sh" and "runStatement env q sh = Some (Ok (out, sh'))"
  shows "goesOn sh sh' \<and> shell_ok sh'"
proof (cases "shellParse env (fst (explained q)) sh")
  case (Err e)
  with assms show ?thesis by (cases "explained q") (auto simp: runStatement_def invalidQuery_def orCrash_Ok said_Ok goesOn_def shell_ok_def)
next
  case (Panic x)
  with assms show ?thesis by (cases "explained q") (auto simp: runStatement_def)
next
  case (Ok r)
  obtain ty plan sh1 where r: "r = (ty, plan, sh1)" by (cases r)
  let ?sh = "sh1\<lparr>shQuery := []\<rparr>"
  from assms(2) Ok r have run: "runQuery env ty plan (snd (explained q)) ?sh = Some (Ok (out, sh'))"
    by (cases "explained q") (simp add: runStatement_def)
  note fr = shellParse_frame [OF Ok [unfolded r]]
  with assms(1) have "shell_ok ?sh" by (simp add: shell_ok_def)
  from runQuery_goesOn [OF this run] fr show ?thesis by (simp add: goesOn_def)
qed

lemma shellCommand_goesOn:
  assumes "shell_ok sh" and "shellCommand env line sh = Some (Ok (out, sh'))"
  shows "goesOn sh sh' \<and> shell_ok sh'"
proof (cases "line ! 1 = CHR ''l''")
  case True
  with assms(2) have "loadCommand env (Split line '' '') sh = Some (Ok (out, sh'))" by (simp add: shellCommand_def split: if_splits)
  then have "shTid sh' = shTid sh \<and> autocommit sh' = autocommit sh \<and> nextTid sh \<le> nextTid sh'"
    unfolding loadCommand_def LoadFromCSV_def Let_def
    by (auto simp: said_Ok split: if_splits option.splits go_result.splits prod.splits dest!: loadLoop_counter)
  with assms(1) show ?thesis by (fastforce simp: goesOn_def shell_ok_def)
next
  case False
  with assms(2) have "shTid sh' = shTid sh \<and> autocommit sh' = autocommit sh \<and> nextTid sh = nextTid sh'"
    by (auto simp: shellCommand_def changeCatalog_def Let_def said_Ok split: if_splits option.splits go_result.splits)
  with assms(1) show ?thesis by (simp add: goesOn_def shell_ok_def)
qed

lemma shellLine_goesOn:
  assumes "shell_ok sh" and "shellLine env line sh = Some (Ok (out, sh'))"
  shows "goesOn sh sh' \<and> shell_ok sh'"
proof -
  have same: "goesOn sh (sh\<lparr>shQuery := q\<rparr>) \<and> shell_ok (sh\<lparr>shQuery := q\<rparr>)" "goesOn sh sh" for q
    using assms(1) by (auto simp: goesOn_def shell_ok_def)
  show ?thesis
  proof (cases "TrimSpace line = [] \<or> hd (TrimSpace line) \<noteq> CHR 0x5C \<and> last (TrimSpace line) \<noteq> CHR '';''")
    case True
    with assms(2) same assms(1) show ?thesis by (auto simp: shellLine_def Let_def said_Ok split: if_splits)
  next
    case False
    with assms(2) have "(\<exists>l. shellCommand env l sh = Some (Ok (out, sh'))) \<or> (\<exists>q. runStatement env q sh = Some (Ok (out, sh')))"
      by (auto simp: shellLine_def Let_def split: if_splits)
    with runStatement_goesOn [OF assms(1)] shellCommand_goesOn [OF assms(1)] show ?thesis by blast
  qed
qed

text \<open>
  C21: the transactions of a session of the shell. After any lines, when a transaction is open (autocommit is off) it has an
  identifier, which the counter has passed; a line in an open transaction leaves it the current one, and every transaction that is
  started has an identifier that no earlier one had.
\<close>

theorem session_transactions:
  assumes "session env sh lines outs sh'" and "shell_ok sh"
  shows "shell_ok sh' \<and> nextTid sh \<le> nextTid sh' \<and>
    (\<forall>line out sh''. shellLine env line sh' = Some (Ok (out, sh'')) \<longrightarrow>
      (shTid sh'' = shTid sh' \<or> autocommit sh' \<and> (\<exists>t. shTid sh'' = Some t \<and> nextTid sh' \<le> t \<and> t < nextTid sh'')))"
proof -
  have "shell_ok sh' \<and> nextTid sh \<le> nextTid sh'"
    using assms by (induction rule: session.induct) (auto dest: shellLine_goesOn simp: goesOn_def)
  then show ?thesis using shellLine_goesOn [of sh' env] by (fastforce simp: goesOn_def)
qed

section \<open>The loop over results\<close>

lemma fmtCol_total: "0 < n \<Longrightarrow> n \<le> 30 \<Longrightarrow> \<exists>s. fmtCol v n = Ok s"
proof -
  assume n: "0 < n" "n \<le> 30"
  then have "4 * n \<le> winWidth" by (simp add: winWidth_def)
  then have "4 \<le> winWidth div n" using n(1) by (simp add: less_eq_div_iff_mult_less_eq)
  then show ?thesis using n by (auto simp: fmtCol_def Let_def)
qed

lemma printLoop_total: "al \<longrightarrow> 0 < n \<and> n \<le> 30 \<Longrightarrow> \<exists>s. printLoop al n i ss out = Ok s"
proof (induction ss arbitrary: i out)
  case (Cons x xs)
  show ?case
  proof (cases al)
    case True
    then obtain c where "fmtCol x n = Ok c" using fmtCol_total [of n x] Cons.prems by blast
    then show ?thesis using True Cons.IH [OF Cons.prems, of "Suc i" "out @ '' '' @ c"] by simp
  next
    case False
    then show ?thesis using Cons.IH [OF Cons.prems, of "Suc i"] by simp
  qed
qed simp

text \<open>The line of a row.\<close>

definition rowLine :: "bool \<Rightarrow> DBValue list \<Rightarrow> string" where
  "rowLine al row = (case printLoop al (length row) 0 (map valueString row) [] of Ok s \<Rightarrow> s | _ \<Rightarrow> [])"

lemma rowLine_print:
  assumes "al \<longrightarrow> 0 < length (TFields t) \<and> length (TFields t) \<le> 30"
  shows "PrettyPrintString t al = Ok (rowLine al (TFields t))"
  using printLoop_total [OF assms, of 0 "map valueString (TFields t)" "[]"] by (auto simp: PrettyPrintString_def rowLine_def)

lemma resultLoop_yields:
  assumes "yields iter st ts st'" and "\<forall>t \<in> set ts. al \<longrightarrow> 0 < length (TFields t) \<and> length (TFields t) \<le> 30" and "\<forall>n. \<not> alarm n"
  shows "resultLoop iter al alarm n out st = Some (Ok (False, n + length ts, out @ map (\<lambda>t. RowOut (rowLine al (TFields t))) ts, fst st'))"
  using assms(1,2)
proof (induction arbitrary: n out rule: yields.induct)
  case (yields_Nil st st')
  then show ?case by (cases st') (simp add: resultLoop.simps)
next
  case (yields_Cons st t st1 ts st')
  have "PrettyPrintString t al = Ok (rowLine al (TFields t))" using rowLine_print [of al t] yields_Cons.prems by simp
  then have "resultLoop iter al alarm n out st = resultLoop iter al alarm (Suc n) (out @ [RowOut (rowLine al (TFields t))]) st1"
    using yields_Cons.hyps(1) assms(3) by (cases st1) (subst resultLoop.simps, simp)
  with yields_Cons.IH [of "Suc n"] yields_Cons.prems show ?case by simp
qed

text \<open>A closure that always has a tuple is never left.\<close>

lemma resultLoop_diverges:
  assumes A: "\<And>st. st \<in> A \<Longrightarrow> \<exists>t st'. iter st = Some (Ok (Some t), st') \<and> st' \<in> A \<and> (al \<longrightarrow> 0 < length (TFields t) \<and> length (TFields t) \<le> 30)"
    and "\<forall>n. \<not> alarm n" and "st \<in> A"
  shows "resultLoop iter al alarm n out st = None"
proof (rule ccontr)
  assume "resultLoop iter al alarm n out st \<noteq> None"
  then obtain y where y: "resultLoop iter al alarm n out st = Some y" by blast
  have "(iter, al, alarm) = (iter, al, alarm) \<longrightarrow> st \<notin> A"
  proof (rule resultLoop.raw_induct [where P = "\<lambda>i a m n out st y. (i, a, m) = (iter, al, alarm) \<longrightarrow> st \<notin> A", OF _ y])
    fix f i a m n out st y
    assume IH: "\<And>i a m n out st y. f i a m n out st = Some y \<Longrightarrow> (i, a, m) = (iter, al, alarm) \<longrightarrow> st \<notin> A"
      and eq: "(case i st of
        None \<Rightarrow> None
      | Some (Ok None, db, s) \<Rightarrow> Some (Ok (False, n, out, db))
      | Some (Ok (Some tup), db, s) \<Rightarrow>
          (case PrettyPrintString tup a of
             Ok row \<Rightarrow>
               if m (Suc n) then Some (Ok (True, Suc n, out @ [RowOut row, AbortingOut], db))
               else f i a m (Suc n) (out @ [RowOut row]) (db, s)
           | Err e \<Rightarrow> Some (Err e)
           | Panic x \<Rightarrow> Some (Panic x))
      | Some (Err e, db, s) \<Rightarrow> Some (Ok (False, n, out @ [ErrorOut e], db))
      | Some (Panic x, db, s) \<Rightarrow> Some (Panic x)) = Some y"
    show "(i, a, m) = (iter, al, alarm) \<longrightarrow> st \<notin> A"
    proof (intro impI notI)
      assume same: "(i, a, m) = (iter, al, alarm)" and "st \<in> A"
      then obtain t db s where t: "iter st = Some (Ok (Some t), db, s)" "(db, s) \<in> A" "al \<longrightarrow> 0 < length (TFields t) \<and> length (TFields t) \<le> 30"
        using A by fastforce
      have "f i a m (Suc n) (out @ [RowOut (rowLine al (TFields t))]) (db, s) = Some y"
        using eq same t(1) rowLine_print [OF t(3)] assms(2) by simp
      with IH same t(2) show False by blast
    qed
  qed
  with assms(3) show False by simp
qed


section \<open>Statements that do not end\<close>

text \<open>The line completes the statement \<open>q\<close>, which is not to be explained.\<close>

definition completes :: "Shell \<Rightarrow> string \<Rightarrow> string \<Rightarrow> bool" where
  "completes sh input q \<longleftrightarrow>
     (let line = TrimSpace input in line \<noteq> [] \<and> hd line \<noteq> CHR 0x5C \<and> last line = CHR '';'' \<and>
        TrimSpace (shQuery sh @ '' '' @ butlast line) = q \<and> take 7 (ToLower q) \<noteq> ''explain'')"

lemma shellLine_statement:
  assumes "completes sh input q"
  shows "shellLine env input sh =
    (case shellParse env q sh of
       Panic x \<Rightarrow> Some (Panic x)
     | Err e \<Rightarrow> invalidQuery env e (sh\<lparr>shQuery := []\<rparr>)
     | Ok (ty, plan, sh') \<Rightarrow> runQuery env ty plan False (sh'\<lparr>shQuery := []\<rparr>))"
  using assms by (auto simp: completes_def shellLine_def Let_def runStatement_def explained_def)

text \<open>The closure of a value list does not touch the database.\<close>

definition valueClosure :: "'h runtime \<Rightarrow> ValueOp \<Rightarrow> ('h opState option, Tuple) iter" where
  "valueClosure rt v so =
     (case so of
        None \<Rightarrow> Some (Panic NilDereference, None)
      | Some st \<Rightarrow> (case st of
          ValueState n \<Rightarrow> map_option (\<lambda>(r, n'). (r, Some (ValueState n'))) (valueNext (rtWorld rt) v n)
        | _ \<Rightarrow> None))"

lemma call_values: "call (opNext rt (ValuesOp v)) = beside (valueClosure rt v)"
proof
  fix s
  show "call (opNext rt (ValuesOp v)) s = beside (valueClosure rt v) s"
    by (cases s; cases "snd s"; cases "the (snd s)") (auto simp: call_def beside_def valueClosure_def through_def split: option.split)
qed

lemma valueClosure_yields:
  assumes "\<forall>es \<in> set (valueExprs v). \<exists>vs. map_go (\<lambda>e. EvalExpr (rtWorld rt) e None) es = Ok vs"
  shows "yields (valueClosure rt v) (Some (ValueState 0)) (map (valueTuple (rtWorld rt) v) (valueExprs v)) (Some (ValueState (length (valueExprs v))))"
    and "ended (valueClosure rt v) (Some (ValueState (length (valueExprs v))))"
proof -
  have emb: "yields (valueClosure rt v) (Some (ValueState n)) ts (Some (ValueState n'))" if "yields (valueNext (rtWorld rt) v) n ts n'" for n ts n'
    using that by induction (auto simp: valueClosure_def intro: yields.intros)
  show "yields (valueClosure rt v) (Some (ValueState 0)) (map (valueTuple (rtWorld rt) v) (valueExprs v)) (Some (ValueState (length (valueExprs v))))"
    using emb valueNext_from [OF assms, of 0] by simp
  show "ended (valueClosure rt v) (Some (ValueState (length (valueExprs v))))" by (simp add: ended_def valueClosure_def valueNext_def)
qed

lemma insert_always_returns:
  assumes "inserting files s (rtTid rt) K (valueClosure rt v) (db, so) ts"
  shows "\<exists>t db' so' n'. call (opNext rt (InsertRowsOp (NewInsertOp (files s)) (ValuesOp v))) (db, Some (ModifyState so n)) =
      Some (Ok (Some t), db', Some (ModifyState so' n')) \<and> inserting files s (rtTid rt) K (valueClosure rt v) (db', so') [] \<and> length (TFields t) = 1"
proof -
  from insert_rows.modifyNext_all [OF assms, of countDesc n] obtain db' so' where
    res: "modifyNext countDesc (insertStep (files s) (rtTid rt)) (beside (valueClosure rt v)) ((db, so), n) =
      Some (Ok (Some \<lparr>Desc = countDesc, TFields = [IntField (n + of_nat (length ts))], Rid = None\<rparr>), (db', so'), n + of_nat (length ts))"
    and left: "inserting files s (rtTid rt) K (valueClosure rt v) (db', so') []" by auto
  have "insertNext (NewInsertOp (files s)) (rtTid rt) (call (opNext rt (ValuesOp v))) ((db, so), n) =
      Some (Ok (Some \<lparr>Desc = countDesc, TFields = [IntField (n + of_nat (length ts))], Rid = None\<rparr>), (db', so'), n + of_nat (length ts))"
    unfolding call_values using res by (simp add: insertNext_def NewInsertOp_def)
  with left show ?thesis by (auto simp: call_def through_def simp del: opNext.simps(11))
qed

lemma insert_plan_diverges:
  assumes "inserting files s (rtTid rt) K (valueClosure rt v) (db, so) ts" and "\<forall>m. \<not> alarm m"
  shows "resultLoop (call (opNext rt (InsertRowsOp (NewInsertOp (files s)) (ValuesOp v)))) al alarm k out (db, Some (ModifyState so n)) = None"
proof (rule resultLoop_diverges [where A = "{(db, Some (ModifyState so n)) | db so n ts. inserting files s (rtTid rt) K (valueClosure rt v) (db, so) ts}", OF _ assms(2)])
  fix st
  assume "st \<in> {(db, Some (ModifyState so n)) | db so n ts. inserting files s (rtTid rt) K (valueClosure rt v) (db, so) ts}"
  then obtain db so n ts where st: "st = (db, Some (ModifyState so n))" "inserting files s (rtTid rt) K (valueClosure rt v) (db, so) ts" by blast
  from insert_always_returns [OF st(2), of n] show "\<exists>t st'. call (opNext rt (InsertRowsOp (NewInsertOp (files s)) (ValuesOp v))) st = Some (Ok (Some t), st') \<and>
      st' \<in> {(db, Some (ModifyState so n)) | db so n ts. inserting files s (rtTid rt) K (valueClosure rt v) (db, so) ts} \<and>
      (al \<longrightarrow> 0 < length (TFields t) \<and> length (TFields t) \<le> 30)"
    unfolding st(1) by fastforce
qed (use assms(1) in blast)


text \<open>
  C20: an INSERT of literals never ends in the shell. The closure of the insertion returns the count again with every call, and
  the loop over the results ends only at nil: the statement parses, the rows are inserted, and the loop prints their number for ever,
  so that the statement is never committed.
\<close>

theorem insert_never_ends:
  assumes "completes sh input q" and "shCatalog sh = Some c" and "lookupTable tab c = Some d"
    and "envSql env q = Ok (SqlInsertStmt (insertInto tab rs))" and "\<forall>row \<in> set rs. \<forall>lit \<in> set row. litOk lit" and "\<forall>n. \<not> envAlarm env n"
    and "autocommit sh" and "files (tableNameToFile tab) = NewHeapFile (tableNameToFile tab) d"
    and "db_ok files (shDB sh)" and "alone (nextTid sh) WritePerm (shDB sh)" and "roomy K (shDB sh)" and "0 < numSlotsFor d"
    and "\<forall>i < NumPages (NewHeapFile (tableNameToFile tab) d) (disk (shDB sh)) + length rs. pageKey (NewHeapFile (tableNameToFile tab) d) i \<in> K"
    and "\<forall>row \<in> set rs. list_all2 (\<lambda>f lit. valueFits (Ftype f) (litValue lit)) (Fields d) row"
  shows "shellLine env input sh = None"
proof -
  let ?f = "NewHeapFile (tableNameToFile tab) d" and ?w = "rtWorld (envRuntime env)" and ?rt = "(envRuntime env)\<lparr>rtTid := nextTid sh\<rparr>"
  let ?v = "NewValueOp ?w (map (map litExpr) rs)"
  let ?plan = "InsertRowsOp (NewInsertOp (files (tableNameToFile tab))) (ValuesOp ?v)"
  have "Parse ?w (envOrd env) (envSql env) q (c, disk (shDB sh)) =
      Ok (IteratorType, InsertRowsOp (NewInsertOp ?f) (ValuesOp ?v), c, disk (shDB sh))"
    using generate_literals [OF assms(5), of ?w "envOrd env"] assms(3,4)
    by (cases d) (simp add: Parse_def parseInsert_def insertInto_def GetTable_lookup TupleDesc_copy_def del: bind_go_eq_Ok parseExpr.simps)
  then have p: "shellParse env q sh = Ok (IteratorType, ?plan, sh)" using assms(2,8) by (simp add: shellParse_def)
  have lit: "EvalExpr w (litExpr l) None = Ok (litValue l)" if "litOk l" for l w
    using that by (auto simp: litOk_def litType_def litExpr_def litValue_def split: go_result.splits option.splits)
  have row: "map_go (\<lambda>e. EvalExpr ?w e None) (map litExpr r) = Ok (map litValue r)" if "r \<in> set rs" for r
    using lit assms(5) that by (auto simp: map_go_Ok_iff list_all2_conv_all_nth simp del: EvalExpr.simps)
  have ev: "\<forall>es \<in> set (valueExprs ?v). \<exists>vs. map_go (\<lambda>e. EvalExpr (rtWorld ?rt) e None) es = Ok vs"
    using row by (auto simp: NewValueOp_def simp del: EvalExpr.simps)
  have fits: "tupleFits d t" if t: "t \<in> set (map (valueTuple ?w ?v) (valueExprs ?v))" for t
  proof -
    from t obtain r where r: "r \<in> set rs" "t = valueTuple ?w ?v (map litExpr r)" by (auto simp: NewValueOp_def)
    then have "TFields t = map litValue r" using row by (simp add: valueTuple_def)
    then show ?thesis using assms(14) r(1) by (auto simp: tupleFits_def list_all2_conv_all_nth)
  qed
  have "inserting files (tableNameToFile tab) (rtTid ?rt) K (valueClosure ?rt ?v) (shDB sh, Some (ValueState 0)) (map (valueTuple (rtWorld ?rt) ?v) (valueExprs ?v))"
    using valueClosure_yields [OF ev] fits assms(9-13) by (auto simp: inserting_def assms(8) NewHeapFile_def NewValueOp_def)
  note loop = insert_plan_diverges [OF this, where alarm = "envAlarm env"]
  have b: "beginOwn (sh\<lparr>shQuery := []\<rparr>) = sh\<lparr>shQuery := [], shTid := Some (nextTid sh), nextTid := nextTid sh + 1\<rparr>"
    using assms(7) by (simp add: beginOwn_def NewTID_def BeginTransaction_def)
  obtain header where h: "bind_go (opDescriptor ?w ?plan) (\<lambda>d. HeaderString d (aligned sh)) = Ok header"
    using printLoop_total [of "aligned sh" 1 0 "[''count'']" "[]"] by (auto simp: insertDescriptor_def NewInsertOp_def HeaderString_def countDesc_def simp del: printLoop.simps)
  have "opOpen ?rt ?plan (shDB sh) = Some (Ok (Some (ModifyState (Some (ValueState 0)) 0)), shDB sh)"
    by (simp add: capture_def openOrNil_def)
  then have "runPlan env ?plan (sh\<lparr>shQuery := []\<rparr>) = None"
    using loop [OF assms(6)] h by (simp add: runPlan_def b Let_def orCrash_def del: opOpen.simps opNext.simps opDescriptor.simps bind_go_eq_Ok)
  then show ?thesis using p by (simp add: shellLine_statement [OF assms(1)] runQuery_def del: opOpen.simps opNext.simps opDescriptor.simps)
qed

section \<open>A SELECT in the shell\<close>

lemma chain_descriptor: "opDescriptor w op = Ok de \<Longrightarrow> opDescriptor w (filterChain tab d cnds op) = Ok de"
  by (induction cnds arbitrary: op) (simp_all add: filterChain_def filterDescriptor_def)

lemma plan_descriptor: "opDescriptor w (selectPlan tab d cnds sl lim dist) = Ok (selectDesc tab d sl)"
proof -
  have w: "opDescriptor w (filterChain tab d cnds (FileOp (aliasedFile tab d))) = Ok (setTableAlias d tab)"
    by (rule chain_descriptor) (simp add: aliasedFile_simps)
  have p: "opDescriptor w (projectOver tab d sl dist (filterChain tab d cnds (FileOp (aliasedFile tab d)))) = Ok (selectDesc tab d sl)"
    using w by (cases sl) (simp_all add: projectDescriptor_def itemProject_def named_fields)
  then show ?thesis
    by (cases lim) (simp_all add: selectPlan_def limitDescriptor_def TupleDesc_copy_def)
qed

lemma table_rows_length:
  assumes "sharing files tid db" and "files s = f" and "row \<in> set (table_rows files db f)"
  shows "length row = length (Fields (hfDesc f))"
proof -
  from assms(3) scanTuples_rows [of f files db] obtain t where "t \<in> set (scanTuples f (viewOf files db))" "row = TFields t" by (metis imageE list.set_map)
  with scanTuples_fit [OF assms(1), of t s] assms(2) show ?thesis by (auto simp: tupleFits_def list_all2_lengthD)
qed

lemma limited_subset: "set (limited lim xs) \<subseteq> set xs"
  by (cases lim) (auto dest: in_set_takeD split: DBValue.splits)

lemma selectRows_length:
  assumes "\<forall>row \<in> set rws. length row = length (Fields d)" and "row \<in> set (selectRows rx d cnds sl lim dist rws)"
  shows "length row = length (Fields (selectDesc tab d sl))"
proof -
  have "row \<in> set (selected d sl dist (filter (\<lambda>row. \<forall>cnd \<in> set cnds. satisfies rx d cnd row) rws))"
    using assms(2) unfolding selectRows_def by (rule subsetD [OF limited_subset])
  moreover have "set (selected d sl dist xs) \<subseteq> set (selected d sl False xs)" for xs
    by (cases sl) (simp_all add: Let_def firstBy_subset [THEN subset_trans])
  ultimately have "row \<in> set (selected d sl False (filter (\<lambda>row. \<forall>cnd \<in> set cnds. satisfies rx d cnd row) rws))" by (rule rev_subsetD)
  with assms(1) show ?thesis by (cases sl) (auto simp: setTableAlias_def)
qed

lemma yields_call: "yields nxt (db, s) ts (db', s') \<Longrightarrow> yields (call nxt) (db, Some s) ts (db', Some s')"
proof (induction "(db, s)" ts "(db', s')" arbitrary: db s rule: yields.induct)
  case yields_Nil
  then show ?case by (simp add: call_def)
next
  case (yields_Cons x st xs)
  then show ?case by (cases st) (auto simp: call_def yields_Cons_iff)
qed

lemma view_current: "viewOf files db' = viewOf files db \<Longrightarrow> current files db' = current files db"
  by (auto simp: viewOf_def current_visible)

text \<open>
  C13: a SELECT in the shell prints the rows that SQL defines. In autocommit mode the line that completes a SELECT over one table, with
  conditions as in \<open>select_executes\<close>, prints the header, a line for every row that the query denotes in their order, and their number; the
  transaction it has opened is committed and its locks are released, the tables are as they were, and the next statement starts
  afresh. No other transaction is in the way, the pool has room, and its pages are as reading them from disk under the name of the
  table gives them, so that no row inserted from a VALUES list is among them, committed or not; under DISTINCT the hash tells the rows
  apart that are selected; the user does not interrupt. Aligned output needs between 1 and 30 columns.
\<close>

theorem shell_select:
  assumes "completes sh input q" and "shCatalog sh = Some c" and "autocommit sh"
    and "tableOk c tab d" and "\<forall>cnd \<in> set cnds. condOk tab d cnd" and "selectOk tab d sl" and "\<forall>lit. lim = Some lit \<longrightarrow> litType lit = IntType"
    and "\<And>e. envOrd env [e] = [e]" and "envSql env q = Ok (SqlSelectStmt (selectFrom tab cnds sl lim dist))"
    and "files (tableNameToFile tab) = aliasedFile tab d" and "scan_ready files (nextTid sh) (shDB sh)" and "asRead files (shDB sh)"
    and "dist \<noteq> [] \<longrightarrow> tellsApart (rtKey (envRuntime env)) (selectDesc tab d sl)
      (set (selected d sl False (filter (\<lambda>row. \<forall>cnd \<in> set cnds. satisfies (rtRegexp (envRuntime env)) d cnd row) (table_rows files (shDB sh) (aliasedFile tab d)))))"
    and "\<forall>n. \<not> envAlarm env n"
    and "aligned sh \<longrightarrow> 0 < length (Fields (selectDesc tab d sl)) \<and> length (Fields (selectDesc tab d sl)) \<le> 30"
  shows "\<exists>header db' rws. HeaderString (selectDesc tab d sl) (aligned sh) = Ok header \<and>
    rws = selectRows (rtRegexp (envRuntime env)) d cnds sl lim (dist \<noteq> []) (table_rows files (shDB sh) (aliasedFile tab d)) \<and>
    shellLine env input sh = said (HeaderOut header # map (\<lambda>row. RowOut (rowLine (aligned sh) row)) rws @ [ResultsOut (length rws)])
      (sh\<lparr>shQuery := [], shTid := Some (nextTid sh), nextTid := Suc (nextTid sh), shDB := db'\<rparr>) \<and>
    db_ok files db' \<and> current files db' = current files (shDB sh) \<and> (\<forall>k. \<not> locked db' (nextTid sh) k)"
proof -
  let ?plan = "selectPlan tab d cnds sl lim (dist \<noteq> [])" and ?rt = "(envRuntime env)\<lparr>rtTid := nextTid sh\<rparr>"
  let ?rws = "selectRows (rtRegexp (envRuntime env)) d cnds sl lim (dist \<noteq> []) (table_rows files (shDB sh) (aliasedFile tab d))"
  have rt: "rtTid ?rt = nextTid sh" "rtKey ?rt = rtKey (envRuntime env)" "rtWorld ?rt = rtWorld (envRuntime env)" "rtRegexp ?rt = rtRegexp (envRuntime env)" by simp_all
  have "Parse (rtWorld (envRuntime env)) (envOrd env) (envSql env) q (c, disk (shDB sh)) = Ok (IteratorType, ?plan, c, disk (shDB sh))"
    by (rule select_parses [OF assms(4-7)]) (rule assms(8), rule assms(9))
  then have p: "shellParse env q sh = Ok (IteratorType, ?plan, sh)" using assms(2) by (simp add: shellParse_def)
  note db = asRead_sharing [OF assms(11,12)]
  from select_runs [where rt = ?rt and files = files and dist = "dist \<noteq> []", OF assms(4-7,10), unfolded rt, OF db assms(13)]
  obtain s db1 ts db2 s' where run: "opOpen ?rt ?plan (shDB sh) = Some (Ok (Some s), db1)"
    "yields (opNext ?rt ?plan) (db1, s) ts (db2, s')" "sharing files (nextTid sh) db2" "viewOf files db2 = viewOf files (shDB sh)" "map TFields ts = ?rws" by blast
  have len: "length row = length (Fields (selectDesc tab d sl))" if "row \<in> set ?rws" for row
    using that table_rows_length [OF db(1) assms(10)]
    by (intro selectRows_length [where rws = "table_rows files (shDB sh) (aliasedFile tab d)" and row = row]) (auto simp: aliasedFile_simps setTableAlias_def)
  have narrow: "\<forall>t \<in> set ts. aligned sh \<longrightarrow> 0 < length (TFields t) \<and> length (TFields t) \<le> 30"
    using len assms(15) run(5) by (metis image_eqI list.set_map)
  have loop: "resultLoop (call (opNext ?rt ?plan)) (aligned sh) (envAlarm env) 0 out (db1, Some s) =
      Some (Ok (False, length ?rws, out @ map (\<lambda>row. RowOut (rowLine (aligned sh) row)) ?rws, db2))" for out
    using resultLoop_yields [OF yields_call [OF run(2)] narrow assms(14), of 0 out] run(5) [symmetric] by (simp add: comp_def)
  have "db_ok files db2" using run(3) by (simp add: sharing_def scan_ready_def)
  from CommitTransaction_spec [OF this, of "nextTid sh"] obtain db' where com: "CommitTransaction (nextTid sh) db2 = Ok db'" "db_ok files db'"
    "current files db' = current files db2" "mapPageLocksByTid db' = AList.delete (nextTid sh) (mapPageLocksByTid db2)" by blast
  have free: "\<not> locked db' (nextTid sh) k" for k using com(4) by (simp add: locked_def locksOf_def delete_conv')
  obtain header where h: "HeaderString (selectDesc tab d sl) (aligned sh) = Ok header"
    using printLoop_total [OF assms(15)] unfolding HeaderString_def by blast
  have b: "beginOwn (sh\<lparr>shQuery := []\<rparr>) = sh\<lparr>shQuery := [], shTid := Some (nextTid sh), nextTid := nextTid sh + 1\<rparr>"
    using assms(3) by (simp add: beginOwn_def NewTID_def BeginTransaction_def)
  have "runPlan env ?plan (sh\<lparr>shQuery := []\<rparr>) = said (HeaderOut header # map (\<lambda>row. RowOut (rowLine (aligned sh) row)) ?rws @ [ResultsOut (length ?rws)])
      (sh\<lparr>shQuery := [], shTid := Some (nextTid sh), nextTid := Suc (nextTid sh), shDB := db'\<rparr>)"
    using loop run(1) com(1) h assms(3) plan_descriptor [of "rtWorld (envRuntime env)"]
    by (simp add: runPlan_def b Let_def orCrash_def del: opOpen.simps opNext.simps opDescriptor.simps bind_go_eq_Ok)
  then have "shellLine env input sh = said (HeaderOut header # map (\<lambda>row. RowOut (rowLine (aligned sh) row)) ?rws @ [ResultsOut (length ?rws)])
      (sh\<lparr>shQuery := [], shTid := Some (nextTid sh), nextTid := Suc (nextTid sh), shDB := db'\<rparr>)"
    using p by (simp add: shellLine_statement [OF assms(1)] runQuery_def del: opOpen.simps opNext.simps opDescriptor.simps)
  with h com view_current [OF run(4)] free show ?thesis by (intro exI [of _ header] exI [of _ db'] exI [of _ ?rws]) simp
qed

section \<open>The catalog of a session\<close>

text \<open>
  C22: a table created in the shell is there after a restart. A CREATE TABLE of a new name is added at the end of the catalog, and
  the file of the catalog is written; a shell that is started on the files that are left has the tables of the session, with the
  new one, in the same order. The names have to be plain, the file the one the shell starts with.
\<close>

theorem created_table_persists:
  assumes "completes sh input q" and "shCatalog sh = Some c" and "catalog_ok c" and "\<forall>t \<in> set (catTables c). storable t"
    and "envSql env q = Ok (SqlDDLStmt (SqlCreate name (Some cols)))" and "lookupTable name c = None"
    and "\<forall>col \<in> set cols. columnType (snd col) \<noteq> None" and "storable \<lparr>tname = name, tdesc = columnsDesc cols\<rparr>"
    and "catName sh = ''catalog.txt''" and "catPath sh = ''godb''" and "envCreatable env ''godb/catalog.txt''"
  shows "\<exists>sh'. shellLine env input sh = said [CreateOut] sh' \<and> shDB sh' = shDB sh \<and>
    (\<forall>dk. \<exists>sh2 c2. shellStart (shFiles sh') dk = Ok sh2 \<and> shCatalog sh2 = Some c2 \<and> catalog_ok c2 \<and> columns_ok c2 \<and>
      catTables c2 = catTables c @ [\<lparr>tname = name, tdesc = columnsDesc cols\<rparr>])"
proof -
  let ?d = "columnsDesc cols"
  let ?c = "addIgnoring (name, ?d) c" and ?sh = "sh\<lparr>shCatalog := Some (addIgnoring (name, ?d) c), shQuery := []\<rparr>"
  have p: "shellParse env q sh = Ok (CreateTableQueryType, NilOp, sh\<lparr>shCatalog := Some ?c\<rparr>)"
    using create_table [OF assms(6,7)] assms(2,5) by (simp add: shellParse_def Parse_def)
  obtain c1 where add: "addTable name ?d c = Ok c1" "catTables c1 = catTables c @ [\<lparr>tname = name, tdesc = ?d\<rparr>]"
    using assms(6) by (auto simp: addTable_eq lookupTable_def)
  then have c1: "?c = c1" by (simp add: addIgnoring_def)
  obtain tf where save: "SaveToFile (envCreatable env) ''catalog.txt'' ''godb'' ?c (shFiles sh) = Ok tf" using assms(11) by (simp add: SaveToFile_def)
  have "\<forall>t \<in> set (catTables ?c). storable t" using add(2) c1 assms(4,8) by auto
  from saved_catalog_read [OF catalog_ok_add [OF assms(3) add(1), folded c1] this save] obtain c2 where
    c2: "NewCatalogFromFile ''catalog.txt'' ''godb'' tf = Ok c2" "catalog_ok c2" "columns_ok c2" "catTables c2 = catTables ?c" by blast
  have "shellLine env input sh = said [CreateOut] (?sh\<lparr>shFiles := tf\<rparr>)"
    using p save assms(9,10) by (simp add: shellLine_statement [OF assms(1)] runQuery_def saveCatalog_def)
  then show ?thesis using c2 add(2) c1 by (intro exI [of _ "?sh\<lparr>shFiles := tf\<rparr>"]) (simp add: shellStart_def)
qed

text \<open>
  C23: a failed change of the catalog disables the shell. When the file named after \<^verbatim>\<open>\c\<close> cannot be read, the shell says so and goes
  on, but the variable with the catalog has been overwritten with nil: listing the tables panics, and so does every SELECT over a
  table.
\<close>

theorem failed_catalog_crashes:
  assumes "TrimSpace input = CHR 0x5C # ''c '' @ rest" and "rest \<noteq> []"
    and "NewCatalogFromFile (last (Split rest ''/'')) (joinWith ''/'' (butlast (Split rest ''/''))) (shFiles sh) = Err e"
  shows "\<exists>sh'. shellLine env input sh = said [CatalogFailed e] sh' \<and> shDB sh' = shDB sh \<and>
    shellLine env (CHR 0x5C # ''d'') sh' = Some (Panic NilDereference) \<and>
    (\<forall>line q tab cnds sl lim dist. completes sh' line q \<longrightarrow> envSql env q = Ok (SqlSelectStmt (selectFrom tab cnds sl lim dist)) \<longrightarrow>
      shellLine env line sh' = Some (Panic NilDereference))"
proof -
  let ?sh = "sh\<lparr>catName := last (Split rest ''/''), catPath := joinWith ''/'' (butlast (Split rest ''/'')), shCatalog := None\<rparr>"
  have "length rest > 0" using assms(2) by simp
  then have "shellLine env input sh = said [CatalogFailed e] ?sh"
    using assms(1,3) by (simp add: shellLine_def Let_def shellCommand_def changeCatalog_def)
  moreover have "TrimSpace (CHR 0x5C # ''d'') = CHR 0x5C # ''d''" by code_simp
  then have "shellLine env (CHR 0x5C # ''d'') ?sh = Some (Panic NilDereference)" by (simp add: shellLine_def Let_def shellCommand_def)
  moreover have "shellLine env line ?sh = Some (Panic NilDereference)"
    if "completes ?sh line q" "envSql env q = Ok (SqlSelectStmt (selectFrom tab cnds sl lim dist))" for line q tab cnds sl lim dist
    using that(2) by (simp add: shellLine_statement [OF that(1)] shellParse_def selectFrom_def)
  ultimately show ?thesis by (intro exI [of _ ?sh]) simp
qed

section \<open>The mark under a syntax error\<close>

lemma show_nat_chars: "c \<in> set (show_nat n) \<Longrightarrow> (of_char c :: nat) \<in> {48..57}"
  using digits_show_nat [of n] by (auto simp: digits_def list_all_iff split: if_splits)

lemma show_int_word: "\<not> sint v < 0 \<Longrightarrow> CHR '' '' \<notin> set (show_int (sint v))" "\<not> sint v < 0 \<Longrightarrow> CHR ''p'' \<notin> set (show_int (sint v))"
  using show_nat_chars [of "CHR '' ''"] show_nat_chars [of "CHR ''p''"] by (auto simp: show_int_def)

lemma positionMark_message:
  assumes "LastIndex near ''position'' = None" and "near = [] \<or> hd near = CHR '' ''" and "0 \<le> sint (pos :: int64)"
  shows "positionMark (msg @ ''position '' @ show_int (sint pos) @ near) = Ok (Some (replicate (nat (sint pos)) (CHR '' '') @ ''^''))"
proof -
  let ?n = "show_int (sint pos)"
  have "LastIndex (?n @ near) ''position'' = None" using assms(1,3) show_int_word(2) [of pos] by (intro LastIndex_skip) auto
  then have "LastIndex (''position '' @ ?n @ near) ''position'' = Some 0" by simp
  from LastIndex_append [OF this] have last: "LastIndex (msg @ ''position '' @ ?n @ near) ''position'' = Some (length msg)" by simp
  have word: "(case Index (?n @ near) '' '' of None \<Rightarrow> ?n @ near | Some n \<Rightarrow> take n (?n @ near)) = ?n"
    using assms(2,3) Index_char [of "CHR '' ''" ?n] show_int_word(1) [of pos] by (cases near) auto
  have "drop (length msg + 9) (msg @ ''position '' @ ?n @ near) = ?n @ near" by simp
  then show ?thesis unfolding positionMark_def last using word assms(3) Atoi_show_int [of pos] by simp
qed

text \<open>
  The mark under a syntax error. When the SQL parser refuses a statement with a message that gives a position, and nothing or a
  space after it, as its messages do, the shell prints that many spaces and a caret, then the message; the statement is dropped, and
  database, catalog and transaction are as they were.
\<close>

theorem syntax_error_marked:
  assumes "completes sh input q" and "envSql env q = Err e" and "envText env e = msg @ ''position '' @ show_int (sint (pos :: int64)) @ near"
    and "LastIndex near ''position'' = None" and "near = [] \<or> hd near = CHR '' ''" and "0 \<le> sint pos"
  shows "shellLine env input sh = said [MarkOut (replicate (nat (sint pos)) (CHR '' '') @ ''^''), InvalidQuery e] (sh\<lparr>shQuery := []\<rparr>)"
proof -
  have "shellParse env q sh = Err e" using assms(2) by (simp add: shellParse_def Parse_def split: option.split)
  then show ?thesis using positionMark_message [OF assms(4-6), of msg] assms(3) by (simp add: shellLine_statement [OF assms(1)] invalidQuery_def orCrash_def)
qed

section \<open>The theorems on an example\<close>

definition exShell :: "DB \<Rightarrow> Catalog \<Rightarrow> Shell" where
  "exShell db c = \<lparr>shDB = db, nextTid = 2, shCatalog = Some c, catName = ''catalog.txt'', catPath = ''godb'', shQuery = [],
     autocommit = True, shTid = None, aligned = True, shFiles = \<lambda>_. None\<rparr>"

definition exEnv :: "sqlStatement \<Rightarrow> DBValue list shellEnv" where
  "exEnv stmt = \<lparr>envRuntime = exRuntime 0, envOrd = id, envSql = \<lambda>_. Ok stmt, envFloat = \<lambda>_. None, envCreatable = \<lambda>_. True, envAlarm = \<lambda>_. False,
     envText = \<lambda>_. ''syntax error at position 3 near go''\<rparr>"

lemma exShell_completes: "completes (exShell db c) '' go ;'' ''go''"
proof -
  have "TrimSpace '' go ;'' = ''go ;''" "TrimSpace ('' '' @ ''go '') = ''go''" "take 7 (ToLower ''go'') = ''go''" by code_simp+
  then show ?thesis by (simp add: completes_def exShell_def)
qed


theorem shell_select_witness:
  "\<exists>header db'. shellLine (exEnv (SqlSelectStmt (selectFrom ''t'' [exLess] AllColumns None []))) '' go ;'' (exShell exDB3 exCat1) =
      said [HeaderOut header, RowOut (rowLine True [IntField 5]), ResultsOut 1]
        ((exShell exDB3 exCat1)\<lparr>shQuery := [], shTid := Some 2, nextTid := 3, shDB := db'\<rparr>) \<and>
    (\<forall>k. \<not> locked db' 2 k)"
proof -
  let ?env = "exEnv (SqlSelectStmt (selectFrom ''t'' [exLess] AllColumns None []))" and ?sh = "exShell exDB3 exCat1"
  have h: "shCatalog ?sh = Some exCat1" "autocommit ?sh" "shDB ?sh = exDB3" "nextTid ?sh = 2" "envSql ?env ''go'' = Ok (SqlSelectStmt (selectFrom ''t'' [exLess] AllColumns None []))"
    "[] \<noteq> ([] :: string) \<longrightarrow> P" "\<forall>n. \<not> envAlarm ?env n" "envOrd ?env [x] = [x]" "aligned ?sh" for x P
    by (simp_all add: exShell_def exEnv_def exRuntime_def)
  have f: "exFiles (tableNameToFile ''t'') = aliasedFile ''t'' exColumns" using exCat1_ok by simp
  have sh: "scan_ready exFiles (nextTid ?sh) (shDB ?sh)" "asRead exFiles (shDB ?sh)" unfolding h by (rule exDB3_ready)+
  have w: "length (Fields (selectDesc ''t'' exColumns AllColumns)) = 1" by (simp add: setTableAlias_def exColumns_def)
  have cnds: "\<forall>cnd \<in> set [exLess]. condOk ''t'' exColumns cnd" using exLess_ok(1) by simp
  have narrow: "aligned ?sh \<longrightarrow> 0 < length (Fields (selectDesc ''t'' exColumns AllColumns)) \<and> length (Fields (selectDesc ''t'' exColumns AllColumns)) \<le> 30"
    using w by simp
  have r: "selectRows rx exColumns [exLess] AllColumns None False (table_rows exFiles exDB3 exFile) = [[IntField 5]]" for rx
    using exLess_ok(2) exDB3_ok(5) by (simp add: selectRows_def)
  have all: "selectOk ''t'' exColumns AllColumns" "\<forall>lit. None = Some lit \<longrightarrow> litType lit = IntType" by simp_all
  note run = shell_select [OF exShell_completes h(1,2) exCat1_ok(1) cnds all _ h(5) f sh h(6,7) narrow, unfolded h(3,4) exCat1_ok(2)]
  obtain header db' rws where rws: "rws = [[IntField 5]]" and out: "shellLine ?env '' go ;'' ?sh =
      said (HeaderOut header # map (\<lambda>row. RowOut (rowLine (aligned ?sh) row)) rws @ [ResultsOut (length rws)])
        (?sh\<lparr>shQuery := [], shTid := Some 2, nextTid := Suc 2, shDB := db'\<rparr>)" and free: "\<forall>k. \<not> locked db' 2 k"
    using run h(8) r by auto
  show ?thesis using out free h(9) unfolding rws by (intro exI [of _ header] exI [of _ db']) simp
qed

theorem created_table_persists_witness:
  "\<exists>sh'. shellLine (exEnv (SqlDDLStmt (SqlCreate ''u'' (Some [(''x'', ''text'')])))) '' go ;'' (exShell exDB0 exCatalog) = said [CreateOut] sh' \<and>
    (\<forall>dk. \<exists>sh2 c2. shellStart (shFiles sh') dk = Ok sh2 \<and> shCatalog sh2 = Some c2 \<and> map tname (catTables c2) = [''t'', ''u''])"
proof -
  let ?cols = "[(''x'', ''text'')]"
  let ?env = "exEnv (SqlDDLStmt (SqlCreate ''u'' (Some ?cols)))" and ?sh = "exShell exDB0 exCatalog"
  have new: "lookupTable ''u'' exCatalog = None"
    using exCatalog_ok(1,3) by (simp add: lookupTable_def catalog_ok_def) (simp add: exTable_def)
  have st: "storable \<lparr>tname = ''u'', tdesc = columnsDesc ?cols\<rparr>" "\<forall>col \<in> set ?cols. columnType (snd col) \<noteq> None"
    by (simp_all add: storable_def columnsDesc_def columnType_def plainName_def nameChar_def tableString_def fieldString_def typeNames_def)
  have h: "shCatalog ?sh = Some exCatalog" "envSql ?env ''go'' = Ok (SqlDDLStmt (SqlCreate ''u'' (Some ?cols)))"
    "catName ?sh = ''catalog.txt''" "catPath ?sh = ''godb''" "envCreatable ?env ''godb/catalog.txt''" by (simp_all add: exShell_def exEnv_def)
  have "\<forall>t \<in> set (catTables exCatalog). storable t" using exCatalog_ok(3,4) by simp
  from created_table_persists [OF exShell_completes h(1) exCatalog_ok(1) this h(2) new st(2,1) h(3-5)]
  show ?thesis unfolding exCatalog_ok(3) by (fastforce simp: exTable_def)
qed

theorem failed_catalog_crashes_witness:
  "\<exists>e sh'. shellLine (exEnv (SqlSelectStmt (selectFrom ''t'' [] AllColumns None []))) (CHR 0x5C # ''c no'') (exShell exDB0 exCat1) = said [CatalogFailed e] sh' \<and>
    shellLine (exEnv (SqlSelectStmt (selectFrom ''t'' [] AllColumns None []))) (CHR 0x5C # ''d'') sh' = Some (Panic NilDereference)"
proof -
  have t: "TrimSpace (CHR 0x5C # ''c no'') = CHR 0x5C # ''c '' @ ''no''" by code_simp
  obtain e where "NewCatalogFromFile (last (Split ''no'' ''/'')) (joinWith ''/'' (butlast (Split ''no'' ''/''))) (shFiles (exShell exDB0 exCat1)) = Err e"
    by (simp add: NewCatalogFromFile_def parseCatalogFile_def exShell_def)
  from failed_catalog_crashes [OF t _ this, of "exEnv (SqlSelectStmt (selectFrom ''t'' [] AllColumns None []))"] show ?thesis by auto
qed

theorem session_transactions_witness:
  "\<exists>sh'. session (exEnv SqlBegin) (exShell exDB0 exCat1) ['' go ;'', '' go ;''] [BeginOut, CannotStart] sh' \<and>
    \<not> autocommit sh' \<and> shTid sh' = Some 2 \<and> shell_ok sh'"
proof -
  let ?env = "exEnv SqlBegin" and ?sh = "exShell exDB0 exCat1"
  let ?sh' = "?sh\<lparr>shTid := Some 2, nextTid := 3, autocommit := False\<rparr>"
  have "completes ?sh' '' go ;'' ''go''" using exShell_completes [of exDB0 exCat1] by (simp add: completes_def)
  then have two: "shellLine ?env '' go ;'' ?sh' = said [CannotStart] ?sh'"
    by (simp add: shellLine_statement shellParse_def exEnv_def exShell_def Parse_def runQuery_def beginXaction_def)
  have one: "shellLine ?env '' go ;'' ?sh = said [BeginOut] ?sh'"
    unfolding shellLine_statement [OF exShell_completes]
    by (simp add: shellParse_def exEnv_def exShell_def Parse_def runQuery_def beginXaction_def NewTID_def BeginTransaction_def)
  have s: "session ?env ?sh ['' go ;'', '' go ;''] ([BeginOut] @ [CannotStart] @ []) ?sh'"
    using one two by (intro session.intros) (auto simp: said_def)
  have "shell_ok ?sh" by (simp add: shell_ok_def exShell_def)
  from session_transactions [OF s this] s show ?thesis by (intro exI [of _ ?sh']) simp
qed

theorem syntax_error_marked_witness:
  "shellLine ((exEnv SqlBegin)\<lparr>envSql := \<lambda>_. Err (PlainError ''syntax'')\<rparr>) '' go ;'' (exShell exDB0 exCat1) =
    said [MarkOut ''   ^'', InvalidQuery (PlainError ''syntax'')] ((exShell exDB0 exCat1)\<lparr>shQuery := []\<rparr>)"
proof -
  let ?env = "(exEnv SqlBegin)\<lparr>envSql := \<lambda>_. Err (PlainError ''syntax'')\<rparr>"
  have three: "show_int (sint (3 :: int64)) = ''3''" by code_simp
  have msg: "envText ?env (PlainError ''syntax'') = ''syntax error at '' @ ''position '' @ show_int (sint (3 :: int64)) @ '' near go''"
    unfolding three by (simp add: exEnv_def)
  have near: "LastIndex '' near go'' ''position'' = None" by code_simp
  from syntax_error_marked [OF exShell_completes [of exDB0 exCat1] _ msg near] show ?thesis by (simp add: numeral_3_eq_3)
qed

definition exCat2 :: Catalog where
  "exCat2 = addIgnoring (''t'', exDesc) (newCatalog [])"

theorem insert_never_ends_witness:
  "shellLine (exEnv (SqlInsertStmt (insertInto ''t'' [[quoted (show_int (sint (7 :: int64)))]]))) '' go ;'' (exShell exDB0 exCat2) = None"
proof -
  let ?lit = "quoted (show_int (sint (7 :: int64)))"
  let ?env = "exEnv (SqlInsertStmt (insertInto ''t'' [[?lit]]))" and ?sh = "exShell exDB0 exCat2" and ?f = "NewHeapFile (tableNameToFile ''t'') exDesc"
  have lit: "litOk ?lit" "litValue ?lit = IntField 7" unfolding litOk_def litType_def litValue_def litExpr_quoted by simp_all
  have look: "lookupTable ''t'' exCat2 = Some exDesc" unfolding exCat2_def using addIgnoring_lookup [OF newCatalog_ok(3)] by simp
  have f: "?f = exFile" "exFiles (tableNameToFile ''t'') = ?f" by (simp_all add: exFile_def exFiles_def tableNameToFile_def)
  have rs: "\<forall>row \<in> set [[?lit]]. \<forall>l \<in> set row. litOk l" "\<forall>row \<in> set [[?lit]]. list_all2 (\<lambda>f l. valueFits (Ftype f) (litValue l)) (Fields exDesc) row"
    using lit by (simp_all add: exDesc_def)
  have h: "shCatalog ?sh = Some exCat2" "envSql ?env ''go'' = Ok (SqlInsertStmt (insertInto ''t'' [[?lit]]))" "\<forall>n. \<not> envAlarm ?env n" "autocommit ?sh" "shDB ?sh = exDB0"
    by (simp_all add: exShell_def exEnv_def)
  have K: "roomy {pageKey exFile 0} (shDB ?sh)" "\<forall>i < NumPages ?f (disk (shDB ?sh)) + length [[?lit]]. pageKey ?f i \<in> {pageKey exFile 0}"
    unfolding f h by (simp_all add: roomy_def exDB0_def NewBufferPool_def NumPages_def)
  have ok: "db_ok exFiles (shDB ?sh)" "alone (nextTid ?sh) WritePerm (shDB ?sh)" unfolding h(5) by (rule exDB0_ok)+
  have "0 < numSlotsFor exDesc" by code_simp
  from insert_never_ends [OF exShell_completes h(1) look h(2) rs(1) h(3,4) f(2) ok K(1) this K(2) rs(2)] show ?thesis .
qed

end
