(* ===== verification/JoinPlans.thy ===== *)
theory JoinPlans
  imports SelectPlans
begin

text \<open>
  The plans of queries over two tables that are joined on a pair of columns: each condition becomes a filter on the scan of its
  table, and the projection finds its columns in the joined tuples.
\<close>

section \<open>Queries over two tables\<close>

text \<open>
  The two tables of the query with their columns. Columns are qualified with the name of the table.
\<close>

record tablePair =
  leftTab :: string
  leftCols :: TupleDesc
  rightTab :: string
  rightCols :: TupleDesc

definition colsOf :: "tablePair \<Rightarrow> string \<Rightarrow> TupleDesc" where
  "colsOf p tab = (if tab = leftTab p then leftCols p else rightCols p)"

definition pairOk :: "Catalog \<Rightarrow> tablePair \<Rightarrow> bool" where
  "pairOk c p \<longleftrightarrow> tableOk c (leftTab p) (leftCols p) \<and> tableOk c (rightTab p) (rightCols p) \<and> leftTab p \<noteq> rightTab p"

definition pairColumn :: "tablePair \<Rightarrow> string \<times> string \<Rightarrow> bool" where
  "pairColumn p qc \<longleftrightarrow> fst qc \<in> {leftTab p, rightTab p} \<and> columnOk (fst qc) (colsOf p (fst qc)) qc"

definition pairCond :: "tablePair \<Rightarrow> condition \<Rightarrow> bool" where
  "pairCond p cnd \<longleftrightarrow> fst (condCol cnd) \<in> {leftTab p, rightTab p} \<and> condOk (fst (condCol cnd)) (colsOf p (fst (condCol cnd))) cnd"

fun pairSelect :: "tablePair \<Rightarrow> selectList \<Rightarrow> bool" where
  "pairSelect p AllColumns = True"
| "pairSelect p (Items its) = (\<forall>it \<in> set its. pairColumn p (fst it))"

text \<open>The columns that are joined exist and have the same known type.\<close>

definition joinOk :: "tablePair \<Rightarrow> string \<Rightarrow> string \<Rightarrow> bool" where
  "joinOk p x y \<longleftrightarrow> pairColumn p (leftTab p, x) \<and> pairColumn p (rightTab p, y) \<and>
     colType (leftCols p) x = colType (rightCols p) y \<and> colType (leftCols p) x \<noteq> UnknownType"

definition joinExpr :: "tablePair \<Rightarrow> string \<Rightarrow> string \<Rightarrow> sqlExpr" where
  "joinExpr p x y = SqlComparison ''='' (SqlCol (leftTab p) x) (SqlCol (rightTab p) y)"

definition joinFrom ::
  "tablePair \<Rightarrow> string \<Rightarrow> string \<Rightarrow> condition list \<Rightarrow> selectList \<Rightarrow> string option \<Rightarrow> string \<Rightarrow> sqlSelect" where
  "joinFrom p x y cnds sl lim dist = SqlSelect [SqlTable (leftTab p) [], SqlTable (rightTab p) []]
     (Some (foldl (\<lambda>e cnd. SqlAnd e (condExpr cnd)) (joinExpr p x y) cnds)) (selectsOf sl) [] [] (map_option SqlVal lim) dist"

section \<open>The operators they become\<close>

definition condsOn :: "string \<Rightarrow> condition list \<Rightarrow> condition list" where
  "condsOn tab cnds = filter (\<lambda>cnd. fst (condCol cnd) = tab) cnds"

definition sideOp :: "tablePair \<Rightarrow> string \<Rightarrow> condition list \<Rightarrow> Operator" where
  "sideOp p tab cnds = filterChain tab (colsOf p tab) (condsOn tab cnds) (FileOp (aliasedFile tab (colsOf p tab)))"

definition columnJoin :: "tablePair \<Rightarrow> string \<Rightarrow> string \<Rightarrow> EqualityJoin" where
  "columnJoin p x y = \<lparr>leftField = FieldExpr (colField (leftCols p) (leftTab p) x), rightField = FieldExpr (colField (rightCols p) (rightTab p) y),
     joinGetter = (if colType (leftCols p) x = IntType then intFilterGetter else stringFilterGetter), maxBufferSize = JoinBufferSize\<rparr>"

definition pairDesc :: "tablePair \<Rightarrow> TupleDesc" where
  "pairDesc p = merge (setTableAlias (leftCols p) (leftTab p)) (setTableAlias (rightCols p) (rightTab p))"

definition pairField :: "tablePair \<Rightarrow> string \<times> string \<Rightarrow> FieldType" where
  "pairField p qc = colField (colsOf p (fst qc)) (fst qc) (snd qc)"

definition pairIndex :: "tablePair \<Rightarrow> string \<times> string \<Rightarrow> nat" where
  "pairIndex p qc = (if fst qc = leftTab p then 0 else length (Fields (leftCols p))) + colIndex (colsOf p (fst qc)) (snd qc)"

definition pairProject :: "tablePair \<Rightarrow> ((string \<times> string) \<times> string) list \<Rightarrow> bool \<Rightarrow> Project" where
  "pairProject p its dist = \<lparr>selectFields = map (\<lambda>it. FieldExpr (pairField p (fst it))) its, outputNames = map itemName its, isDistinct = dist\<rparr>"

fun pairProjectOver :: "tablePair \<Rightarrow> selectList \<Rightarrow> bool \<Rightarrow> Operator \<Rightarrow> Operator" where
  "pairProjectOver p AllColumns dist op = op"
| "pairProjectOver p (Items its) dist op = ProjectOp (pairProject p its dist) op"

definition joinPlan :: "tablePair \<Rightarrow> string \<Rightarrow> string \<Rightarrow> condition list \<Rightarrow> selectList \<Rightarrow> string option \<Rightarrow> bool \<Rightarrow> Operator" where
  "joinPlan p x y cnds sl lim dist = limitOver lim (pairProjectOver p sl dist
     (JoinOp (columnJoin p x y) (sideOp p (leftTab p) cnds) (sideOp p (rightTab p) cnds)))"

section \<open>Columns of joined tuples\<close>

lemma findFieldInTd_qualified:
  assumes "TableQualifier f \<noteq> []" and "i < length (Fields d)" and "fieldMatches f (Fields d ! i)" and "TableQualifier (Fields d ! i) = TableQualifier f"
    and "\<And>k. k < length (Fields d) \<Longrightarrow> fieldMatches f (Fields d ! k) \<Longrightarrow> TableQualifier (Fields d ! k) = TableQualifier f \<Longrightarrow> k = i"
  shows "findFieldInTd f d = (int i, None)"
proof -
  have "sameTable f (Fields d) = filter ((=) i) [0..<length (Fields d)]"
    unfolding sameTable_def candidates_def filter_filter using assms(3-5) by (intro filter_cong refl) auto
  then have "sameTable f (Fields d) = [i]" using assms(2) by (simp add: filter_index)
  then show ?thesis using assms(1) sameTable_none [of f "Fields d"]
    by (auto simp: findFieldInTd_spec isAmbiguous_def bestCandidate_def)
qed

lemma colIndex_unique:
  assumes "distinct (map Fname (Fields d))" and "k < length (Fields d)" and "Fname (Fields d ! k) = col"
  shows "k = colIndex d col"
proof -
  have "hasCol d col" using assms(2,3) by (force simp: hasCol_def)
  with colIndex_nth [OF this] assms nth_eq_iff_index_eq [OF assms(1), of k "colIndex d col"] show ?thesis by simp
qed

lemma pair_fields:
  "Fields (pairDesc p) = map (\<lambda>f. f\<lparr>TableQualifier := leftTab p\<rparr>) (Fields (leftCols p)) @ map (\<lambda>f. f\<lparr>TableQualifier := rightTab p\<rparr>) (Fields (rightCols p))"
  by (simp add: pairDesc_def merge_def setTableAlias_def)

lemma pair_nth:
  assumes "leftTab p \<noteq> rightTab p" and "pairColumn p qc"
  shows "pairIndex p qc < length (Fields (pairDesc p))" and "Fields (pairDesc p) ! pairIndex p qc = pairField p qc"
proof -
  obtain q col where qc: "qc = (q, col)" by (cases qc)
  have "hasCol (colsOf p q) col" using assms(2) by (simp add: pairColumn_def columnOk_def qc)
  from colIndex_nth [OF this] assms show "pairIndex p qc < length (Fields (pairDesc p))" "Fields (pairDesc p) ! pairIndex p qc = pairField p qc"
    by (auto simp: pair_fields pairIndex_def pairField_def pairColumn_def colsOf_def colField_def colType_def nth_append qc)
qed

lemma pair_find:
  assumes "pairOk c p" and "pairColumn p qc" and "Fname f = snd qc" and "TableQualifier f = fst qc" and "Ftype f \<in> {UnknownType, Ftype (pairField p qc)}"
  shows "findFieldInTd f (pairDesc p) = (int (pairIndex p qc), None)"
proof (rule findFieldInTd_qualified)
  obtain q col where qc: "qc = (q, col)" by (cases qc)
  have ne: "leftTab p \<noteq> rightTab p" and tabs: "plain (leftTab p)" "plain (rightTab p)"
    and dist: "distinct (map Fname (Fields (leftCols p)))" "distinct (map Fname (Fields (rightCols p)))"
    using assms(1) by (auto simp: pairOk_def tableOk_def)
  note i = pair_nth [OF ne assms(2)]
  show "TableQualifier f \<noteq> []" using assms(2,4) tabs by (auto simp: pairColumn_def plain_def)
  show "pairIndex p qc < length (Fields (pairDesc p))" by (rule i)
  show "fieldMatches f (Fields (pairDesc p) ! pairIndex p qc)" using assms(3,5) by (auto simp: i fieldMatches_def pairField_def colField_def)
  show "TableQualifier (Fields (pairDesc p) ! pairIndex p qc) = TableQualifier f" using assms(4) by (simp add: i pairField_def colField_def)
  fix k
  assume k: "k < length (Fields (pairDesc p))" "fieldMatches f (Fields (pairDesc p) ! k)" "TableQualifier (Fields (pairDesc p) ! k) = TableQualifier f"
  show "k = pairIndex p qc"
  proof (cases "k < length (Fields (leftCols p))")
    case True
    then show ?thesis using k colIndex_unique [OF dist(1), of k col] ne assms(3,4)
      by (auto simp: pair_fields nth_append fieldMatches_def pairIndex_def colsOf_def qc)
  next
    case False
    then show ?thesis using k colIndex_unique [OF dist(2), of "k - length (Fields (leftCols p))" col] ne assms(3,4)
      by (auto simp: pair_fields nth_append fieldMatches_def pairIndex_def colsOf_def qc)
  qed
qed

section \<open>Parsing\<close>

definition pairNodes :: "tablePair \<Rightarrow> LogicalTableNode list" where
  "pairNodes p = [tableNode (leftTab p) (leftCols p), tableNode (rightTab p) (rightCols p)]"

definition joinNode :: "tablePair \<Rightarrow> string \<Rightarrow> string \<Rightarrow> LogicalJoinNode" where
  "joinNode p x y = \<lparr>joinLeft = NewFieldSelectNode (leftTab p) x [], joinRight = NewFieldSelectNode (rightTab p) y [], joinPredOp = OpEq\<rparr>"

definition logicalJoin :: "tablePair \<Rightarrow> string \<Rightarrow> string \<Rightarrow> condition list \<Rightarrow> selectList \<Rightarrow> string option \<Rightarrow> bool \<Rightarrow> LogicalPlan" where
  "logicalJoin p x y cnds sl lim dist =
     LogicalPlan (map condNode cnds) [joinNode p x y] (selectNodes sl) [] (pairNodes p) [] [] [] (map_option litNode lim) dist []"

lemma resolve_qualified: "q \<noteq> [] \<Longrightarrow> getTableField c qs ts (NewFieldSelectNode q col []) = Ok (q, col)"
  by (simp add: NewFieldSelectNode_def checkNameInTablesOrSubqueries_def split: option.split)

lemma pair_sides:
  assumes "pairOk c p" and "pairColumn p (q, col)"
  shows "tableOk c q (colsOf p q)" and "columnOk q (colsOf p q) (q, col)" and "plain q"
  using assms by (auto simp: pairOk_def pairColumn_def colsOf_def tableOk_def)

lemma joinExpr_parsed:
  assumes "pairOk c p" and "joinOk p x y"
  shows "parseWhere c [] ts (joinExpr p x y) = Ok ([], [joinNode p x y])"
proof -
  have l: "pairColumn p (leftTab p, x)" and r: "pairColumn p (rightTab p, y)" using assms(2) by (auto simp: joinOk_def)
  note s = pair_sides [OF assms(1) l] pair_sides [OF assms(1) r]
  have ne: "leftTab p \<noteq> []" "rightTab p \<noteq> []" "leftTab p \<noteq> rightTab p" using s assms(1) by (auto simp: plain_def pairOk_def)
  have op: "BoolOpMap_get ''='' = OpEq" by code_simp
  show ?thesis
    using ne parseExpr_column [OF s(2,3), of "[]"] parseExpr_column [OF s(5,6), of "[]"]
    by (simp add: joinExpr_def comparison_def resolve_qualified op joinNode_def Let_def)
qed

lemma pairCond_parsed:
  assumes "pairOk c p" and "pairCond p cnd"
  shows "parseWhere c [] ts (condExpr cnd) = Ok ([condNode cnd], [])"
proof -
  obtain q col op lit where cnd: "cnd = Cond (q, col) op lit" by (cases cnd) auto
  have "pairColumn p (q, col)" and lit: "litOk lit" using assms(2) by (auto simp: pairCond_def pairColumn_def condOk_def litOk_def cnd)
  note s = pair_sides [OF assms(1) this(1)]
  obtain v where "unquoteVal lit = Ok v" using lit litType_value [of lit] by (auto simp: litOk_def)
  then show ?thesis using s(3) parseExpr_column [OF s(2,3), of "[]"]
    by (simp add: cnd condExpr_def comparison_def resolve_qualified condNode_def plain_def NewConstSelectNode_def Let_def)
qed

lemma pairConds_parsed:
  assumes "pairOk c p" and "\<forall>cnd \<in> set cnds. pairCond p cnd" and "parseWhere c [] ts e = Ok (fs, js)"
  shows "parseWhere c [] ts (foldl (\<lambda>e cnd. SqlAnd e (condExpr cnd)) e cnds) = Ok (fs @ map condNode cnds, js)"
  using assms(2,3)
proof (induction cnds arbitrary: e fs)
  case (Cons cnd cnds)
  have "parseWhere c [] ts (SqlAnd e (condExpr cnd)) = Ok (fs @ [condNode cnd], js)"
    using Cons.prems pairCond_parsed [OF assms(1), of cnd] by (simp add: Let_def)
  from Cons.IH [OF _ this] Cons.prems(1) show ?case by simp
qed simp

lemma pairSelects_parsed:
  assumes "pairOk c p" and "pairSelect p sl"
  shows "parseSelects (selectsOf sl) = Ok (selectNodes sl)"
proof (cases sl)
  case (Items its)
  have "parseSelects (map itemExpr its) = Ok (selectNodes (Items its))" if "\<forall>it \<in> set its. pairColumn p (fst it)"
    using that
  proof (induction its)
    case (Cons it its)
    obtain q col al where it: "it = ((q, col), al)" by (metis prod.collapse)
    with Cons.prems have "pairColumn p (q, col)" by simp
    from parseExpr_column [OF pair_sides(2,3) [OF assms(1) this]] Cons it show ?case by (simp add: itemExpr_def del: parseExpr.simps)
  qed simp
  with Items assms(2) show ?thesis by simp
qed (simp add: ToLower_def)

lemma parseStatement_join:
  assumes "pairOk c p" and "joinOk p x y" and "\<forall>cnd \<in> set cnds. pairCond p cnd" and "pairSelect p sl" and "\<forall>lit. lim = Some lit \<longrightarrow> litOk lit"
  shows "parseStatement c (joinFrom p x y cnds sl lim dist) = Ok (logicalJoin p x y cnds sl lim (dist \<noteq> []))"
proof -
  have t: "tableOk c (leftTab p) (leftCols p)" "tableOk c (rightTab p) (rightCols p)" using assms(1) by (auto simp: pairOk_def)
  have fr: "map_go (parseFrom c) [SqlTable (leftTab p) [], SqlTable (rightTab p) []] =
      Ok [([tableNode (leftTab p) (leftCols p)], [], []), ([tableNode (rightTab p) (rightCols p)], [], [])]"
    using parseFrom_table [OF t(1)] parseFrom_table [OF t(2)] by simp
  have lim: "parseExpr (SqlVal lit) [] = Ok (litNode lit)" if "lim = Some lit" for lit
    using assms(5) that litType_value [of lit] by (auto simp: litOk_def litNode_def)
  show ?thesis
    using pairConds_parsed [OF assms(1,3) joinExpr_parsed [OF assms(1,2)], of "pairNodes p"] pairSelects_parsed [OF assms(1,4)] selectNodes_aggs [of sl] lim
    by (cases lim)
      (simp_all add: joinFrom_def fr appendFrom_def subFieldsOf_def logicalJoin_def pairNodes_def del: bind_go_eq_Ok map_go.simps(2) parseExpr.simps)
qed

section \<open>Planning\<close>

text \<open>The table map while the filters are applied.\<close>

definition pairState :: "tablePair \<Rightarrow> (string \<Rightarrow> Operator) \<Rightarrow> nat \<Rightarrow> nat \<Rightarrow> planMap" where
  "pairState p ops i j = [(leftTab p, \<lparr>nodeOp = ops (leftTab p), nodeDesc = setTableAlias (leftCols p) (leftTab p), nodeId = i\<rparr>),
     (rightTab p, \<lparr>nodeOp = ops (rightTab p), nodeDesc = setTableAlias (rightCols p) (rightTab p), nodeId = j\<rparr>)]"

definition sidesFit :: "world \<Rightarrow> tablePair \<Rightarrow> (string \<Rightarrow> Operator) \<Rightarrow> bool" where
  "sidesFit w p ops \<longleftrightarrow> (\<forall>tab \<in> {leftTab p, rightTab p}. opDescriptor w (ops tab) = Ok (setTableAlias (colsOf p tab) tab))"

lemma applyFilter_at:
  assumes "tableOk c tab d" and "condOk tab d cnd" and "fst (condCol cnd) = tab" and "map_of m tab = Some node"
    and "nodeDesc node = setTableAlias d tab" and "opDescriptor w (nodeOp node) = Ok (setTableAlias d tab)"
  shows "applyFilter w ord (c, [], ts) (condNode cnd) (m, n) = Ok (addNode (tab, FilterOp (condFilter tab d cnd) (nodeOp node), setTableAlias d tab) (m, n))"
proof -
  obtain col bop lit where cnd: "cnd = Cond (tab, col) bop lit" using assms(3) by (cases cnd) auto
  have col: "columnOk tab d (tab, col)" and ty: "litType lit = colType d col" "colType d col \<noteq> UnknownType"
    using assms(2) by (auto simp: condOk_def cnd)
  then have lit: "litOk lit" by (simp add: litOk_def)
  have tab: "tab \<noteq> []" using assms(1) by (auto simp: tableOk_def plain_def)
  have cn: "condNode (Cond (tab, col) bop lit) = \<lparr>fieldExpr = NewFieldSelectNode tab col [], constExpr = litNode lit, filterPredOp = BoolOpMap_get bop\<rparr>"
    by (simp add: condNode_def cnd litNode_def)
  show ?thesis
    using ty assms(4-6)
    by (cases "colType d col")
      (simp_all add: applyFilter_def cn resolve_def resolve_qualified [OF tab] fieldToOp_def generateExpr_column [OF assms(1) col] generateExpr_lit [OF lit]
        NewIntFilter_def NewStringFilter_def litExpr_type colField_def condFilter_def cnd Let_def del: bind_go_eq_Ok)
qed

lemma applyFilter_pair:
  assumes "pairOk c p" and "pairCond p cnd" and "sidesFit w p ops" and "i < n" and "j < n" and "i \<noteq> j"
  shows "\<exists>i' j'. applyFilter w ord (c, [], pairNodes p) (condNode cnd) (pairState p ops i j, n) =
    Ok (pairState p (ops(fst (condCol cnd) := FilterOp (condFilter (fst (condCol cnd)) (colsOf p (fst (condCol cnd))) cnd) (ops (fst (condCol cnd))))) i' j', Suc n)
    \<and> i' < Suc n \<and> j' < Suc n \<and> i' \<noteq> j'"
proof -
  obtain q where q: "q = fst (condCol cnd)" by simp
  have side: "q = leftTab p \<or> q = rightTab p" and ne: "leftTab p \<noteq> rightTab p" using assms(1,2) by (auto simp: pairCond_def pairOk_def q)
  have t: "tableOk c q (colsOf p q)" using side assms(1) by (auto simp: pairOk_def colsOf_def)
  have k: "condOk q (colsOf p q) cnd" using assms(2) by (simp add: pairCond_def q)
  let ?node = "\<lparr>nodeOp = ops q, nodeDesc = setTableAlias (colsOf p q) q, nodeId = if q = leftTab p then i else j\<rparr>"
  have m: "map_of (pairState p ops i j) q = Some ?node" using side ne by (auto simp: pairState_def colsOf_def)
  have "opDescriptor w (ops q) = Ok (setTableAlias (colsOf p q) q)" using assms(3) side by (auto simp: sidesFit_def)
  from applyFilter_at [OF t k q [symmetric] m, of w ord "pairNodes p" n] this
  have res: "applyFilter w ord (c, [], pairNodes p) (condNode cnd) (pairState p ops i j, n) =
      Ok (addNode (q, FilterOp (condFilter q (colsOf p q) cnd) (ops q), setTableAlias (colsOf p q) q) (pairState p ops i j, n))" by simp
  have "addNode (q, op, setTableAlias (colsOf p q) q) (pairState p ops i j, n) =
      (pairState p (ops(q := op)) (if q = leftTab p then n else i) (if q = leftTab p then j else n), Suc n)" for op
    using side ne by (auto simp: addNode_def pairState_def colsOf_def)
  with res assms(4,5,6) show ?thesis unfolding q [symmetric]
    by (intro exI [of _ "if q = leftTab p then n else i"] exI [of _ "if q = leftTab p then j else n"]) simp
qed

lemma applyFilters_pair:
  assumes "pairOk c p" and "\<forall>cnd \<in> set cnds. pairCond p cnd" and "sidesFit w p ops" and "i < n" and "j < n" and "i \<noteq> j"
  shows "\<exists>i' j' n'. fold_go (applyFilter w ord (c, [], pairNodes p)) (map condNode cnds) (pairState p ops i j, n) =
    Ok (pairState p (\<lambda>tab. filterChain tab (colsOf p tab) (condsOn tab cnds) (ops tab)) i' j', n') \<and> i' \<noteq> j'"
  using assms(2-)
proof (induction cnds arbitrary: ops i j n)
  case Nil
  then show ?case by (auto simp: condsOn_def filterChain_def)
next
  case (Cons cnd cnds)
  let ?q = "fst (condCol cnd)"
  obtain ops' where ops': "ops' = ops(?q := FilterOp (condFilter ?q (colsOf p ?q) cnd) (ops ?q))" by simp
  have fit: "sidesFit w p ops'" using Cons.prems(2) by (auto simp: sidesFit_def filterDescriptor_def ops')
  have chain: "(\<lambda>tab. filterChain tab (colsOf p tab) (condsOn tab cnds) (ops' tab)) = (\<lambda>tab. filterChain tab (colsOf p tab) (condsOn tab (cnd # cnds)) (ops tab))"
    by (auto simp: fun_eq_iff condsOn_def filterChain_def ops')
  obtain i' j' where step: "applyFilter w ord (c, [], pairNodes p) (condNode cnd) (pairState p ops i j, n) = Ok (pairState p ops' i' j', Suc n)"
    and ids: "i' < Suc n" "j' < Suc n" "i' \<noteq> j'"
    using applyFilter_pair [OF assms(1) _ Cons.prems(2-5), of cnd ord] Cons.prems(1) unfolding ops' by auto
  from Cons.IH [OF _ fit ids] Cons.prems(1) step show ?case unfolding chain by simp
qed

lemma applyJoin_pair:
  assumes "pairOk c p" and "joinOk p x y" and "sidesFit w p ops"
  shows "\<exists>node n'. applyJoin w ord (c, [], pairNodes p) (joinNode p x y) (pairState p ops i j, n) = Ok ([(leftTab p, node), (rightTab p, node)], n') \<and>
    nodeOp node = JoinOp (columnJoin p x y) (ops (leftTab p)) (ops (rightTab p))"
proof -
  have l: "pairColumn p (leftTab p, x)" and r: "pairColumn p (rightTab p, y)" and ty: "colType (leftCols p) x = colType (rightCols p) y" "colType (leftCols p) x \<noteq> UnknownType"
    using assms(2) by (auto simp: joinOk_def)
  note s = pair_sides [OF assms(1) l] pair_sides [OF assms(1) r]
  have ne: "leftTab p \<noteq> []" "rightTab p \<noteq> []" "leftTab p \<noteq> rightTab p" using s assms(1) by (auto simp: plain_def pairOk_def)
  then have cols: "colsOf p (leftTab p) = leftCols p" "colsOf p (rightTab p) = rightCols p" by (simp_all add: colsOf_def)
  have d: "opDescriptor w (ops (leftTab p)) = Ok (setTableAlias (leftCols p) (leftTab p))" "opDescriptor w (ops (rightTab p)) = Ok (setTableAlias (rightCols p) (rightTab p))"
    using assms(3) cols by (auto simp: sidesFit_def)
  show ?thesis
    using ty ne d generateExpr_column [OF s(1,2), of w ord] generateExpr_column [OF s(4,5), of w ord] unfolding cols
    by (cases "colType (leftCols p) x")
      (simp_all add: applyJoin_def joinNode_def resolve_def resolve_qualified fieldToOp_def pairState_def colField_def NewIntJoin_def NewStringJoin_def
        columnJoin_def Let_def del: bind_go_eq_Ok)
qed

lemma generateExpr_pair:
  assumes "pairOk c p" and "pairColumn p (q, col)"
  shows "generateExpr w ord (Some (pairDesc p)) (Some m) (NewFieldSelectNode q col al) = Ok (FieldExpr (pairField p (q, col)), if al \<noteq> [] then al else col)"
proof -
  have ne: "leftTab p \<noteq> rightTab p" using assms(1) by (simp add: pairOk_def)
  have "findFieldInTd \<lparr>Fname = col, TableQualifier = q, Ftype = UnknownType\<rparr> (pairDesc p) = (int (pairIndex p (q, col)), None)"
    by (rule pair_find [OF assms]) simp_all
  then show ?thesis using pair_nth(2) [OF ne assms(2)] by (simp add: NewFieldSelectNode_def selectField_def)
qed

lemma applyProject_pair:
  assumes "pairOk c p" and "pairSelect p sl" and "opDescriptor w op = Ok (pairDesc p)"
  shows "applyProject w ord m dist (selectNodes sl) op = Ok (pairProjectOver p sl dist op)"
proof (cases sl)
  case AllColumns
  then show ?thesis by (simp add: applyProject_def NewStarSelectNode_def)
next
  case (Items its)
  let ?e = "\<lambda>it. (FieldExpr (pairField p (fst it)), itemName it)"
  let ?n = "\<lambda>it. NewFieldSelectNode (fst (fst it)) (snd (fst it)) (ToLower (snd it))"
  have "generateOn w ord m op (?n it) = Ok (?e it)" if "it \<in> set its" for it
    using generateExpr_pair [OF assms(1), of "fst (fst it)" "snd (fst it)"] that Items assms(2,3)
    by (auto simp: generateOn_def itemName_def ToLower_def)
  then have "map_go (generateOn w ord m op) (map ?n its) = Ok (map ?e its)"
    by (induction its) auto
  moreover have "filter (\<lambda>s. exprType s \<noteq> ExprStar) (map ?n its) = map ?n its"
    by (simp add: filter_map comp_def NewFieldSelectNode_def)
  moreover have "\<not> (\<exists>s \<in> set (map ?n its). exprType s = ExprStar \<and> lsField s = ''*'' \<and> funcOp s = None)"
    by (auto simp: NewFieldSelectNode_def)
  ultimately show ?thesis
    by (simp add: Items applyProject_def NewProjectOp_def pairProject_def comp_def del: bind_go_eq_Ok set_map)
qed

lemma allJoined_same:
  assumes "set (ord m) \<subseteq> UNIV \<times> {node}" and "ord m \<noteq> []"
  shows "allJoined ord m = Ok (nodeOp node)"
proof -
  obtain k first rest where o: "ord m = (k, first) # rest" using assms(2) by (metis list.exhaust surj_pair)
  with assms(1) have "first = node" "list_all (\<lambda>(_, node'). nodeId node' = nodeId node) rest" by (auto simp: list_all_iff)
  then show ?thesis by (simp add: allJoined_def o)
qed

lemma allJoined_pair:
  assumes "\<And>m. mset (ord m) = mset m"
  shows "allJoined ord [(a, node), (b, node)] = Ok (nodeOp node)"
proof (rule allJoined_same)
  show "set (ord [(a, node), (b, node)]) \<subseteq> UNIV \<times> {node}" using mset_eq_setD [OF assms, of "[(a, node), (b, node)]"] by simp
  show "ord [(a, node), (b, node)] \<noteq> []" using mset_eq_length [OF assms, of "[(a, node), (b, node)]"] by auto
qed

lemma sideOp_descriptor: "opDescriptor w (sideOp p tab cnds) = Ok (setTableAlias (colsOf p tab) tab)"
  unfolding sideOp_def by (rule filterChain_descriptor) (rule aliasedFile_descriptor)

lemma joinOp_descriptor:
  "leftTab p \<noteq> rightTab p \<Longrightarrow> opDescriptor w (JoinOp j (sideOp p (leftTab p) cnds) (sideOp p (rightTab p) cnds)) = Ok (pairDesc p)"
  by (simp add: sideOp_descriptor joinDescriptor_def pairDesc_def colsOf_def)

lemma pairStart:
  "leftTab p \<noteq> rightTab p \<Longrightarrow> fold addNode (map tableEntry (pairNodes p)) ([], 0) = (pairState p (\<lambda>tab. FileOp (aliasedFile tab (colsOf p tab))) 0 1, 2)"
  by (simp add: pairNodes_def tableEntry_def tableNode_def addNode_def pairState_def aliasedFile_def NewHeapFile_def TupleDesc_copy_def setTableAlias_def colsOf_def)

lemma makePhysicalPlan_join:
  assumes ok: "pairOk c p" "joinOk p x y" "\<forall>cnd \<in> set cnds. pairCond p cnd" "pairSelect p sl" "\<forall>lit. lim = Some lit \<longrightarrow> litOk lit"
    and ord: "\<And>m. mset (ord m) = mset m"
  shows "makePhysicalPlan w ord c (logicalJoin p x y cnds sl lim dist) = Ok (joinPlan p x y cnds sl lim dist)"
proof -
  have ne: "leftTab p \<noteq> rightTab p" using ok(1) by (simp add: pairOk_def)
  let ?scan = "\<lambda>tab. FileOp (aliasedFile tab (colsOf p tab))" and ?ops = "\<lambda>tab. sideOp p tab cnds"
  let ?join = "JoinOp (columnJoin p x y) (?ops (leftTab p)) (?ops (rightTab p))"
  have "sidesFit w p ?scan" by (simp add: sidesFit_def aliasedFile_descriptor del: opDescriptor.simps)
  from applyFilters_pair [OF ok(1,3) this, of 0 2 1 ord] obtain i j n where
    f: "fold_go (applyFilter w ord (c, [], pairNodes p)) (map condNode cnds) (pairState p ?scan 0 (Suc 0), 2) = Ok (pairState p ?ops i j, n)"
    by (auto simp: sideOp_def)
  have "sidesFit w p ?ops" by (simp add: sidesFit_def sideOp_descriptor)
  from applyJoin_pair [OF ok(1,2) this, of ord i j n] obtain node n' where
    j: "applyJoin w ord (c, [], pairNodes p) (joinNode p x y) (pairState p ?ops i j, n) = Ok ([(leftTab p, node), (rightTab p, node)], n')"
    and op: "nodeOp node = ?join" by blast
  have all: "allJoined ord [(leftTab p, node), (rightTab p, node)] = Ok ?join" using allJoined_pair [of ord "leftTab p" node "rightTab p", OF ord] op by simp
  note d = joinOp_descriptor [OF ne, of w "columnJoin p x y" cnds]
  have pd: "\<exists>dd. opDescriptor w (pairProjectOver p sl dist ?join) = Ok dd"
    using d by (cases sl) (auto simp: projectDescriptor_def pairProject_def simp del: opDescriptor.simps(4))
  then obtain dd where "opDescriptor w (pairProjectOver p sl dist ?join) = Ok dd" ..
  then show ?thesis
    using pairStart [OF ne] applyProject_pair [OF ok(1,4) d, of ord] applyLimit_over [OF ok(5), of w _ dd ord]
    by (simp add: logicalJoin_def planOver_def subFieldsOf_def f j all applyAggs_def applyOrderBy_def joinPlan_def del: bind_go_eq_Ok opDescriptor.simps)
qed

lemma join_parses:
  assumes ok: "pairOk c p" "joinOk p x y" "\<forall>cnd \<in> set cnds. pairCond p cnd" "pairSelect p sl" "\<forall>lit. lim = Some lit \<longrightarrow> litOk lit"
    and "\<And>m. mset (ord m) = mset m" and "sqlParse query = Ok (SqlSelectStmt (joinFrom p x y cnds sl lim dist))"
  shows "Parse w ord sqlParse query (c, dk) = Ok (IteratorType, joinPlan p x y cnds sl lim (dist \<noteq> []), c, dk)"
  using parseStatement_join [OF ok] makePhysicalPlan_join [where ord = ord, OF ok assms(6)] assms(7) by (simp add: Parse_def)

end
