(* ===== verification/Waiting.thy ===== *)
theory Waiting
  imports Transactions Modifications
begin

text \<open>
  Transactions that wait. \<open>pageStep\<close> has the calls of \<^verbatim>\<open>GetPage\<close> that find their lock free; here a call may also go to sleep and
  go on later with the page that it found before, whatever the other transactions have done in the meantime, and a page may be
  modified that is no longer in the pool, as \<^verbatim>\<open>buffer_pool.go\<close> does it.
\<close>

section \<open>The engine\<close>

text \<open>A sleeping call: the file and number of its page, the permission it asks for, and the page object it has found.\<close>

record sleeper =
  wantFile :: HeapFile
  wantNo :: nat
  wantPerm :: RWPerm
  foundPage :: page_ref

type_synonym engine = "DB \<times> (TransactionID \<Rightarrow> sleeper option)"

fun actor :: "('t, 'k, 'v) event \<Rightarrow> 't option" where
  "actor (Access t a) = Some t"
| "actor (Commit t) = Some t"
| "actor (Abort t) = Some t"
| "actor Silent = None"

text \<open>
  A transaction that sleeps does nothing else. A round of the lock loop that meets a conflict puts the call to sleep; after the sleep
  there is another round on the same page object, which grants the lock, sleeps again or aborts the transaction.
\<close>

inductive engineStep ::
  "(string \<Rightarrow> HeapFile) \<Rightarrow> engine \<Rightarrow> (TransactionID, heapHash, DBValue list list) event \<Rightarrow> engine \<Rightarrow> bool" for files where
  Awake: "pageStep files db e db' \<Longrightarrow> \<forall>t. actor e = Some t \<longrightarrow> ws t = None \<Longrightarrow> engineStep files (db, ws) e (db', ws)"
| InsertAnywhere: "ws tid = None \<Longrightarrow> map_of (locksOf (mapPageLocksByTid db) tid) k = Some l \<Longrightarrow> perm l = WritePerm \<Longrightarrow>
    tupleFits (hfDesc (files (FileName k))) t \<Longrightarrow> page_insertTuple (objs db ! lockPage l) t = Ok (rid, p', t') \<Longrightarrow>
    engineStep files (db, ws) (Access tid (WriteOf k (rows p'))) (setObj (lockPage l) p' db, ws)"
| DeleteAnywhere: "ws tid = None \<Longrightarrow> map_of (locksOf (mapPageLocksByTid db) tid) k = Some l \<Longrightarrow> perm l = WritePerm \<Longrightarrow>
    page_deleteTuple (objs db ! lockPage l) rid = Ok p' \<Longrightarrow>
    engineStep files (db, ws) (Access tid (WriteOf k (rows p'))) (setObj (lockPage l) p' db, ws)"
| FallAsleep: "ws tid = None \<Longrightarrow> files (fromFile f) = f \<Longrightarrow> fetchPage f n db = (Ok r, db1) \<Longrightarrow>
    lockRound n (pageKey f n) r tid p db1 = (Sleeps, db') \<Longrightarrow>
    engineStep files (db, ws) Silent (db', ws(tid \<mapsto> \<lparr>wantFile = f, wantNo = n, wantPerm = p, foundPage = r\<rparr>))"
| SleepOn: "ws tid = Some w \<Longrightarrow>
    lockRound (wantNo w) (pageKey (wantFile w) (wantNo w)) (foundPage w) tid (wantPerm w) db = (Sleeps, db') \<Longrightarrow>
    engineStep files (db, ws) Silent (db', ws)"
| WakeUp: "ws tid = Some w \<Longrightarrow> files (fromFile (wantFile w)) = wantFile w \<Longrightarrow>
    lockRound (wantNo w) (pageKey (wantFile w) (wantNo w)) (foundPage w) tid (wantPerm w) db = (Granted, db') \<Longrightarrow>
    engineStep files (db, ws) (Access tid (ReadOf (pageKey (wantFile w) (wantNo w)) (rows (objs db' ! foundPage w)))) (db', ws(tid := None))"
| WakeDeadlocked: "ws tid = Some w \<Longrightarrow>
    lockRound (wantNo w) (pageKey (wantFile w) (wantNo w)) (foundPage w) tid (wantPerm w) db = (Aborted e, db') \<Longrightarrow>
    engineStep files (db, ws) (Abort tid) (db', ws(tid := None))"

inductive_cases engineStep_readE: "engineStep files s (Access t (ReadOf k v)) s'"
inductive_cases engineStep_writeE: "engineStep files s (Access t (WriteOf k v)) s'"
inductive_cases engineStep_commitE: "engineStep files s (Commit t) s'"
inductive_cases engineStep_abortE: "engineStep files s (Abort t) s'"
inductive_cases engineStep_silentE: "engineStep files s Silent s'"

text \<open>
  The step uses the page object that the pool has: the one that a call found before its sleep, and the one that is modified.
  The code does not see to this: see \<open>waiter_commits_aborted_rows\<close>.
\<close>

fun usesPool :: "engine \<Rightarrow> (TransactionID, heapHash, DBValue list list) event \<Rightarrow> bool" where
  "usesPool (db, ws) (Access t (ReadOf k v)) \<longleftrightarrow> (\<forall>w. ws t = Some w \<longrightarrow> map_of (pages db) k = Some (foundPage w))"
| "usesPool (db, ws) (Access t (WriteOf k v)) \<longleftrightarrow>
     (\<forall>l. map_of (locksOf (mapPageLocksByTid db) t) k = Some l \<longrightarrow> map_of (pages db) k = Some (lockPage l))"
| "usesPool s e \<longleftrightarrow> True"

definition coherentStep :: "(string \<Rightarrow> HeapFile) \<Rightarrow> engine \<Rightarrow> (TransactionID, heapHash, DBValue list list) event \<Rightarrow> engine \<Rightarrow> bool" where
  "coherentStep files s e s' \<longleftrightarrow> engineStep files s e s' \<and> usesPool s e"

section \<open>What a wait changes\<close>

lemma lockRound_unlocked:
  assumes "db_ok files db" and "lockRound n k r tid p db = (res, db')" and "res \<noteq> Granted"
  obtains db1 where "db_ok files db1" and "db1 = db\<lparr>waitTidLocks := waitTidLocks db1\<rparr>" and "db' = (if res = Sleeps then db1 else clearMap tid db1)"
proof -
  obtain c db1 where ic: "isConflicted n tid p db = (c, db1)" by (cases "isConflicted n tid p db")
  have t: "table_ok (mapPageLocksByTid db)" and w: "waits_ok db" using assms(1) by (auto simp: db_ok_def)
  have db1: "db1 = db\<lparr>waitTidLocks := waitTidLocks db1\<rparr>" using ic by (auto simp: isConflicted_def split: prod.splits)
  have "distinct (map fst (waitTidLocks db1))" using isConflicted_spec(3) [OF t, of n tid p] w ic by (simp add: waits_ok_def)
  then have "db_ok files db1" using db_ok_waits [OF assms(1)] db1 by metis
  moreover have "db' = (if res = Sleeps then db1 else clearMap tid db1)"
    using assms(2,3) ic by (auto simp: lockRound_def waitWhenConflict_def split: bool.splits if_splits)
  ultimately show thesis using that db1 by blast
qed

lemma waits_views:
  assumes "db1 = db\<lparr>waitTidLocks := waitTidLocks db1\<rparr>"
  shows "committed files db1 = committed files db" and "current files db1 = current files db" and "mapPageLocksByTid db1 = mapPageLocksByTid db"
proof -
  obtain ws where db1: "db1 = db\<lparr>waitTidLocks := ws\<rparr>" using assms by blast
  show "committed files db1 = committed files db" "current files db1 = current files db" "mapPageLocksByTid db1 = mapPageLocksByTid db"
    using views_cong [of db1 db files] by (simp_all add: db1)
qed

section \<open>The contract\<close>

lemma coherent_access:
  assumes "db_ok files db" and "coherentStep files (db, ws) (Access t a) (db', ws')"
  shows "pageStep files db (Access t a) db'"
proof -
  have step: "engineStep files (db, ws) (Access t a) (db', ws')" and u: "usesPool (db, ws) (Access t a)"
    using assms(2) by (simp_all add: coherentStep_def)
  from step show ?thesis
  proof cases
    case (InsertAnywhere k l tt rid p' t')
    moreover from this have "map_of (pages db) k = Some (lockPage l)" using u by simp
    ultimately show ?thesis by (auto intro: PageInsert)
  next
    case (DeleteAnywhere k l rid p')
    moreover from this have "map_of (pages db) k = Some (lockPage l)" using u by simp
    ultimately show ?thesis by (auto intro: PageDelete)
  next
    case (WakeUp w)
    have "map_of (pages db) (pageKey (wantFile w) (wantNo w)) = Some (foundPage w)" using u WakeUp(1,3) by simp
    from granted_is_GetPage [OF assms(1) this WakeUp(5)] PageRead [of files "wantFile w", OF WakeUp(4)] WakeUp(1) show ?thesis by simp
  qed
qed

lemma coherent_commit: "coherentStep files (db, ws) (Commit t) (db', ws') \<Longrightarrow> pageStep files db (Commit t) db'"
  by (auto simp: coherentStep_def elim: engineStep_commitE)

lemma coherent_abort:
  assumes "db_ok files db" and "coherentStep files (db, ws) (Abort t) (db', ws')"
  shows "pageStep files db (Abort t) db' \<or>
    (\<exists>db1. db' = clearMap t db1 \<and> db_ok files db1 \<and> committed files db1 = committed files db \<and>
      current files db1 = current files db \<and> mapPageLocksByTid db1 = mapPageLocksByTid db)"
proof -
  have "engineStep files (db, ws) (Abort t) (db', ws')" using assms(2) by (simp add: coherentStep_def)
  then show ?thesis
  proof cases
    case (WakeDeadlocked w e)
    from lockRound_unlocked [OF assms(1) this(3)] obtain db1 where "db_ok files db1" "db1 = db\<lparr>waitTidLocks := waitTidLocks db1\<rparr>" "db' = clearMap t db1"
      by auto
    then show ?thesis using waits_views [of db1 db] by blast
  qed simp
qed

lemma aborted_law:
  assumes "db_ok files (fst s)" and "coherentStep files s (Abort t) s'"
  shows "db_ok files (fst s')" and "stored files (fst s') = stored files (fst s)"
    and "shown files (fst s') = (\<lambda>k. if write_locked (fst s) t k then stored files (fst s) k else shown files (fst s) k)"
    and "locked (fst s') = (locked (fst s))(t := \<lambda>_. False)"
proof -
  have "coherentStep files (fst s, snd s) (Abort t) (fst s', snd s')" using assms(2) by simp
  from coherent_abort [OF assms(1) this]
  have "db_ok files (fst s') \<and> stored files (fst s') = stored files (fst s) \<and>
      shown files (fst s') = (\<lambda>k. if write_locked (fst s) t k then stored files (fst s) k else shown files (fst s) k) \<and>
      locked (fst s') = (locked (fst s))(t := \<lambda>_. False)"
  proof (elim disjE exE conjE)
    assume "pageStep files (fst s) (Abort t) (fst s')"
    from abort_law [OF assms(1) this] show ?thesis by simp
  next
    fix db1
    assume "fst s' = clearMap t db1" "db_ok files db1" "committed files db1 = committed files (fst s)"
      "current files db1 = current files (fst s)" "mapPageLocksByTid db1 = mapPageLocksByTid (fst s)"
    from clear_law [OF this(2-), of t, folded this(1)] show ?thesis by simp
  qed
  then show "db_ok files (fst s')" and "stored files (fst s') = stored files (fst s)"
    and "shown files (fst s') = (\<lambda>k. if write_locked (fst s) t k then stored files (fst s) k else shown files (fst s) k)"
    and "locked (fst s') = (locked (fst s))(t := \<lambda>_. False)" by auto
qed

lemma coherent_silent:
  assumes "db_ok files db" and "coherentStep files (db, ws) Silent (db', ws')"
  shows "db_ok files db'" and "stored files db' = stored files db" and "shown files db' = shown files db" and "locked db' = locked db"
proof -
  have "engineStep files (db, ws) Silent (db', ws')" using assms(2) by (simp add: coherentStep_def)
  then have "db_ok files db' \<and> stored files db' = stored files db \<and> shown files db' = shown files db \<and> locked db' = locked db"
  proof cases
    case Awake
    then show ?thesis using silent_law [OF assms(1)] by blast
  next
    case (FallAsleep tid f n r db1 p)
    note spec = fetchPage_spec [OF assms(1) FallAsleep(3,4)]
    have same: "committed files db1 = committed files db" "mapPageLocksByTid db1 = mapPageLocksByTid db"
      using spec(2) views_cong(1) [of db1 db files] by (simp_all add: same_but_pool_def)
    from lockRound_unlocked [OF spec(1) FallAsleep(5)] have "db_ok files db'" "db' = db1\<lparr>waitTidLocks := waitTidLocks db'\<rparr>" by auto
    then show ?thesis
      using waits_views [of db' db1] same spec(3) stored_cong [of files db' db] shown_cong [of files db' db] locked_cong(1) [of db' db] by metis
  next
    case (SleepOn tid w)
    from lockRound_unlocked [OF assms(1) SleepOn(3)] have "db_ok files db'" "db' = db\<lparr>waitTidLocks := waitTidLocks db'\<rparr>" by auto
    then show ?thesis
      using waits_views [of db' db] stored_cong [of files db' db] shown_cong [of files db' db] locked_cong(1) [of db' db] by metis
  qed
  then show "db_ok files db'" and "stored files db' = stored files db" and "shown files db' = shown files db" and "locked db' = locked db" by auto
qed

interpretation engine: strict_locking "\<lambda>s. db_ok files (fst s)" "coherentStep files" "\<lambda>s. stored files (fst s)" "\<lambda>s. shown files (fst s)"
  "\<lambda>s. locked (fst s)" "\<lambda>s. write_locked (fst s)"
proof unfold_locales
  fix s s' t k v
  assume ok: "db_ok files (fst s)" and st: "coherentStep files s (Access t (ReadOf k v)) s'"
  then have "pageStep files (fst s) (Access t (ReadOf k v)) (fst s')" by (cases s; cases s') (auto intro: coherent_access)
  note r = read_law [OF ok this]
  show "v = shown files (fst s) k \<and> stored files (fst s') = stored files (fst s) \<and> shown files (fst s') = shown files (fst s) \<and>
      locked (fst s') = (locked (fst s))(t := (locked (fst s) t)(k := True)) \<and>
      (\<forall>t'. t' \<noteq> t \<longrightarrow> write_locked (fst s') t' = write_locked (fst s) t')"
    by (intro conjI allI impI r)
next
  fix s s' t k v
  assume ok: "db_ok files (fst s)" and st: "coherentStep files s (Access t (WriteOf k v)) s'"
  then have "pageStep files (fst s) (Access t (WriteOf k v)) (fst s')" by (cases s; cases s') (auto intro: coherent_access)
  note r = write_law [OF ok this]
  show "stored files (fst s') = stored files (fst s) \<and> shown files (fst s') = (shown files (fst s))(k := v) \<and>
      locked (fst s') = (locked (fst s))(t := (locked (fst s) t)(k := True)) \<and> write_locked (fst s') t k"
    by (intro conjI r)
next
  fix s s' t
  assume ok: "db_ok files (fst s)" and st: "coherentStep files s (Commit t) s'"
  then have "pageStep files (fst s) (Commit t) (fst s')" by (cases s; cases s') (auto intro: coherent_commit)
  note r = commit_law [OF ok this]
  show "stored files (fst s') = (\<lambda>k. if locked (fst s) t k then shown files (fst s) k else stored files (fst s) k) \<and>
      shown files (fst s') = shown files (fst s) \<and> locked (fst s') = (locked (fst s))(t := \<lambda>_. False)"
    by (intro conjI r)
next
  fix s s' t
  assume ok: "db_ok files (fst s)" and st: "coherentStep files s (Abort t) s'"
  note r = aborted_law [OF this]
  show "stored files (fst s') = stored files (fst s) \<and>
      shown files (fst s') = (\<lambda>k. if write_locked (fst s) t k then stored files (fst s) k else shown files (fst s) k) \<and>
      locked (fst s') = (locked (fst s))(t := \<lambda>_. False)"
    by (intro conjI r)
next
  fix s s'
  assume ok: "db_ok files (fst s)" and st: "coherentStep files s Silent s'"
  then have "coherentStep files (fst s, snd s) Silent (fst s', snd s')" by simp
  note r = coherent_silent [OF ok this]
  show "stored files (fst s') = stored files (fst s) \<and> shown files (fst s') = shown files (fst s) \<and> locked (fst s') = locked (fst s)"
    by (intro conjI r)
next
  fix s e s'
  assume ok: "db_ok files (fst s)" and st: "coherentStep files s e s'"
  show "db_ok files (fst s')"
  proof (cases e)
    case (Access t a)
    then have "pageStep files (fst s) (Access t a) (fst s')" using ok st by (cases s; cases s') (auto intro: coherent_access)
    then show ?thesis using read_law(1) [OF ok] write_law(1) [OF ok] by (cases a) simp_all
  next
    case (Commit t)
    then have "pageStep files (fst s) (Commit t) (fst s')" using st by (cases s; cases s') (auto intro: coherent_commit)
    then show ?thesis using commit_law(1) [OF ok] by blast
  next
    case (Abort t)
    then show ?thesis using aborted_law(1) [OF ok] st by blast
  next
    case Silent
    then have "coherentStep files (fst s, snd s) Silent (fst s', snd s')" using st by simp
    then show ?thesis using coherent_silent(1) [OF ok] by blast
  qed
qed (fact database.exclusive database.owned database.wlck_lck)+

text \<open>
  C1: serializability, waiting calls included. A run of the engine from a state without locks in which every step
  uses the page object of the pool: however the steps of the transactions interleave, the committed rows of the database
  are those that result from running the committed transactions one after the other, in the order of their commits, with every one of
  their reads returning what it returned in the interleaved run; and the reads of the transactions still under way are those of a run
  after all the committed ones. The invariant of the database holds throughout. Without the condition on the page objects, which
  the code does not ensure, it does not hold: see \<open>waiter_commits_aborted_rows\<close>.
\<close>

theorem transactions_serializable:
  assumes "runs (coherentStep files) (db, ws) es (db', ws')" and "db_ok files db" and "\<forall>t k. \<not> locked db t k"
  shows "db_ok files db' \<and> replay (stored files db) (serialHistory es) = Some (stored files db') \<and>
    (\<forall>t. replay (stored files db) (serialHistory es @ openAccesses es t) =
      Some (\<lambda>k. if locked db' t k then shown files db' k else stored files db' k))"
  using engine.runs_serialised [OF assms(1)] assms(2,3)
  by (simp add: engine.serialised_def engine.view_def replay_append cong: if_cong)

section \<open>A run with a wait\<close>

lemma pageStep_coherent:
  assumes "pageStep files db e db'" and "\<forall>t. actor e = Some t \<longrightarrow> ws t = None"
  shows "coherentStep files (db, ws) e (db', ws)"
proof -
  have "usesPool (db, ws) e"
  proof (cases "((db, ws), e)" rule: usesPool.cases)
    case (1 db1 ws1 t k v)
    then show ?thesis using assms(2) by simp
  next
    case (2 db1 ws1 t k v)
    then show ?thesis using assms(1) by (auto elim!: pageStep_writeE)
  qed auto
  then show ?thesis using Awake [OF assms] by (simp add: coherentStep_def)
qed

lemma runs_coherent: "runs (pageStep files) db es db' \<Longrightarrow> runs (coherentStep files) (db, Map.empty) es (db', Map.empty)"
  by (induction rule: runs.induct) (auto intro: runs.intros pageStep_coherent)

text \<open>
  The example: transaction 1 locks the first page of the table for writing and deletes its row; transaction 2 asks for the page and goes
  to sleep; transaction 1 commits; transaction 2 wakes up and reads the page.
\<close>

lemma deleted_row:
  assumes "page_ok p" and "rows p = [v]"
  obtains rid p' where "page_deleteTuple p rid = Ok p'" and "rows p' = []"
proof -
  obtain t where t: "somes (tuples p) = [t]" using assms(2) by (auto simp: rows_def)
  then have "Some t \<in> set (tuples p)" using in_set_somes [of t "tuples p"] by simp
  then obtain i where i: "i < length (tuples p)" "tuples p ! i = Some t" by (auto simp: in_set_conv_nth)
  have "somes ((tuples p)[i := None]) = []" using mset_somes_delete [OF i] t by simp
  with page_deleteTuple_slot [OF assms(1) i] that show thesis by (simp add: rows_def setDirty_def)
qed

lemma waitsFor_GetPage:
  assumes "db_ok files db" and "files (fromFile f) = f" and "GetPage f n tid p db = Some (Ok r, db')"
  shows "waitsFor (waitTidLocks db') \<subseteq> waitsFor (waitTidLocks db)"
proof -
  obtain db1 where fetch: "fetchPage f n db = (Ok r, db1)" and free: "blockers (mapPageLocksByTid db) n tid p = {}"
    by (rule GetPage_cases [OF assms]) auto
  note spec = fetchPage_spec [OF assms(1,2) fetch]
  have same: "mapPageLocksByTid db1 = mapPageLocksByTid db" "waitTidLocks db1 = waitTidLocks db" using spec(2) by (auto simp: same_but_pool_def)
  have tab: "table_ok (mapPageLocksByTid db1)" and w: "waits_ok db1" using spec(1) by (simp_all add: db_ok_def)
  obtain c db2 where ic: "isConflicted n tid p db1 = (c, db2)" by (cases "isConflicted n tid p db1")
  note sp = isConflicted_spec [OF tab, of n tid p, unfolded ic, simplified]
  have "\<not> c" using sp(1) free same by simp
  then have "lockRound n (pageKey f n) r tid p db1 = (Granted, deleteWaitTidLocks tid (saveMapAndUpgradeLock n (pageKey f n) r tid p db2))"
    by (simp add: lockRound_def ic)
  then have db': "db' = deleteWaitTidLocks tid (saveMapAndUpgradeLock n (pageKey f n) r tid p db2)"
    using assms(3) handle_eq [OF tab, of n "pageKey f n" r tid p] by (simp add: GetPage_def fetch)
  have waits: "waitTidLocks (saveMapAndUpgradeLock n (pageKey f n) r tid p db2) = waitTidLocks db2" by (simp add: saveMapAndUpgradeLock_def Let_def)
  have "distinct (map fst (waitTidLocks db2))" using sp(3) w by (simp add: waits_ok_def)
  then show ?thesis
    using waitsOf_deleteWait [of "saveMapAndUpgradeLock n (pageKey f n) r tid p db2" tid] sp(2) same(2) free same(1)
    by (auto simp: waitsFor_def db' waits split: if_splits)
qed

lemma exDB3_first: "0 < NumPages exFile (disk exDB3)" and exDB3_row: "current exFiles exDB3 (pageKey exFile 0) = Some [[IntField 5]]"
proof -
  show n: "0 < NumPages exFile (disk exDB3)" using exDB3_ok(5) by (cases "NumPages exFile (disk exDB3)") (auto simp: table_rows_def)
  then have "NumPages exFile (disk exDB3) = 1" using exDB3_pages by simp
  then show "current exFiles exDB3 (pageKey exFile 0) = Some [[IntField 5]]"
    using exDB3_ok(5) by (simp add: table_rows_def split: option.splits)
qed

definition exKey :: heapHash where
  "exKey = pageKey exFile 0"

definition exWaitRun :: "(TransactionID, heapHash, DBValue list list) event list" where
  "exWaitRun = [Access 1 (ReadOf exKey [[IntField 5]]), Access 1 (WriteOf exKey []), Silent, Commit 1, Access 2 (ReadOf exKey [])]"

text \<open>Transaction 1 has deleted the row.\<close>

lemma ex_deleted:
  obtains r l db where "runs (coherentStep exFiles) (exDB3, Map.empty) [Access 1 (ReadOf exKey [[IntField 5]]), Access 1 (WriteOf exKey [])] (db, Map.empty)"
    and "db_ok exFiles db" and "map_of (pages db) exKey = Some r" and "shown exFiles db exKey = []" and "waitsFor (waitTidLocks db) = {}"
    and "locksOf (mapPageLocksByTid db) 1 = [(exKey, l)]" and "perm l = WritePerm" and "lockPageNo l = 0"
    and "\<forall>t. t \<noteq> 1 \<longrightarrow> locksOf (mapPageLocksByTid db) t = []"
proof -
  obtain r db1 where get: "GetPage exFile 0 1 WritePerm exDB3 = Some (Ok r, db1)"
    using GetPage_total [OF exDB3_ok(1) exFile_simps(1) exDB3_first exDB3_ok(2) exDB3_ok(3) [of 1 WritePerm]] by blast
  note g = GetPage_Ok [OF exDB3_ok(1) exFile_simps(1) get]
  have one: "rows (objs db1 ! r) = [[IntField 5]]" using g exDB3_row by simp
  have read: "pageStep exFiles exDB3 (Access 1 (ReadOf exKey [[IntField 5]])) db1"
    using PageRead [where files = exFiles, OF exFile_simps(1) get] one by (simp add: exKey_def)
  have tab: "mapPageLocksByTid db1 = mapPageLocksByTid (saveMapAndUpgradeLock 0 exKey r 1 WritePerm exDB3)"
    by (rule GetPage_cases [OF exDB3_ok(1) exFile_simps(1) get]) (auto simp: exKey_def)
  define l where "l = \<lparr>lockPage = r, lockPageNo = 0, perm = WritePerm, lockKey = exKey\<rparr>"
  have own: "locksOf (mapPageLocksByTid db1) t = (if t = 1 then [(exKey, l)] else [])" for t
    by (simp add: tab saveMap_table exDB3_def NewBufferPool_def l_def)
  have r: "map_of (pages db1) exKey = Some r" using g by (simp add: exKey_def)
  have "page_ok (objs db1 ! r)" using g r pool_okD(2) [of exFiles db1 exKey r] by (auto simp: db_ok_def page_at_def page_of_def exKey_def)
  then obtain rid p where del: "page_deleteTuple (objs db1 ! r) rid = Ok p" and gone: "rows p = []" by (rule deleted_row [OF _ one])
  let ?db = "setObj r p db1"
  have del_step: "pageStep exFiles db1 (Access 1 (WriteOf exKey [])) ?db"
    using PageDelete [of db1 1 exKey l rid p exFiles] own r del gone by (simp add: l_def)
  note w = write_law [OF _ del_step] g
  have "waitsFor (waitTidLocks exDB3) = {}" by (simp add: exDB3_def NewBufferPool_def waitsFor_def waitsOf_def)
  then have waits: "waitsFor (waitTidLocks db1) = {}" using waitsFor_GetPage [OF exDB3_ok(1) exFile_simps(1) get] by simp
  have run: "runs (pageStep exFiles) exDB3 [Access 1 (ReadOf exKey [[IntField 5]]), Access 1 (WriteOf exKey [])] ?db"
    using runs_snoc [of "pageStep exFiles", OF runs_single [of "pageStep exFiles", OF read] del_step] by simp
  show thesis
    using runs_coherent [OF run] w waits own r by (intro that [of ?db r l]) (auto simp: setObj_def l_def)
qed

theorem transactions_serializable_witness:
  "\<exists>s. runs (coherentStep exFiles) (exDB3, Map.empty) exWaitRun s \<and>
     replay (stored exFiles exDB3) (serialHistory exWaitRun) = Some (stored exFiles (fst s))"
proof -
  obtain r l db where run: "runs (coherentStep exFiles) (exDB3, Map.empty) [Access 1 (ReadOf exKey [[IntField 5]]), Access 1 (WriteOf exKey [])] (db, Map.empty)"
    and ok: "db_ok exFiles db" and r: "map_of (pages db) exKey = Some r" and sh: "shown exFiles db exKey = []"
    and waits: "waitsFor (waitTidLocks db) = {}"
    and l: "locksOf (mapPageLocksByTid db) 1 = [(exKey, l)]" "perm l = WritePerm" "lockPageNo l = 0"
    and none: "\<forall>t. t \<noteq> 1 \<longrightarrow> locksOf (mapPageLocksByTid db) t = []" by (rule ex_deleted)
  have tab: "table_ok (mapPageLocksByTid db)" using ok by (simp add: db_ok_def)
  have "holds (mapPageLocksByTid db) 1 l" using l(1) by (auto simp: holds_def)
  then have "1 \<in> blockers (mapPageLocksByTid db) 0 2 ReadPerm" using l(2,3) by (auto simp: blockers_def)
  then have b: "blockers (mapPageLocksByTid db) 0 2 ReadPerm \<noteq> {}" by blast
  obtain db1 where sleep: "lockRound 0 exKey r 2 ReadPerm db = (Sleeps, db1)" using lockRound_sleeps [OF tab waits b] by blast
  have fetch: "fetchPage exFile 0 db = (Ok r, db)" using r by (simp add: fetchPage_def exKey_def)
  let ?w = "\<lparr>wantFile = exFile, wantNo = 0, wantPerm = ReadPerm, foundPage = r\<rparr>" let ?ws = "Map.empty(2 \<mapsto> ?w)"
  have s1: "coherentStep exFiles (db, Map.empty) Silent (db1, ?ws)"
    using FallAsleep [of Map.empty 2 exFiles exFile 0 db r db ReadPerm db1] fetch sleep by (simp add: coherentStep_def exKey_def)
  have db1: "db_ok exFiles db1" "db1 = db\<lparr>waitTidLocks := waitTidLocks db1\<rparr>" using lockRound_unlocked [OF ok sleep] by auto
  obtain db2 where commit: "CommitTransaction 1 db1 = Ok db2" and db2: "db_ok exFiles db2"
    "mapPageLocksByTid db2 = AList.delete 1 (mapPageLocksByTid db1)" "pages db2 = pages db1" "current exFiles db2 = current exFiles db1"
    using CommitTransaction_spec [OF db1(1), of 1] by blast
  have s2: "coherentStep exFiles (db1, ?ws) (Commit 1) (db2, ?ws)" by (rule pageStep_coherent [OF Committed [OF commit]]) simp
  have same: "mapPageLocksByTid db1 = mapPageLocksByTid db" "pages db1 = pages db" by (subst db1(2), simp)+
  have "locksOf (mapPageLocksByTid db2) t = []" for t using none by (cases "t = 1") (simp_all add: db2(2) same)
  then have "blockers (mapPageLocksByTid db2) 0 2 ReadPerm = {}" by (simp add: blockers_def holds_def)
  moreover have "table_ok (mapPageLocksByTid db2)" using db2(1) by (simp add: db_ok_def)
  ultimately have "\<not> fst (isConflicted 0 2 ReadPerm db2)" using isConflicted_spec(1) by blast
  then obtain db3 where wake: "lockRound 0 exKey r 2 ReadPerm db2 = (Granted, db3)"
    by (cases "isConflicted 0 2 ReadPerm db2") (simp add: lockRound_def)
  have s3: "coherentStep exFiles (db2, ?ws) (Access 2 (ReadOf exKey (rows (objs db3 ! r)))) (db3, ?ws(2 := None))"
    using WakeUp [of ?ws 2 ?w exFiles db2 db3] wake r by (simp add: coherentStep_def exKey_def db2(3) same(2))
  from read_law(2) [OF _ coherent_access [OF _ s3]] db2(1) have "rows (objs db3 ! r) = shown exFiles db2 exKey" by simp
  also have "\<dots> = []" using sh waits_views(2) [OF db1(2), of exFiles] shown_cong [of exFiles db2 db] db2(4) by simp
  finally have run3: "runs (coherentStep exFiles) (exDB3, Map.empty) exWaitRun (db3, ?ws(2 := None))"
    using runs_snoc [of "coherentStep exFiles", OF runs_snoc [of "coherentStep exFiles", OF runs_snoc [of "coherentStep exFiles", OF run s1] s2] s3]
    by (simp add: exWaitRun_def)
  have "\<forall>t k. \<not> locked exDB3 t k" by (simp add: locked_def exDB3_def NewBufferPool_def)
  from transactions_serializable [OF run3 exDB3_ok(1) this] run3 show ?thesis by (metis fst_conv)
qed

end
