(* ===== verification/Restarts.thy ===== *)
theory Restarts
  imports Waiting CsvLoading
begin

text \<open>
  Restarting the engine on the files that are left: a new buffer pool over the same disk, after which every table holds its committed
  rows.
\<close>

section \<open>A new pool on a disk\<close>

lemma restart_ok:
  assumes "db_ok files db"
  shows "db_ok files (NewBufferPool k (disk db))"
  using assms by (simp add: db_ok_def NewBufferPool_def pool_ok_def locks_ok_def table_ok_def locks_compatible_def waits_ok_def holds_def)

lemma restart_free: "\<not> locked (NewBufferPool k dk) t key"
  by (simp add: locked_def NewBufferPool_def)

lemma restart_committed: "current files (NewBufferPool k (disk db)) = committed files db" "committed files (NewBufferPool k (disk db)) = committed files db"
  by (simp_all add: current_def committed_def NewBufferPool_def fun_eq_iff)

lemma restart_sharing:
  assumes "db_ok files db" and "0 < k"
  shows "sharing files tid (NewBufferPool k (disk db))"
  using restart_ok [OF assms(1), of k] assms(2)
  by (simp_all add: sharing_def scan_ready_def has_room_def alone_def blockers_def holds_def dense_def NewBufferPool_def)

lemma restart_quiet:
  assumes "db_ok files db" and "quiet db" and "files (fromFile f) = f"
  shows "table_rows files (NewBufferPool k (disk db)) f = table_rows files db f"
proof -
  have "current files db = committed files db"
    using no_locks_current [OF assms(1)] assms(2) map_of_holds unfolding quiet_def write_locked_def by blast
  then have "current files (NewBufferPool k (disk db)) = current files db" using restart_committed(1) [of files k db] by simp
  from table_rows_current [OF assms(1) restart_ok [OF assms(1)] assms(3) this] show ?thesis .
qed

text \<open>
  C2: crash recovery. When the engine stops at any moment between the steps of interleaved transactions, with calls that sleep, and is
  started again on the files on disk, the tables hold what running the committed transactions one after the other, in the order of their
  commits, leaves: nothing of a transaction that had not committed, and everything of one that had. No lock is left, and the invariant
  holds. As for \<open>transactions_serializable\<close>, the steps use the page objects of the pool; without this the rows of an aborted transaction can
  be on disk, see \<open>waiter_commits_aborted_rows\<close>.
\<close>

theorem crash_recovers:
  assumes "runs (coherentStep files) (db, ws) es (db', ws')" and "db_ok files db" and "\<forall>t k. \<not> locked db t k"
  shows "db_ok files (NewBufferPool n (disk db')) \<and> (\<forall>t k. \<not> locked (NewBufferPool n (disk db')) t k) \<and>
    replay (stored files db) (serialHistory es) = Some (shown files (NewBufferPool n (disk db')))"
proof -
  note run = engine.runs_serialised [OF assms(1)]
  then have "db_ok files db'" and rep: "replay (stored files db) (serialHistory es) = Some (stored files db')"
    using assms(2,3) by (simp_all add: engine.serialised_def engine.view_def)
  moreover have "shown files (NewBufferPool n (disk db')) = stored files db'"
    by (simp add: shown_def stored_def restart_committed fun_eq_iff)
  ultimately show ?thesis using restart_ok restart_free by simp
qed

text \<open>The example: a transaction has deleted the row of a page when the engine stops; the row is there again.\<close>

theorem crash_recovers_witness:
  "\<exists>s. runs (coherentStep exFiles) (exDB3, Map.empty) [Access 1 (ReadOf exKey [[IntField 5]]), Access 1 (WriteOf exKey [])] s \<and>
     shown exFiles (fst s) exKey = [] \<and> shown exFiles (NewBufferPool 3 (disk (fst s))) exKey = [[IntField 5]]"
proof -
  obtain r l db where run: "runs (coherentStep exFiles) (exDB3, Map.empty) [Access 1 (ReadOf exKey [[IntField 5]]), Access 1 (WriteOf exKey [])] (db, Map.empty)"
    and sh: "shown exFiles db exKey = []" by (rule ex_deleted)
  have free: "\<forall>t k. \<not> locked exDB3 t k" by (simp add: locked_def exDB3_def NewBufferPool_def)
  have hist: "serialHistory [Access (1::TransactionID) (ReadOf exKey [[IntField 5]]), Access 1 (WriteOf exKey [])] = []" by (simp add: historyOf_def)
  have "\<not> write_locked exDB3 t k" for t k by (simp add: write_locked_def exDB3_def NewBufferPool_def)
  then have "stored exFiles exDB3 exKey = [[IntField 5]]"
    using no_locks_current [OF exDB3_ok(1)] exDB3_row by (simp add: stored_def exKey_def)
  then have "shown exFiles (NewBufferPool 3 (disk db)) exKey = [[IntField 5]]"
    using crash_recovers [OF run exDB3_ok(1) free, of 3] hist by simp
  with run sh show ?thesis by (metis fst_conv)
qed

end
