(* ===== verification/JoinRuns.thy ===== *)
theory JoinRuns
  imports SelectRuns JoinPlans Restarts
begin

text \<open>
  Running a query over two tables: the rows of the join, and what the query returns of them.
\<close>

section \<open>What a join query means\<close>

text \<open>The pairs of rows that agree in the two columns, for each row of the left table in the order of the right one.\<close>

definition pairRows :: "tablePair \<Rightarrow> string \<Rightarrow> string \<Rightarrow> DBValue list list \<Rightarrow> DBValue list list \<Rightarrow> DBValue list list" where
  "pairRows p x y ls rs = concat (map (\<lambda>l. map (\<lambda>r. l @ r) (filter (\<lambda>r. l ! colIndex (leftCols p) x = r ! colIndex (rightCols p) y) rs)) ls)"

fun pairSelected :: "tablePair \<Rightarrow> selectList \<Rightarrow> bool \<Rightarrow> DBValue list list \<Rightarrow> DBValue list list" where
  "pairSelected p AllColumns dist rws = rws"
| "pairSelected p (Items its) dist rws =
     (let out = map (\<lambda>row. map (\<lambda>it. row ! pairIndex p (fst it)) its) rws in if dist then firstBy id [] out else out)"

text \<open>The columns of the results.\<close>

fun pairSelectDesc :: "tablePair \<Rightarrow> selectList \<Rightarrow> TupleDesc" where
  "pairSelectDesc p AllColumns = pairDesc p"
| "pairSelectDesc p (Items its) = \<lparr>Fields = map (\<lambda>it. (pairField p (fst it))\<lparr>Fname := itemName it\<rparr>) its\<rparr>"

definition sideRows :: "(string \<Rightarrow> string \<Rightarrow> bool) \<Rightarrow> tablePair \<Rightarrow> string \<Rightarrow> condition list \<Rightarrow> DBValue list list \<Rightarrow> DBValue list list" where
  "sideRows rx p tab cnds rws = filter (\<lambda>row. \<forall>cnd \<in> set (condsOn tab cnds). satisfies rx (colsOf p tab) cnd row) rws"

definition joinRows :: "(string \<Rightarrow> string \<Rightarrow> bool) \<Rightarrow> tablePair \<Rightarrow> string \<Rightarrow> string \<Rightarrow> condition list \<Rightarrow> selectList \<Rightarrow> string option \<Rightarrow> bool \<Rightarrow>
    DBValue list list \<Rightarrow> DBValue list list \<Rightarrow> DBValue list list" where
  "joinRows rx p x y cnds sl lim dist ls rs =
     limited lim (pairSelected p sl dist (pairRows p x y (sideRows rx p (leftTab p) cnds ls) (sideRows rx p (rightTab p) cnds rs)))"

section \<open>Joined tuples\<close>

definition pairOf :: "tablePair \<Rightarrow> Tuple \<Rightarrow> bool" where
  "pairOf p t \<longleftrightarrow> Desc t = pairDesc p \<and> length (TFields t) = length (Fields (pairDesc p))"

lemma joined_pair: "leftTab p \<noteq> rightTab p \<Longrightarrow> tupleOf (leftTab p) (leftCols p) l \<Longrightarrow> tupleOf (rightTab p) (rightCols p) r \<Longrightarrow> pairOf p (joined l r)"
  by (simp add: pairOf_def joined_def tupleOf_length pair_fields) (simp add: pairDesc_def tupleOf_def)

lemma pair_value:
  assumes "pairOk c p" and "pairColumn p qc" and "pairOf p t"
  shows "evalOrNil w (FieldExpr (pairField p qc)) (Some t) = Ok (TFields t ! pairIndex p qc)"
proof -
  have ne: "leftTab p \<noteq> rightTab p" using assms(1) by (simp add: pairOk_def)
  note i = pair_nth [OF ne assms(2)]
  have "findFieldInTd (pairField p qc) (pairDesc p) = (int (pairIndex p qc), None)"
    by (rule pair_find [OF assms(1,2)]) (simp_all add: pairField_def colField_def)
  with field_value [of "pairField p qc" t "pairIndex p qc" w] show ?thesis using assms(3) i(1) by (simp add: evalOrNil_def pairOf_def del: EvalExpr.simps)
qed

lemma pairProject_tuple:
  assumes "pairOk c p" and "pairSelect p (Items its)" and "pairOf p t"
  shows "projectTuple w (pairProject p its dist) t = Ok (rowTuple (pairSelectDesc p (Items its)) (map (\<lambda>it. TFields t ! pairIndex p (fst it)) its))"
proof -
  let ?p = "pairProject p its dist"
  have "projectDescriptor w ?p = Ok (pairSelectDesc p (Items its))" by (simp add: projectDescriptor_def pairProject_def named_fields)
  moreover have "map_go (\<lambda>e. evalOrNil w e (Some t)) (selectFields ?p) = Ok (map (\<lambda>it. TFields t ! pairIndex p (fst it)) its)"
    using pair_value [OF assms(1) _ assms(3)] assms(2) by (auto simp: pairProject_def map_go_Ok_iff list_all2_conv_all_nth)
  ultimately show ?thesis by (simp add: projectTuple_def rowTuple_def)
qed

lemma pairProject_rows:
  assumes "pairOk c p" and "pairSelect p sl"
    and key: "dist \<longrightarrow> tellsApart (rtKey rt) (pairSelectDesc p sl) (set (pairSelected p sl False (map TFields (opRows rt scan op))))"
    and "opReady rt scan known op" and tup: "\<forall>t \<in> set (opRows rt scan op). pairOf p t"
  shows "opReady rt scan known (pairProjectOver p sl dist op) \<and>
    map TFields (opRows rt scan (pairProjectOver p sl dist op)) = pairSelected p sl dist (map TFields (opRows rt scan op))"
proof (cases sl)
  case AllColumns
  then show ?thesis using assms(4) by simp
next
  case (Items its)
  let ?row = "\<lambda>t. map (\<lambda>it. TFields t ! pairIndex p (fst it)) its" and ?d = "pairSelectDesc p (Items its)"
  have "\<forall>t \<in> set (opRows rt scan op). projectTuple (rtWorld rt) (pairProject p its dist) t = Ok (rowTuple ?d (?row t))"
    using pairProject_tuple [OF assms(1), of its] assms(2) tup Items by simp
  moreover have "isDistinct (pairProject p its dist) \<longrightarrow> tellsApart (rtKey rt) ?d (?row ` set (opRows rt scan op))"
    using key Items by (simp add: pairProject_def image_image)
  from project_denotes [OF this assms(4)] calculation Items show ?thesis by (simp add: pairProject_def Let_def comp_def)
qed

lemma join_rows:
  assumes "pairOk c p" and "joinOk p x y" and ls: "\<forall>t \<in> set ls. tupleOf (leftTab p) (leftCols p) t" and rs: "\<forall>t \<in> set rs. tupleOf (rightTab p) (rightCols p) t"
  shows "map TFields (joinResult w (columnJoin p x y) ls rs) = pairRows p x y (map TFields ls) (map TFields rs)"
    and "\<forall>t \<in> set ls. EvalExpr w (leftField (columnJoin p x y)) (Some t) = Ok (TFields t ! colIndex (leftCols p) x)"
    and "\<forall>t \<in> set rs. EvalExpr w (rightField (columnJoin p x y)) (Some t) = Ok (TFields t ! colIndex (rightCols p) y)"
    and "\<forall>t \<in> set (joinResult w (columnJoin p x y) ls rs). pairOf p t"
proof -
  have ne: "leftTab p \<noteq> rightTab p" using assms(1) by (simp add: pairOk_def)
  then have cols: "colsOf p (leftTab p) = leftCols p" "colsOf p (rightTab p) = rightCols p" by (simp_all add: colsOf_def)
  have l: "pairColumn p (leftTab p, x)" and r: "pairColumn p (rightTab p, y)" using assms(2) by (auto simp: joinOk_def)
  have has: "hasCol (leftCols p) x" "hasCol (rightCols p) y" "distinct (map Fname (Fields (leftCols p)))" "distinct (map Fname (Fields (rightCols p)))"
    using l r cols assms(1) by (auto simp: pairColumn_def columnOk_def pairOk_def tableOk_def)
  show lv: "\<forall>t \<in> set ls. EvalExpr w (leftField (columnJoin p x y)) (Some t) = Ok (TFields t ! colIndex (leftCols p) x)"
    using column_value [of _ "leftCols p" "leftTab p" x w] has ls tupleOf_length by (auto simp: columnJoin_def tupleOf_def simp del: EvalExpr.simps)
  show rv: "\<forall>t \<in> set rs. EvalExpr w (rightField (columnJoin p x y)) (Some t) = Ok (TFields t ! colIndex (rightCols p) y)"
    using column_value [of _ "rightCols p" "rightTab p" y w] has rs tupleOf_length by (auto simp: columnJoin_def tupleOf_def simp del: EvalExpr.simps)
  have m: "filter (joins w (columnJoin p x y) l) rs = filter (\<lambda>r. TFields l ! colIndex (leftCols p) x = TFields r ! colIndex (rightCols p) y) rs" if "l \<in> set ls" for l
    using lv rv that by (intro filter_cong refl) (simp add: joins_def)
  have "map TFields (joinResult w (columnJoin p x y) ls rs) =
      concat (map (\<lambda>l. map (\<lambda>r. TFields l @ TFields r) (filter (\<lambda>r. TFields l ! colIndex (leftCols p) x = TFields r ! colIndex (rightCols p) y) rs)) ls)"
    unfolding joinResult_def map_concat map_map using m by (intro arg_cong [where f = concat] map_cong refl) (simp add: comp_def joined_def)
  also have "\<dots> = pairRows p x y (map TFields ls) (map TFields rs)"
    unfolding pairRows_def map_map by (intro arg_cong [where f = concat] map_cong refl) (simp add: comp_def filter_map)
  finally show "map TFields (joinResult w (columnJoin p x y) ls rs) = pairRows p x y (map TFields ls) (map TFields rs)" .
  show "\<forall>t \<in> set (joinResult w (columnJoin p x y) ls rs). pairOf p t"
    using joined_pair [OF ne] ls rs by (auto simp: joinResult_def)
qed

section \<open>Running the query\<close>

lemma side_rows:
  assumes "pairOk c p" and "tab \<in> {leftTab p, rightTab p}" and "\<forall>cnd \<in> set cnds. pairCond p cnd"
    and "files (tableNameToFile tab) = aliasedFile tab (colsOf p tab)" and "sharing files tid db" and "clean db"
  shows "opReady rt (\<lambda>f. scanTuples f (viewOf files db)) (\<lambda>f. files (fromFile f) = f) (sideOp p tab cnds)"
    and "map TFields (opRows rt (\<lambda>f. scanTuples f (viewOf files db)) (sideOp p tab cnds)) =
      sideRows (rtRegexp rt) p tab cnds (table_rows files db (aliasedFile tab (colsOf p tab)))"
    and "\<forall>t \<in> set (opRows rt (\<lambda>f. scanTuples f (viewOf files db)) (sideOp p tab cnds)). tupleOf tab (colsOf p tab) t"
proof -
  let ?scan = "\<lambda>f. scanTuples f (viewOf files db)" and ?known = "\<lambda>f. files (fromFile f) = f" and ?f = "aliasedFile tab (colsOf p tab)"
  have d: "distinct (map Fname (Fields (colsOf p tab)))" using assms(1,2) by (auto simp: pairOk_def colsOf_def tableOk_def)
  have cnds: "\<forall>cnd \<in> set (condsOn tab cnds). condOk tab (colsOf p tab) cnd" using assms(3) by (auto simp: condsOn_def pairCond_def)
  have tup: "\<forall>t \<in> set (?scan ?f). tupleOf tab (colsOf p tab) t" using table_tuples [OF assms(5,6,4)] by blast
  have chain: "opReady rt ?scan ?known (sideOp p tab cnds) \<and> opRows rt ?scan (sideOp p tab cnds) =
      filter (\<lambda>t. \<forall>cnd \<in> set (condsOn tab cnds). satisfies (rtRegexp rt) (colsOf p tab) cnd (TFields t)) (?scan ?f)"
    using chain_rows [OF d cnds, where op = "FileOp ?f" and scan = ?scan and known = ?known and rt = rt] tup assms(4)
    by (simp add: sideOp_def aliasedFile_simps)
  then show "opReady rt ?scan ?known (sideOp p tab cnds)" by blast
  show "map TFields (opRows rt ?scan (sideOp p tab cnds)) = sideRows (rtRegexp rt) p tab cnds (table_rows files db ?f)"
    using chain scanTuples_rows [of ?f files db] by (simp add: sideRows_def filter_map comp_def flip: scanTuples_rows)
  show "\<forall>t \<in> set (opRows rt ?scan (sideOp p tab cnds)). tupleOf tab (colsOf p tab) t" using chain tup by simp
qed

text \<open>
  C11: a join of two tables, from its text to its rows. A query over two tables with an equation between a column of each,
  comparisons of columns with literals of their types, a select list and an optional limit parses, its plan opens, and the closure returns
  the rows that SQL defines: the pairs of the rows of the two tables that satisfy the conditions and agree in the two columns, for each
  row of the left table in the order of the right one, restricted to the selected columns, without repetitions under DISTINCT with a
  select list, at most as many as the limit. Each table must have a row that satisfies its conditions, since otherwise the join has no
  iterator or never ends (see \<open>join_empty_input\<close>). As in \<open>select_executes\<close>, no other transaction is in the way, the pool has room, and its pages are as
  reading them from disk under the names of the tables gives them; under DISTINCT the hash tells the rows apart that are selected.
\<close>

theorem join_executes:
  assumes "pairOk c p" and "joinOk p x y" and "\<forall>cnd \<in> set cnds. pairCond p cnd" and "pairSelect p sl" and "\<forall>lit. lim = Some lit \<longrightarrow> litType lit = IntType"
    and "\<And>m. mset (ord m) = mset m" and "sqlParse query = Ok (SqlSelectStmt (joinFrom p x y cnds sl lim dist))"
    and "\<forall>tab \<in> {leftTab p, rightTab p}. files (tableNameToFile tab) = aliasedFile tab (colsOf p tab)"
    and "scan_ready files (rtTid rt) db" and "asRead files db"
    and "dist \<noteq> [] \<longrightarrow> tellsApart (rtKey rt) (pairSelectDesc p sl) (set (pairSelected p sl False (pairRows p x y
      (sideRows (rtRegexp rt) p (leftTab p) cnds (table_rows files db (aliasedFile (leftTab p) (leftCols p))))
      (sideRows (rtRegexp rt) p (rightTab p) cnds (table_rows files db (aliasedFile (rightTab p) (rightCols p)))))))"
    and "\<forall>tab \<in> {leftTab p, rightTab p}. sideRows (rtRegexp rt) p tab cnds (table_rows files db (aliasedFile tab (colsOf p tab))) \<noteq> []"
  shows "\<exists>plan s db1 ts db2 s'. Parse w ord sqlParse query (c, dk) = Ok (IteratorType, plan, c, dk) \<and>
    opOpen rt plan db = Some (Ok (Some s), db1) \<and> yields (opNext rt plan) (db1, s) ts (db2, s') \<and> viewOf files db2 = viewOf files db \<and>
    map TFields ts = joinRows (rtRegexp rt) p x y cnds sl lim (dist \<noteq> [])
      (table_rows files db (aliasedFile (leftTab p) (leftCols p))) (table_rows files db (aliasedFile (rightTab p) (rightCols p)))"
proof -
  let ?scan = "\<lambda>f. scanTuples f (viewOf files db)" and ?known = "\<lambda>f. files (fromFile f) = f" and ?side = "\<lambda>tab. sideOp p tab cnds"
  let ?join = "JoinOp (columnJoin p x y) (?side (leftTab p)) (?side (rightTab p))"
  note sh = asRead_sharing [OF assms(9,10)]
  have ne: "leftTab p \<noteq> rightTab p" using assms(1) by (simp add: pairOk_def)
  then have cols: "colsOf p (leftTab p) = leftCols p" "colsOf p (rightTab p) = rightCols p" by (simp_all add: colsOf_def)
  have l: "leftTab p \<in> {leftTab p, rightTab p}" and r: "rightTab p \<in> {leftTab p, rightTab p}" by simp_all
  note ls = side_rows [OF assms(1) l assms(3) bspec [OF assms(8) l] sh, where rt = rt, unfolded cols]
  note rs = side_rows [OF assms(1) r assms(3) bspec [OF assms(8) r] sh, where rt = rt, unfolded cols]
  note j = join_rows [OF assms(1,2) ls(3) rs(3), where w = "rtWorld rt"]
  have full: "opRows rt ?scan (?side (leftTab p)) \<noteq> []" "opRows rt ?scan (?side (rightTab p)) \<noteq> []"
    using ls(2) rs(2) assms(12) cols by (metis l list.simps(8), metis r list.simps(8))
  have ready: "opReady rt ?scan ?known ?join"
    using ls(1) rs(1) full j(2,3) by (simp add: evaluates_def del: EvalExpr.simps)
  have "\<forall>t \<in> set (opRows rt ?scan ?join). pairOf p t" using j(4) by simp
  note proj = pairProject_rows [OF assms(1,4) _ ready this, where dist = "dist \<noteq> []"]
  have "map TFields (opRows rt ?scan ?join) = pairRows p x y (sideRows (rtRegexp rt) p (leftTab p) cnds (table_rows files db (aliasedFile (leftTab p) (leftCols p))))
      (sideRows (rtRegexp rt) p (rightTab p) cnds (table_rows files db (aliasedFile (rightTab p) (rightCols p))))" using j(1) ls(2) rs(2) by simp
  note proj = proj [unfolded this, OF assms(11)]
  note lim = limit_rows [OF assms(5) conjunct1 [OF proj]]
  have "map TFields (opRows rt ?scan (joinPlan p x y cnds sl lim (dist \<noteq> []))) =
      joinRows (rtRegexp rt) p x y cnds sl lim (dist \<noteq> []) (table_rows files db (aliasedFile (leftTab p) (leftCols p))) (table_rows files db (aliasedFile (rightTab p) (rightCols p)))"
    using lim proj by (simp add: joinPlan_def joinRows_def map_limited)
  moreover have "opReady rt ?scan ?known (joinPlan p x y cnds sl lim (dist \<noteq> []))" using lim by (simp add: joinPlan_def)
  note runs_yields [OF tree_runs [OF this], of db]
  moreover have "Parse w ord sqlParse query (c, dk) = Ok (IteratorType, joinPlan p x y cnds sl lim (dist \<noteq> []), c, dk)"
    using assms(5) by (intro join_parses [OF assms(1-4)] assms(6,7)) (simp add: litOk_def)
  ultimately show ?thesis using sh(1) by blast
qed

section \<open>Running a join on an example\<close>

definition exPair :: tablePair where
  "exPair = \<lparr>leftTab = ''t'', leftCols = exColumns, rightTab = ''u'',
     rightCols = \<lparr>Fields = [\<lparr>Fname = ''b'', TableQualifier = [], Ftype = StringType\<rparr>, \<lparr>Fname = ''a'', TableQualifier = [], Ftype = IntType\<rparr>]\<rparr>\<rparr>"

definition exCat3 :: Catalog where
  "exCat3 = addIgnoring (''u'', rightCols exPair) exCat1"

definition exFiles2 :: "string \<Rightarrow> HeapFile" where
  "exFiles2 s = (if s = ''u.dat'' then aliasedFile ''u'' (rightCols exPair) else NewHeapFile s (setTableAlias exColumns ''t''))"

lemma exPair_ok: "pairOk exCat3 exPair" "joinOk exPair ''a'' ''a''" "pairSelect exPair (Items [((''u'', ''b''), [])])" "pairIndex exPair (''u'', ''b'') = 1"
proof -
  have c1: "catalog_ok exCat1" "columns_ok exCat1" "lookupTable ''t'' exCat1 = Some exColumns" using exCat1_ok(1) by (auto simp: tableOk_def)
  have n: "lookupTable ''u'' exCat1 = None" by code_simp
  have d: "plain ''t''" "plain ''u''" "distinct (map Fname (Fields exColumns))" "distinct (map Fname (Fields (rightCols exPair)))" by code_simp+
  show "pairOk exCat3 exPair"
    using addIgnoring_ok [OF c1(1,2), of "''u''" "rightCols exPair"] addIgnoring_lookup [OF n, of _ "rightCols exPair"] c1(3) d
    by (simp add: pairOk_def tableOk_def exCat3_def) (simp add: exPair_def)
  show "joinOk exPair ''a'' ''a''" "pairSelect exPair (Items [((''u'', ''b''), [])])" "pairIndex exPair (''u'', ''b'') = 1" by code_simp+
qed

definition exPairStart :: DB where
  "exPairStart = NewBufferPool 3 (\<lambda>_. [])"

lemma exPair_files:
  "exFiles2 (fromFile (aliasedFile ''t'' exColumns)) = aliasedFile ''t'' exColumns"
  "exFiles2 (fromFile (aliasedFile ''u'' (rightCols exPair))) = aliasedFile ''u'' (rightCols exPair)"
  "fromFile (aliasedFile ''u'' (rightCols exPair)) \<noteq> fromFile (aliasedFile ''t'' exColumns)"
  unfolding aliasedFile_simps by (simp_all add: exFiles2_def aliasedFile_def tableNameToFile_def)

lemma exPair_db: obtains db where "db_ok exFiles2 db" and "quiet db"
  and "table_rows exFiles2 db (aliasedFile ''t'' exColumns) = [[IntField 5]]"
  and "table_rows exFiles2 db (aliasedFile ''u'' (rightCols exPair)) = [[StringField ''x'', IntField 5]]"
proof -
  let ?f = "aliasedFile ''t'' exColumns" and ?g = "aliasedFile ''u'' (rightCols exPair)"
  let ?t = "\<lparr>Desc = exColumns, TFields = [IntField 5], Rid = None\<rparr>" and ?u = "\<lparr>Desc = exColumns, TFields = [StringField ''x'', IntField 5], Rid = None\<rparr>"
  note files = exPair_files
  have s: "db_ok exFiles2 exPairStart" "quiet exPairStart"
    by (simp_all add: db_ok_def disk_ok_def NumPages_def exPairStart_def NewBufferPool_def pool_ok_def locks_ok_def table_ok_def
      locks_compatible_def waits_ok_def quiet_def holds_def exFiles2_def aliasedFile_def NewHeapFile_def tableNameToFile_def)
  have r: "table_rows exFiles2 exPairStart h = []" for h by (simp add: table_rows_def NumPages_def exPairStart_def NewBufferPool_def)
  have fits: "tupleFits (hfDesc ?f) ?t" "tupleFits (hfDesc ?g) ?u"
    by (simp_all add: aliasedFile_simps tupleFits_def setTableAlias_def exColumns_def exPair_def StringLength_def)
  have size: "0 < numSlotsFor (hfDesc ?f)" "0 < tupleSize (hfDesc ?f)" "0 < numSlotsFor (hfDesc ?g)" "0 < tupleSize (hfDesc ?g)"
    by code_simp+
  obtain db1 where 1: "db_ok exFiles2 db1" "quiet db1" "mset (table_rows exFiles2 db1 ?f) = {#[IntField 5]#}" "table_rows exFiles2 db1 ?g = []"
    using loadTuple_spec [OF s(1) files(1) s(2) fits(1) size(1,2), of 0] r files(2,3) by auto
  obtain db2 where 2: "db_ok exFiles2 db2" "quiet db2" "mset (table_rows exFiles2 db2 ?g) = {#[StringField ''x'', IntField 5]#}"
    "table_rows exFiles2 db2 ?f = table_rows exFiles2 db1 ?f"
    using loadTuple_spec [OF 1(1) files(2) 1(2) fits(2) size(3,4), of 1] 1(4) files(1,3) by auto
  show thesis using that [OF 2(1,2)] 1(3) 2(3,4) by simp
qed

theorem join_executes_witness:
  "\<exists>plan s db db1 t db2 s'. Parse exWorld id (\<lambda>_. Ok (SqlSelectStmt (joinFrom exPair ''a'' ''a'' [] (Items [((''u'', ''b''), [])]) None []))) [] (exCat3, \<lambda>_. []) =
      Ok (IteratorType, plan, exCat3, \<lambda>_. []) \<and>
    opOpen (exRuntime 2) plan db = Some (Ok (Some s), db1) \<and> yields (opNext (exRuntime 2) plan) (db1, s) [t] (db2, s') \<and> TFields t = [StringField ''x'']"
proof -
  obtain db where db: "db_ok exFiles2 db" "quiet db" "table_rows exFiles2 db (aliasedFile ''t'' exColumns) = [[IntField 5]]"
    "table_rows exFiles2 db (aliasedFile ''u'' (rightCols exPair)) = [[StringField ''x'', IntField 5]]" by (rule exPair_db)
  let ?db = "NewBufferPool 3 (disk db)" and ?rt = "exRuntime 2" and ?sql = "\<lambda>_. Ok (SqlSelectStmt (joinFrom exPair ''a'' ''a'' [] (Items [((''u'', ''b''), [])]) None []))"
  have pair: "leftTab exPair = ''t''" "leftCols exPair = exColumns" "rightTab exPair = ''u''" "colsOf exPair ''t'' = exColumns" "colsOf exPair ''u'' = rightCols exPair"
    by (simp_all add: exPair_def colsOf_def)
  have files: "\<forall>tab \<in> {leftTab exPair, rightTab exPair}. exFiles2 (tableNameToFile tab) = aliasedFile tab (colsOf exPair tab)"
    using exPair_files(1,2) unfolding pair aliasedFile_simps(1) by (simp add: pair)
  have rows: "table_rows exFiles2 ?db (aliasedFile ''t'' exColumns) = [[IntField 5]]"
    "table_rows exFiles2 ?db (aliasedFile ''u'' (rightCols exPair)) = [[StringField ''x'', IntField 5]]"
    using restart_quiet [OF db(1,2) exPair_files(1)] restart_quiet [OF db(1,2) exPair_files(2)] db(3,4) by simp_all
  have sh: "scan_ready exFiles2 (rtTid ?rt) ?db" using restart_sharing [OF db(1), of 3] by (simp add: sharing_def)
  have cl: "asRead exFiles2 ?db" by (simp add: asRead_def NewBufferPool_def)
  have key: "[] \<noteq> ([] :: string) \<longrightarrow> tellsApart (rtKey ?rt) dd rws" for dd rws by simp
  have side: "sideRows rx exPair tab [] rws = rws" for rx tab rws by (simp add: sideRows_def condsOn_def)
  have ne: "\<forall>tab \<in> {leftTab exPair, rightTab exPair}. sideRows (rtRegexp ?rt) exPair tab [] (table_rows exFiles2 ?db (aliasedFile tab (colsOf exPair tab))) \<noteq> []"
    using rows unfolding side by (simp add: pair)
  have res: "joinRows rx exPair ''a'' ''a'' [] (Items [((''u'', ''b''), [])]) None False [[IntField 5]] [[StringField ''x'', IntField 5]] = [[StringField ''x'']]" for rx
  proof -
    have "colIndex (leftCols exPair) ''a'' = 0" "colIndex (rightCols exPair) ''a'' = 1" by code_simp+
    then show ?thesis unfolding joinRows_def side by (simp add: pairRows_def exPair_ok(4))
  qed
  have cnds: "\<forall>cnd \<in> set []. pairCond exPair cnd" "\<forall>lit. None = Some lit \<longrightarrow> litType lit = IntType" by simp_all
  obtain plan s db1 ts db2 s' where run: "Parse exWorld id ?sql [] (exCat3, \<lambda>_. []) = Ok (IteratorType, plan, exCat3, \<lambda>_. [])"
    "opOpen ?rt plan ?db = Some (Ok (Some s), db1)" "yields (opNext ?rt plan) (db1, s) ts (db2, s')"
    "map TFields ts = joinRows (rtRegexp ?rt) exPair ''a'' ''a'' [] (Items [((''u'', ''b''), [])]) None False [[IntField 5]] [[StringField ''x'', IntField 5]]"
    using join_executes [where ord = id and sqlParse = ?sql and query = "[]" and dist = "[]" and w = exWorld and dk = "\<lambda>_. []",
      OF exPair_ok(1,2) cnds(1) exPair_ok(3) cnds(2) _ _ files sh cl key ne] rows unfolding pair by auto
  then obtain t where "ts = [t]" "TFields t = [StringField ''x'']" unfolding res by auto
  with run(1-3) show ?thesis by blast
qed

end
