(* ===== verification/GroupPlans.thy ===== *)
theory GroupPlans
  imports SelectPlans
begin

text \<open>
  The plans of queries with aggregates over one table: the states of the aggregates, the expressions of the groups, and the projection
  that finds the columns of the groups and the aggregates in the tuples of the aggregation.
\<close>

section \<open>Queries with aggregates\<close>

text \<open>An aggregate of a column, or the number of all rows, with an alias.\<close>

datatype aggCall = AggCall (callOp: string) (callCol: "string \<times> string") (callAs: string) | CountAll (callAs: string)

fun callExpr :: "aggCall \<Rightarrow> sqlSelectExpr" where
  "callExpr (AggCall op qc al) = SqlAliased (SqlFunc op [SqlAliased (SqlCol (fst qc) (snd qc)) []]) al"
| "callExpr (CountAll al) = SqlAliased (SqlFunc ''count'' [SqlStar []]) al"

text \<open>
  The select list has columns of the GROUP BY clause and then aggregates. Without a GROUP BY clause it has only aggregates.
\<close>

definition groupFrom :: "string \<Rightarrow> condition list \<Rightarrow> (string \<times> string) list \<Rightarrow> ((string \<times> string) \<times> string) list \<Rightarrow> aggCall list \<Rightarrow>
    string option \<Rightarrow> string \<Rightarrow> sqlSelect" where
  "groupFrom tab cnds gs its calls lim dist =
     SqlSelect [SqlTable tab []] (whereOf cnds) (map itemExpr its @ map callExpr calls) (map (\<lambda>(q, col). SqlCol q col) gs) [] (map_option SqlVal lim) dist"

text \<open>Aggregates are of integer columns; no column of the catalog is named with a star.\<close>

fun callOk :: "Catalog \<Rightarrow> string \<Rightarrow> TupleDesc \<Rightarrow> aggCall \<Rightarrow> bool" where
  "callOk c tab d (AggCall op qc al) = (columnOk tab d qc \<and> colType d (snd qc) = IntType \<and> isAgg op)"
| "callOk c tab d (CountAll al) = (Fields d \<noteq> [] \<and> columnMap c ''*'' = [])"

section \<open>The operators they become\<close>

fun callArg :: "string \<Rightarrow> TupleDesc \<Rightarrow> aggCall \<Rightarrow> FieldType" where
  "callArg tab d (AggCall op qc al) = colField d tab (snd qc)"
| "callArg tab d (CountAll al) = hd (Fields (setTableAlias d tab))"

fun callFun :: "aggCall \<Rightarrow> string" where
  "callFun (AggCall op qc al) = op"
| "callFun (CountAll al) = ''count''"

text \<open>The name of the column in the tuples of the aggregation, and its title in the result.\<close>

definition callName :: "string \<Rightarrow> nat \<Rightarrow> aggCall \<Rightarrow> string" where
  "callName tab k ag =
     (if callAs ag \<noteq> [] then ToLower (callAs ag)
      else case ag of
        AggCall op qc al \<Rightarrow> op @ ''('' @ tab @ ''.'' @ snd qc @ '')'' @ show_int (int k)
      | CountAll al \<Rightarrow> ''count(.*)'' @ show_int (int k))"

definition callTitle :: "aggCall \<Rightarrow> string" where
  "callTitle ag =
     (if callAs ag \<noteq> [] then ToLower (callAs ag)
      else case ag of
        AggCall op qc al \<Rightarrow> op @ ''('' @ (if fst qc \<noteq> [] then fst qc @ ''.'' else []) @ snd qc @ '')''
      | CountAll al \<Rightarrow> ''count(*)'')"

definition callState :: "string \<Rightarrow> TupleDesc \<Rightarrow> nat \<Rightarrow> aggCall \<Rightarrow> AggState" where
  "callState tab d k ag = (case initAgg (callFun ag) (callName tab k ag) (FieldExpr (callArg tab d ag)) IntType intAggGetter of
     Ok st \<Rightarrow> st | _ \<Rightarrow> ACount \<lparr>countAlias = [], countExpr = FieldExpr (callArg tab d ag), countCount = 0\<rparr>)"

definition callField :: "string \<Rightarrow> nat \<Rightarrow> aggCall \<Rightarrow> FieldType" where
  "callField tab k ag = \<lparr>Fname = callName tab k ag, TableQualifier = [], Ftype = IntType\<rparr>"

definition callStates :: "string \<Rightarrow> TupleDesc \<Rightarrow> aggCall list \<Rightarrow> AggState list" where
  "callStates tab d calls = map (\<lambda>(k, ag). callState tab d k ag) (enumerate 0 calls)"

definition callFields :: "string \<Rightarrow> aggCall list \<Rightarrow> FieldType list" where
  "callFields tab calls = map (\<lambda>(k, ag). callField tab k ag) (enumerate 0 calls)"

definition groupAgg :: "string \<Rightarrow> TupleDesc \<Rightarrow> (string \<times> string) list \<Rightarrow> aggCall list \<Rightarrow> Aggregator" where
  "groupAgg tab d gs calls =
     (if gs = [] then NewAggregator (callStates tab d calls)
      else NewGroupedAggregator (callStates tab d calls) (map (\<lambda>g. FieldExpr (colField d tab (snd g))) gs))"

definition groupProject :: "string \<Rightarrow> TupleDesc \<Rightarrow> ((string \<times> string) \<times> string) list \<Rightarrow> aggCall list \<Rightarrow> bool \<Rightarrow> Project" where
  "groupProject tab d its calls dist =
     \<lparr>selectFields = map (\<lambda>it. FieldExpr (colField d tab (snd (fst it)))) its @ map FieldExpr (callFields tab calls),
      outputNames = map itemName its @ map callTitle calls, isDistinct = dist\<rparr>"

definition groupPlan :: "string \<Rightarrow> TupleDesc \<Rightarrow> condition list \<Rightarrow> (string \<times> string) list \<Rightarrow> ((string \<times> string) \<times> string) list \<Rightarrow>
    aggCall list \<Rightarrow> string option \<Rightarrow> bool \<Rightarrow> Operator" where
  "groupPlan tab d cnds gs its calls lim dist = limitOver lim (ProjectOp (groupProject tab d its calls dist)
     (AggregatorOp (groupAgg tab d gs calls) (filterChain tab d cnds (FileOp (aliasedFile tab d)))))"

text \<open>
  The columns of the select list are among those of the groups, which are distinct and not named like an aggregate.
\<close>

definition groupOk :: "Catalog \<Rightarrow> string \<Rightarrow> TupleDesc \<Rightarrow> (string \<times> string) list \<Rightarrow> ((string \<times> string) \<times> string) list \<Rightarrow> aggCall list \<Rightarrow> bool" where
  "groupOk c tab d gs its calls \<longleftrightarrow> (\<forall>g \<in> set gs. columnOk tab d g) \<and> (\<forall>it \<in> set its. columnOk tab d (fst it) \<and> snd (fst it) \<in> snd ` set gs) \<and>
     (\<forall>ag \<in> set calls. callOk c tab d ag) \<and> calls \<noteq> [] \<and> distinct (map snd gs @ map Fname (callFields tab calls))"

section \<open>Parsing\<close>

fun callNode :: "aggCall \<Rightarrow> LogicalSelectNode" where
  "callNode (AggCall op qc al) = NewAggrSelectNode op (NewFieldSelectNode (fst qc) (snd qc) []) (ToLower al)"
| "callNode (CountAll al) = NewAggrSelectNode ''count'' (NewFieldSelectNode [] ''*'' []) (ToLower al)"

definition itemNode :: "(string \<times> string) \<times> string \<Rightarrow> LogicalSelectNode" where
  "itemNode it = NewFieldSelectNode (fst (fst it)) (snd (fst it)) (ToLower (snd it))"

definition groupNode :: "string \<times> string \<Rightarrow> LogicalSelectNode" where
  "groupNode g = NewFieldSelectNode (fst g) (snd g) []"

definition logicalGroup :: "string \<Rightarrow> TupleDesc \<Rightarrow> condition list \<Rightarrow> (string \<times> string) list \<Rightarrow> ((string \<times> string) \<times> string) list \<Rightarrow>
    aggCall list \<Rightarrow> string option \<Rightarrow> bool \<Rightarrow> LogicalPlan" where
  "logicalGroup tab d cnds gs its calls lim dist =
     LogicalPlan (map condNode cnds) [] (map itemNode its @ map callNode calls) (map callNode calls) [tableNode tab d] [] (map groupNode gs) []
       (map_option litNode lim) dist []"

lemma isAgg_lower: "isAgg op \<Longrightarrow> ToLower op = op"
  by (auto simp: isAgg_def ToLower_def lowerChar_def)

lemma callExpr_parsed:
  assumes "callOk c tab d ag" and "plain tab"
  shows "parseSelect (callExpr ag) = Ok (callNode ag)"
proof (cases ag)
  case (AggCall op qc al)
  obtain q col where qc: "qc = (q, col)" by (cases qc)
  have "columnOk tab d (q, col)" "isAgg op" using assms(1) by (simp_all add: AggCall qc)
  moreover have "ToLower [] = []" by (simp add: ToLower_def)
  ultimately show ?thesis using parseExpr_column [OF _ assms(2), of d q col "[]"]
    by (simp add: AggCall qc isAgg_lower Let_def del: parseExpr.simps(4))
next
  case (CountAll al)
  have "isAgg ''count''" "ToLower ''count'' = ''count''" "ToLower [] = []" by code_simp+
  then show ?thesis by (simp add: CountAll Let_def)
qed

lemma parseSelects_append: "parseSelects xs = Ok as \<Longrightarrow> parseSelects ys = Ok bs \<Longrightarrow> parseSelects (xs @ ys) = Ok (as @ bs)"
  by (induction xs arbitrary: as) auto

lemma callExprs_parsed: "\<forall>ag \<in> set calls. callOk c tab d ag \<Longrightarrow> plain tab \<Longrightarrow> parseSelects (map callExpr calls) = Ok (map callNode calls)"
  by (induction calls) (auto simp: callExpr_parsed simp del: parseSelect.simps)

lemma groups_parsed:
  "\<forall>g \<in> set gs. columnOk tab d g \<Longrightarrow> plain tab \<Longrightarrow> map_go (\<lambda>g. parseExpr g []) (map (\<lambda>(q, col). SqlCol q col) gs) = Ok (map groupNode gs)"
proof (induction gs)
  case (Cons g gs)
  obtain q col where "g = (q, col)" by (cases g)
  with Cons parseExpr_column [of tab d q col "[]"] show ?case by (simp add: groupNode_def del: parseExpr.simps)
qed simp

lemma group_aggs: "concat (map extractAggs (map itemNode its @ map callNode calls)) = map callNode calls"
proof -
  have "extractAggs (callNode ag) = [callNode ag]" for ag by (cases ag) (simp_all add: NewAggrSelectNode_def)
  then have "concat (map extractAggs (map callNode calls)) = map callNode calls" by (induction calls) simp_all
  moreover have "concat (map extractAggs (map itemNode its)) = []" by (simp add: itemNode_def NewFieldSelectNode_def)
  ultimately show ?thesis by simp
qed

lemma parseStatement_group:
  assumes "tableOk c tab d" and "\<forall>cnd \<in> set cnds. condOk tab d cnd" and "groupOk c tab d gs its calls" and "\<forall>lit. lim = Some lit \<longrightarrow> litOk lit"
  shows "parseStatement c (groupFrom tab cnds gs its calls lim dist) = Ok (logicalGroup tab d cnds gs its calls lim (dist \<noteq> []))"
proof -
  have tab: "plain tab" using assms(1) by (simp add: tableOk_def)
  note fr = parseFrom_table [OF assms(1)]
  have lim: "parseExpr (SqlVal lit) [] = Ok (litNode lit)" if "lim = Some lit" for lit
    using assms(4) that litType_value [of lit] by (auto simp: litOk_def litNode_def)
  have "selectOk tab d (Items its)" using assms(3) by (simp add: groupOk_def)
  from parseSelects_nodes [OF this tab] have its: "parseSelects (map itemExpr its) = Ok (map itemNode its)" by (simp add: itemNode_def)
  have g: "\<forall>ag \<in> set calls. callOk c tab d ag" "\<forall>g \<in> set gs. columnOk tab d g" using assms(3) by (simp_all add: groupOk_def)
  show ?thesis
    using parseWhere_whereOf [OF assms(1,2)] parseSelects_append [OF its callExprs_parsed [OF g(1) tab]] groups_parsed [OF g(2) tab] group_aggs [of its calls] lim
    by (cases lim; cases "whereOf cnds")
      (simp_all add: groupFrom_def fr appendFrom_def subFieldsOf_def logicalGroup_def del: bind_go_eq_Ok map_go.simps(2) parseExpr.simps map_append)
qed

section \<open>Planning\<close>

text \<open>The star of a count: it belongs to the only node, and stands for its first field.\<close>

lemma star_loops:
  "fieldLoop [] ''*'' cand fs (Some cand) = Ok (Some cand)"
  "fs \<noteq> [] \<Longrightarrow> fieldLoop [] ''*'' cand fs None = Ok (Some cand)"
  "\<forall>f \<in> set fs. TableQualifier f \<noteq> [] \<Longrightarrow> bestLoop w [] ''*'' op i fs (Some f) = Ok (Some f)"
proof -
  show some: "fieldLoop [] ''*'' cand fs (Some cand) = Ok (Some cand)" for fs by (induction fs) simp_all
  show "fs \<noteq> [] \<Longrightarrow> fieldLoop [] ''*'' cand fs None = Ok (Some cand)" using some by (cases fs) simp_all
  show "\<forall>f \<in> set fs. TableQualifier f \<noteq> [] \<Longrightarrow> bestLoop w [] ''*'' op i fs (Some f) = Ok (Some f)"
    by (induction fs arbitrary: i) simp_all
qed

lemma star_absent:
  assumes "tableOk c tab d" and "columnMap c ''*'' = []"
  shows "\<not> hasCol d ''*''"
proof
  assume col: "hasCol d ''*''"
  obtain t where t: "tableMap c tab = Some t" "tdesc t = d" using assms(1) by (auto simp: tableOk_def lookupTable_def)
  then have "List.find (\<lambda>t. tname t = tab) (catTables c) = Some t" using assms(1) by (auto simp: tableOk_def catalog_ok_def)
  then have "t \<in> set (catTables c)" by (auto simp: find_Some_iff)
  moreover have "tablesWith ''*'' (catTables c) = []" using assms by (simp add: tableOk_def columns_ok_def)
  ultimately have "filter (\<lambda>f. Fname f = ''*'') (Fields d) = []" using t(2) by (auto simp: tablesWith_def)
  with col show False by (auto simp: hasCol_def filter_empty_conv)
qed

text \<open>The table map when the filters have been applied.\<close>

definition onlyNode :: "world \<Rightarrow> string \<Rightarrow> TupleDesc \<Rightarrow> PlanNode \<Rightarrow> bool" where
  "onlyNode w tab d node \<longleftrightarrow> nodeDesc node = setTableAlias d tab \<and> opDescriptor w (nodeOp node) = Ok (setTableAlias d tab)"

lemma star_resolves:
  assumes "tableOk c tab d" and "callOk c tab d (CountAll al)" and "onlyNode w tab d node" and "\<And>e. ord [e] = [e]"
  shows "resolve (c, [], [tableNode tab d]) (NewFieldSelectNode [] ''*'' []) = Ok ([], ''*'')"
    and "fieldToOp ord [] ''*'' [(tab, node)] = Ok node"
    and "generateExpr w ord (Some (setTableAlias d tab)) (Some [(tab, node)]) (NewFieldSelectNode [] ''*'' []) = Ok (FieldExpr (callArg tab d (CountAll al)), ''*'')"
proof -
  let ?d = "setTableAlias d tab"
  have tab: "tab \<noteq> []" and fs: "Fields d \<noteq> []" and star: "columnMap c ''*'' = []" and dist: "distinct (map Fname (Fields d))"
    using assms(1,2) by (auto simp: tableOk_def plain_def)
  have node: "nodeDesc node = ?d" "opDescriptor w (nodeOp node) = Ok ?d" using assms(3) by (simp_all add: onlyNode_def)
  have d: "Fields ?d \<noteq> []" "\<forall>f \<in> set (Fields ?d). TableQualifier f = tab" using fs by (auto simp: setTableAlias_def)
  show "resolve (c, [], [tableNode tab d]) (NewFieldSelectNode [] ''*'' []) = Ok ([], ''*'')"
    using star by (simp add: resolve_def NewFieldSelectNode_def checkNameInTablesOrSubqueries_def findTablesWithColumn_def)
  show op: "fieldToOp ord [] ''*'' [(tab, node)] = Ok node"
    using tab d(1) by (simp add: fieldToOp_def assms(4) node star_loops(2))
  have "candidates \<lparr>Fname = ''*'', TableQualifier = [], Ftype = UnknownType\<rparr> (Fields ?d) = []"
    using star_absent [OF assms(1) star] by (auto simp: candidates_def filter_empty_conv fieldMatches_def alias_nth hasCol_def) (metis imageI nth_mem)
  then have none: "findFieldInTd \<lparr>Fname = ''*'', TableQualifier = [], Ftype = UnknownType\<rparr> ?d = (-1, Some (GoDBError IncompatibleTypesError))"
    by (simp add: findFieldInTd_spec isAmbiguous_def)
  obtain f rest where f: "Fields ?d = f # rest" using d(1) by (cases "Fields ?d") auto
  have "bestLoop w [] ''*'' (nodeOp node) 0 (Fields ?d) None = Ok (Some f)"
    using d(2) tab star_loops(3) [of rest w "nodeOp node" "Suc 0" f] by (simp add: f node)
  then have best: "fieldNameToField w [] ''*'' node = Ok f" by (simp add: fieldNameToField_def node)
  have "distinct (map Fname (Fields ?d))" using dist by simp
  from findFieldInTd_distinct [OF this, of 0 f] have "findFieldInTd f ?d = (int 0, None)" by (simp add: f fieldMatches_def)
  then show "generateExpr w ord (Some ?d) (Some [(tab, node)]) (NewFieldSelectNode [] ''*'' []) = Ok (FieldExpr (callArg tab d (CountAll al)), ''*'')"
    using best op none by (simp add: NewFieldSelectNode_def selectField_def f)
qed

lemma initAgg_state:
  assumes "isAgg op"
  obtains st where "initAgg op name e IntType intAggGetter = Ok st" and "hd (Fields (GetTupleDesc st)) = \<lparr>Fname = name, TableQualifier = [], Ftype = IntType\<rparr>"
proof -
  have "op \<in> {''count'', ''sum'', ''avg'', ''min'', ''max''}" using assms by (simp add: isAgg_def)
  then show thesis using that
    by (auto simp: initAgg_def Max_Init_def Min_Init_def Sum_Init_def Avg_Init_def Count_Init_def Max_GetTupleDesc_def Min_GetTupleDesc_def
      Sum_GetTupleDesc_def Avg_GetTupleDesc_def Count_GetTupleDesc_def intColumn_def)
qed

lemma callState_init:
  assumes "callOk c tab d ag"
  shows "initAgg (callFun ag) (callName tab k ag) (FieldExpr (callArg tab d ag)) IntType intAggGetter = Ok (callState tab d k ag)"
    and "hd (Fields (GetTupleDesc (callState tab d k ag))) = callField tab k ag"
proof -
  have "isAgg (callFun ag)" using assms by (cases ag) (auto simp: isAgg_def)
  from initAgg_state [OF this, of "callName tab k ag" "FieldExpr (callArg tab d ag)"] obtain st where
    st: "initAgg (callFun ag) (callName tab k ag) (FieldExpr (callArg tab d ag)) IntType intAggGetter = Ok st"
    "hd (Fields (GetTupleDesc st)) = \<lparr>Fname = callName tab k ag, TableQualifier = [], Ftype = IntType\<rparr>" by blast
  then show "initAgg (callFun ag) (callName tab k ag) (FieldExpr (callArg tab d ag)) IntType intAggGetter = Ok (callState tab d k ag)"
    "hd (Fields (GetTupleDesc (callState tab d k ag))) = callField tab k ag"
    by (simp_all add: callState_def callField_def)
qed

lemma planAgg_call:
  assumes "tableOk c tab d" and "callOk c tab d ag" and "onlyNode w tab d node" and "\<And>e. ord [e] = [e]"
  shows "planAgg w ord (c, [], [tableNode tab d]) [(tab, node)] k (callNode ag) = Ok (callState tab d k ag)"
proof (cases ag)
  case (AggCall op qc al)
  obtain q col where qc: "qc = (q, col)" by (cases qc)
  have col: "columnOk tab d (q, col)" and ty: "colType d col = IntType" using assms(2) by (simp_all add: AggCall qc)
  have al: "lsAlias (callNode ag) = ToLower al" "ToLower al = [] \<longleftrightarrow> al = []" by (simp_all add: AggCall NewAggrSelectNode_def ToLower_def)
  have node: "nodeDesc node = setTableAlias d tab" using assms(3) by (simp add: onlyNode_def)
  have res: "resolve (c, [], [tableNode tab d]) (NewFieldSelectNode q col []) = Ok (tab, col)" by (simp add: resolve_def resolve_column [OF assms(1) col])
  show ?thesis
    using callState_init(1) [OF assms(2), of k] ty al(2) generateExpr_column [OF assms(1) col, of w ord "[(tab, node)]"]
    by (cases "al = []") (simp_all add: AggCall qc planAgg_def NewAggrSelectNode_def res fieldToOp_def node colField_def callName_def del: bind_go_eq_Ok)
next
  case (CountAll al)
  have al: "ToLower al = [] \<longleftrightarrow> al = []" by (simp add: ToLower_def)
  have node: "nodeDesc node = setTableAlias d tab" using assms(3) by (simp add: onlyNode_def)
  have count: "initAgg ''count'' (callName tab k ag) (FieldExpr (callArg tab d ag)) ty g = Ok (callState tab d k ag)" for ty g
    using callState_init(1) [OF assms(2), of k] by (simp add: CountAll initAgg_def)
  note s = star_resolves [OF assms(1) _ assms(3,4), of al]
  show ?thesis
    using count al assms(2) s
    by (cases "al = []") (simp_all add: CountAll planAgg_def NewAggrSelectNode_def node callName_def Let_def del: bind_go_eq_Ok)
qed

lemma planAggStates_calls:
  assumes "tableOk c tab d" and "\<forall>ag \<in> set calls. callOk c tab d ag" and "onlyNode w tab d node" and "\<And>e. ord [e] = [e]"
  shows "planAggStates w ord (c, [], [tableNode tab d]) [(tab, node)] k (map callNode calls) = Ok (map (\<lambda>(k, ag). callState tab d k ag) (enumerate k calls))"
  using assms(2)
proof (induction calls arbitrary: k)
  case (Cons ag calls)
  have "exprType (callNode ag) = ExprAggr" by (cases ag) (simp_all add: NewAggrSelectNode_def)
  with Cons planAgg_call [OF assms(1) _ assms(3,4), of ag k] show ?case by simp
qed simp

lemma states_fields:
  "\<forall>ag \<in> set calls. callOk c tab d ag \<Longrightarrow> map (\<lambda>st. hd (Fields (GetTupleDesc st))) (callStates tab d calls) = callFields tab calls"
  by (auto simp: callStates_def callFields_def in_set_enumerate_eq intro!: callState_init(2))

text \<open>The nodes of the aggregates when their columns have been filled in.\<close>

definition filledNode :: "aggCall \<Rightarrow> FieldType \<Rightarrow> LogicalSelectNode" where
  "filledNode ag f = fst (fillAggs (callNode ag) [f])"

lemma fillAggs_call: "fillAggs (callNode ag) (f # fs) = (filledNode ag f, fs)"
  by (cases ag) (simp_all add: filledNode_def NewAggrSelectNode_def)

lemma fillAll_calls: "length fs = length calls \<Longrightarrow> fillAll (map callNode calls) fs = (map2 filledNode calls fs, [])"
proof (induction calls arbitrary: fs)
  case (Cons ag calls)
  then obtain f fs' where "fs = f # fs'" by (cases fs) auto
  with Cons show ?case by (simp add: fillAggs_call)
qed simp

lemma fillAll_items: "fillAll (map itemNode its @ ss) fs = (case fillAll ss fs of (ss', fs') \<Rightarrow> (map itemNode its @ ss', fs'))"
  by (induction its) (simp_all add: itemNode_def NewFieldSelectNode_def split: prod.splits)

section \<open>The columns of the aggregation\<close>

definition keyIndex :: "(string \<times> string) list \<Rightarrow> string \<Rightarrow> nat" where
  "keyIndex gs col = length (takeWhile (\<lambda>g. snd g \<noteq> col) gs)"

lemma keyIndex_nth: "col \<in> snd ` set gs \<Longrightarrow> keyIndex gs col < length gs \<and> snd (gs ! keyIndex gs col) = col"
  using length_takeWhile_lt [of _ gs "\<lambda>g. snd g \<noteq> col"] nth_length_takeWhile [of "\<lambda>g. snd g \<noteq> col" gs] by (fastforce simp: keyIndex_def)

lemma group_exprs: "groupExprs (groupAgg tab d gs calls) = map (\<lambda>g. FieldExpr (colField d tab (snd g))) gs"
  by (simp add: groupAgg_def groupExprs_def NewAggregator_def NewGroupedAggregator_def)

lemma group_column:
  assumes "distinct (map snd gs)" and "col \<in> snd ` set gs" and "col \<noteq> []" and "Fname f = col" and "Ftype f \<in> {UnknownType, colType d col}"
  shows "findFieldInTd f (aggDescriptor w (groupAgg tab d gs calls)) = (int (length gs + keyIndex gs col), None)"
    and "Fields (aggDescriptor w (groupAgg tab d gs calls)) ! (length gs + keyIndex gs col) = colField d tab col"
proof -
  let ?D = "aggDescriptor w (groupAgg tab d gs calls)" and ?i = "keyIndex gs col"
  have i: "?i < length gs" "snd (gs ! ?i) = col" using keyIndex_nth [OF assms(2)] by simp_all
  have D: "Fields ?D = replicate (length gs) \<lparr>Fname = [], TableQualifier = [], Ftype = IntType\<rparr> @ map (\<lambda>g. colField d tab (snd g)) gs"
    by (simp add: aggDescriptor_def group_exprs comp_def)
  show "Fields ?D ! (length gs + ?i) = colField d tab col" using i by (simp add: D nth_append)
  show "findFieldInTd f ?D = (int (length gs + ?i), None)"
  proof (rule findFieldInTd_only)
    show "length gs + ?i < length (Fields ?D)" using i by (simp add: D)
    fix k
    assume k: "k < length (Fields ?D)"
    show "fieldMatches f (Fields ?D ! k) \<longleftrightarrow> length gs + ?i = k"
    proof (cases "k < length gs")
      case True
      then show ?thesis using assms(3,4) by (simp add: D nth_append fieldMatches_def)
    next
      case False
      then obtain m where m: "k = length gs + m" "m < length gs" using k by (auto simp: D nat_le_iff_add not_less)
      have "snd (gs ! m) = col \<longleftrightarrow> ?i = m" using i m(2) nth_eq_iff_index_eq [OF assms(1), of ?i m] by auto
      with m assms(4,5) show ?thesis by (auto simp: D nth_append fieldMatches_def colField_def)
    qed
  qed
qed

lemma item_generated:
  assumes "groupOk c tab d gs its calls" and "it \<in> set its" and "opDescriptor w op = Ok (aggDescriptor w (groupAgg tab d gs calls))"
  shows "generateOn w ord m op (itemNode it) = Ok (FieldExpr (colField d tab (snd (fst it))), itemName it)"
proof -
  let ?f = "\<lparr>Fname = snd (fst it), TableQualifier = fst (fst it), Ftype = UnknownType\<rparr>"
  have "columnOk tab d (fst it)" "snd (fst it) \<in> snd ` set gs" "distinct (map snd gs)" using assms(1,2) by (auto simp: groupOk_def)
  moreover have "snd (fst it) \<noteq> []" using calculation(1) by (auto simp: columnOk_def plain_def)
  ultimately show ?thesis using group_column [of gs "snd (fst it)" ?f d w tab calls] assms(3)
    by (auto simp: generateOn_def itemNode_def NewFieldSelectNode_def selectField_def itemName_def ToLower_def nat_int_add)
qed

lemma call_generated:
  assumes "opDescriptor w op = Ok dd"
  shows "generateOn w ord m op (filledNode ag f) = Ok (FieldExpr f, callTitle ag)"
proof (cases ag)
  case (AggCall fn qc al)
  obtain q col where qc: "qc = (q, col)" by (cases qc)
  have node: "filledNode (AggCall fn (q, col) al) f = LogicalSelectNode ExprAggr [] [] (Some fn) (ToLower al) [] [NewFieldSelectNode q col []] (Some f)" for q col al
    by (simp add: filledNode_def NewAggrSelectNode_def)
  have lower: "ToLower al = [] \<longleftrightarrow> al = []" for al by (simp add: ToLower_def)
  show ?thesis
    by (cases "q = []"; cases "al = []"; cases "col = []")
      (simp_all add: generateOn_def assms node selectField_def NewFieldSelectNode_def checkNameInTablesOrSubqueries_def AggCall qc callTitle_def lower)
next
  case (CountAll al)
  have node: "filledNode (CountAll al) f = LogicalSelectNode ExprAggr [] [] (Some ''count'') (ToLower al) [] [NewFieldSelectNode [] ''*'' []] (Some f)" for al
    by (simp add: filledNode_def NewAggrSelectNode_def)
  have lower: "ToLower al = [] \<longleftrightarrow> al = []" for al by (simp add: ToLower_def)
  show ?thesis
    by (cases "al = []")
      (simp_all add: generateOn_def assms node selectField_def NewFieldSelectNode_def checkNameInTablesOrSubqueries_def CountAll callTitle_def lower)
qed

section \<open>The plan\<close>

lemma applyAggs_group:
  assumes "tableOk c tab d" and "groupOk c tab d gs its calls" and "onlyNode w tab d node" and "\<And>e. ord [e] = [e]"
    and "planAggs plan = map callNode calls" and "planGroupBy plan = map groupNode gs" and "planSelects plan = map itemNode its @ map callNode calls"
    and "opDescriptor w op = Ok (setTableAlias d tab)"
  shows "applyAggs w ord (c, [], [tableNode tab d]) [(tab, node)] plan op =
    Ok (AggregatorOp (groupAgg tab d gs calls) op, map itemNode its @ map2 filledNode calls (callFields tab calls))"
proof -
  have ok: "\<forall>ag \<in> set calls. callOk c tab d ag" "calls \<noteq> []" "\<forall>g \<in> set gs. columnOk tab d g" using assms(2) by (simp_all add: groupOk_def)
  have "generateOn w ord m op (groupNode g) = Ok (FieldExpr (colField d tab (snd g)), snd g)" if "g \<in> set gs" for g m
    using generateExpr_column [OF assms(1), of "fst g" "snd g"] ok(3) that assms(8) by (simp add: generateOn_def groupNode_def)
  then have g: "map_go (generateOn w ord m op) (map groupNode gs) = Ok (map (\<lambda>g. (FieldExpr (colField d tab (snd g)), snd g)) gs)" for m
    by (auto simp: map_go_Ok_iff list_all2_conv_all_nth)
  have len: "length (callFields tab calls) = length calls" by (simp add: callFields_def)
  show ?thesis
    using planAggStates_calls [OF assms(1) ok(1) assms(3,4), of 0] states_fields [OF ok(1)] ok(2)
    by (simp add: applyAggs_def assms(5-7) g callStates_def [symmetric] fillAll_items fillAll_calls [OF len] groupAgg_def comp_def del: bind_go_eq_Ok)
qed

lemma applyProject_group:
  assumes "groupOk c tab d gs its calls" and "opDescriptor w op = Ok (aggDescriptor w (groupAgg tab d gs calls))"
  shows "applyProject w ord m dist (map itemNode its @ map2 filledNode calls (callFields tab calls)) op = Ok (ProjectOp (groupProject tab d its calls dist) op)"
proof -
  let ?sels = "map itemNode its @ map2 filledNode calls (callFields tab calls)"
  let ?es = "map (\<lambda>it. (FieldExpr (colField d tab (snd (fst it))), itemName it)) its @ map2 (\<lambda>ag f. (FieldExpr f, callTitle ag)) calls (callFields tab calls)"
  have len: "length (callFields tab calls) = length calls" by (simp add: callFields_def)
  have "exprType (filledNode ag f) = ExprAggr" for ag f by (cases ag) (simp_all add: filledNode_def NewAggrSelectNode_def)
  then have ty: "exprType s \<noteq> ExprStar" if "s \<in> set ?sels" for s using that by (auto simp: itemNode_def NewFieldSelectNode_def)
  then have "filter (\<lambda>s. exprType s \<noteq> ExprStar) ?sels = ?sels" by (simp only: filter_id_conv) blast
  moreover have "\<not> (\<exists>s \<in> set ?sels. exprType s = ExprStar \<and> lsField s = ''*'' \<and> funcOp s = None)" using ty by blast
  moreover have "map_go (generateOn w ord m op) ?sels = Ok ?es"
    using item_generated [OF assms(1) _ assms(2)] call_generated [OF assms(2)]
    by (intro map_go_append) (auto simp: map_go_Ok_iff list_all2_conv_all_nth)
  moreover have pairs: "map (\<lambda>p. FieldExpr (snd p)) (zip calls (callFields tab calls)) = map FieldExpr (callFields tab calls)"
    "map (\<lambda>p. callTitle (fst p)) (zip calls (callFields tab calls)) = map callTitle calls"
    using len map_map [of FieldExpr snd "zip calls (callFields tab calls)"] map_map [of callTitle fst "zip calls (callFields tab calls)"]
    by (simp_all add: comp_def)
  moreover have "map fst ?es = selectFields (groupProject tab d its calls dist)" "map snd ?es = outputNames (groupProject tab d its calls dist)"
    using len pairs by (simp_all add: groupProject_def comp_def split_def)
  ultimately show ?thesis unfolding applyProject_def by (simp add: len NewProjectOp_def groupProject_def Let_def del: bind_go_eq_Ok map_append set_append)
qed

lemma project_descriptor: "\<exists>dd. opDescriptor w (ProjectOp (groupProject tab d its calls dist) op) = Ok dd"
  by (simp add: projectDescriptor_def groupProject_def callFields_def)

lemma makePhysicalPlan_group:
  assumes ok: "tableOk c tab d" "\<forall>cnd \<in> set cnds. condOk tab d cnd" "groupOk c tab d gs its calls" "\<forall>lit. lim = Some lit \<longrightarrow> litOk lit"
    and ord: "\<And>e. ord [e] = [e]"
  shows "makePhysicalPlan w ord c (logicalGroup tab d cnds gs its calls lim dist) = Ok (groupPlan tab d cnds gs its calls lim dist)"
proof -
  let ?f = "FileOp (aliasedFile tab d)" and ?plan = "logicalGroup tab d cnds gs its calls lim dist"
  note d = aliasedFile_descriptor [of w tab d]
  note ch = filterChain_descriptor [OF d, of tab d cnds]
  obtain i n where f: "fold_go (applyFilter w ord (c, [], [tableNode tab d])) (map condNode cnds)
      ([(tab, \<lparr>nodeOp = ?f, nodeDesc = setTableAlias d tab, nodeId = 0\<rparr>)], Suc 0) =
    Ok ([(tab, \<lparr>nodeOp = filterChain tab d cnds ?f, nodeDesc = setTableAlias d tab, nodeId = i\<rparr>)], n)"
    using applyFilters_chain [OF ok(1,2) d] by blast
  let ?node = "\<lparr>nodeOp = filterChain tab d cnds ?f, nodeDesc = setTableAlias d tab, nodeId = i\<rparr>"
  have only: "onlyNode w tab d ?node" using ch by (simp add: onlyNode_def)
  note ag = applyAggs_group [OF ok(1,3) only ord _ _ _ ch, of ?plan]
  have "opDescriptor w (AggregatorOp (groupAgg tab d gs calls) (filterChain tab d cnds ?f)) = Ok (aggDescriptor w (groupAgg tab d gs calls))" by simp
  note pr = applyProject_group [OF ok(3) this, of ord]
  obtain dd where "opDescriptor w (ProjectOp (groupProject tab d its calls dist) (AggregatorOp (groupAgg tab d gs calls) (filterChain tab d cnds ?f))) = Ok dd"
    using project_descriptor by blast
  note lm = applyLimit_over [OF ok(4) this, of ord]
  show ?thesis
    using startState [of tab d] ag pr lm
    by (simp add: logicalGroup_def planOver_def subFieldsOf_def f allJoined_def ord applyOrderBy_def groupPlan_def del: bind_go_eq_Ok opDescriptor.simps)
qed

lemma group_parses:
  assumes "tableOk c tab d" and "\<forall>cnd \<in> set cnds. condOk tab d cnd" and "groupOk c tab d gs its calls" and "\<forall>lit. lim = Some lit \<longrightarrow> litOk lit"
    and "\<And>e. ord [e] = [e]" and "sqlParse query = Ok (SqlSelectStmt (groupFrom tab cnds gs its calls lim dist))"
  shows "Parse w ord sqlParse query (c, dk) = Ok (IteratorType, groupPlan tab d cnds gs its calls lim (dist \<noteq> []), c, dk)"
  using parseStatement_group [OF assms(1-4)] makePhysicalPlan_group [where ord = ord, OF assms(1-5)] assms(6)
  by (simp add: Parse_def)

end
