(* ===== verification/GroupRuns.thy ===== *)
theory GroupRuns
  imports SelectRuns GroupPlans
begin

text \<open>
  Running queries with aggregates over one table: what each aggregate computes over the rows of a group, and the rows of the result.
\<close>

section \<open>What a query with aggregates means\<close>

text \<open>The numbers in a column, and an aggregate of them.\<close>

definition colInts :: "TupleDesc \<Rightarrow> string \<Rightarrow> DBValue list list \<Rightarrow> int64 list" where
  "colInts d col rws = map (\<lambda>row. case row ! colIndex d col of IntField n \<Rightarrow> n | _ \<Rightarrow> 0) rws"

definition aggInt :: "string \<Rightarrow> int64 list \<Rightarrow> int64" where
  "aggInt op ns =
     (if op = ''max'' then word_of_int (Max (sint ` set ns))
      else if op = ''min'' then word_of_int (Min (sint ` set ns))
      else if op = ''avg'' then word_of_int (sint (sum_list ns) sdiv int (length ns))
      else if op = ''sum'' then sum_list ns
      else of_nat (length ns))"

fun callValue :: "TupleDesc \<Rightarrow> aggCall \<Rightarrow> DBValue list list \<Rightarrow> DBValue" where
  "callValue d (AggCall op qc al) rws = IntField (aggInt op (colInts d (snd qc) rws))"
| "callValue d (CountAll al) rws = IntField (of_nat (length rws))"

text \<open>
  One row without groups; otherwise a row for each key, in the order in which they occur first: the values of the columns of the
  key, and the aggregates over the rows with that key.
\<close>

definition groupKey :: "TupleDesc \<Rightarrow> (string \<times> string) list \<Rightarrow> DBValue list \<Rightarrow> DBValue list" where
  "groupKey d gs row = map (\<lambda>g. row ! colIndex d (snd g)) gs"

definition groupRow :: "TupleDesc \<Rightarrow> (string \<times> string) list \<Rightarrow> ((string \<times> string) \<times> string) list \<Rightarrow> aggCall list \<Rightarrow>
    DBValue list list \<Rightarrow> DBValue list \<Rightarrow> DBValue list" where
  "groupRow d gs its calls rws key =
     map (\<lambda>it. key ! keyIndex gs (snd (fst it))) its @ map (\<lambda>ag. callValue d ag (filter (\<lambda>row. groupKey d gs row = key) rws)) calls"

definition groupedRows :: "TupleDesc \<Rightarrow> (string \<times> string) list \<Rightarrow> ((string \<times> string) \<times> string) list \<Rightarrow> aggCall list \<Rightarrow>
    DBValue list list \<Rightarrow> DBValue list list" where
  "groupedRows d gs its calls rws =
     (if gs = [] then [map (\<lambda>ag. callValue d ag rws) calls]
      else map (groupRow d gs its calls rws) (firstBy id [] (map (groupKey d gs) rws)))"

definition groupRows :: "(string \<Rightarrow> string \<Rightarrow> bool) \<Rightarrow> TupleDesc \<Rightarrow> condition list \<Rightarrow> (string \<times> string) list \<Rightarrow>
    ((string \<times> string) \<times> string) list \<Rightarrow> aggCall list \<Rightarrow> string option \<Rightarrow> bool \<Rightarrow> DBValue list list \<Rightarrow> DBValue list list" where
  "groupRows rx d cnds gs its calls lim dist rws =
     (let out = groupedRows d gs its calls (filter (\<lambda>row. \<forall>cnd \<in> set cnds. satisfies rx d cnd row) rws)
      in limited lim (if dist then firstBy id [] out else out))"

section \<open>The aggregates\<close>

lemma greatest_int:
  assumes "k \<in> f ` set ts" and "\<forall>i \<in> f ` set ts. sint i \<le> sint (k :: int64)"
  shows "k = word_of_int (Max (sint ` set (map f ts)))"
proof -
  have "Max (sint ` set (map f ts)) = sint k" using assms by (intro Max_eqI) auto
  then show ?thesis by simp
qed

lemma least_int:
  assumes "k \<in> f ` set ts" and "\<forall>i \<in> f ` set ts. sint (k :: int64) \<le> sint i"
  shows "k = word_of_int (Min (sint ` set (map f ts)))"
proof -
  have "Min (sint ` set (map f ts)) = sint k" using assms by (intro Min_eqI) auto
  then show ?thesis by simp
qed

lemma initAgg_aggregate:
  assumes "\<forall>t \<in> set ts. EvalExpr w e (Some t) = Ok (IntField (f t))" and "ts \<noteq> []" and "length ts < 2 ^ 63" and "isAgg op"
    and st: "initAgg op name e IntType intAggGetter = Ok st"
  shows "aggregate w ts st = Ok \<lparr>Desc = intColumn name, TFields = [IntField (aggInt op (map f ts))], Rid = None\<rparr>"
proof -
  have "op \<in> {''count'', ''sum'', ''avg'', ''min'', ''max''}" using assms(4) by (simp add: isAgg_def)
  note sums = count_sum_avg [OF assms(1-3)]
  let ?x = "\<lparr>maxAlias = [], maxExpr = e, maxMax = AnyInt 0, maxNull = False, maxGetter = nilAggGetter\<rparr>"
  let ?n = "\<lparr>minAlias = [], minExpr = e, minMin = AnyInt 0, minNull = False, minGetter = nilAggGetter\<rparr>"
  have "maxMax ?x = AnyInt 0" "minMin ?n = AnyInt 0" by simp_all
  note extremes = max_min [OF assms(1,2) this, of name]
  consider "op = ''count''" | "op = ''sum''" | "op = ''avg''" | "op = ''max''" | "op = ''min''" using \<open>op \<in> _\<close> by blast
  then show ?thesis
  proof cases
    case 4
    then have "st = AMax (Max_Init name e intAggGetter ?x)" using st by (simp add: initAgg_def)
    then show ?thesis using extremes greatest_int [of _ f ts] 4 by (auto simp: aggInt_def)
  next
    case 5
    then have "st = AMin (Min_Init name e intAggGetter ?n)" using st by (simp add: initAgg_def)
    then show ?thesis using extremes least_int [of _ f ts] 5 by (auto simp: aggInt_def)
  qed (use st sums in \<open>auto simp: initAgg_def aggInt_def\<close>)
qed

lemma callState_aggregate:
  assumes "distinct (map Fname (Fields d))" and "callOk c tab d ag" and "\<forall>t \<in> set ts. tupleOf tab d t" and "ts \<noteq> []" and "length ts < 2 ^ 63"
  shows "aggregate w ts (callState tab d k ag) =
    Ok \<lparr>Desc = \<lparr>Fields = [callField tab k ag]\<rparr>, TFields = [callValue d ag (map TFields ts)], Rid = None\<rparr>"
proof (cases ag)
  case (AggCall op qc al)
  let ?col = "snd qc" and ?f = "\<lambda>t. case TFields t ! colIndex d (snd qc) of IntField n \<Rightarrow> n | _ \<Rightarrow> 0"
  have col: "hasCol d ?col" "colType d ?col = IntType" "isAgg op" using assms(2) by (simp_all add: AggCall columnOk_def)
  have "EvalExpr w (FieldExpr (callArg tab d ag)) (Some t) = Ok (IntField (?f t))" if "t \<in> set ts" for t
  proof -
    have t: "tupleOf tab d t" using assms(3) that by blast
    then have "length (TFields t) = length (Fields d)" by (rule tupleOf_length)
    moreover obtain n where "TFields t ! colIndex d ?col = IntField n" using rowOf_value [OF _ col(1)] t col(2) by (auto simp: tupleOf_def)
    ultimately show ?thesis using column_value [OF _ _ assms(1) col(1), of t tab w tab] t by (simp add: tupleOf_def AggCall del: EvalExpr.simps)
  qed
  from initAgg_aggregate [OF ballI [OF this] assms(4,5) col(3)] callState_init(1) [OF assms(2), of k]
  show ?thesis by (simp add: AggCall callField_def intColumn_def colInts_def comp_def)
next
  case (CountAll al)
  have "callState tab d k ag = ACount \<lparr>countAlias = callName tab k ag, countExpr = FieldExpr (callArg tab d ag), countCount = 0\<rparr>"
    using callState_init(1) [OF assms(2), of k] by (simp add: CountAll initAgg_def Count_Init_def)
  then show ?thesis
    by (simp add: CountAll aggregate_def addAll_Count Count_Copy_def Count_Finalize_def Count_GetTupleDesc_def intColumn_def callField_def)
qed

section \<open>The tuples of the aggregation\<close>

lemma finalizeAll_joined:
  assumes "\<forall>x \<in> set xs. Finalize (S x) = Ok \<lparr>Desc = \<lparr>Fields = [F x]\<rparr>, TFields = [V x], Rid = None\<rparr>" and "xs \<noteq> []"
  shows "finalizeAll (Some t) (map (\<lambda>x. Some (S x)) xs) =
      Ok (Some \<lparr>Desc = \<lparr>Fields = Fields (Desc t) @ map F xs\<rparr>, TFields = TFields t @ map V xs, Rid = None\<rparr>)"
    and "finalizeAll None (map (\<lambda>x. Some (S x)) xs) = Ok (Some \<lparr>Desc = \<lparr>Fields = map F xs\<rparr>, TFields = map V xs, Rid = None\<rparr>)"
proof -
  have joined: "finalizeAll (Some t) (map (\<lambda>x. Some (S x)) xs) =
      Ok (Some \<lparr>Desc = \<lparr>Fields = Fields (Desc t) @ map F xs\<rparr>, TFields = TFields t @ map V xs, Rid = None\<rparr>)"
    if "\<forall>x \<in> set xs. Finalize (S x) = Ok \<lparr>Desc = \<lparr>Fields = [F x]\<rparr>, TFields = [V x], Rid = None\<rparr>" and "xs \<noteq> []" for t xs
    using that
  proof (induction xs arbitrary: t)
    case (Cons x xs)
    then show ?case by (cases "xs = []") (simp_all add: joinTuples_def merge_def)
  qed simp
  obtain x ys where "xs = x # ys" using assms(2) by (cases xs) auto
  with assms(1) joined [of ys "\<lparr>Desc = \<lparr>Fields = [F x]\<rparr>, TFields = [V x], Rid = None\<rparr>"]
  show "finalizeAll None (map (\<lambda>x. Some (S x)) xs) = Ok (Some \<lparr>Desc = \<lparr>Fields = map F xs\<rparr>, TFields = map V xs, Rid = None\<rparr>)"
    by (cases "ys = []") (simp_all add: joinTuples_def)
  show "finalizeAll (Some t) (map (\<lambda>x. Some (S x)) xs) =
      Ok (Some \<lparr>Desc = \<lparr>Fields = Fields (Desc t) @ map F xs\<rparr>, TFields = TFields t @ map V xs, Rid = None\<rparr>)" by (rule joined [OF assms])
qed

definition keyDesc :: "string \<Rightarrow> TupleDesc \<Rightarrow> (string \<times> string) list \<Rightarrow> TupleDesc" where
  "keyDesc tab d gs = \<lparr>Fields = map (\<lambda>g. colField d tab (snd g)) gs\<rparr>"

definition keyTuple :: "string \<Rightarrow> TupleDesc \<Rightarrow> (string \<times> string) list \<Rightarrow> DBValue list \<Rightarrow> Tuple" where
  "keyTuple tab d gs key = \<lparr>Desc = \<lparr>Fields = map (\<lambda>g. colField d tab (snd g)) gs\<rparr>, TFields = key, Rid = None\<rparr>"

definition groupOut :: "string \<Rightarrow> TupleDesc \<Rightarrow> (string \<times> string) list \<Rightarrow> aggCall list \<Rightarrow> DBValue list \<Rightarrow> DBValue list list \<Rightarrow> Tuple" where
  "groupOut tab d gs calls key rws =
     \<lparr>Desc = \<lparr>Fields = map (\<lambda>g. colField d tab (snd g)) gs @ callFields tab calls\<rparr>,
      TFields = key @ map (\<lambda>ag. callValue d ag rws) calls, Rid = None\<rparr>"

lemma enumerate_values: "map (\<lambda>(k, x). f x) (enumerate n xs) = map f xs"
  by (induction xs arbitrary: n) simp_all

lemma states_new: "newAggState (groupAgg tab d gs calls) = callStates tab d calls"
  by (simp add: groupAgg_def NewAggregator_def NewGroupedAggregator_def)

lemma finished_group:
  assumes "distinct (map Fname (Fields d))" and "\<forall>ag \<in> set calls. callOk c tab d ag" and "calls \<noteq> []"
    and "\<forall>t \<in> set us. tupleOf tab d t" and "us \<noteq> []" and "length us < 2 ^ 63"
  shows "\<forall>as \<in> set (callStates tab d calls). \<exists>r. aggregate w us as = Ok r"
    and "finished w (groupAgg tab d gs calls) (Some (keyTuple tab d gs key)) us = Ok (Some (groupOut tab d gs calls key (map TFields us)))"
    and "finished w (groupAgg tab d gs calls) None us = Ok (Some (groupOut tab d [] calls [] (map TFields us)))"
proof -
  let ?xs = "enumerate 0 calls" and ?S = "\<lambda>(k, ag). partialAgg w us (callState tab d k ag)"
  have agg: "aggregate w us (callState tab d k ag) = Ok \<lparr>Desc = \<lparr>Fields = [callField tab k ag]\<rparr>, TFields = [callValue d ag (map TFields us)], Rid = None\<rparr>"
    if "ag \<in> set calls" for k ag using callState_aggregate [OF assms(1) _ assms(4-6)] assms(2) that by blast
  then show "\<forall>as \<in> set (callStates tab d calls). \<exists>r. aggregate w us as = Ok r"
    by (fastforce simp: callStates_def in_set_enumerate_eq)
  have fin: "\<forall>x \<in> set ?xs. Finalize (?S x) = Ok \<lparr>Desc = \<lparr>Fields = [(\<lambda>(k, ag). callField tab k ag) x]\<rparr>,
      TFields = [(\<lambda>(k, ag). callValue d ag (map TFields us)) x], Rid = None\<rparr>"
    using partialAgg_done [OF agg] by (auto simp: in_set_enumerate_eq)
  have ne: "?xs \<noteq> []" using assms(3) by (cases calls) simp_all
  have st: "map (\<lambda>as. Some (partialAgg w us as)) (callStates tab d calls) = map (\<lambda>x. Some (?S x)) ?xs"
    by (simp add: callStates_def split_def)
  show "finished w (groupAgg tab d gs calls) (Some (keyTuple tab d gs key)) us = Ok (Some (groupOut tab d gs calls key (map TFields us)))"
    using finalizeAll_joined(1) [OF fin ne, of "keyTuple tab d gs key"]
    by (simp add: finished_def states_new st enumerate_values groupOut_def keyTuple_def callFields_def)
  show "finished w (groupAgg tab d gs calls) None us = Ok (Some (groupOut tab d [] calls [] (map TFields us)))"
    using finalizeAll_joined(2) [OF fin ne]
    by (simp add: finished_def states_new st enumerate_values groupOut_def callFields_def)
qed

section \<open>The rows of the aggregation\<close>

lemma group_extracted:
  assumes "distinct (map Fname (Fields d))" and "\<forall>g \<in> set gs. columnOk tab d g" and "tupleOf tab d t"
  shows "extractGroupByKeyTuple w (groupAgg tab d gs calls) t = Ok (keyTuple tab d gs (groupKey d gs (TFields t)))"
proof -
  have "EvalExpr w (FieldExpr (colField d tab (snd g))) (Some t) = Ok (TFields t ! colIndex d (snd g))" if "g \<in> set gs" for g
    using column_value [OF _ tupleOf_length [OF assms(3)] assms(1)] assms(2,3) that by (simp add: tupleOf_def columnOk_def del: EvalExpr.simps)
  then have "map_go (\<lambda>e. EvalExpr w e (Some t)) (groupExprs (groupAgg tab d gs calls)) = Ok (groupKey d gs (TFields t))"
    by (simp add: group_exprs map_go_Ok_iff list_all2_conv_all_nth groupKey_def del: EvalExpr.simps)
  then show ?thesis by (simp add: extractGroupByKeyTuple_def keyTuple_def group_exprs comp_def)
qed

lemma firstBy_made:
  "inj_on (\<lambda>x. key (k x)) (set seen \<union> set xs) \<Longrightarrow> firstBy key (map (\<lambda>x. key (k x)) seen) (map k xs) = map k (firstBy id seen xs)"
proof (induction xs arbitrary: seen)
  case (Cons x xs)
  have "key (k x) \<in> (\<lambda>x. key (k x)) ` set seen \<longleftrightarrow> x \<in> set seen" by (rule inj_on_image_mem_iff [OF Cons.prems]) auto
  moreover have "inj_on (\<lambda>x. key (k x)) (set seen \<union> set xs)" by (rule inj_on_subset [OF Cons.prems]) auto
  moreover have "inj_on (\<lambda>x. key (k x)) (set (x # seen) \<union> set xs)" using Cons.prems by simp
  ultimately show ?case using Cons.IH [of seen] Cons.IH [of "x # seen"] by simp
qed simp

lemma tellsApart_key: "tellsApart key (keyDesc tab d gs) ks \<longleftrightarrow> inj_on (\<lambda>k. key (keyTuple tab d gs k)) ks"
  by (simp add: tellsApart_def keyDesc_def keyTuple_def rowTuple_def)

lemma agg_rows:
  assumes "distinct (map Fname (Fields d))" and "\<forall>ag \<in> set calls. callOk c tab d ag" and "calls \<noteq> []" and "\<forall>g \<in> set gs. columnOk tab d g"
    and key: "tellsApart key (keyDesc tab d gs) (set (map (groupKey d gs) (map TFields ts)))" and ts: "\<forall>t \<in> set ts. tupleOf tab d t" "gs = [] \<longrightarrow> ts \<noteq> []" "length ts < 2 ^ 63"
  shows "aggReady w key (groupAgg tab d gs calls) ts"
    and "aggRows w key (groupAgg tab d gs calls) ts =
      (if gs = [] then [groupOut tab d gs calls [] (map TFields ts)]
       else map (\<lambda>k. groupOut tab d gs calls k (filter (\<lambda>row. groupKey d gs row = k) (map TFields ts))) (firstBy id [] (map (groupKey d gs) (map TFields ts))))"
proof -
  let ?a = "groupAgg tab d gs calls" and ?k = "\<lambda>t. groupKey d gs (TFields t)"
  have none: "groupByFields ?a = None \<longleftrightarrow> gs = []" by (simp add: groupAgg_def NewAggregator_def NewGroupedAggregator_def)
  have states: "callStates tab d calls \<noteq> []" using assms(3) by (cases calls) (simp_all add: callStates_def)
  have grp: "groupTuple w ?a t = keyTuple tab d gs (?k t)" "extractGroupByKeyTuple w ?a t = Ok (keyTuple tab d gs (?k t))" if "t \<in> set ts" for t
    using group_extracted [OF assms(1,4), of t w calls] ts(1) that by (simp_all add: groupTuple_def)
  have inj: "inj_on (\<lambda>k. key (keyTuple tab d gs k)) (set (map ?k ts))" using key by (simp add: tellsApart_key image_image)
  have of: "groupOf key (groupTuple w ?a) (key (keyTuple tab d gs k)) ts = filter (\<lambda>t. ?k t = k) ts" if "k \<in> set (map ?k ts)" for k
    unfolding groupOf_def using grp(1) that inj_on_eq_iff [OF inj _ that] by (intro filter_cong) auto
  have sub: "\<forall>t \<in> set (filter P ts). tupleOf tab d t" "length (filter P ts) < 2 ^ 63" for P
    using ts(1) le_less_trans [OF length_filter_le ts(3)] by auto
  note fin = finished_group [OF assms(1-3)]
  have ready: "\<forall>as \<in> set (callStates tab d calls). \<exists>r. aggregate w (filter (\<lambda>u. ?k u = ?k t) ts) as = Ok r" if "t \<in> set ts" for t
    using that by (intro fin(1) sub) (auto simp: filter_empty_conv)
  show "aggReady w key ?a ts"
    using ready grp of states fin(1) [OF ts(1) _ ts(3)] ts(2) by (auto simp: aggReady_def none states_new)
  show "aggRows w key ?a ts = (if gs = [] then [groupOut tab d gs calls [] (map TFields ts)]
       else map (\<lambda>k. groupOut tab d gs calls k (filter (\<lambda>row. groupKey d gs row = k) (map TFields ts))) (firstBy id [] (map (groupKey d gs) (map TFields ts))))"
  proof (cases "gs = []")
    case True
    then have n: "groupByFields ?a = None" and ne: "ts \<noteq> []" using none ts(2) by simp_all
    show ?thesis unfolding aggRows_def if_P [OF n] fin(3) [OF ts(1) ne ts(3)] by (simp add: True)
  next
    case False
    have keys: "map (groupTuple w ?a) ts = map (keyTuple tab d gs) (map ?k ts)" using grp(1) by simp
    have groups: "firstBy key [] (map (keyTuple tab d gs) (map ?k ts)) = map (keyTuple tab d gs) (firstBy id [] (map ?k ts))"
      using firstBy_made [of key "keyTuple tab d gs" "[]" "map ?k ts"] inj by (simp del: map_map)
    have "finished w ?a (Some (keyTuple tab d gs k)) (filter (\<lambda>t. ?k t = k) ts) =
        Ok (Some (groupOut tab d gs calls k (filter (\<lambda>row. groupKey d gs row = k) (map TFields ts))))" if "k \<in> set (firstBy id [] (map ?k ts))" for k
    proof -
      have "k \<in> ?k ` set ts" using that firstBy_subset [of id "[]" "map ?k ts"] by auto
      then have "filter (\<lambda>t. ?k t = k) ts \<noteq> []" by (auto simp: filter_empty_conv)
      from fin(2) [OF sub(1) this sub(2)] show ?thesis by (simp add: filter_map comp_def)
    qed
    moreover have "k \<in> set (map ?k ts)" if "k \<in> set (firstBy id [] (map ?k ts))" for k
      using that firstBy_subset [of id "[]" "map ?k ts"] by auto
    moreover have "map (groupKey d gs) (map TFields ts) = map ?k ts" by simp
    ultimately show ?thesis using False of unfolding aggRows_def keys groups by (simp add: none del: map_map) (simp add: comp_def)
  qed
qed

section \<open>Running the plan\<close>

text \<open>The columns of the results.\<close>

definition groupDesc :: "string \<Rightarrow> TupleDesc \<Rightarrow> ((string \<times> string) \<times> string) list \<Rightarrow> aggCall list \<Rightarrow> TupleDesc" where
  "groupDesc tab d its calls = \<lparr>Fields = map (\<lambda>it. (colField d tab (snd (fst it)))\<lparr>Fname := itemName it\<rparr>) its @
     map (\<lambda>(k, ag). (callField tab k ag)\<lparr>Fname := callTitle ag\<rparr>) (enumerate 0 calls)\<rparr>"

lemma group_descriptor: "projectDescriptor w (groupProject tab d its calls dist) = Ok (groupDesc tab d its calls)"
proof -
  have "map callTitle calls = map (\<lambda>(k, ag). callTitle ag) (enumerate 0 calls)" by (rule enumerate_values [symmetric])
  then have "map (\<lambda>(e, name). (GetExprType w e)\<lparr>Fname := name\<rparr>) (zip (map FieldExpr (callFields tab calls)) (map callTitle calls)) =
      map (\<lambda>(k, ag). (callField tab k ag)\<lparr>Fname := callTitle ag\<rparr>) (enumerate 0 calls)"
    using named_fields [of w "\<lambda>(k, ag). callField tab k ag" "enumerate 0 calls" "\<lambda>(k, ag). callTitle ag"]
    by (simp add: callFields_def split_def comp_def)
  then show ?thesis
    by (simp add: projectDescriptor_def groupProject_def groupDesc_def named_fields callFields_def)
qed

text \<open>What the projection makes of a row of the aggregation.\<close>

definition outRow :: "(string \<times> string) list \<Rightarrow> ((string \<times> string) \<times> string) list \<Rightarrow> DBValue list \<Rightarrow> DBValue list" where
  "outRow gs its row = map (\<lambda>it. row ! keyIndex gs (snd (fst it))) its @ drop (length gs) row"

lemma out_value:
  assumes "distinct (map snd gs @ map Fname (callFields tab calls))" and "length key = length gs" and "i < length gs + length calls"
    and "f = (map (\<lambda>g. colField d tab (snd g)) gs @ callFields tab calls) ! i"
  shows "evalOrNil w (FieldExpr f) (Some (groupOut tab d gs calls key rws)) = Ok ((key @ map (\<lambda>ag. callValue d ag rws) calls) ! i)"
proof -
  let ?t = "groupOut tab d gs calls key rws"
  have n: "length (Fields (Desc ?t)) = length gs + length calls" "length (TFields ?t) = length gs + length calls"
    using assms(2) by (simp_all add: groupOut_def callFields_def)
  have "map Fname (Fields (Desc ?t)) = map snd gs @ map Fname (callFields tab calls)" by (simp add: groupOut_def colField_def comp_def)
  then have "distinct (map Fname (Fields (Desc ?t)))" using assms(1) by simp
  from findFieldInTd_distinct [OF this, of i f] have "findFieldInTd f (Desc ?t) = (int i, None)"
    using assms(3,4) n(1) by (simp add: groupOut_def fieldMatches_def)
  from field_value [OF this] n assms(3) show ?thesis by (simp add: evalOrNil_def groupOut_def del: EvalExpr.simps)
qed

lemma groupProject_tuple:
  assumes ok: "groupOk c tab d gs its calls" and key: "length key = length gs"
  shows "projectTuple w (groupProject tab d its calls dist) (groupOut tab d gs calls key rws) =
    Ok (rowTuple (groupDesc tab d its calls) (map (\<lambda>it. key ! keyIndex gs (snd (fst it))) its @ map (\<lambda>ag. callValue d ag rws) calls))"
proof -
  let ?p = "groupProject tab d its calls dist"
  have dist: "distinct (map snd gs @ map Fname (callFields tab calls))" using ok by (simp add: groupOk_def)
  have "map_go (\<lambda>e. evalOrNil w e (Some (groupOut tab d gs calls key rws))) (selectFields ?p) =
      Ok (map (\<lambda>it. key ! keyIndex gs (snd (fst it))) its @ map (\<lambda>ag. callValue d ag rws) calls)"
  proof -
    note val = out_value [OF dist key, of _ _ d w rws]
    have "evalOrNil w (FieldExpr (colField d tab (snd (fst it)))) (Some (groupOut tab d gs calls key rws)) = Ok (key ! keyIndex gs (snd (fst it)))" if "it \<in> set its" for it
    proof -
      have "snd (fst it) \<in> snd ` set gs" using ok that by (simp add: groupOk_def)
      from keyIndex_nth [OF this] key show ?thesis by (subst val [of "keyIndex gs (snd (fst it))"]) (simp_all add: nth_append)
    qed
    moreover have "evalOrNil w (FieldExpr (callFields tab calls ! k)) (Some (groupOut tab d gs calls key rws)) = Ok (callValue d (calls ! k) rws)" if "k < length calls" for k
      using that key by (subst val [of "length gs + k"]) (simp_all add: nth_append)
    ultimately show ?thesis unfolding groupProject_def Project.select_convs
      by (intro map_go_append) (auto simp: map_go_Ok_iff list_all2_conv_all_nth callFields_def)
  qed
  then show ?thesis by (simp add: projectTuple_def group_descriptor rowTuple_def)
qed

lemma out_row:
  assumes "groupOk c tab d gs its calls" and "length key = length gs"
  shows "outRow gs its (TFields (groupOut tab d gs calls key rws)) = map (\<lambda>it. key ! keyIndex gs (snd (fst it))) its @ map (\<lambda>ag. callValue d ag rws) calls"
  using assms keyIndex_nth [of _ gs] by (auto simp: outRow_def groupOut_def groupOk_def nth_append)

lemma map_compose_cong: "(\<And>x. x \<in> set xs \<Longrightarrow> f (g x) = h x) \<Longrightarrow> map f (map g xs) = map h xs"
  by simp

lemma group_rows:
  assumes ok: "tableOk c tab d" "groupOk c tab d gs its calls" and key: "tellsApart (rtKey rt) (keyDesc tab d gs) (set (map (groupKey d gs) (map TFields (opRows rt scan op))))"
    and dist: "dist \<longrightarrow> tellsApart (rtKey rt) (groupDesc tab d its calls) (set (groupedRows d gs its calls (map TFields (opRows rt scan op))))"
    and ready: "opReady rt scan known op"
    and ts: "\<forall>t \<in> set (opRows rt scan op). tupleOf tab d t" "gs = [] \<longrightarrow> opRows rt scan op \<noteq> []" "length (opRows rt scan op) < 2 ^ 63"
  shows "opReady rt scan known (ProjectOp (groupProject tab d its calls dist) (AggregatorOp (groupAgg tab d gs calls) op)) \<and>
    map TFields (opRows rt scan (ProjectOp (groupProject tab d its calls dist) (AggregatorOp (groupAgg tab d gs calls) op))) =
      (let out = groupedRows d gs its calls (map TFields (opRows rt scan op)) in if dist then firstBy id [] out else out)"
proof -
  let ?op = "AggregatorOp (groupAgg tab d gs calls) op" and ?rws = "map TFields (opRows rt scan op)"
  have d: "distinct (map Fname (Fields d))" using ok(1) by (simp add: tableOk_def)
  have g: "\<forall>ag \<in> set calls. callOk c tab d ag" "calls \<noteq> []" "\<forall>g \<in> set gs. columnOk tab d g" using ok(2) by (simp_all add: groupOk_def)
  note agg = agg_rows [OF d g key ts, where w = "rtWorld rt"]
  have len: "length k = length gs" if "k \<in> set (firstBy id [] (map (groupKey d gs) ?rws))" for k
    using that firstBy_subset [of id "[]" "map (groupKey d gs) ?rws"] by (auto simp: groupKey_def)
  have r: "opReady rt scan known ?op" using ready agg(1) by simp
  have desc: "projectTuple (rtWorld rt) (groupProject tab d its calls dist) (groupOut tab d gs calls key rws) =
    Ok (rowTuple (groupDesc tab d its calls) (outRow gs its (TFields (groupOut tab d gs calls key rws))))" if "length key = length gs" for key rws
    using groupProject_tuple [OF ok(2) that] out_row [OF ok(2) that] by simp
  have out: "\<exists>key rws. t = groupOut tab d gs calls key rws \<and> length key = length gs" if "t \<in> set (opRows rt scan ?op)" for t
    using that len by (auto simp: agg(2) split: if_splits)
  have pr: "\<forall>t \<in> set (opRows rt scan ?op). projectTuple (rtWorld rt) (groupProject tab d its calls dist) t =
      Ok (rowTuple (groupDesc tab d its calls) (outRow gs its (TFields t)))"
    using out desc by blast
  have rws: "map (\<lambda>t. outRow gs its (TFields t)) (opRows rt scan ?op) = groupedRows d gs its calls ?rws"
  proof (cases "gs = []")
    case True
    then have "it \<notin> set its" for it using ok(2) unfolding groupOk_def by (metis empty_iff image_empty list.set(1))
    then have "its = []" by (metis list.set_intros(1) neq_Nil_conv)
    with True show ?thesis using agg(2) out_row [OF ok(2), of "[]"] by (simp add: groupedRows_def)
  next
    case False
    let ?ks = "firstBy id [] (map (groupKey d gs) ?rws)" and ?g = "\<lambda>k. groupOut tab d gs calls k (filter (\<lambda>row. groupKey d gs row = k) ?rws)"
    have "outRow gs its (TFields (?g k)) = groupRow d gs its calls ?rws k" if "k \<in> set ?ks" for k
      using out_row [OF ok(2) len [OF that]] by (simp add: groupRow_def)
    then have "map (\<lambda>t. outRow gs its (TFields t)) (map ?g ?ks) = map (groupRow d gs its calls ?rws) ?ks" by (rule map_compose_cong)
    then show ?thesis using False agg(2) by (simp add: groupedRows_def del: map_map)
  qed
  have "isDistinct (groupProject tab d its calls dist) \<longrightarrow>
      tellsApart (rtKey rt) (groupDesc tab d its calls) ((\<lambda>t. outRow gs its (TFields t)) ` set (opRows rt scan ?op))"
    using dist by (simp add: groupProject_def flip: rws) 
  from project_denotes [OF this r pr] rws show ?thesis by (simp add: groupProject_def Let_def)
qed

lemma group_runs:
  assumes "tableOk c tab d" and "\<forall>cnd \<in> set cnds. condOk tab d cnd" and "groupOk c tab d gs its calls" and "\<forall>lit. lim = Some lit \<longrightarrow> litType lit = IntType"
    and "files (tableNameToFile tab) = aliasedFile tab d" and "sharing files (rtTid rt) db" and "clean db" and "tellsApart (rtKey rt) (keyDesc tab d gs) (set (map (groupKey d gs) (filter (\<lambda>row. \<forall>cnd \<in> set cnds. satisfies (rtRegexp rt) d cnd row) (table_rows files db (aliasedFile tab d)))))"
    and "dist \<longrightarrow> tellsApart (rtKey rt) (groupDesc tab d its calls) (set (groupedRows d gs its calls (filter (\<lambda>row. \<forall>cnd \<in> set cnds. satisfies (rtRegexp rt) d cnd row) (table_rows files db (aliasedFile tab d)))))"
    and "gs = [] \<longrightarrow> (\<exists>row \<in> set (table_rows files db (aliasedFile tab d)). \<forall>cnd \<in> set cnds. satisfies (rtRegexp rt) d cnd row)"
    and "length (table_rows files db (aliasedFile tab d)) < 2 ^ 63"
  shows "\<exists>s db1 ts db2 s'. opOpen rt (groupPlan tab d cnds gs its calls lim dist) db = Some (Ok (Some s), db1) \<and>
    yields (opNext rt (groupPlan tab d cnds gs its calls lim dist)) (db1, s) ts (db2, s') \<and> viewOf files db2 = viewOf files db \<and>
    map TFields ts = groupRows (rtRegexp rt) d cnds gs its calls lim dist (table_rows files db (aliasedFile tab d))"
proof -
  let ?scan = "\<lambda>f. scanTuples f (viewOf files db)" and ?known = "\<lambda>f. files (fromFile f) = f" and ?f = "aliasedFile tab d"
  let ?where = "filterChain tab d cnds (FileOp ?f)" and ?plan = "groupPlan tab d cnds gs its calls lim dist"
  note wh = where_rows [OF assms(1,2,5-7)]
  have "gs = [] \<longrightarrow> map TFields (opRows rt ?scan ?where) \<noteq> []"
    unfolding wh(3) using assms(10) by (auto simp: filter_empty_conv)
  then have ne: "gs = [] \<longrightarrow> opRows rt ?scan ?where \<noteq> []" by simp
  have "length (map TFields (opRows rt ?scan ?where)) < 2 ^ 63"
    unfolding wh(3) by (rule le_less_trans [OF length_filter_le assms(11)])
  then have "length (opRows rt ?scan ?where) < 2 ^ 63" by simp
  note grp = group_rows [OF assms(1,3) _ _ wh(1,2) ne this, where dist = dist, unfolded wh(3), OF assms(8,9)]
  note lim = limit_rows [OF assms(4) conjunct1 [OF grp]]
  have "map TFields (opRows rt ?scan ?plan) = groupRows (rtRegexp rt) d cnds gs its calls lim dist (table_rows files db ?f)"
    using lim grp wh(3) by (simp add: groupPlan_def groupRows_def map_limited Let_def)
  moreover have "opReady rt ?scan ?known ?plan" using lim by (simp add: groupPlan_def)
  note runs_yields [OF tree_runs [OF this], of db]
  ultimately show ?thesis using assms(6) by metis
qed

text \<open>
  C12: a query with aggregates over one table, from its text to its rows. A query whose select list has columns of its GROUP BY clause
  and then \<^verbatim>\<open>COUNT\<close>, \<^verbatim>\<open>SUM\<close>, \<^verbatim>\<open>AVG\<close>, \<^verbatim>\<open>MIN\<close> or \<^verbatim>\<open>MAX\<close> of integer columns, or \<^verbatim>\<open>COUNT(*)\<close>, parses, its plan opens, and the
  closure returns a row for each combination of values of the grouping columns among the rows that satisfy the conditions, in the order
  in which they occur first: the values, and the aggregates over exactly the rows that have them. Without GROUP BY it returns one
  row for all of them; then at least one row must satisfy the conditions, since \<^verbatim>\<open>AVG\<close> of none panics. The sum wraps around at 64
  bits, the average is the wrapped sum divided by the number, truncated. As in \<open>select_executes\<close>, no other transaction is in the way, the pool has
  room, and its pages are as reading them from disk under the name of the table gives them; the hash tells the keys of the groups
  apart, and under DISTINCT the rows of the result.
\<close>

theorem group_executes:
  assumes "tableOk c tab d" and "\<forall>cnd \<in> set cnds. condOk tab d cnd" and "groupOk c tab d gs its calls" and "\<forall>lit. lim = Some lit \<longrightarrow> litType lit = IntType"
    and "\<And>e. ord [e] = [e]" and "sqlParse query = Ok (SqlSelectStmt (groupFrom tab cnds gs its calls lim dist))"
    and "files (tableNameToFile tab) = aliasedFile tab d" and "scan_ready files (rtTid rt) db" and "asRead files db"
    and "tellsApart (rtKey rt) (keyDesc tab d gs) (set (map (groupKey d gs) (filter (\<lambda>row. \<forall>cnd \<in> set cnds. satisfies (rtRegexp rt) d cnd row) (table_rows files db (aliasedFile tab d)))))"
    and "dist \<noteq> [] \<longrightarrow> tellsApart (rtKey rt) (groupDesc tab d its calls) (set (groupedRows d gs its calls (filter (\<lambda>row. \<forall>cnd \<in> set cnds. satisfies (rtRegexp rt) d cnd row) (table_rows files db (aliasedFile tab d)))))"
    and "gs = [] \<longrightarrow> (\<exists>row \<in> set (table_rows files db (aliasedFile tab d)). \<forall>cnd \<in> set cnds. satisfies (rtRegexp rt) d cnd row)"
    and "length (table_rows files db (aliasedFile tab d)) < 2 ^ 63"
  shows "\<exists>plan s db1 ts db2 s'. Parse w ord sqlParse query (c, dk) = Ok (IteratorType, plan, c, dk) \<and>
    opOpen rt plan db = Some (Ok (Some s), db1) \<and> yields (opNext rt plan) (db1, s) ts (db2, s') \<and> viewOf files db2 = viewOf files db \<and>
    map TFields ts = groupRows (rtRegexp rt) d cnds gs its calls lim (dist \<noteq> []) (table_rows files db (aliasedFile tab d))"
proof -
  have "\<forall>lit. lim = Some lit \<longrightarrow> litOk lit" using assms(4) by (simp add: litOk_def)
  from group_parses [OF assms(1-3) this] have "Parse w ord sqlParse query (c, dk) = Ok (IteratorType, groupPlan tab d cnds gs its calls lim (dist \<noteq> []), c, dk)"
    using assms(5,6) by blast
  with group_runs [OF assms(1-4,7) asRead_sharing [OF assms(8,9)] assms(10-13)] show ?thesis by blast
qed

section \<open>Running a query with aggregates on an example\<close>

definition exCalls :: "aggCall list" where
  "exCalls = [CountAll [], AggCall ''sum'' (''t'', ''a'') ''S'', AggCall ''avg'' ([], ''a'') [], AggCall ''max'' ([], ''a'') [], AggCall ''min'' ([], ''a'') []]"

lemma exCalls_ok: "groupOk exCat1 ''t'' exColumns [([], ''a'')] [(([], ''a''), ''K'')] exCalls"
proof -
  have "columnMap exCat1 ''*'' = []" by code_simp
  moreover have "Fields exColumns \<noteq> []" by (simp add: exColumns_def)
  moreover have "distinct (map snd [([] :: string, ''a'')] @ map Fname (callFields ''t'' exCalls))" by code_simp
  moreover have "isAgg ''sum''" "isAgg ''avg''" "isAgg ''max''" "isAgg ''min''" by code_simp+
  ultimately show ?thesis by (simp add: groupOk_def columnOk_def exFile_col exCalls_def)
qed

theorem group_executes_witness:
  "\<exists>plan s db1 ts db2 s'. Parse exWorld id (\<lambda>_. Ok (SqlSelectStmt (groupFrom ''t'' [exLess] [([], ''a'')] [(([], ''a''), ''K'')] exCalls None []))) [] (exCat1, \<lambda>_. []) =
      Ok (IteratorType, plan, exCat1, \<lambda>_. []) \<and>
    opOpen (exRuntime 2) plan exDB3 = Some (Ok (Some s), db1) \<and> yields (opNext (exRuntime 2) plan) (db1, s) ts (db2, s') \<and>
    map TFields ts = [[IntField 5, IntField 1, IntField 5, IntField 5, IntField 5, IntField 5]]"
proof -
  have key: "tellsApart (rtKey (exRuntime 2)) dd rws" "[] \<noteq> ([] :: string) \<longrightarrow> P" for dd rws P by (simp_all add: tellsApart_def exRuntime_def)
  have f: "exFiles (tableNameToFile ''t'') = aliasedFile ''t'' exColumns" using exCat1_ok by simp
  have rws: "groupRows (rtRegexp (exRuntime 2)) exColumns [exLess] [([], ''a'')] [(([], ''a''), ''K'')] exCalls None False [[IntField 5]] =
      [[IntField 5, IntField 1, IntField 5, IntField 5, IntField 5, IntField 5]]"
    by (simp add: groupRows_def exLess_ok groupedRows_def groupRow_def groupKey_def keyIndex_def exFile_col exCalls_def aggInt_def colInts_def)
  from group_executes [where cnds = "[exLess]" and ord = id and lim = None and dist = "[]" and w = exWorld and dk = "\<lambda>_. []" and query = "[]" and
      sqlParse = "\<lambda>_. Ok (SqlSelectStmt (groupFrom ''t'' [exLess] [([], ''a'')] [(([], ''a''), ''K'')] exCalls None []))",
      OF exCat1_ok(1) _ exCalls_ok _ _ _ f exDB3_ready key]
  show ?thesis using exLess_ok(1) exDB3_ok(5) rws by (simp add: exCat1_ok(2)) metis
qed

end
